(* ===== verification/Prelude.thy ===== *)
theory Prelude
  imports Complex_Main "HOL-Library.AList"
begin

section \<open>Prelude: the JavaScript values and containers the engine is written with\<close>

text \<open>
  What every component of the development shares:
  \<^item> exceptions as the left side of a sum (\<open>'a result\<close>) and their sequencing;
  \<^item> the three states of an array slot or an object property (\<open>undefined\<close>, \<open>null\<close>, a value);
  \<^item> \<^verbatim>\<open>Map\<close> and \<^verbatim>\<open>Set\<close>, which iterate in insertion order, as association lists and lists;
  \<^item> plain objects used as dictionaries, which enumerate array-index keys first, in ascending
    order, and the other keys in insertion order;
  \<^item> arrays written past their end, which grow and leave holes;
  \<^item> decimal rendering of numbers, for the string keys the code builds with templates.
  The interface \<open>keyed_store\<close> states what the code relies on when it uses a \<^verbatim>\<open>Map\<close> or an object as a
  dictionary; both containers are interpreted against it.
\<close>

named_theorems result_simps "rewriting of results and their sequencing"
named_theorems store_simps "lookups in maps and objects after updates"

subsection \<open>Exceptions\<close>

datatype js_error =
    AssertionError string
  | TypeError string
  | UserError string
  | UnexpectedError string
  | OperationalError string
  | RangeError string

type_synonym 'a result = "js_error + 'a"

definition bind_result :: "'a result \<Rightarrow> ('a \<Rightarrow> 'b result) \<Rightarrow> 'b result" where
  "bind_result m f = (case m of Inl e \<Rightarrow> Inl e | Inr x \<Rightarrow> f x)"

lemma bind_result_Inl [simp, result_simps]: "bind_result (Inl e) f = Inl e"
  by (simp add: bind_result_def)

lemma bind_result_Inr [simp, result_simps]: "bind_result (Inr x) f = f x"
  by (simp add: bind_result_def)

lemma bind_result_cong [fundef_cong]:
  "m = m' \<Longrightarrow> (\<And>x. m' = Inr x \<Longrightarrow> f x = f' x) \<Longrightarrow> bind_result m f = bind_result m' f'"
  by (cases m') (auto simp: bind_result_def)

lemma bind_result_eq_Inr [result_simps]:
  "bind_result m f = Inr y \<longleftrightarrow> (\<exists>x. m = Inr x \<and> f x = Inr y)"
  by (cases m) auto

lemma bind_result_eq_Inl:
  "bind_result m f = Inl e \<longleftrightarrow> m = Inl e \<or> (\<exists>x. m = Inr x \<and> f x = Inl e)"
  by (cases m) auto

lemma bind_result_assoc:
  "bind_result (bind_result m f) h = bind_result m (\<lambda>x. bind_result (f x) h)"
  by (cases m) auto

text \<open>A \<^verbatim>\<open>for ... of\<close> loop whose body may throw: the state is threaded until the first error.\<close>

fun fold_result :: "('a \<Rightarrow> 's \<Rightarrow> 's result) \<Rightarrow> 'a list \<Rightarrow> 's \<Rightarrow> 's result" where
  "fold_result f [] s = Inr s"
| "fold_result f (x # xs) s = bind_result (f x s) (fold_result f xs)"

lemma fold_result_append:
  "fold_result f (xs @ ys) s = bind_result (fold_result f xs s) (fold_result f ys)"
  by (induction xs arbitrary: s) (auto simp: bind_result_def split: sum.splits)

lemma fold_result_inv:
  assumes "fold_result f xs s = Inr s'" and "P s"
    and "\<And>x t t'. x \<in> set xs \<Longrightarrow> P t \<Longrightarrow> f x t = Inr t' \<Longrightarrow> P t'"
  shows "P s'"
  using assms by (induction xs arbitrary: s) (auto simp: bind_result_eq_Inr)

lemma fold_result_total:
  assumes "P s" and "\<And>x t. x \<in> set xs \<Longrightarrow> P t \<Longrightarrow> \<exists>t'. f x t = Inr t' \<and> P t'"
  shows "\<exists>s'. fold_result f xs s = Inr s' \<and> P s'"
  using assms
proof (induction xs arbitrary: s)
  case Nil
  then show ?case by simp
next
  case (Cons x xs)
  then obtain t where t: "f x s = Inr t" "P t" by (meson list.set_intros(1))
  then have "\<exists>s'. fold_result f xs t = Inr s' \<and> P s'"
    using Cons by (meson list.set_intros(2))
  with t show ?case by simp
qed

lemma fold_result_cong [fundef_cong]:
  "xs = ys \<Longrightarrow> s = t \<Longrightarrow> (\<And>x u. x \<in> set ys \<Longrightarrow> f x u = g x u) \<Longrightarrow>
    fold_result f xs s = fold_result g ys t"
  by (induction xs arbitrary: ys s t) (auto intro!: bind_result_cong)

text \<open>A loop that cannot throw keeps what its body keeps.\<close>

lemma foldl_keeps: "P s \<Longrightarrow> (\<And>s x. P s \<Longrightarrow> P (f s x)) \<Longrightarrow> P (foldl f s xs)"
  by (induction xs arbitrary: s) auto

text \<open>\<^verbatim>\<open>assert.ok(cond, message)\<close>\<close>

definition assert_ok :: "bool \<Rightarrow> string \<Rightarrow> unit result" where
  "assert_ok b msg = (if b then Inr () else Inl (AssertionError msg))"

lemma assert_ok_simps [simp, result_simps]:
  "assert_ok True msg = Inr ()" "assert_ok False msg = Inl (AssertionError msg)"
  by (simp_all add: assert_ok_def)

lemma assert_ok_eq_Inr [result_simps]: "assert_ok b msg = Inr u \<longleftrightarrow> b"
  by (simp add: assert_ok_def)

subsection \<open>Slots: undefined, null, or a value\<close>

datatype 'a slot = Undefined | Null | Val 'a

fun slot_list :: "'a list slot \<Rightarrow> 'a list" where
  \<comment> \<open>\<^verbatim>\<open>xs ?? []\<close>\<close>
  "slot_list (Val xs) = xs"
| "slot_list Null = []"
| "slot_list Undefined = []"

fun slot_option :: "'a slot \<Rightarrow> 'a option" where
  "slot_option (Val x) = Some x"
| "slot_option Null = None"
| "slot_option Undefined = None"

subsection \<open>Arrays\<close>

definition arr_get :: "'a slot list \<Rightarrow> nat \<Rightarrow> 'a slot" where
  "arr_get xs i = (if i < length xs then xs ! i else Undefined)"

lemma arr_get_Nil [simp]: "arr_get [] i = Undefined"
  by (simp add: arr_get_def)

text \<open>\<^verbatim>\<open>xs[i] = v\<close>: inside the array it replaces; past the end it grows, leaving holes.\<close>

definition arr_set :: "'a slot list \<Rightarrow> nat \<Rightarrow> 'a slot \<Rightarrow> 'a slot list" where
  "arr_set xs i v =
     (if i < length xs then xs[i := v] else xs @ replicate (i - length xs) Undefined @ [v])"

lemma length_arr_set [simp]: "length (arr_set xs i v) = max (length xs) (Suc i)"
  by (auto simp: arr_set_def)

lemma arr_get_set [simp]: "arr_get (arr_set xs i v) j = (if j = i then v else arr_get xs j)"
  by (auto simp: arr_set_def arr_get_def nth_append nth_list_update nth_Cons')

definition or_empty :: "'a list option \<Rightarrow> 'a list" where
  \<comment> \<open>\<^verbatim>\<open>x ?? {}\<close> and \<^verbatim>\<open>x ?? []\<close>\<close>
  "or_empty x = (case x of None \<Rightarrow> [] | Some y \<Rightarrow> y)"

lemma or_empty_simps [simp]: "or_empty None = []" "or_empty (Some x) = x"
  by (simp_all add: or_empty_def)

text \<open>\<^verbatim>\<open>xs.at(i)\<close>: a negative index counts from the end.\<close>

definition arr_at :: "'a list \<Rightarrow> int \<Rightarrow> 'a option" where
  "arr_at xs i =
     (let n = int (length xs); j = (if i < 0 then n + i else i)
      in if 0 \<le> j \<and> j < n then Some (xs ! nat j) else None)"

lemma arr_at_nat [simp]: "i < length xs \<Longrightarrow> arr_at xs (int i) = Some (xs ! i)"
  by (simp add: arr_at_def)

lemma arr_at_minus_one: "arr_at xs (-1) = (if xs = [] then None else Some (last xs))"
  by (cases xs rule: rev_cases) (auto simp: arr_at_def nat_diff_distrib nth_append)

lemma arr_at_SomeD: "arr_at xs i = Some x \<Longrightarrow> x \<in> set xs"
  by (auto simp: arr_at_def Let_def split: if_splits)

subsection \<open>Sets in insertion order\<close>

definition set_add :: "'a \<Rightarrow> 'a list \<Rightarrow> 'a list" where
  "set_add x xs = (if x \<in> set xs then xs else xs @ [x])"

definition set_delete :: "'a \<Rightarrow> 'a list \<Rightarrow> 'a list" where
  "set_delete x xs = filter (\<lambda>y. y \<noteq> x) xs"

definition set_of_list :: "'a list \<Rightarrow> 'a list" where
  \<comment> \<open>\<^verbatim>\<open>new Set(xs)\<close>\<close>
  "set_of_list xs = foldl (\<lambda>s x. set_add x s) [] xs"

lemma set_set_add [simp]: "set (set_add x xs) = insert x (set xs)"
  by (auto simp: set_add_def)

lemma distinct_set_add [simp]: "distinct (set_add x xs) = distinct xs"
  by (simp add: set_add_def)

lemma set_set_delete [simp]: "set (set_delete x xs) = set xs - {x}"
  by (auto simp: set_delete_def)

lemma distinct_set_delete [simp]: "distinct xs \<Longrightarrow> distinct (set_delete x xs)"
  by (simp add: set_delete_def)

lemma set_foldl_set_add [simp]: "set (foldl (\<lambda>s x. set_add x s) s xs) = set s \<union> set xs"
  by (induction xs arbitrary: s) auto

lemma distinct_foldl_set_add [simp]:
  "distinct (foldl (\<lambda>s x. set_add x s) s xs) = distinct s"
  by (induction xs arbitrary: s) auto

lemma set_set_of_list [simp]: "set (set_of_list xs) = set xs"
  by (simp add: set_of_list_def)

lemma distinct_set_of_list [simp]: "distinct (set_of_list xs)"
  by (simp add: set_of_list_def)

lemma foldl_set_add_fresh:
  "distinct xs \<Longrightarrow> set s \<inter> set xs = {} \<Longrightarrow> foldl (\<lambda>s x. set_add x s) s xs = s @ xs"
  by (induction xs arbitrary: s) (auto simp: set_add_def)

lemma set_of_list_distinct [simp]: "distinct xs \<Longrightarrow> set_of_list xs = xs"
  by (simp add: set_of_list_def foldl_set_add_fresh)

subsection \<open>Maps in insertion order\<close>

type_synonym ('k, 'v) jsmap = "('k \<times> 'v) list"

abbreviation map_get :: "('k, 'v) jsmap \<Rightarrow> 'k \<Rightarrow> 'v option" where
  "map_get \<equiv> map_of"

abbreviation map_set :: "'k \<Rightarrow> 'v \<Rightarrow> ('k, 'v) jsmap \<Rightarrow> ('k, 'v) jsmap" where
  "map_set \<equiv> AList.update"

abbreviation map_delete :: "'k \<Rightarrow> ('k, 'v) jsmap \<Rightarrow> ('k, 'v) jsmap" where
  "map_delete \<equiv> AList.delete"

abbreviation map_keys :: "('k, 'v) jsmap \<Rightarrow> 'k list" where
  "map_keys m \<equiv> map fst m"

abbreviation map_values :: "('k, 'v) jsmap \<Rightarrow> 'v list" where
  "map_values m \<equiv> map snd m"

definition map_has :: "('k, 'v) jsmap \<Rightarrow> 'k \<Rightarrow> bool" where
  "map_has m k \<longleftrightarrow> map_of m k \<noteq> None"

definition well_keyed :: "('k \<times> 'v) list \<Rightarrow> bool" where
  "well_keyed m \<longleftrightarrow> distinct (map fst m)"

lemma well_keyed_Nil [simp]: "well_keyed []"
  by (simp add: well_keyed_def)

lemma map_get_set [store_simps]: "map_of (map_set k v m) k' = (if k' = k then Some v else map_of m k')"
  by (simp add: update_conv')

lemma map_get_delete [store_simps]: "map_of (map_delete k m) k' = (if k' = k then None else map_of m k')"
  by (simp add: delete_conv')

lemma well_keyed_set [simp]: "well_keyed m \<Longrightarrow> well_keyed (map_set k v m)"
  by (simp add: well_keyed_def distinct_update)

lemma well_keyed_delete [simp]: "well_keyed m \<Longrightarrow> well_keyed (map_delete k m)"
  by (simp add: well_keyed_def distinct_delete)

lemma well_keyed_filter [simp]: "well_keyed m \<Longrightarrow> well_keyed (filter P m)"
  by (induction m) (auto simp: well_keyed_def)

lemma well_keyed_get: "well_keyed m \<Longrightarrow> (map_of m k = Some v) = ((k, v) \<in> set m)"
  by (simp add: well_keyed_def)

lemma well_keyed_values: "well_keyed m \<Longrightarrow> v \<in> set (map snd m) \<longleftrightarrow> (\<exists>k. map_of m k = Some v)"
  by (force simp: well_keyed_get)

lemma map_of_filter_val:
  "well_keyed m \<Longrightarrow> map_of (filter (\<lambda>(k, v). P v) m) k =
     (case map_of m k of None \<Rightarrow> None | Some v \<Rightarrow> if P v then Some v else None)"
  by (induction m) (auto simp: well_keyed_def map_of_eq_None_iff split: option.splits dest: map_of_SomeD)

lemma set_values_set:
  "set (map snd (map_set k v m)) \<subseteq> insert v (set (map snd m))"
  by (induction m) auto

lemma set_keys_set [simp]: "set (map fst (map_set k v m)) = insert k (set (map fst m))"
  by (induction m) auto

subsection \<open>Decimal rendering of indices\<close>

fun show_nat :: "nat \<Rightarrow> string" where
  "show_nat n = (if n < 10 then [char_of (48 + n)] else show_nat (n div 10) @ [char_of (48 + n mod 10)])"

declare show_nat.simps [simp del]

definition is_digit :: "char \<Rightarrow> bool" where
  "is_digit c \<longleftrightarrow> 48 \<le> (of_char c :: nat) \<and> (of_char c :: nat) \<le> 57"

definition digits_value :: "string \<Rightarrow> nat" where
  "digits_value s = foldl (\<lambda>a c. 10 * a + (of_char c - 48)) 0 s"

lemma of_char_digit [simp]: "d < 10 \<Longrightarrow> (of_char (char_of (48 + d) :: char) :: nat) = 48 + d"
  by simp

lemma digits_value_show_nat [simp]: "digits_value (show_nat n) = n"
proof (induction n rule: show_nat.induct)
  case (1 n)
  show ?case
  proof (cases "n < 10")
    case True
    then show ?thesis by (subst show_nat.simps) (simp add: digits_value_def)
  next
    case False
    with 1 show ?thesis by (subst show_nat.simps) (simp add: digits_value_def)
  qed
qed

lemma show_nat_inj [simp]: "show_nat m = show_nat n \<longleftrightarrow> m = n"
  by (metis digits_value_show_nat)

lemma show_nat_digits: "c \<in> set (show_nat n) \<Longrightarrow> is_digit c"
proof (induction n rule: show_nat.induct)
  case (1 n)
  show ?case
  proof (cases "n < 10")
    case True
    with 1 show ?thesis by (subst (asm) show_nat.simps) (simp add: is_digit_def)
  next
    case False
    with 1 show ?thesis by (subst (asm) show_nat.simps) (auto simp: is_digit_def)
  qed
qed

lemma show_nat_nonempty [simp]: "show_nat n \<noteq> []"
  by (subst show_nat.simps) simp

subsection \<open>Plain objects used as dictionaries\<close>

text \<open>
  An object's own string keys enumerate as the specification orders them: array-index keys
  (canonical decimals below \<open>2^32 - 1\<close>) first, ascending, then the others in the order they were
  created. The list is kept in enumeration order; deleting and re-creating a key moves it.
\<close>

definition array_index :: "string \<Rightarrow> nat option" where
  "array_index s =
     (if s \<noteq> [] \<and> list_all is_digit s then
        (if show_nat (digits_value s) = s \<and> int (digits_value s) < 2 ^ 32 - 1 then Some (digits_value s) else None)
      else None)"

fun obj_insert_index :: "nat \<Rightarrow> string \<times> 'v \<Rightarrow> (string \<times> 'v) list \<Rightarrow> (string \<times> 'v) list" where
  "obj_insert_index n kv [] = [kv]"
| "obj_insert_index n kv (x # xs) =
     (case array_index (fst x) of
        None \<Rightarrow> kv # x # xs
      | Some m \<Rightarrow> if m < n then x # obj_insert_index n kv xs else kv # x # xs)"

type_synonym 'v jsobj = "(string \<times> 'v) list"

definition obj_set :: "string \<Rightarrow> 'v \<Rightarrow> 'v jsobj \<Rightarrow> 'v jsobj" where
  "obj_set k v m =
     (if k \<in> fst ` set m then AList.update k v m
      else case array_index k of
             None \<Rightarrow> m @ [(k, v)]
           | Some n \<Rightarrow> obj_insert_index n (k, v) m)"

abbreviation obj_get :: "'v jsobj \<Rightarrow> string \<Rightarrow> 'v option" where
  "obj_get \<equiv> map_of"

abbreviation obj_delete :: "string \<Rightarrow> 'v jsobj \<Rightarrow> 'v jsobj" where
  "obj_delete \<equiv> AList.delete"

lemma set_obj_insert_index [simp]: "set (obj_insert_index n kv m) = insert kv (set m)"
  by (induction n kv m rule: obj_insert_index.induct) (auto split: option.splits)

lemma distinct_obj_insert_index:
  "fst kv \<notin> fst ` set m \<Longrightarrow> distinct (map fst m) \<Longrightarrow> distinct (map fst (obj_insert_index n kv m))"
  by (induction n kv m rule: obj_insert_index.induct) (auto split: option.splits)

lemma map_of_obj_insert_index:
  "fst kv \<notin> fst ` set m \<Longrightarrow>
    map_of (obj_insert_index n kv m) k = (if k = fst kv then Some (snd kv) else map_of m k)"
  by (induction n kv m rule: obj_insert_index.induct) (auto split: option.splits)

lemma obj_get_set [simp, store_simps]:
  "map_of (obj_set k v m) k' = (if k' = k then Some v else map_of m k')"
proof (cases "k \<in> fst ` set m")
  case True
  then show ?thesis by (simp add: obj_set_def update_conv')
next
  case False
  then have "map_of m k = None" by (simp add: map_of_eq_None_iff)
  with False show ?thesis
    by (auto simp: obj_set_def map_of_obj_insert_index map_add_def split: option.splits)
qed

lemma well_keyed_obj_set [simp]: "well_keyed m \<Longrightarrow> well_keyed (obj_set k v m)"
  by (auto simp: obj_set_def well_keyed_def distinct_update distinct_obj_insert_index
      split: option.splits)

lemma set_keys_obj_set [simp]: "fst ` set (obj_set k v m) = insert k (fst ` set m)"
proof -
  have "set (map fst (obj_set k v m)) = insert k (set (map fst m))"
    using set_keys_set [of k v m] by (auto simp: obj_set_def split: option.splits)
  then show ?thesis by simp
qed

subsection \<open>The dictionary interface\<close>

locale keyed_store =
  fixes get :: "'s \<Rightarrow> 'k \<Rightarrow> 'v option"
    and put :: "'k \<Rightarrow> 'v \<Rightarrow> 's \<Rightarrow> 's"
    and del :: "'k \<Rightarrow> 's \<Rightarrow> 's"
    and keys :: "'s \<Rightarrow> 'k list"
    and ok :: "'s \<Rightarrow> bool"
  assumes get_put: "get (put k v s) k' = (if k' = k then Some v else get s k')"
    and get_del: "get (del k s) k' = (if k' = k then None else get s k')"
    and keys_get: "k \<in> set (keys s) \<longleftrightarrow> get s k \<noteq> None"
    and ok_put: "ok s \<Longrightarrow> ok (put k v s)"
    and ok_del: "ok s \<Longrightarrow> ok (del k s)"
begin

lemma keys_put: "set (keys (put k v s)) = insert k (set (keys s))"
  by (auto simp: keys_get get_put split: if_splits)

lemma keys_del: "set (keys (del k s)) = set (keys s) - {k}"
  by (auto simp: keys_get get_del split: if_splits)

text \<open>Deleting a list of keys, as the loops of \<^verbatim>\<open>cleanRunData\<close> do.\<close>

lemma get_foldl_del:
  "get (foldl (\<lambda>t k. del k t) s ks) k' = (if k' \<in> set ks then None else get s k')"
  by (induction ks arbitrary: s) (auto simp: get_del)

lemma ok_foldl_del: "ok s \<Longrightarrow> ok (foldl (\<lambda>t k. del k t) s ks)"
  by (induction ks arbitrary: s) (auto simp: ok_del)

text \<open>Inserting a list of entries: the last entry of a key wins.\<close>

lemma get_foldl_put:
  "get (foldl (\<lambda>t kv. put (fst kv) (snd kv) t) s kvs) k =
     (case map_of (rev kvs) k of None \<Rightarrow> get s k | Some v \<Rightarrow> Some v)"
  by (induction kvs arbitrary: s) (auto simp: get_put map_add_def split: option.splits)

lemma ok_foldl_put: "ok s \<Longrightarrow> ok (foldl (\<lambda>t kv. put (fst kv) (snd kv) t) s kvs)"
  by (induction kvs arbitrary: s) (auto simp: ok_put)

lemma put_put_same: "get (put k v (put k w s)) k' = get (put k v s) k'"
  by (simp add: get_put)

end

interpretation js_map: keyed_store map_of AList.update AList.delete "map fst" well_keyed
  by unfold_locales
    (auto simp: map_get_set map_get_delete map_of_eq_None_iff)

interpretation js_obj: keyed_store map_of obj_set AList.delete "map fst" well_keyed
  by unfold_locales
    (auto simp: map_get_delete map_of_eq_None_iff)

text \<open>A map filled from a list, with a key that is a field of the elements.\<close>

lemma keyed_by_field:
  assumes "distinct (map f xs)"
  shows "map_get (foldl (\<lambda>m x. map_set (f x) (g x) m) [] xs) k = Some v \<longleftrightarrow> (\<exists>x \<in> set xs. f x = k \<and> v = g x)"
proof -
  have "foldl (\<lambda>m x. map_set (f x) (g x) m) m xs =
      foldl (\<lambda>t kv. map_set (fst kv) (snd kv) t) m (map (\<lambda>x. (f x, g x)) xs)" for m
    by (induction xs arbitrary: m) auto
  then have "map_get (foldl (\<lambda>m x. map_set (f x) (g x) m) [] xs) k = map_of (rev (map (\<lambda>x. (f x, g x)) xs)) k"
    by (simp add: js_map.get_foldl_put split: option.splits)
  also have "\<dots> = Some v \<longleftrightarrow> (k, v) \<in> set (rev (map (\<lambda>x. (f x, g x)) xs))"
    using assms by (intro map_of_eq_Some_iff) (simp add: rev_map [symmetric] comp_def)
  finally show ?thesis by auto
qed

lemma keyed_by_field_keyed: "well_keyed (foldl (\<lambda>m x. map_set (f x) (g x) m) [] xs)"
  by (rule foldl_keeps [of well_keyed]) simp_all

end
