(* ===== verification/WorkflowTypes.thy ===== *)
theory WorkflowTypes
  imports Prelude
begin

section \<open>The workflow and run data of the engine\<close>

text \<open>
  The data the engine passes around, from \<^verbatim>\<open>packages/workflow/src/interfaces.ts\<close>: nodes, connections,
  items, task data, run data, waiting executions and the entries of the execution stack.

  Objects whose identity the code compares with \<^verbatim>\<open>===\<close> (nodes) carry it as a field, \<open>n_ref\<close>: two node
  values taken from the same state are equal exactly when they are the same object, so \<^verbatim>\<open>===\<close> on
  nodes is equality of records. A field declared optional in the source is an option (its \<open>None\<close> is
  \<^verbatim>\<open>undefined\<close>). Fields that no modelled code reads (notes, credentials, binary data, hints) are left
  out. Numbers that index arrays are \<open>nat\<close>; the other numbers are rationals.
\<close>

subsection \<open>JSON values\<close>

datatype js_number = NaN | PosInfinity | NegInfinity | Finite rat

datatype js =
    JUndefined
  | JNull
  | JBool bool
  | JNum js_number
  | JStr string
  | JArr "js list"
  | JObj "(string \<times> js) list"

text \<open>\<^verbatim>\<open>ToBoolean\<close>: what \<^verbatim>\<open>if (v)\<close>, \<^verbatim>\<open>!v\<close>, \<^verbatim>\<open>&&\<close> and \<^verbatim>\<open>||\<close> see.\<close>

fun js_truthy :: "js \<Rightarrow> bool" where
  "js_truthy JUndefined = False"
| "js_truthy JNull = False"
| "js_truthy (JBool b) = b"
| "js_truthy (JNum NaN) = False"
| "js_truthy (JNum (Finite q)) = (q \<noteq> 0)"
| "js_truthy (JNum _) = True"
| "js_truthy (JStr s) = (s \<noteq> [])"
| "js_truthy (JArr _) = True"
| "js_truthy (JObj _) = True"

subsection \<open>Connection types\<close>

text \<open>
  A connection type is a string: the code casts the keys of the connections object to
  \<^verbatim>\<open>NodeConnectionType\<close> without checking them.
\<close>

type_synonym connection_type = string

definition Main :: connection_type where "Main = ''main''"
definition AiTool :: connection_type where "AiTool = ''ai_tool''"

definition NodeConnectionTypes :: "connection_type list" where
  "NodeConnectionTypes =
    [''ai_agent'', ''ai_chain'', ''ai_document'', ''ai_embedding'', ''ai_languageModel'', ''ai_memory'',
     ''ai_outputParser'', ''ai_retriever'', ''ai_reranker'', ''ai_textSplitter'', AiTool,
     ''ai_vectorStore'', Main]"

subsection \<open>Nodes\<close>

datatype OnError = ContinueErrorOutput | ContinueRegularOutput | StopWorkflow

record node =
  n_ref :: nat
  n_id :: string
  n_name :: string
  n_typeVersion :: rat
  n_type :: string
  n_position :: "rat \<times> rat"
  n_disabled :: "bool option"
  n_retryOnFail :: "bool option"
  n_maxTries :: "rat option"
  n_waitBetweenTries :: "rat option"
  n_alwaysOutputData :: "bool option"
  n_executeOnce :: "bool option"
  n_onError :: "OnError option"
  n_continueOnFail :: "bool option"
  n_parameters :: "js jsobj"
  n_rewireOutputLogTo :: "connection_type option"
  n_forceCustomOperation :: "(string \<times> string) option"

text \<open>\<^verbatim>\<open>if (node.disabled)\<close>: an absent flag counts as enabled.\<close>

definition is_disabled :: "node \<Rightarrow> bool" where
  "is_disabled n \<longleftrightarrow> n_disabled n = Some True"

lemma is_disabled_eq: "is_disabled n = (case n_disabled n of None \<Rightarrow> False | Some b \<Rightarrow> b)"
  by (auto simp: is_disabled_def split: option.splits)

text \<open>A node with the given name and type, the other fields absent: for examples.\<close>

definition plain_node :: "nat \<Rightarrow> string \<Rightarrow> string \<Rightarrow> node" where
  "plain_node r nm t =
    \<lparr>n_ref = r, n_id = nm, n_name = nm, n_typeVersion = 1, n_type = t, n_position = (0, 0),
     n_disabled = None, n_retryOnFail = None, n_maxTries = None, n_waitBetweenTries = None,
     n_alwaysOutputData = None, n_executeOnce = None, n_onError = None, n_continueOnFail = None,
     n_parameters = [], n_rewireOutputLogTo = None, n_forceCustomOperation = None\<rparr>"

subsection \<open>Connections\<close>

record connection =
  c_node :: string
  c_type :: connection_type
  c_index :: nat

type_synonym node_inputs = "connection list slot list"
type_synonym node_connections = "node_inputs jsobj"
type_synonym connections = "node_connections jsobj"

subsection \<open>Items, task data and run data\<close>

record source_data =
  sd_previousNode :: string
  sd_previousNodeOutput :: "nat option"
  sd_previousNodeRun :: "nat option"

record paired_item_data =
  pi_item :: nat
  pi_input :: "nat option"
  pi_sourceOverwrite :: "source_data option"

datatype paired_item =
    PairedNumber nat
  | PairedObject paired_item_data
  | PairedList "paired_item_data list"

record exec_error =
  ee_name :: string
  ee_message :: string
  ee_stack :: string

record item =
  i_json :: "js jsobj"
  i_pairedItem :: "paired_item option"
  i_error :: "js option"
  i_metadata :: "js option"

definition empty_item :: item where
  \<comment> \<open>\<^verbatim>\<open>{ json: {} }\<close>\<close>
  "empty_item = \<lparr>i_json = [], i_pairedItem = None, i_error = None, i_metadata = None\<rparr>"

type_synonym input_data = "item list slot list"
type_synonym task_data_connections = "input_data jsobj"
type_synonym source_connections = "source_data slot list jsobj"
type_synonym pin_data = "item list jsobj"

datatype ExecutionStatus =
    Canceled | Crashed | Error | New | Running | Success | Unknown | Waiting

text \<open>One call an AI agent asked the engine to make, and the run it was given.\<close>

record engine_action =
  ea_nodeName :: string
  ea_input :: "js jsobj"
  ea_type :: connection_type
  ea_id :: string
  ea_parentNodeName :: "string option"
  ea_itemIndex :: "nat option"

record engine_request =
  er_actions :: "engine_action list"
  er_metadata :: js

record sub_node_action =
  sna_action :: engine_action
  sna_nodeName :: string
  sna_runIndex :: nat

record task_metadata =
  tm_subExecution :: "js option"
  tm_subNodeExecutionData :: "(sub_node_action list \<times> js) option"
  tm_preserveSourceOverwrite :: "bool option"
  tm_preservedSourceOverwrite :: "source_data option"
  tm_nodeWasResumed :: "bool option"
  tm_forwardAllOutputs :: "bool option"
  tm_resumeError :: "exec_error option"

definition empty_metadata :: task_metadata where
  "empty_metadata =
    \<lparr>tm_subExecution = None, tm_subNodeExecutionData = None, tm_preserveSourceOverwrite = None,
     tm_preservedSourceOverwrite = None, tm_nodeWasResumed = None, tm_forwardAllOutputs = None,
     tm_resumeError = None\<rparr>"

record task_data =
  td_executionIndex :: "nat option"
  td_source :: "source_data slot list"
  td_executionStatus :: "ExecutionStatus option"
  td_data :: "task_data_connections option"
  td_inputOverride :: "task_data_connections option"
  td_error :: "exec_error option"
  td_metadata :: "task_metadata option"

type_synonym run_data = "task_data list jsobj"

record execute_data =
  ed_node :: node
  ed_data :: task_data_connections
  ed_source :: "source_connections option"
  ed_metadata :: "task_metadata option"
  ed_runIndex :: "nat option"

text \<open>Executions that wait for more inputs: by node name, then by run index.\<close>

type_synonym 'v by_run = "(nat \<times> 'v) list"
type_synonym waiting_execution = "task_data_connections by_run jsobj"
type_synonym waiting_source = "source_connections by_run jsobj"

text \<open>
  The second level is an object whose keys are run indices, so it enumerates in ascending order.
\<close>

fun run_set :: "nat \<Rightarrow> 'v \<Rightarrow> 'v by_run \<Rightarrow> 'v by_run" where
  "run_set k v [] = [(k, v)]"
| "run_set k v ((j, w) # m) =
     (if k = j then (k, v) # m else if k < j then (k, v) # (j, w) # m else (j, w) # run_set k v m)"

lemma map_of_run_set [simp, store_simps]:
  "map_of (run_set k v m) j = (if j = k then Some v else map_of m j)"
  by (induction k v m rule: run_set.induct) auto

lemma keys_run_set [simp]: "fst ` set (run_set k v m) = insert k (fst ` set m)"
  by (induction k v m rule: run_set.induct) (simp_all add: insert_commute)

lemma sorted_run_set: "sorted_wrt (<) (map fst m) \<Longrightarrow> sorted_wrt (<) (map fst (run_set k v m))"
proof (induction m)
  case Nil
  then show ?case by simp
next
  case (Cons p m)
  obtain j w where p: "p = (j, w)" by force
  have "x \<in> fst ` set (run_set k v m) \<Longrightarrow> x = k \<or> x \<in> fst ` set m" for x
    by simp
  with Cons p show ?case by (cases "k < j") fastforce+
qed

lemma run_delete_sorted:
  "sorted_wrt (<) (map fst m) \<Longrightarrow> sorted_wrt (<) (map fst (AList.delete k m))"
  by (induction m) (auto simp: AList.delete_eq)

interpretation by_run: keyed_store map_of run_set AList.delete "map fst" "\<lambda>m. sorted_wrt (<) (map fst m)"
  by unfold_locales
    (auto simp: map_get_delete map_of_eq_None_iff sorted_run_set run_delete_sorted simp del: map_map)

end
