(* ===== verification/Traversal.thy ===== *)
theory Traversal
  imports Prelude
begin

section \<open>Depth-first visits that thread the set of visited objects\<close>

text \<open>
  Several routines of the engine share one shape: a loop over edges that skips an edge whose
  object was visited, and otherwise records the object and recurses into the edges that leave it,
  with one growing set of visited objects. The locale states that shape as an interface: \<open>visit\<close>
  is the loop, \<open>key\<close> the object an edge leads to and \<open>expand\<close> the edges that leave an object (it may
  throw). What such a loop computes, and that it returns, is proved here once; the routines of the
  graph interpret it.
\<close>

definition edges_of :: "('e \<Rightarrow> 'a) \<Rightarrow> ('a \<Rightarrow> 'e list result) \<Rightarrow> ('a \<times> 'a) set" where
  "edges_of key expand = {(a, b). \<exists>es. expand a = Inr es \<and> b \<in> key ` set es}"

lemma edges_ofI: "expand a = Inr es \<Longrightarrow> e \<in> set es \<Longrightarrow> (a, key e) \<in> edges_of key expand"
  by (auto simp: edges_of_def)

lemma edges_of_Inr: "expand a = Inr es \<Longrightarrow> (a, b) \<in> edges_of key expand \<longleftrightarrow> b \<in> key ` set es"
  by (auto simp: edges_of_def)

lemma closed_reach:
  assumes "S \<subseteq> R" and "\<And>a b. a \<in> R \<Longrightarrow> (a, b) \<in> E \<Longrightarrow> b \<in> R"
  shows "E\<^sup>* `` S \<subseteq> R"
proof
  fix b
  assume "b \<in> E\<^sup>* `` S"
  then obtain a where "a \<in> S" and "(a, b) \<in> E\<^sup>*" by blast
  from this(2) show "b \<in> R"
    using \<open>a \<in> S\<close> assms by (induction rule: rtrancl_induct) auto
qed

locale dfs_visit =
  fixes visit :: "'e list \<Rightarrow> 'a list \<Rightarrow> 'a list result"
    and key :: "'e \<Rightarrow> 'a"
    and expand :: "'a \<Rightarrow> 'e list result"
    and U :: "'a set"
  assumes visit_Nil: "visit [] seen = Inr seen"
    and visit_Cons: "visit (e # es) seen =
      (if key e \<in> set seen then visit es seen
       else bind_result (expand (key e))
              (\<lambda>ds. bind_result (visit ds (seen @ [key e])) (visit es)))"
    and finite_U: "finite U"
    and expand_closed: "expand a = Inr es \<Longrightarrow> key ` set es \<subseteq> U"
begin

lemma card_less: "a \<in> U \<Longrightarrow> a \<notin> set seen \<Longrightarrow> card (U - set (seen @ [a])) < card (U - set seen)"
  using finite_U by (intro psubset_card_mono) auto

lemma card_le: "set seen \<subseteq> set seen' \<Longrightarrow> card (U - set seen') \<le> card (U - set seen)"
  using finite_U by (intro card_mono) auto

text \<open>
  One visit: what it adds is new, reachable from the edges it was given, and closed under the
  edges that leave it.
\<close>

definition visited_by :: "'e list \<Rightarrow> 'a list \<Rightarrow> 'a list \<Rightarrow> bool" where
  "visited_by es seen r \<longleftrightarrow>
     (\<exists>new. r = seen @ new \<and> distinct new \<and> set new \<inter> set seen = {} \<and>
        set new \<subseteq> (edges_of key expand)\<^sup>* `` (key ` set es) \<and>
        key ` set es \<subseteq> set r \<and>
        (\<forall>a \<in> set new. \<forall>b. (a, b) \<in> edges_of key expand \<longrightarrow> b \<in> set r))"

lemma visited_by_Nil: "visited_by [] seen seen"
  by (simp add: visited_by_def)

lemma visited_by_skip: "key e \<in> set seen \<Longrightarrow> visited_by es seen r \<Longrightarrow> visited_by (e # es) seen r"
  unfolding visited_by_def by force

lemma visited_by_step:
  assumes "key e \<notin> set seen" and ds: "expand (key e) = Inr ds"
    and inner: "visited_by ds (seen @ [key e]) r1" and rest: "visited_by es r1 r"
  shows "visited_by (e # es) seen r"
proof -
  let ?E = "edges_of key expand"
  obtain n1 where n1: "r1 = (seen @ [key e]) @ n1" "distinct n1" "set n1 \<inter> set (seen @ [key e]) = {}"
      "set n1 \<subseteq> ?E\<^sup>* `` (key ` set ds)" "key ` set ds \<subseteq> set r1"
      "\<forall>a \<in> set n1. \<forall>b. (a, b) \<in> ?E \<longrightarrow> b \<in> set r1"
    using inner unfolding visited_by_def by blast
  obtain n2 where n2: "r = r1 @ n2" "distinct n2" "set n2 \<inter> set r1 = {}"
      "set n2 \<subseteq> ?E\<^sup>* `` (key ` set es)" "key ` set es \<subseteq> set r"
      "\<forall>a \<in> set n2. \<forall>b. (a, b) \<in> ?E \<longrightarrow> b \<in> set r"
    using rest unfolding visited_by_def by blast
  have "key ` set ds \<subseteq> ?E `` {key e}"
    using ds by (auto intro: edges_ofI)
  then have "?E\<^sup>* `` (key ` set ds) \<subseteq> ?E\<^sup>* `` {key e}"
    by (auto intro: converse_rtrancl_into_rtrancl)
  then have "set n1 \<subseteq> ?E\<^sup>* `` {key e}" using n1(4) by blast
  moreover have "?E\<^sup>* `` {key e} \<subseteq> ?E\<^sup>* `` (key ` set (e # es))"
    and "?E\<^sup>* `` (key ` set es) \<subseteq> ?E\<^sup>* `` (key ` set (e # es))"
    by (intro Image_mono; auto)+
  moreover have "key e \<in> ?E\<^sup>* `` (key ` set (e # es))" by (intro ImageI [of "key e"]) auto
  ultimately have reach: "set ([key e] @ n1 @ n2) \<subseteq> ?E\<^sup>* `` (key ` set (e # es))"
    using n2(4) unfolding set_append list.set by (meson Un_least empty_subsetI insert_subsetI subset_trans)
  have "\<forall>b. (key e, b) \<in> ?E \<longrightarrow> b \<in> set r1"
    using ds n1(5) by (auto simp: edges_of_Inr)
  then have closed: "\<forall>a \<in> set ([key e] @ n1 @ n2). \<forall>b. (a, b) \<in> ?E \<longrightarrow> b \<in> set r"
    using n1(6) n2(1,6) by auto
  have "distinct ([key e] @ n1 @ n2)" "set ([key e] @ n1 @ n2) \<inter> set seen = {}"
    using assms(1) n1(1-3) n2(2,3) by auto
  moreover have "r = seen @ [key e] @ n1 @ n2" "key ` set (e # es) \<subseteq> set r"
    using n1(1) n2(1,5) by auto
  ultimately show ?thesis
    using reach closed unfolding visited_by_def by blast
qed

lemma visited_by_extends: "visited_by es seen r \<Longrightarrow> set seen \<subseteq> set r"
  unfolding visited_by_def by auto

lemma visit_bounded:
  "card (U - set seen) \<le> n \<Longrightarrow> key ` set es \<subseteq> U \<Longrightarrow> visit es seen = Inr r \<Longrightarrow> visited_by es seen r"
proof (induction n arbitrary: es seen r)
  case 0
  then have "U \<subseteq> set seen" using finite_U by simp
  with "0.prems"(2,3) show ?case
    by (induction es) (auto simp: visit_Nil visit_Cons visited_by_Nil intro!: visited_by_skip)
next
  case (Suc n)
  then show ?case
  proof (induction es arbitrary: seen)
    case Nil
    then show ?case by (simp add: visit_Nil visited_by_Nil)
  next
    case (Cons e es)
    show ?case
    proof (cases "key e \<in> set seen")
      case True
      with Cons show ?thesis by (auto simp: visit_Cons intro!: visited_by_skip)
    next
      case False
      with Cons.prems obtain ds r1 where ds: "expand (key e) = Inr ds"
        and r1: "visit ds (seen @ [key e]) = Inr r1" and r: "visit es r1 = Inr r"
        by (auto simp: visit_Cons bind_result_eq_Inr)
      have "card (U - set (seen @ [key e])) \<le> n"
        using card_less [of "key e" seen] False Cons.prems by simp
      then have inner: "visited_by ds (seen @ [key e]) r1"
        using Cons.prems(1) expand_closed [OF ds] r1 by blast
      then have "set seen \<subseteq> set r1" using visited_by_extends by fastforce
      then have "card (U - set r1) \<le> Suc n" using card_le Cons.prems(2) le_trans by blast
      then have "visited_by es r1 r" using Cons r by simp
      with False ds inner show ?thesis by (rule visited_by_step)
    qed
  qed
qed

lemma visit_spec: "visit es seen = Inr r \<Longrightarrow> key ` set es \<subseteq> U \<Longrightarrow> visited_by es seen r"
  using visit_bounded by blast

theorem visit_reachable:
  assumes "visit es [] = Inr r" and "key ` set es \<subseteq> U"
  shows "set r = (edges_of key expand)\<^sup>* `` (key ` set es)" and "distinct r"
proof -
  obtain new where new: "r = new" "distinct new"
      "set new \<subseteq> (edges_of key expand)\<^sup>* `` (key ` set es)" "key ` set es \<subseteq> set r"
      "\<forall>a \<in> set new. \<forall>b. (a, b) \<in> edges_of key expand \<longrightarrow> b \<in> set r"
    using visit_spec [OF assms] unfolding visited_by_def by auto
  then have "(edges_of key expand)\<^sup>* `` (key ` set es) \<subseteq> set r"
    by (intro closed_reach) auto
  with new show "set r = (edges_of key expand)\<^sup>* `` (key ` set es)" and "distinct r" by auto
qed

text \<open>A visit throws only if expanding some object throws.\<close>

lemma visit_total_bounded:
  assumes ok: "\<And>a. a \<in> U \<Longrightarrow> \<exists>ds. expand a = Inr ds"
  shows "card (U - set seen) \<le> n \<Longrightarrow> key ` set es \<subseteq> U \<Longrightarrow> \<exists>r. visit es seen = Inr r"
proof (induction n arbitrary: es seen)
  case 0
  then have "U \<subseteq> set seen" using finite_U by simp
  with "0.prems"(2) show ?case
    by (induction es) (auto simp: visit_Nil visit_Cons)
next
  case (Suc n)
  then show ?case
  proof (induction es arbitrary: seen)
    case Nil
    then show ?case by (simp add: visit_Nil)
  next
    case (Cons e es)
    show ?case
    proof (cases "key e \<in> set seen")
      case True
      with Cons show ?thesis by (auto simp: visit_Cons)
    next
      case False
      obtain ds where ds: "expand (key e) = Inr ds" using ok [of "key e"] Cons.prems by auto
      have "card (U - set (seen @ [key e])) \<le> n"
        using card_less [of "key e" seen] False Cons.prems by simp
      then obtain r1 where r1: "visit ds (seen @ [key e]) = Inr r1"
        using Cons.prems(1) expand_closed [OF ds] by blast
      then have "set seen \<subseteq> set r1"
        using visited_by_extends [OF visit_spec [OF r1 expand_closed [OF ds]]] by simp
      then have "card (U - set r1) \<le> Suc n" using card_le Cons.prems(2) le_trans by blast
      then have "\<exists>r. visit es r1 = Inr r" using Cons.IH Cons.prems by simp
      then obtain r where "visit es r1 = Inr r" ..
      with False ds r1 show ?thesis by (simp add: visit_Cons)
    qed
  qed
qed

lemma visit_total:
  "(\<And>a. a \<in> U \<Longrightarrow> \<exists>ds. expand a = Inr ds) \<Longrightarrow> key ` set es \<subseteq> U \<Longrightarrow> \<exists>r. visit es seen = Inr r"
  using visit_total_bounded by blast

end

end
