(* ===== verification/DirectedGraph.thy ===== *)
theory DirectedGraph
  imports WorkflowTypes Traversal
begin

section \<open>The graph that partial executions work on\<close>

text \<open>
  \<^verbatim>\<open>packages/core/src/execution-engine/partial-execution-utils/directed-graph.ts\<close>: a graph as a \<^verbatim>\<open>Map\<close> of
  nodes by name and a \<^verbatim>\<open>Map\<close> of connections by a key made from their end points. Every method is
  one definition here; a method that asserts or throws returns a result. A \<^verbatim>\<open>Set\<close> is the list of its
  elements in insertion order. The invariant is \<open>graph_wf\<close>.
\<close>

subsection \<open>Connections and graphs\<close>

record gconn =
  gc_from :: node
  gc_to :: node
  gc_type :: connection_type
  gc_outputIndex :: nat
  gc_inputIndex :: nat

record directed_graph =
  g_nodes :: "(string, node) jsmap"
  g_connections :: "(string, gconn) jsmap"

definition empty_graph :: directed_graph where
  "empty_graph = \<lparr>g_nodes = [], g_connections = []\<rparr>"

definition makeKey :: "gconn \<Rightarrow> string" where
  "makeKey c =
     n_name (gc_from c) @ ''-'' @ gc_type c @ ''-'' @ show_nat (gc_outputIndex c) @ ''-'' @
     show_nat (gc_inputIndex c) @ ''-'' @ n_name (gc_to c)"

subsection \<open>Nodes\<close>

definition hasNode :: "directed_graph \<Rightarrow> string \<Rightarrow> bool" where
  "hasNode g nm = map_has (g_nodes g) nm"

definition getNodes :: "directed_graph \<Rightarrow> (string, node) jsmap" where
  "getNodes g = g_nodes g"

definition getNodesByNames :: "directed_graph \<Rightarrow> string list \<Rightarrow> node list" where
  "getNodesByNames g names =
     foldl (\<lambda>ns nm. case map_get (g_nodes g) nm of None \<Rightarrow> ns | Some n \<Rightarrow> set_add n ns) [] names"

definition addNode :: "node \<Rightarrow> directed_graph \<Rightarrow> directed_graph" where
  "addNode n g = g\<lparr>g_nodes := map_set (n_name n) n (g_nodes g)\<rparr>"

definition addNodes :: "node list \<Rightarrow> directed_graph \<Rightarrow> directed_graph" where
  "addNodes ns g = foldl (\<lambda>h n. addNode n h) g ns"

text \<open>\<^verbatim>\<open>this.nodes.get(node.name) === node\<close>\<close>

definition in_graph :: "directed_graph \<Rightarrow> node \<Rightarrow> bool" where
  "in_graph g n \<longleftrightarrow> map_get (g_nodes g) (n_name n) = Some n"

subsection \<open>Connections\<close>

definition getConnections :: "directed_graph \<Rightarrow> node option \<Rightarrow> gconn list" where
  "getConnections g to =
     filter (\<lambda>c. case to of None \<Rightarrow> True | Some t \<Rightarrow> gc_to c = t) (map_values (g_connections g))"

record conn_input =
  ci_from :: node
  ci_to :: node
  ci_type :: "connection_type option"
  ci_outputIndex :: "nat option"
  ci_inputIndex :: "nat option"

definition conn_of_input :: "conn_input \<Rightarrow> gconn" where
  "conn_of_input ci =
     \<lparr>gc_from = ci_from ci, gc_to = ci_to ci,
      gc_type = (case ci_type ci of None \<Rightarrow> Main | Some t \<Rightarrow> t),
      gc_outputIndex = (case ci_outputIndex ci of None \<Rightarrow> 0 | Some i \<Rightarrow> i),
      gc_inputIndex = (case ci_inputIndex ci of None \<Rightarrow> 0 | Some i \<Rightarrow> i)\<rparr>"

definition quoted :: "string \<Rightarrow> string" where
  "quoted s = CHR 0x22 # s @ [CHR 0x22]"

definition addConnection :: "conn_input \<Rightarrow> directed_graph \<Rightarrow> directed_graph result" where
  "addConnection ci g =
     bind_result (assert_ok (in_graph g (ci_from ci))
       (''Cannot add connection: source node '' @ quoted (n_name (ci_from ci)) @ '' is not part of this graph.''))
     (\<lambda>_. bind_result (assert_ok (in_graph g (ci_to ci))
       (''Cannot add connection: target node '' @ quoted (n_name (ci_to ci)) @ '' is not part of this graph.''))
     (\<lambda>_. let c = conn_of_input ci
          in Inr (g\<lparr>g_connections := map_set (makeKey c) c (g_connections g)\<rparr>)))"

definition addConnections :: "conn_input list \<Rightarrow> directed_graph \<Rightarrow> directed_graph result" where
  "addConnections inputs g = fold_result addConnection inputs g"

text \<open>A \<^verbatim>\<open>GraphConnection\<close> passed where a connection input is expected.\<close>

definition as_input :: "gconn \<Rightarrow> conn_input" where
  "as_input c =
     \<lparr>ci_from = gc_from c, ci_to = gc_to c, ci_type = Some (gc_type c),
      ci_outputIndex = Some (gc_outputIndex c), ci_inputIndex = Some (gc_inputIndex c)\<rparr>"

definition getDirectChildConnections :: "directed_graph \<Rightarrow> node \<Rightarrow> gconn list result" where
  "getDirectChildConnections g n =
     bind_result (assert_ok (in_graph g n) (''Node '' @ quoted (n_name n) @ '' is not part of this graph.''))
       (\<lambda>_. Inr (filter (\<lambda>c. gc_from c = n) (map_values (g_connections g))))"

definition getDirectParentConnections :: "directed_graph \<Rightarrow> node \<Rightarrow> gconn list result" where
  "getDirectParentConnections g n =
     bind_result (assert_ok (in_graph g n) (''Node '' @ quoted (n_name n) @ '' is not part of this graph.''))
       (\<lambda>_. Inr (filter (\<lambda>c. gc_to c = n) (map_values (g_connections g))))"

definition getConnection ::
  "directed_graph \<Rightarrow> node \<Rightarrow> nat \<Rightarrow> connection_type \<Rightarrow> nat \<Rightarrow> node \<Rightarrow> gconn option" where
  "getConnection g from outputIndex type inputIndex to =
     map_get (g_connections g)
       (makeKey \<lparr>gc_from = from, gc_to = to, gc_type = type, gc_outputIndex = outputIndex,
                 gc_inputIndex = inputIndex\<rparr>)"

subsection \<open>Removing a node\<close>

definition drop_node_connections :: "node \<Rightarrow> directed_graph \<Rightarrow> directed_graph" where
  "drop_node_connections n g =
     g\<lparr>g_connections := filter (\<lambda>(k, c). \<not> (gc_to c = n \<or> gc_from c = n)) (g_connections g)\<rparr>"

definition reconnections ::
  "(gconn \<Rightarrow> bool) option \<Rightarrow> gconn list \<Rightarrow> gconn list \<Rightarrow> gconn list" where
  "reconnections skip incoming outgoing =
     (let skipped = (\<lambda>c. case skip of None \<Rightarrow> False | Some f \<Rightarrow> f c)
      in concat (map (\<lambda>i. map (\<lambda>out. i\<lparr>gc_to := gc_to out, gc_inputIndex := gc_inputIndex out\<rparr>)
                            (filter (\<lambda>out. \<not> skipped out) outgoing))
                 (filter (\<lambda>i. \<not> skipped i) incoming)))"

definition removeNode ::
  "node \<Rightarrow> bool \<Rightarrow> (gconn \<Rightarrow> bool) option \<Rightarrow> directed_graph \<Rightarrow> (directed_graph \<times> gconn list option) result" where
  "removeNode n reconnect skip g =
     (if reconnect then
        bind_result (getDirectParentConnections g n) (\<lambda>incoming.
        bind_result (getDirectChildConnections g n) (\<lambda>outgoing.
          let new = reconnections skip incoming outgoing;
              h = drop_node_connections n g;
              conns = foldl (\<lambda>m c. map_set (makeKey c) c m) (g_connections h) new
          in Inr (h\<lparr>g_connections := conns, g_nodes := map_delete (n_name n) (g_nodes h)\<rparr>, Some new)))
      else
        let h = drop_node_connections n g
        in Inr (h\<lparr>g_nodes := map_delete (n_name n) (g_nodes h)\<rparr>, None))"

subsection \<open>Membership facts\<close>

lemma in_graph_in_nodes: "in_graph g n \<Longrightarrow> n \<in> set (map_values (g_nodes g))"
  by (force simp: in_graph_def dest: map_of_SomeD)

lemma getDirectChildConnections_Inr [result_simps]:
  "getDirectChildConnections g n = Inr cs \<longleftrightarrow>
     in_graph g n \<and> cs = filter (\<lambda>c. gc_from c = n) (map_values (g_connections g))"
  by (auto simp: getDirectChildConnections_def result_simps)

lemma getDirectParentConnections_Inr [result_simps]:
  "getDirectParentConnections g n = Inr cs \<longleftrightarrow>
     in_graph g n \<and> cs = filter (\<lambda>c. gc_to c = n) (map_values (g_connections g))"
  by (auto simp: getDirectParentConnections_def result_simps)

lemma conn_of_as_input [simp]: "conn_of_input (as_input c) = c"
  by (simp add: conn_of_input_def as_input_def)

lemma ci_as_input [simp]: "ci_from (as_input c) = gc_from c" "ci_to (as_input c) = gc_to c"
  by (simp_all add: as_input_def)

lemma addConnection_Inr [result_simps]:
  "addConnection ci g = Inr h \<longleftrightarrow>
     in_graph g (ci_from ci) \<and> in_graph g (ci_to ci) \<and>
     h = g\<lparr>g_connections := map_set (makeKey (conn_of_input ci)) (conn_of_input ci) (g_connections g)\<rparr>"
  by (auto simp: addConnection_def result_simps Let_def)

lemma in_graph_addNode [simp]:
  "in_graph (addNode n g) m \<longleftrightarrow> (if n_name m = n_name n then m = n else in_graph g m)"
  by (auto simp: in_graph_def addNode_def store_simps)

lemma hasNode_addNode [simp]: "hasNode (addNode n g) nm \<longleftrightarrow> nm = n_name n \<or> hasNode g nm"
  by (auto simp: hasNode_def map_has_def addNode_def store_simps)

lemma g_connections_addNode [simp]: "g_connections (addNode n g) = g_connections g"
  by (simp add: addNode_def)

lemma g_connections_addNodes [simp]: "g_connections (addNodes ns g) = g_connections g"
  unfolding addNodes_def by (induction ns arbitrary: g) simp_all

lemma in_graph_conns [simp]: "in_graph (g\<lparr>g_connections := cs\<rparr>) n = in_graph g n"
  by (simp add: in_graph_def)

subsection \<open>The invariant\<close>

text \<open>
  Nodes are stored under their name, connections under their key, and the end points of every
  connection are nodes of the graph.
\<close>

definition graph_wf :: "directed_graph \<Rightarrow> bool" where
  "graph_wf g \<longleftrightarrow>
     well_keyed (g_nodes g) \<and> list_all (\<lambda>(k, n). n_name n = k) (g_nodes g) \<and>
     well_keyed (g_connections g) \<and>
     list_all (\<lambda>(k, c). k = makeKey c \<and> in_graph g (gc_from c) \<and> in_graph g (gc_to c)) (g_connections g)"

lemma graph_wf_nodes: "graph_wf g \<Longrightarrow> n \<in> set (map_values (g_nodes g)) \<Longrightarrow> in_graph g n"
  by (auto simp: graph_wf_def in_graph_def list_all_iff well_keyed_def)

lemma graph_wf_nodes_iff: "graph_wf g \<Longrightarrow> n \<in> set (map_values (g_nodes g)) \<longleftrightarrow> in_graph g n"
  using graph_wf_nodes in_graph_in_nodes by blast

lemma graph_wf_conn:
  "graph_wf g \<Longrightarrow> c \<in> set (map_values (g_connections g)) \<Longrightarrow> in_graph g (gc_from c) \<and> in_graph g (gc_to c)"
  by (auto simp: graph_wf_def list_all_iff)

lemma graph_wf_get:
  assumes "graph_wf g" and "map_get (g_nodes g) nm = Some n"
  shows "n_name n = nm" and "in_graph g n"
proof -
  from assms(2) have "(nm, n) \<in> set (g_nodes g)" by (rule map_of_SomeD)
  with assms(1) show "n_name n = nm" by (auto simp: graph_wf_def list_all_iff)
  with assms(2) show "in_graph g n" by (simp add: in_graph_def)
qed

lemma graph_wf_entry: "graph_wf g \<Longrightarrow> (k, n) \<in> set (g_nodes g) \<Longrightarrow> n_name n = k"
  by (auto simp: graph_wf_def list_all_iff)

lemma graph_wf_distinct_nodes:
  assumes "graph_wf g"
  shows "distinct (map_values (g_nodes g))"
proof -
  have "map n_name (map_values (g_nodes g)) = map fst (g_nodes g)"
    unfolding map_map by (rule map_cong [OF refl]) (auto dest: graph_wf_entry [OF assms])
  with assms have "distinct (map n_name (map_values (g_nodes g)))"
    by (simp only: graph_wf_def well_keyed_def)
  then show ?thesis unfolding distinct_map by blast
qed

lemma graph_wf_same_name:
  assumes wf: "graph_wf g" and "in_graph g n" and km: "(k, m) \<in> set (g_nodes g)"
  shows "k = n_name n \<longleftrightarrow> m = n"
proof -
  have "map_of (g_nodes g) k = Some m" using wf km by (simp add: graph_wf_def well_keyed_def)
  with assms(2) graph_wf_entry [OF wf km] show ?thesis unfolding in_graph_def by (metis option.inject)
qed

lemma empty_graph_wf [simp]: "graph_wf empty_graph"
  by (simp add: graph_wf_def empty_graph_def)

lemma AList_update_mem: "p \<in> set (AList.update k v m) \<Longrightarrow> p = (k, v) \<or> p \<in> set m"
  by (induction m) (auto split: if_splits)

lemma AList_delete_mem: "p \<in> set (AList.delete k m) \<Longrightarrow> p \<in> set m \<and> fst p \<noteq> k"
  by (auto simp: AList.delete_eq)

lemma addNode_wf:
  assumes "graph_wf g" and "\<not> hasNode g (n_name n) \<or> in_graph g n"
  shows "graph_wf (addNode n g)"
proof -
  have keep: "in_graph (addNode n g) m" if "in_graph g m" for m
    using that assms(2) by (auto simp: hasNode_def map_has_def in_graph_def addNode_def store_simps)
  then show ?thesis
    using assms(1) unfolding graph_wf_def
    by (auto simp: addNode_def list_all_iff dest: AList_update_mem)
qed

lemma addConnection_wf: "graph_wf g \<Longrightarrow> addConnection ci g = Inr h \<Longrightarrow> graph_wf h"
  unfolding graph_wf_def
  by (auto simp: addConnection_Inr list_all_iff conn_of_input_def dest!: AList_update_mem)

lemma addConnections_wf: "graph_wf g \<Longrightarrow> addConnections inputs g = Inr h \<Longrightarrow> graph_wf h"
  unfolding addConnections_def by (erule fold_result_inv) (auto intro: addConnection_wf)

lemma addConnections_nodes: "addConnections inputs g = Inr h \<Longrightarrow> g_nodes h = g_nodes g"
  unfolding addConnections_def
  by (erule fold_result_inv [where P = "\<lambda>h. g_nodes h = g_nodes g"]) (auto simp: addConnection_Inr)

text \<open>Adding nodes that are objects of one consistent collection keeps the graph well-formed.\<close>

lemma addNodes_wf:
  assumes "graph_wf g" and "\<And>n. n \<in> set ns \<Longrightarrow> \<not> hasNode g (n_name n) \<or> in_graph g n"
    and "inj_on n_name (set ns)"
  shows "graph_wf (addNodes ns g)"
  using assms
proof (induction ns arbitrary: g)
  case Nil
  then show ?case by (simp add: addNodes_def)
next
  case (Cons n ns)
  then have "graph_wf (addNode n g)" by (intro addNode_wf) auto
  moreover have "\<not> hasNode (addNode n g) (n_name m) \<or> in_graph (addNode n g) m" if "m \<in> set ns" for m
  proof (cases "n_name m = n_name n")
    case True
    with Cons.prems(3) that have "m = n" by (metis inj_onD list.set_intros)
    then show ?thesis by simp
  next
    case False
    with Cons.prems(2) [of m] that show ?thesis
      by (auto simp: hasNode_def map_has_def in_graph_def addNode_def store_simps)
  qed
  ultimately have "graph_wf (addNodes ns (addNode n g))"
    using Cons.IH Cons.prems(3) by (meson inj_on_subset set_subset_Cons)
  then show ?case by (simp add: addNodes_def)
qed

subsection \<open>Removing a node keeps the invariant, unless the node is connected to itself\<close>

lemma in_graph_delete:
  "graph_wf g \<Longrightarrow> in_graph g m \<Longrightarrow> m \<noteq> n \<Longrightarrow> in_graph g n \<Longrightarrow>
    map_of (map_delete (n_name n) (g_nodes g)) (n_name m) = Some m"
  by (auto simp: in_graph_def map_get_delete)

lemma foldl_set_conns_mem:
  "p \<in> set (foldl (\<lambda>m c. map_set (makeKey c) c m) m0 cs) \<Longrightarrow>
    p \<in> set m0 \<or> (\<exists>c \<in> set cs. p = (makeKey c, c))"
proof (induction cs arbitrary: m0)
  case Nil
  then show ?case by simp
next
  case (Cons c cs)
  then have "p \<in> set (map_set (makeKey c) c m0) \<or> (\<exists>d \<in> set cs. p = (makeKey d, d))" by simp
  then show ?case by (auto dest: AList_update_mem)
qed

lemma well_keyed_foldl_set_conns:
  "well_keyed m0 \<Longrightarrow> well_keyed (foldl (\<lambda>m c. map_set (makeKey c) c m) m0 cs)"
  by (induction cs arbitrary: m0) simp_all

lemma reconnections_mem:
  assumes "c \<in> set (reconnections skip incoming outgoing)"
  shows "\<exists>i \<in> set incoming. \<exists>out \<in> set outgoing. gc_from c = gc_from i \<and> gc_to c = gc_to out \<and>
    gc_type c = gc_type i \<and> gc_outputIndex c = gc_outputIndex i \<and> gc_inputIndex c = gc_inputIndex out"
  using assms by (fastforce simp: reconnections_def Let_def)

definition self_connected :: "directed_graph \<Rightarrow> node \<Rightarrow> bool" where
  "self_connected g n \<longleftrightarrow>
     (\<exists>c \<in> set (map_values (g_connections g)). gc_from c = n \<and> gc_to c = n)"

lemma removeNode_wf:
  assumes wf: "graph_wf g" and n: "in_graph g n" and loop: "\<not> self_connected g n"
    and rm: "removeNode n reconnect skip g = Inr (h, new)"
  shows "graph_wf h"
proof -
  define nodes where "nodes = map_delete (n_name n) (g_nodes g)"
  have g_nodes: "g_nodes h = nodes"
    using rm by (auto simp: removeNode_def drop_node_connections_def nodes_def result_simps Let_def
        split: if_splits)
  have in_h: "in_graph h m" if "in_graph g m" "m \<noteq> n" for m
    using in_graph_delete [OF wf that n] by (simp add: in_graph_def g_nodes nodes_def)
  have conn: "k = makeKey c \<and> in_graph h (gc_from c) \<and> in_graph h (gc_to c)"
    if "(k, c) \<in> set (g_connections h)" for k c
  proof (cases "(k, c) \<in> set (g_connections g) \<and> gc_from c \<noteq> n \<and> gc_to c \<noteq> n")
    case True
    with wf show ?thesis by (auto simp: graph_wf_def list_all_iff intro!: in_h)
  next
    case False
    with that rm obtain incoming outgoing where io: "getDirectParentConnections g n = Inr incoming"
        "getDirectChildConnections g n = Inr outgoing" "k = makeKey c"
        "c \<in> set (reconnections skip incoming outgoing)"
      by (auto simp: removeNode_def drop_node_connections_def result_simps Let_def split: if_splits
          dest!: foldl_set_conns_mem)
    obtain i out where ends: "i \<in> set incoming" "out \<in> set outgoing"
        "gc_from c = gc_from i" "gc_to c = gc_to out"
      using reconnections_mem [OF io(4)] by blast
    with io have "i \<in> set (map_values (g_connections g))" "gc_to i = n"
        "out \<in> set (map_values (g_connections g))" "gc_from out = n"
      by (auto simp: result_simps)
    with ends loop wf io(3) show ?thesis
      by (metis graph_wf_conn in_h self_connected_def)
  qed
  have "well_keyed (g_connections h)"
    using rm wf by (auto simp: removeNode_def drop_node_connections_def graph_wf_def result_simps Let_def
        intro!: well_keyed_foldl_set_conns split: if_splits)
  with wf conn show ?thesis
    unfolding graph_wf_def g_nodes nodes_def
    by (auto simp: list_all_iff dest!: AList_delete_mem)
qed

lemma removeNode_nodes:
  "removeNode n reconnect skip g = Inr (h, new) \<Longrightarrow> g_nodes h = map_delete (n_name n) (g_nodes g)"
  by (auto simp: removeNode_def drop_node_connections_def result_simps Let_def split: if_splits)

lemma removeNode_total: "in_graph g n \<Longrightarrow> \<exists>h new. removeNode n reconnect skip g = Inr (h, new)"
  by (simp add: removeNode_def getDirectParentConnections_def getDirectChildConnections_def Let_def)

subsection \<open>Import, export and copy\<close>

text \<open>
  The connection loop of \<^verbatim>\<open>fromWorkflow\<close> and \<^verbatim>\<open>fromNodesAndConnections\<close>, over the way each looks a node
  up by name: \<open>a.ok\<close> fails with no message of its own when a name is unknown. The input type of
  a connection is dropped; its type is the type of the output.
\<close>

definition lookup_ok :: "(string \<Rightarrow> node option) \<Rightarrow> string \<Rightarrow> node result" where
  "lookup_ok lookup nm =
     (case lookup nm of None \<Rightarrow> Inl (AssertionError ''The expression evaluated to a falsy value'')
                      | Some n \<Rightarrow> Inr n)"

definition add_one_connection ::
  "(string \<Rightarrow> node option) \<Rightarrow> node \<Rightarrow> connection_type \<Rightarrow> nat \<Rightarrow> connection \<Rightarrow> directed_graph \<Rightarrow> directed_graph result" where
  "add_one_connection lookup from outputType outputIndex conn g =
     bind_result (lookup_ok lookup (c_node conn)) (\<lambda>to.
       addConnection \<lparr>ci_from = from, ci_to = to, ci_type = Some outputType,
                      ci_outputIndex = Some outputIndex, ci_inputIndex = Some (c_index conn)\<rparr> g)"

definition add_output_connections ::
  "(string \<Rightarrow> node option) \<Rightarrow> node \<Rightarrow> connection_type \<Rightarrow> node_inputs \<Rightarrow> directed_graph \<Rightarrow> directed_graph result" where
  "add_output_connections lookup from outputType outputs g =
     fold_result (\<lambda>(outputIndex, conns).
         fold_result (add_one_connection lookup from outputType outputIndex) (slot_list conns))
       (enumerate 0 outputs) g"

definition add_workflow_connections ::
  "(string \<Rightarrow> node option) \<Rightarrow> connections \<Rightarrow> directed_graph \<Rightarrow> directed_graph result" where
  "add_workflow_connections lookup conns g =
     fold_result (\<lambda>(fromNodeName, iConnection) h.
         bind_result (lookup_ok lookup fromNodeName) (\<lambda>from.
           fold_result (\<lambda>(outputType, outputs). add_output_connections lookup from outputType outputs)
             iConnection h))
       conns g"

definition fromNodesAndConnections :: "node list \<Rightarrow> connections \<Rightarrow> directed_graph result" where
  "fromNodesAndConnections nodes conns =
     (let g = addNodes nodes empty_graph;
          nodeMap = foldl (\<lambda>m n. map_set (n_name n) n m) [] nodes
      in add_workflow_connections (map_get nodeMap) conns g)"

definition fromWorkflow :: "node jsobj \<Rightarrow> connections \<Rightarrow> directed_graph result" where
  \<comment> \<open>the workflow's nodes object and its \<^verbatim>\<open>connectionsBySourceNode\<close>\<close>
  "fromWorkflow nodes conns =
     add_workflow_connections (obj_get nodes) conns (addNodes (map snd nodes) empty_graph)"

definition clone :: "directed_graph \<Rightarrow> directed_graph result" where
  "clone g =
     addConnections (map as_input (getConnections g None))
       (addNodes (map_values (getNodes g)) empty_graph)"

text \<open>
  \<^verbatim>\<open>toIConnections\<close> creates the entry of a source node with the type of the first connection it meets;
  a later connection of another type then indexes \<^verbatim>\<open>undefined\<close>.
\<close>

definition export_connection :: "gconn \<Rightarrow> connections \<Rightarrow> connections result" where
  "export_connection c result =
     (let from = n_name (gc_from c);
          entry = (case obj_get result from of None \<Rightarrow> obj_set (gc_type c) [] [] | Some e \<Rightarrow> e)
      in case obj_get entry (gc_type c) of
           None \<Rightarrow> Inl (TypeError ''Cannot read properties of undefined'')
         | Some outputs \<Rightarrow>
             let i = gc_outputIndex c;
                 group = slot_list (arr_get outputs i) @
                   [\<lparr>c_node = n_name (gc_to c), c_type = gc_type c, c_index = gc_inputIndex c\<rparr>]
             in Inr (obj_set from (obj_set (gc_type c) (arr_set outputs i (Val group)) entry) result))"

definition toIConnections :: "directed_graph \<Rightarrow> connections result" where
  "toIConnections g = fold_result export_connection (map_values (g_connections g)) []"

subsection \<open>A small graph\<close>

text \<open>A trigger and an action, used where a theorem is applied to concrete data.\<close>

definition sample_trigger :: node where
  "sample_trigger = plain_node 0 ''t'' ''n8n-nodes-base.manualTrigger''"

definition sample_action :: node where
  "sample_action = plain_node 1 ''a'' ''n8n-nodes-base.set''"

definition sample_conn :: gconn where
  "sample_conn = \<lparr>gc_from = sample_trigger, gc_to = sample_action, gc_type = Main,
     gc_outputIndex = 0, gc_inputIndex = 0\<rparr>"

definition sample_graph :: directed_graph where
  "sample_graph = \<lparr>g_nodes = [(''t'', sample_trigger), (''a'', sample_action)],
     g_connections = [(''t-main-0-0-a'', sample_conn)]\<rparr>"

lemma sample_graph_wf: "graph_wf sample_graph"
  by code_simp

lemma sample_in_graph: "in_graph sample_graph sample_trigger" "in_graph sample_graph sample_action"
  by code_simp+

lemma sample_enabled: "\<not> is_disabled sample_trigger" "\<not> is_disabled sample_action"
  by code_simp+

lemma sample_distinct: "sample_trigger \<noteq> sample_action"
  by code_simp

lemma in_sample_graph: "in_graph sample_graph n \<longleftrightarrow> n = sample_trigger \<or> n = sample_action"
  using graph_wf_nodes_iff [OF sample_graph_wf, of n] by (auto simp: sample_graph_def)

subsection \<open>Graphs built step by step\<close>

text \<open>
  Every graph that is built from the empty one by adding nodes under fresh names, adding connections and
  removing nodes that are not connected to themselves is well-formed.
\<close>

inductive graph_built :: "directed_graph \<Rightarrow> bool" where
  empty: "graph_built empty_graph"
| node: "graph_built g \<Longrightarrow> \<not> hasNode g (n_name n) \<Longrightarrow> graph_built (addNode n g)"
| connection: "graph_built g \<Longrightarrow> addConnection ci g = Inr h \<Longrightarrow> graph_built h"
| remove: "graph_built g \<Longrightarrow> in_graph g n \<Longrightarrow> \<not> self_connected g n \<Longrightarrow>
    removeNode n reconnect skip g = Inr (h, new) \<Longrightarrow> graph_built h"



text \<open>The side condition on removal is needed.\<close>

definition self_loop_graph :: "directed_graph result" where
  "self_loop_graph =
     addConnections
       [\<lparr>ci_from = sample_action, ci_to = sample_action, ci_type = None, ci_outputIndex = None, ci_inputIndex = None\<rparr>]
       (addNode sample_action empty_graph)"

text \<open>
  Removing a node that is connected to itself, with reconnection, leaves the graph with a connection
  whose end points are no longer in it.
\<close>

theorem removeNode_self_loop_dangles:
  "bind_result self_loop_graph (\<lambda>g. Inr (graph_wf g)) = Inr True \<and>
   bind_result self_loop_graph (\<lambda>g. bind_result (removeNode sample_action True None g)
     (\<lambda>(h, _). Inr (map fst (g_nodes h), length (g_connections h), graph_wf h))) = Inr ([], 1, False)"
  by code_simp

subsection \<open>Exporting connections of two types\<close>

definition two_types_graph :: "directed_graph result" where
  "two_types_graph =
     addConnections
       [\<lparr>ci_from = sample_trigger, ci_to = sample_action, ci_type = None, ci_outputIndex = None, ci_inputIndex = None\<rparr>,
        \<lparr>ci_from = sample_trigger, ci_to = sample_action, ci_type = Some AiTool, ci_outputIndex = None, ci_inputIndex = None\<rparr>]
       (addNodes [sample_trigger, sample_action] empty_graph)"

text \<open>
  \<^verbatim>\<open>toIConnections\<close> throws on a well-formed graph in which a node has outgoing connections of two types.
\<close>

theorem toIConnections_two_types_throws:
  "bind_result two_types_graph (\<lambda>g. Inr (graph_wf g)) = Inr True \<and>
   bind_result two_types_graph toIConnections = Inl (TypeError ''Cannot read properties of undefined'')"
  by code_simp

definition clash_nodes :: "node list" where
  "clash_nodes = [plain_node 0 ''A'' ''t'', plain_node 1 ''x-main-0-0-y'' ''t'',
     plain_node 2 ''A-main-0-0-x'' ''t'', plain_node 3 ''y'' ''t'']"

definition plain_conn :: "node \<Rightarrow> node \<Rightarrow> conn_input" where
  "plain_conn a b = \<lparr>ci_from = a, ci_to = b, ci_type = None, ci_outputIndex = None, ci_inputIndex = None\<rparr>"

text \<open>
  Two different connections can have the same key when a node name contains a dash: the second one
  added replaces the first.
\<close>

theorem makeKey_collides:
  "bind_result (addConnections [plain_conn (clash_nodes ! 0) (clash_nodes ! 1), plain_conn (clash_nodes ! 2) (clash_nodes ! 3)]
          (addNodes clash_nodes empty_graph))
        (\<lambda>g. Inr (map (n_name \<circ> gc_to) (getConnections g None))) = Inr [''y'']"
  by code_simp

end
