(* ===== verification/GraphTraversal.thy ===== *)
theory GraphTraversal
  imports DirectedGraph
begin

section \<open>Children, parents and depth-first search of the graph\<close>

text \<open>
  The recursive methods of \<^verbatim>\<open>DirectedGraph\<close>: \<^verbatim>\<open>getChildren\<close>, \<^verbatim>\<open>getParentConnections\<close> and
  \<^verbatim>\<open>depthFirstSearch\<close>. The recursive call inside the loop body and the loop are one function over
  the list of connections still to be handled; the set the calls share is threaded through. Each
  call first asserts that its node belongs to the graph, so it may throw.
\<close>

definition conns_of :: "directed_graph \<Rightarrow> gconn set" where
  "conns_of g = set (map_values (g_connections g))"

lemma finite_conns_of [simp]: "finite (conns_of g)"
  by (simp add: conns_of_def)

lemma child_conns_subset: "getDirectChildConnections g n = Inr cs \<Longrightarrow> set cs \<subseteq> conns_of g"
  by (auto simp: result_simps conns_of_def)

lemma parent_conns_subset: "getDirectParentConnections g n = Inr cs \<Longrightarrow> set cs \<subseteq> conns_of g"
  by (auto simp: result_simps conns_of_def)

lemma card_Diff_less:
  "finite U \<Longrightarrow> a \<in> U \<Longrightarrow> a \<notin> S \<Longrightarrow> S \<subseteq> T \<Longrightarrow> a \<in> T \<Longrightarrow> card (U - T) < card (U - S)"
  by (intro psubset_card_mono) auto

lemma card_Diff_le: "finite U \<Longrightarrow> V \<subseteq> U \<Longrightarrow> S \<subseteq> T \<Longrightarrow> card (V - T) \<le> card (U - S)"
  by (intro card_mono) auto

subsection \<open>Children\<close>

function children_loop :: "directed_graph \<Rightarrow> gconn list \<Rightarrow> node list \<Rightarrow> node list result" where
  "children_loop g [] children = Inr children"
| "children_loop g (directChild # rest) children =
     (if gc_to directChild \<in> set children then children_loop g rest children
      else bind_result (getDirectChildConnections g (gc_to directChild)) (\<lambda>directChildren.
           bind_result (children_loop g directChildren (children @ [gc_to directChild]))
             (children_loop g rest)))"
  by pat_completeness auto

lemma children_loop_grows:
  "children_loop_dom (g, cs, ch) \<Longrightarrow> children_loop g cs ch = Inr r \<Longrightarrow> set ch \<subseteq> set r"
proof (induction g cs ch arbitrary: r rule: children_loop.pinduct)
  case (1 g children)
  then show ?case by (simp add: children_loop.psimps)
next
  case (2 g c cs ch)
  show ?case
  proof (cases "gc_to c \<in> set ch")
    case True
    with 2 show ?thesis by (simp add: children_loop.psimps)
  next
    case False
    with 2 obtain ds r1 where "getDirectChildConnections g (gc_to c) = Inr ds"
      "children_loop g ds (ch @ [gc_to c]) = Inr r1" "children_loop g cs r1 = Inr r"
      by (auto simp: children_loop.psimps bind_result_eq_Inr)
    with 2 False show ?thesis by fastforce
  qed
qed

termination children_loop
proof (relation "measures [\<lambda>(g, cs, ch). card (gc_to ` (conns_of g \<union> set cs) - set ch),
                           \<lambda>(g, cs, ch). length cs]")
  fix g c cs ch
  have sub: "gc_to ` (conns_of g \<union> set cs) \<subseteq> gc_to ` (conns_of g \<union> set (c # cs))" by auto
  show "((g, cs, ch), g, c # cs, ch) \<in> measures [\<lambda>(g, cs, ch). card (gc_to ` (conns_of g \<union> set cs) - set ch),
      \<lambda>(g, cs, ch). length cs]"
    using card_Diff_le [OF _ sub, of "set ch" "set ch"] by (auto simp: le_less)
  fix ds r1
  assume new: "gc_to c \<notin> set ch" and ds: "getDirectChildConnections g (gc_to c) = Inr ds"
  have "gc_to ` (conns_of g \<union> set ds) \<subseteq> gc_to ` (conns_of g \<union> set (c # cs))"
    using child_conns_subset [OF ds] by auto
  then have "card (gc_to ` (conns_of g \<union> set ds) - set (ch @ [gc_to c])) \<le>
      card (gc_to ` (conns_of g \<union> set (c # cs)) - set (ch @ [gc_to c]))"
    by (intro card_Diff_le) auto
  also have "\<dots> < card (gc_to ` (conns_of g \<union> set (c # cs)) - set ch)"
    using new by (intro card_Diff_less [where a = "gc_to c"]) auto
  finally show "((g, ds, ch @ [gc_to c]), g, c # cs, ch) \<in> measures [\<lambda>(g, cs, ch). card (gc_to ` (conns_of g \<union> set cs) - set ch),
      \<lambda>(g, cs, ch). length cs]" by simp
  assume "children_loop_dom (g, ds, ch @ [gc_to c])" and "children_loop g ds (ch @ [gc_to c]) = Inr r1"
  then have "set (ch @ [gc_to c]) \<subseteq> set r1" by (rule children_loop_grows)
  then have "card (gc_to ` (conns_of g \<union> set cs) - set r1) \<le>
      card (gc_to ` (conns_of g \<union> set (c # cs)) - set (ch @ [gc_to c]))"
    using sub by (intro card_Diff_le) auto
  also have "\<dots> < card (gc_to ` (conns_of g \<union> set (c # cs)) - set ch)"
    using new by (intro card_Diff_less [where a = "gc_to c"]) auto
  finally show "((g, cs, r1), g, c # cs, ch) \<in> measures [\<lambda>(g, cs, ch). card (gc_to ` (conns_of g \<union> set cs) - set ch),
      \<lambda>(g, cs, ch). length cs]" by simp
qed simp

definition getChildrenRecursive :: "directed_graph \<Rightarrow> node \<Rightarrow> node list \<Rightarrow> node list result" where
  "getChildrenRecursive g n children =
     bind_result (getDirectChildConnections g n) (\<lambda>directChildren. children_loop g directChildren children)"

definition getChildren :: "directed_graph \<Rightarrow> node \<Rightarrow> node list result" where
  "getChildren g n = getChildrenRecursive g n []"

subsection \<open>Parent connections\<close>

function parents_loop :: "directed_graph \<Rightarrow> gconn list \<Rightarrow> gconn list \<Rightarrow> gconn list result" where
  "parents_loop g [] connections = Inr connections"
| "parents_loop g (connection # rest) connections =
     (if connection \<in> set connections then parents_loop g rest connections
      else bind_result (getDirectParentConnections g (gc_from connection)) (\<lambda>parentConnections.
           bind_result (parents_loop g parentConnections (connections @ [connection]))
             (parents_loop g rest)))"
  by pat_completeness auto

lemma parents_loop_grows:
  "parents_loop_dom (g, cs, seen) \<Longrightarrow> parents_loop g cs seen = Inr r \<Longrightarrow> set seen \<subseteq> set r"
proof (induction g cs seen arbitrary: r rule: parents_loop.pinduct)
  case (1 g seen)
  then show ?case by (simp add: parents_loop.psimps)
next
  case (2 g c cs seen)
  show ?case
  proof (cases "c \<in> set seen")
    case True
    with 2 show ?thesis by (simp add: parents_loop.psimps)
  next
    case False
    with 2 obtain ds r1 where "getDirectParentConnections g (gc_from c) = Inr ds"
      "parents_loop g ds (seen @ [c]) = Inr r1" "parents_loop g cs r1 = Inr r"
      by (auto simp: parents_loop.psimps bind_result_eq_Inr)
    with 2 False show ?thesis by fastforce
  qed
qed

termination parents_loop
proof (relation "measures [\<lambda>(g, cs, seen). card ((conns_of g \<union> set cs) - set seen),
                           \<lambda>(g, cs, seen). length cs]")
  fix g c cs seen
  have sub: "conns_of g \<union> set cs \<subseteq> conns_of g \<union> set (c # cs)" by auto
  show "((g, cs, seen), g, c # cs, seen) \<in> measures [\<lambda>(g, cs, seen). card ((conns_of g \<union> set cs) - set seen),
      \<lambda>(g, cs, seen). length cs]"
    using card_Diff_le [OF _ sub, of "set seen" "set seen"] by (auto simp: le_less)
  fix ds r1
  assume new: "c \<notin> set seen" and ds: "getDirectParentConnections g (gc_from c) = Inr ds"
  have "conns_of g \<union> set ds \<subseteq> conns_of g \<union> set (c # cs)"
    using parent_conns_subset [OF ds] by auto
  then have "card ((conns_of g \<union> set ds) - set (seen @ [c])) \<le>
      card ((conns_of g \<union> set (c # cs)) - set (seen @ [c]))"
    by (intro card_Diff_le) auto
  also have "\<dots> < card ((conns_of g \<union> set (c # cs)) - set seen)"
    using new by (intro card_Diff_less [where a = c]) auto
  finally show "((g, ds, seen @ [c]), g, c # cs, seen) \<in> measures [\<lambda>(g, cs, seen). card ((conns_of g \<union> set cs) - set seen),
      \<lambda>(g, cs, seen). length cs]" by simp
  assume "parents_loop_dom (g, ds, seen @ [c])" and "parents_loop g ds (seen @ [c]) = Inr r1"
  then have "set (seen @ [c]) \<subseteq> set r1" by (rule parents_loop_grows)
  then have "card ((conns_of g \<union> set cs) - set r1) \<le> card ((conns_of g \<union> set (c # cs)) - set (seen @ [c]))"
    using sub by (intro card_Diff_le) auto
  also have "\<dots> < card ((conns_of g \<union> set (c # cs)) - set seen)"
    using new by (intro card_Diff_less [where a = c]) auto
  finally show "((g, cs, r1), g, c # cs, seen) \<in> measures [\<lambda>(g, cs, seen). card ((conns_of g \<union> set cs) - set seen),
      \<lambda>(g, cs, seen). length cs]" by simp
qed simp

definition getParentConnectionsRecursive :: "directed_graph \<Rightarrow> node \<Rightarrow> gconn list \<Rightarrow> gconn list result" where
  "getParentConnectionsRecursive g n connections =
     bind_result (getDirectParentConnections g n)
       (\<lambda>parentConnections. parents_loop g parentConnections connections)"

definition getParentConnections :: "directed_graph \<Rightarrow> node \<Rightarrow> gconn list result" where
  "getParentConnections g n = getParentConnectionsRecursive g n []"

subsection \<open>Both loops are depth-first visits\<close>

lemma finite_targets [simp]: "finite (gc_to ` conns_of g)"
  by simp

interpretation child_visit: dfs_visit "children_loop g" gc_to "getDirectChildConnections g" "gc_to ` conns_of g"
  for g
  by unfold_locales (auto dest: child_conns_subset)

interpretation parent_visit: dfs_visit "parents_loop g" "\<lambda>c. c"
  "\<lambda>c. getDirectParentConnections g (gc_from c)" "conns_of g"
  for g
  by unfold_locales (auto dest: parent_conns_subset)

text \<open>The edge relation of a graph, on nodes.\<close>

definition succ_rel :: "directed_graph \<Rightarrow> (node \<times> node) set" where
  "succ_rel g = {(gc_from c, gc_to c) | c. c \<in> conns_of g}"

lemma succ_relI: "c \<in> conns_of g \<Longrightarrow> (gc_from c, gc_to c) \<in> succ_rel g"
  by (auto simp: succ_rel_def)

lemma succ_rel_iff: "(a, b) \<in> succ_rel g \<longleftrightarrow> (\<exists>c \<in> conns_of g. gc_from c = a \<and> gc_to c = b)"
  by (auto simp: succ_rel_def)

lemma child_edges:
  assumes "graph_wf g"
  shows "edges_of gc_to (getDirectChildConnections g) = succ_rel g"
proof -
  have "in_graph g (gc_from c)" if "c \<in> conns_of g" for c
    using graph_wf_conn [OF assms] that by (simp add: conns_of_def)
  then show ?thesis
    by (force simp: edges_of_def succ_rel_def result_simps conns_of_def)
qed

lemma getChildren_reach:
  assumes wf: "graph_wf g" and n: "in_graph g n"
  shows "\<exists>r. getChildren g n = Inr r \<and> distinct r \<and> set r = (succ_rel g)\<^sup>+ `` {n}"
proof -
  define cs where "cs = filter (\<lambda>c. gc_from c = n) (map_values (g_connections g))"
  have cs: "getDirectChildConnections g n = Inr cs"
    using n by (simp add: cs_def result_simps)
  have sub: "gc_to ` set cs \<subseteq> gc_to ` conns_of g"
    using child_conns_subset [OF cs] by auto
  have "\<exists>ds. getDirectChildConnections g a = Inr ds" if "a \<in> gc_to ` conns_of g" for a
    using that graph_wf_conn [OF wf] by (auto simp: result_simps conns_of_def)
  then obtain r where r: "children_loop g cs [] = Inr r"
    using child_visit.visit_total [OF _ sub] by blast
  have "gc_to ` set cs = succ_rel g `` {n}"
    by (force simp: cs_def succ_rel_def conns_of_def)
  with child_visit.visit_reachable [OF r sub] child_edges [OF wf]
  have "distinct r" and "set r = (succ_rel g)\<^sup>* `` (succ_rel g `` {n})" by auto
  moreover have "(succ_rel g)\<^sup>* `` (succ_rel g `` {n}) = (succ_rel g)\<^sup>+ `` {n}"
    by (auto simp: trancl_unfold_left)
  ultimately show ?thesis
    using cs r by (auto simp: getChildren_def getChildrenRecursive_def)
qed

lemma parent_edge_mem: "(c, d) \<in> edges_of (\<lambda>c. c) (\<lambda>c. getDirectParentConnections g (gc_from c)) \<Longrightarrow>
    d \<in> conns_of g \<and> gc_to d = gc_from c"
  by (auto simp: edges_of_def result_simps conns_of_def)

lemma getParentConnections_reach:
  assumes wf: "graph_wf g" and n: "in_graph g n"
  shows "\<exists>r. getParentConnections g n = Inr r \<and> distinct r \<and>
    set r = {c \<in> conns_of g. (gc_to c, n) \<in> (succ_rel g)\<^sup>*}"
proof -
  let ?P = "\<lambda>c. getDirectParentConnections g (gc_from c)"
  let ?E = "edges_of (\<lambda>c. c) ?P"
  define cs where "cs = filter (\<lambda>c. gc_to c = n) (map_values (g_connections g))"
  have cs: "getDirectParentConnections g n = Inr cs"
    using n by (simp add: cs_def result_simps)
  have sub: "(\<lambda>c. c) ` set cs \<subseteq> conns_of g"
    using parent_conns_subset [OF cs] by auto
  have defd: "\<exists>ds. ?P a = Inr ds" if "a \<in> conns_of g" for a
    using that graph_wf_conn [OF wf] by (auto simp: result_simps conns_of_def)
  then obtain r where r: "parents_loop g cs [] = Inr r"
    using parent_visit.visit_total [OF _ sub] by blast
  note spec = parent_visit.visit_reachable [OF r sub]
  have down: "c \<in> conns_of g \<and> (gc_to c, n) \<in> (succ_rel g)\<^sup>*" if "(b, c) \<in> ?E\<^sup>*" "b \<in> set cs" for b c
    using that
  proof (induction rule: rtrancl_induct)
    case base
    then show ?case using sub by (auto simp: cs_def)
  next
    case (step c d)
    then show ?case
      using parent_edge_mem succ_relI [of c g] by (metis converse_rtrancl_into_rtrancl)
  qed
  have up: "c \<in> ?E\<^sup>* `` set cs" if "(m, n) \<in> (succ_rel g)\<^sup>*" "gc_to c = m" "c \<in> conns_of g" for m c
    using that
  proof (induction m arbitrary: c rule: converse_rtrancl_induct)
    case base
    then show ?case by (auto simp: cs_def conns_of_def)
  next
    case (step m k)
    then obtain d where d: "d \<in> conns_of g" "gc_from d = m" "gc_to d = k" by (auto simp: succ_rel_def)
    then have "d \<in> ?E\<^sup>* `` set cs" using step by blast
    moreover have "(d, c) \<in> ?E"
      using defd [OF d(1)] d step.prems by (auto simp: edges_of_def result_simps conns_of_def)
    ultimately show ?case by (auto intro: rtrancl_into_rtrancl)
  qed
  have "set r = {c \<in> conns_of g. (gc_to c, n) \<in> (succ_rel g)\<^sup>*}"
    using spec(1) down up by auto
  with spec(2) cs r show ?thesis
    by (auto simp: getParentConnections_def getParentConnectionsRecursive_def)
qed

subsection \<open>The small graph\<close>

lemma succ_sample_graph: "succ_rel sample_graph = {(sample_trigger, sample_action)}"
  by (auto simp: succ_rel_def conns_of_def sample_graph_def sample_conn_def)

lemma reach_sample_graph: "in_graph sample_graph n \<Longrightarrow> (sample_trigger, n) \<in> (succ_rel sample_graph)\<^sup>*"
  unfolding in_sample_graph succ_sample_graph by auto

lemma acyclic_sample_graph: "(n, n) \<notin> (succ_rel sample_graph)\<^sup>+"
proof
  assume "(n, n) \<in> (succ_rel sample_graph)\<^sup>+"
  then have "(n, n) \<in> {(sample_trigger, sample_action)}\<^sup>+" by (simp only: succ_sample_graph)
  moreover have "{(sample_trigger, sample_action)}\<^sup>+ = {(sample_trigger, sample_action)}"
    using sample_distinct by (intro trancl_id transI) auto
  ultimately show False using sample_distinct by auto
qed

text \<open>
  On a well-formed graph \<^verbatim>\<open>getChildren\<close> returns, without duplicates, exactly the nodes that can be
  reached from the node over one or more connections, and \<^verbatim>\<open>getParentConnections\<close> returns, without
  duplicates, exactly the connections from whose target the node can be reached.
\<close>

theorem traversals_complete:
  assumes "graph_wf g" and "in_graph g n"
  shows "(\<exists>r. getChildren g n = Inr r \<and> distinct r \<and> set r = (succ_rel g)\<^sup>+ `` {n}) \<and>
    (\<exists>r. getParentConnections g n = Inr r \<and> distinct r \<and>
       set r = {c \<in> conns_of g. (gc_to c, n) \<in> (succ_rel g)\<^sup>*})"
  using getChildren_reach [OF assms] getParentConnections_reach [OF assms] by blast

theorem traversals_complete_witness:
  "(\<exists>r. getChildren sample_graph sample_trigger = Inr r \<and> distinct r \<and>
      set r = (succ_rel sample_graph)\<^sup>+ `` {sample_trigger}) \<and>
    (\<exists>r. getParentConnections sample_graph sample_trigger = Inr r \<and> distinct r \<and>
       set r = {c \<in> conns_of sample_graph. (gc_to c, sample_trigger) \<in> (succ_rel sample_graph)\<^sup>*})"
  by (rule traversals_complete [OF sample_graph_wf sample_in_graph(1)])

end
