(* ===== verification/GraphSearch.thy ===== *)
theory GraphSearch
  imports GraphTraversal
begin

section \<open>Depth-first search\<close>

text \<open>
  \<^verbatim>\<open>depthFirstSearch\<close> and its recursive worker: the first node, in depth-first order from \<open>from\<close>, that
  satisfies the predicate. The recursive call and the loop over the children are one function; the
  set \<open>seen\<close> is threaded and returned.
\<close>

function dfs_loop ::
  "directed_graph \<Rightarrow> (node \<Rightarrow> bool) \<Rightarrow> gconn list \<Rightarrow> node list \<Rightarrow> (node option \<times> node list) result" where
  "dfs_loop g fn [] seen = Inr (None, seen)"
| "dfs_loop g fn (childConnection # rest) seen =
     (if gc_to childConnection \<in> set seen then dfs_loop g fn rest seen
      else if fn (gc_to childConnection)
           then Inr (Some (gc_to childConnection), seen @ [gc_to childConnection])
      else bind_result (getDirectChildConnections g (gc_to childConnection)) (\<lambda>children.
           bind_result (dfs_loop g fn children (seen @ [gc_to childConnection])) (\<lambda>(found, seen').
             case found of Some n \<Rightarrow> Inr (Some n, seen') | None \<Rightarrow> dfs_loop g fn rest seen')))"
  by pat_completeness auto

lemma dfs_loop_grows:
  "dfs_loop_dom (g, fn, cs, seen) \<Longrightarrow> dfs_loop g fn cs seen = Inr (f, r) \<Longrightarrow> set seen \<subseteq> set r"
proof (induction g fn cs seen arbitrary: f r rule: dfs_loop.pinduct)
  case (1 g fn seen)
  then show ?case by (simp add: dfs_loop.psimps)
next
  case (2 g fn c cs seen)
  show ?case
  proof (cases "gc_to c \<in> set seen \<or> fn (gc_to c)")
    case True
    with 2 show ?thesis by (auto simp: dfs_loop.psimps split: if_splits)
  next
    case False
    with 2 obtain ds f1 r1 where ds: "getDirectChildConnections g (gc_to c) = Inr ds"
      and r1: "dfs_loop g fn ds (seen @ [gc_to c]) = Inr (f1, r1)"
      and r: "(case f1 of Some n \<Rightarrow> Inr (Some n, r1) | None \<Rightarrow> dfs_loop g fn cs r1) = Inr (f, r)"
      by (auto simp: dfs_loop.psimps bind_result_eq_Inr)
    have "set (seen @ [gc_to c]) \<subseteq> set r1"
      using 2(3) False ds r1 by blast
    moreover have "set r1 \<subseteq> set r"
      using 2(4) False ds r1 r by (fastforce split: option.splits)
    ultimately show ?thesis by auto
  qed
qed

termination dfs_loop
proof (relation "measures [\<lambda>(g, fn, cs, seen). card (gc_to ` (conns_of g \<union> set cs) - set seen),
                           \<lambda>(g, fn, cs, seen). length cs]")
  fix g c cs seen and fn :: "node \<Rightarrow> bool"
  have sub: "gc_to ` (conns_of g \<union> set cs) \<subseteq> gc_to ` (conns_of g \<union> set (c # cs))" by auto
  show "((g, fn, cs, seen), g, fn, c # cs, seen) \<in> measures [\<lambda>(g, fn, cs, seen). card (gc_to ` (conns_of g \<union> set cs) - set seen),
      \<lambda>(g, fn, cs, seen). length cs]"
    using card_Diff_le [OF _ sub, of "set seen" "set seen"] by (auto simp: le_less)
  fix ds p f1 r1
  assume new: "gc_to c \<notin> set seen" and ds: "getDirectChildConnections g (gc_to c) = Inr ds"
  have "gc_to ` (conns_of g \<union> set ds) \<subseteq> gc_to ` (conns_of g \<union> set (c # cs))"
    using child_conns_subset [OF ds] by auto
  then have "card (gc_to ` (conns_of g \<union> set ds) - set (seen @ [gc_to c])) \<le>
      card (gc_to ` (conns_of g \<union> set (c # cs)) - set (seen @ [gc_to c]))"
    by (intro card_Diff_le) auto
  also have "\<dots> < card (gc_to ` (conns_of g \<union> set (c # cs)) - set seen)"
    using new by (intro card_Diff_less [where a = "gc_to c"]) auto
  finally show "((g, fn, ds, seen @ [gc_to c]), g, fn, c # cs, seen) \<in> measures [\<lambda>(g, fn, cs, seen). card (gc_to ` (conns_of g \<union> set cs) - set seen),
      \<lambda>(g, fn, cs, seen). length cs]" by simp
  assume "dfs_loop_dom (g, fn, ds, seen @ [gc_to c])"
    and "dfs_loop g fn ds (seen @ [gc_to c]) = Inr p" and "(f1, r1) = p"
  then have "set (seen @ [gc_to c]) \<subseteq> set r1" by (metis dfs_loop_grows)
  then have "card (gc_to ` (conns_of g \<union> set cs) - set r1) \<le>
      card (gc_to ` (conns_of g \<union> set (c # cs)) - set (seen @ [gc_to c]))"
    using sub by (intro card_Diff_le) auto
  also have "\<dots> < card (gc_to ` (conns_of g \<union> set (c # cs)) - set seen)"
    using new by (intro card_Diff_less [where a = "gc_to c"]) auto
  finally show "((g, fn, cs, r1), g, fn, c # cs, seen) \<in> measures [\<lambda>(g, fn, cs, seen). card (gc_to ` (conns_of g \<union> set cs) - set seen),
      \<lambda>(g, fn, cs, seen). length cs]" by simp
qed simp

definition depthFirstSearchRecursive ::
  "directed_graph \<Rightarrow> node \<Rightarrow> (node \<Rightarrow> bool) \<Rightarrow> node list \<Rightarrow> (node option \<times> node list) result" where
  "depthFirstSearchRecursive g from fn seen =
     (if from \<in> set seen then Inr (None, seen)
      else if fn from then Inr (Some from, seen @ [from])
      else bind_result (getDirectChildConnections g from)
             (\<lambda>children. dfs_loop g fn children (seen @ [from])))"

definition depthFirstSearch :: "directed_graph \<Rightarrow> node \<Rightarrow> (node \<Rightarrow> bool) \<Rightarrow> node option result" where
  "depthFirstSearch g from fn =
     bind_result (depthFirstSearchRecursive g from fn []) (\<lambda>(found, _). Inr found)"

subsection \<open>What the search finds\<close>

lemma dfs_loop_descend:
  assumes "gc_to c \<notin> set seen" and "\<not> fn (gc_to c)"
  shows "dfs_loop g fn (c # cs) seen = Inr (f, r) \<longleftrightarrow>
    (\<exists>ds f1 r1. getDirectChildConnections g (gc_to c) = Inr ds \<and>
       dfs_loop g fn ds (seen @ [gc_to c]) = Inr (f1, r1) \<and>
       (if f1 = None then dfs_loop g fn cs r1 = Inr (f, r) else f = f1 \<and> r = r1))"
  using assms by (auto simp: bind_result_eq_Inr split: option.splits)

lemma dfs_loop_None:
  "dfs_loop g fn cs seen = Inr (None, r) \<Longrightarrow>
    children_loop g cs seen = Inr r \<and> (\<forall>n \<in> set r - set seen. \<not> fn n)"
proof (induction g fn cs seen arbitrary: r rule: dfs_loop.induct)
  case (1 g fn seen)
  then show ?case by simp
next
  case (2 g fn c cs seen)
  show ?case
  proof (cases "gc_to c \<in> set seen")
    case True
    with 2 show ?thesis by simp
  next
    case False
    with "2.prems" obtain ds r1 where steps: "\<not> fn (gc_to c)" "getDirectChildConnections g (gc_to c) = Inr ds"
      "dfs_loop g fn ds (seen @ [gc_to c]) = Inr (None, r1)" "dfs_loop g fn cs r1 = Inr (None, r)"
      by (auto simp: bind_result_eq_Inr split: if_splits option.splits)
    with 2 False have "children_loop g ds (seen @ [gc_to c]) = Inr r1 \<and> (\<forall>n \<in> set r1 - set (seen @ [gc_to c]). \<not> fn n)"
      and "children_loop g cs r1 = Inr r \<and> (\<forall>n \<in> set r - set r1. \<not> fn n)" by blast+
    with False steps show ?thesis by auto
  qed
qed

lemma dfs_loop_Some:
  assumes "graph_wf g"
  shows "dfs_loop g fn cs seen = Inr (Some m, r) \<Longrightarrow>
    fn m \<and> m \<in> (succ_rel g)\<^sup>* `` (gc_to ` set cs)"
proof (induction g fn cs seen arbitrary: m r rule: dfs_loop.induct)
  case (1 g fn seen)
  then show ?case by simp
next
  case (2 g fn c cs seen)
  consider "gc_to c \<in> set seen" | "gc_to c \<notin> set seen" "fn (gc_to c)" | "gc_to c \<notin> set seen" "\<not> fn (gc_to c)"
    by blast
  then show ?case
  proof cases
    case 1
    with 2 show ?thesis by auto
  next
    case 2
    with "2.prems" show ?thesis by auto
  next
    case 3
    with "2.prems" obtain ds f1 r1 where ds: "getDirectChildConnections g (gc_to c) = Inr ds"
      and r1: "dfs_loop g fn ds (seen @ [gc_to c]) = Inr (f1, r1)"
      and r: "if f1 = None then dfs_loop g fn cs r1 = Inr (Some m, r) else Some m = f1 \<and> r = r1"
      using dfs_loop_descend by blast
    have "(gc_to c, gc_to d) \<in> succ_rel g" if "d \<in> set ds" for d
      using ds that succ_relI [of d g] by (auto simp: result_simps conns_of_def)
    then have "(succ_rel g)\<^sup>* `` (gc_to ` set ds) \<subseteq> (succ_rel g)\<^sup>* `` {gc_to c}"
      by (auto intro: converse_rtrancl_into_rtrancl)
    moreover have "fn m \<and> m \<in> (succ_rel g)\<^sup>* `` (gc_to ` set (if f1 = None then cs else ds))"
    proof (cases f1)
      case None
      with r "2.IH"(3) [OF 3 ds r1 refl None] show ?thesis by simp
    next
      case (Some k)
      with r r1 "2.IH"(2) [OF 3 ds] show ?thesis by simp
    qed
    ultimately show ?thesis by (cases f1) auto
  qed
qed

lemma dfs_loop_total:
  assumes "graph_wf g"
  shows "set cs \<subseteq> conns_of g \<Longrightarrow> \<exists>f r. dfs_loop g fn cs seen = Inr (f, r)"
  using assms
proof (induction g fn cs seen rule: dfs_loop.induct)
  case (1 g fn seen)
  then show ?case by simp
next
  case (2 g fn c cs seen)
  show ?case
  proof (cases "gc_to c \<in> set seen \<or> fn (gc_to c)")
    case True
    with 2 show ?thesis by auto
  next
    case False
    from 2 have "in_graph g (gc_to c)" using graph_wf_conn by (auto simp: conns_of_def)
    then obtain ds where ds: "getDirectChildConnections g (gc_to c) = Inr ds"
      by (auto simp: result_simps)
    have "\<exists>f r. dfs_loop g fn ds (seen @ [gc_to c]) = Inr (f, r)"
      using "2.IH"(2) [OF _ _ ds] False child_conns_subset [OF ds] "2.prems"(2) by blast
    then obtain f1 r1 where r1: "dfs_loop g fn ds (seen @ [gc_to c]) = Inr (f1, r1)" by blast
    show ?thesis
    proof (cases f1)
      case None
      then obtain f r where "dfs_loop g fn cs r1 = Inr (f, r)"
        using "2.IH"(3) [of ds "(f1, r1)" f1 r1] False ds r1 "2.prems" by auto
      with None False ds r1 show ?thesis by simp
    next
      case (Some n)
      with False ds r1 show ?thesis by simp
    qed
  qed
qed

text \<open>
  On a well-formed graph the search returns; it finds a node satisfying the predicate that is
  reachable from the start, and finds none only if no reachable node satisfies it.
\<close>

lemma depthFirstSearch_finds:
  assumes wf: "graph_wf g" and n: "in_graph g n"
  shows "\<exists>found. depthFirstSearch g n fn = Inr found \<and>
    (case found of
       None \<Rightarrow> \<forall>m. (n, m) \<in> (succ_rel g)\<^sup>* \<longrightarrow> \<not> fn m
     | Some m \<Rightarrow> fn m \<and> (n, m) \<in> (succ_rel g)\<^sup>*)"
proof (cases "fn n")
  case True
  then show ?thesis by (simp add: depthFirstSearch_def depthFirstSearchRecursive_def)
next
  case False
  define cs where "cs = filter (\<lambda>c. gc_from c = n) (map_values (g_connections g))"
  have cs: "getDirectChildConnections g n = Inr cs" using n by (simp add: cs_def result_simps)
  have sub: "set cs \<subseteq> conns_of g" using child_conns_subset [OF cs] .
  then have subU: "gc_to ` set cs \<subseteq> gc_to ` conns_of g" by auto
  have img: "gc_to ` set cs = succ_rel g `` {n}"
    by (force simp: cs_def succ_rel_def conns_of_def)
  obtain f r where fr: "dfs_loop g fn cs [n] = Inr (f, r)"
    using dfs_loop_total [OF wf sub] by blast
  have dfs: "depthFirstSearch g n fn = Inr f"
    using False cs fr by (simp add: depthFirstSearch_def depthFirstSearchRecursive_def)
  show ?thesis
  proof (cases f)
    case None
    with fr have loop: "children_loop g cs [n] = Inr r" and none: "\<forall>m \<in> set r - {n}. \<not> fn m"
      using dfs_loop_None by fastforce+
    from child_visit.visit_spec [OF loop subU] obtain new where new: "r = [n] @ new"
      "gc_to ` set cs \<subseteq> set r" "\<forall>a \<in> set new. \<forall>b. (a, b) \<in> succ_rel g \<longrightarrow> b \<in> set r"
      unfolding child_visit.visited_by_def child_edges [OF wf] by blast
    have "(succ_rel g)\<^sup>* `` {n} \<subseteq> set r"
      using new img by (intro closed_reach) auto
    with none False dfs None show ?thesis by auto
  next
    case (Some m)
    have "fn m" "m \<in> (succ_rel g)\<^sup>* `` (succ_rel g `` {n})"
      using dfs_loop_Some [OF wf fr [unfolded Some]] img by simp_all
    with dfs Some show ?thesis by (auto intro: converse_rtrancl_into_rtrancl)
  qed
qed

end
