(* ===== verification/GraphSCC.thy ===== *)
theory GraphSCC
  imports GraphTraversal
begin

section \<open>Strongly connected components\<close>

text \<open>
  \<^verbatim>\<open>getStronglyConnectedComponents\<close>. The variables the closure \<^verbatim>\<open>followNode\<close> shares are the record
  \<open>scc_state\<close>; \<^verbatim>\<open>followNode\<close> and its loop over the children are two mutually recursive functions. The
  stack grows at its end, as the JavaScript array does.

  The code is a variant of Tarjan's algorithm that pops only the nodes whose low-link equals the id of
  the root of the component. That is sound (what it reports is strongly connected and no node is
  reported twice) but not complete: a node whose low-link was not lowered all the way to the root
  stops the popping, and the whole component is then never reported.
\<close>

record scc_state =
  sc_id :: nat
  sc_visited :: "node list"
  sc_ids :: "(node, nat) jsmap"
  sc_low :: "(node, nat) jsmap"
  sc_stack :: "node list"
  sc_components :: "node list list"

definition scc_init :: scc_state where
  "scc_init = \<lparr>sc_id = 0, sc_visited = [], sc_ids = [], sc_low = [], sc_stack = [], sc_components = []\<rparr>"

definition scc_enter :: "node \<Rightarrow> scc_state \<Rightarrow> scc_state" where
  "scc_enter n st =
     st\<lparr>sc_visited := set_add n (sc_visited st), sc_low := map_set n (sc_id st) (sc_low st),
        sc_ids := map_set n (sc_id st) (sc_ids st), sc_id := Suc (sc_id st),
        sc_stack := sc_stack st @ [n]\<rparr>"

definition scc_relax :: "node \<Rightarrow> node \<Rightarrow> scc_state \<Rightarrow> scc_state result" where
  \<comment> \<open>after the visit of a child: take over its low-link if it is on the stack\<close>
  "scc_relax n child st =
     (if child \<in> set (sc_stack st) then
        case (map_get (sc_low st) child, map_get (sc_low st) n) of
          (Some childLow, Some ownLow) \<Rightarrow> Inr (st\<lparr>sc_low := map_set n (min childLow ownLow) (sc_low st)\<rparr>)
        | _ \<Rightarrow> Inl (AssertionError ''The expression evaluated to a falsy value'')
      else Inr st)"

fun pop_component :: "(node, nat) jsmap \<Rightarrow> nat \<Rightarrow> node list \<Rightarrow> node list \<Rightarrow> node list \<times> node list" where
  \<comment> \<open>the \<^verbatim>\<open>while\<close> loop: the remaining stack, and the component\<close>
  "pop_component low ownId stack scc =
     (if stack \<noteq> [] \<and> map_get low (last stack) = Some ownId
      then pop_component low ownId (butlast stack) (set_add (last stack) scc)
      else (stack, scc))"

declare pop_component.simps [simp del]

definition scc_close :: "node \<Rightarrow> scc_state \<Rightarrow> scc_state result" where
  "scc_close n st =
     (case (map_get (sc_ids st) n, map_get (sc_low st) n) of
        (Some ownId, Some ownLow) \<Rightarrow>
          (if ownId = ownLow then
             (let (stack, scc) = pop_component (sc_low st) ownId (sc_stack st) []
              in Inr (st\<lparr>sc_stack := stack,
                         sc_components := (if scc \<noteq> [] then sc_components st @ [scc] else sc_components st)\<rparr>))
           else Inr st)
      | _ \<Rightarrow> Inl (AssertionError ''The expression evaluated to a falsy value''))"

lemma scc_relax_visited: "scc_relax n c st = Inr st' \<Longrightarrow> sc_visited st' = sc_visited st"
  by (auto simp: scc_relax_def split: if_splits option.splits)

lemma scc_close_visited: "scc_close n st = Inr st' \<Longrightarrow> sc_visited st' = sc_visited st"
  by (auto simp: scc_close_def split: if_splits option.splits prod.splits)

function follow_node :: "directed_graph \<Rightarrow> node \<Rightarrow> scc_state \<Rightarrow> scc_state result"
  and follow_children :: "directed_graph \<Rightarrow> node \<Rightarrow> node list \<Rightarrow> scc_state \<Rightarrow> scc_state result" where
  "follow_node g n st =
     (if n \<in> set (sc_visited st) then Inr st
      else bind_result (getDirectChildConnections g n) (\<lambda>cs.
           bind_result (follow_children g n (map gc_to cs) (scc_enter n st)) (scc_close n)))"
| "follow_children g n [] st = Inr st"
| "follow_children g n (child # rest) st =
     bind_result (follow_node g child st) (\<lambda>st1.
     bind_result (scc_relax n child st1) (follow_children g n rest))"
  by pat_completeness auto

lemma follow_grows:
  shows "follow_node_follow_children_dom (Inl (g, n, st)) \<Longrightarrow> follow_node g n st = Inr st' \<Longrightarrow>
      set (sc_visited st) \<subseteq> set (sc_visited st')"
    and "follow_node_follow_children_dom (Inr (g, n, cs, st)) \<Longrightarrow> follow_children g n cs st = Inr st' \<Longrightarrow>
      set (sc_visited st) \<subseteq> set (sc_visited st')"
proof (induction g n st and g n cs st arbitrary: st' and st' rule: follow_node_follow_children.pinduct)
  case (1 g n st)
  show ?case
  proof (cases "n \<in> set (sc_visited st)")
    case True
    with 1 show ?thesis by (simp add: follow_node.psimps)
  next
    case False
    with 1 obtain cs st1 where "getDirectChildConnections g n = Inr cs"
      "follow_children g n (map gc_to cs) (scc_enter n st) = Inr st1" "scc_close n st1 = Inr st'"
      by (auto simp: follow_node.psimps bind_result_eq_Inr)
    with 1 False show ?thesis
      by (force simp: scc_enter_def dest: scc_close_visited)
  qed
next
  case (2 g n st)
  then show ?case by (simp add: follow_children.psimps)
next
  case (3 g n c cs st)
  then obtain st1 st2 where "follow_node g c st = Inr st1" "scc_relax n c st1 = Inr st2"
    "follow_children g n cs st2 = Inr st'"
    by (auto simp: follow_children.psimps bind_result_eq_Inr)
  with 3 show ?case by (metis scc_relax_visited subset_trans)
qed

definition unvisited :: "directed_graph \<Rightarrow> scc_state \<Rightarrow> nat" where
  "unvisited g st = card (set (map_values (g_nodes g)) - set (sc_visited st))"

lemma unvisited_mono: "set (sc_visited st) \<subseteq> set (sc_visited st') \<Longrightarrow> unvisited g st' \<le> unvisited g st"
  by (auto simp: unvisited_def intro!: card_mono)

lemma unvisited_enter:
  assumes "in_graph g n" and "n \<notin> set (sc_visited st)"
  shows "unvisited g (scc_enter n st) < unvisited g st"
proof -
  have "set (sc_visited (scc_enter n st)) = insert n (set (sc_visited st))"
    by (simp add: scc_enter_def)
  then show ?thesis
    using in_graph_in_nodes [OF assms(1)] assms(2) unfolding unvisited_def
    by (intro psubset_card_mono) auto
qed

termination follow_node
proof (relation "measures [\<lambda>x. case x of Inl (g, n, st) \<Rightarrow> unvisited g st | Inr (g, n, cs, st) \<Rightarrow> unvisited g st,
                           \<lambda>x. case x of Inl _ \<Rightarrow> 0 | Inr (g, n, cs, st) \<Rightarrow> Suc (length cs)]", goal_cases)
  case 1
  then show ?case by simp
next
  case (2 g n st cs)
  then show ?case using unvisited_enter [of g n st] by (auto simp: result_simps)
next
  case (3 g n c cs st)
  then show ?case by simp
next
  case (4 g n c cs st st1 st2)
  then have "set (sc_visited st) \<subseteq> set (sc_visited st2)"
    by (metis follow_grows(1) scc_relax_visited)
  then show ?case using unvisited_mono [of st st2 g] by (auto simp: le_less)
qed

definition getStronglyConnectedComponents :: "directed_graph \<Rightarrow> node list list result" where
  "getStronglyConnectedComponents g =
     bind_result (fold_result (follow_node g) (map_values (g_nodes g)) scc_init)
       (\<lambda>st. Inr (sc_components st))"

subsection \<open>The invariant of the search\<close>

text \<open>
  Every low-link is the id of a node that can be reached; ids are given once, in increasing order;
  the stack and the reported components are disjoint.
\<close>

definition scc_numbered :: "scc_state \<Rightarrow> bool" where
  "scc_numbered st \<longleftrightarrow>
     dom (map_get (sc_ids st)) = set (sc_visited st) \<and> dom (map_get (sc_low st)) = set (sc_visited st) \<and>
     (\<forall>x i. map_get (sc_ids st) x = Some i \<longrightarrow> i < sc_id st) \<and>
     (\<forall>x y i. map_get (sc_ids st) x = Some i \<longrightarrow> map_get (sc_ids st) y = Some i \<longrightarrow> x = y) \<and>
     (\<forall>x l i. map_get (sc_low st) x = Some l \<longrightarrow> map_get (sc_ids st) x = Some i \<longrightarrow> l \<le> i)"

definition scc_lows :: "directed_graph \<Rightarrow> scc_state \<Rightarrow> bool" where
  "scc_lows g st \<longleftrightarrow>
     (\<forall>x l. map_get (sc_low st) x = Some l \<longrightarrow>
        (\<exists>y. map_get (sc_ids st) y = Some l \<and> (x, y) \<in> (succ_rel g)\<^sup>*))"

definition scc_placed :: "scc_state \<Rightarrow> bool" where
  "scc_placed st \<longleftrightarrow>
     set (sc_stack st) \<union> set (concat (sc_components st)) \<subseteq> set (sc_visited st) \<and>
     distinct (sc_stack st @ concat (sc_components st)) \<and> [] \<notin> set (sc_components st)"

definition strongly_connected :: "directed_graph \<Rightarrow> node list \<Rightarrow> bool" where
  "strongly_connected g C \<longleftrightarrow> (\<forall>x \<in> set C. \<forall>y \<in> set C. (x, y) \<in> (succ_rel g)\<^sup>*)"

definition scc_inv :: "directed_graph \<Rightarrow> scc_state \<Rightarrow> bool" where
  "scc_inv g st \<longleftrightarrow>
     scc_numbered st \<and> scc_lows g st \<and> scc_placed st \<and>
     (\<forall>C \<in> set (sc_components st). strongly_connected g C)"

lemma scc_init_inv: "scc_inv g scc_init"
  by (simp add: scc_inv_def scc_numbered_def scc_lows_def scc_placed_def scc_init_def)

lemma scc_enter_maps:
  "map_get (sc_ids (scc_enter n st)) = (map_get (sc_ids st))(n \<mapsto> sc_id st)"
  "map_get (sc_low (scc_enter n st)) = (map_get (sc_low st))(n \<mapsto> sc_id st)"
  "set (sc_visited (scc_enter n st)) = insert n (set (sc_visited st))"
  "sc_stack (scc_enter n st) = sc_stack st @ [n]"
  "sc_components (scc_enter n st) = sc_components st"
  "sc_id (scc_enter n st) = Suc (sc_id st)"
  by (simp_all add: scc_enter_def update_conv')

lemma scc_enter_inv:
  assumes inv: "scc_inv g st" and new: "n \<notin> set (sc_visited st)"
  shows "scc_inv g (scc_enter n st)"
proof -
  have num: "scc_numbered st" and lows: "scc_lows g st" and placed: "scc_placed st"
    using inv by (auto simp: scc_inv_def)
  have none: "map_get (sc_ids st) n = None" "map_get (sc_low st) n = None"
    using num new unfolding scc_numbered_def by blast+
  have fresh: "map_get (sc_ids st) y \<noteq> Some (sc_id st)" for y
    using num unfolding scc_numbered_def by (metis less_irrefl)
  have "scc_numbered (scc_enter n st)"
    using num fresh unfolding scc_numbered_def scc_enter_maps by (auto simp: less_Suc_eq)
  moreover have "scc_lows g (scc_enter n st)"
    unfolding scc_lows_def
  proof (intro allI impI)
    fix x l
    assume x: "map_get (sc_low (scc_enter n st)) x = Some l"
    show "\<exists>y. map_get (sc_ids (scc_enter n st)) y = Some l \<and> (x, y) \<in> (succ_rel g)\<^sup>*"
    proof (cases "x = n")
      case True
      with x show ?thesis by (auto simp: scc_enter_maps)
    next
      case False
      with x lows obtain y where "map_get (sc_ids st) y = Some l" "(x, y) \<in> (succ_rel g)\<^sup>*"
        unfolding scc_lows_def scc_enter_maps by auto
      with none show ?thesis unfolding scc_enter_maps by (intro exI [of _ y]) auto
    qed
  qed
  moreover have "scc_placed (scc_enter n st)"
    using placed new unfolding scc_placed_def scc_enter_maps by auto
  ultimately show ?thesis
    using inv by (simp add: scc_inv_def scc_enter_maps)
qed

lemma scc_relax_inv:
  assumes inv: "scc_inv g st" and edge: "(n, c) \<in> succ_rel g" and r: "scc_relax n c st = Inr st'"
  shows "scc_inv g st'"
proof (cases "c \<in> set (sc_stack st)")
  case False
  with r inv show ?thesis by (simp add: scc_relax_def)
next
  case True
  have num: "scc_numbered st" and lows: "scc_lows g st" and placed: "scc_placed st"
    using inv by (auto simp: scc_inv_def)
  obtain lc ln where lc: "map_get (sc_low st) c = Some lc" and ln: "map_get (sc_low st) n = Some ln"
    and st': "st' = st\<lparr>sc_low := map_set n (min lc ln) (sc_low st)\<rparr>"
    using r True by (auto simp: scc_relax_def split: option.splits)
  have low: "map_get (sc_low st') = (map_get (sc_low st))(n \<mapsto> min lc ln)"
    by (simp add: st' update_conv')
  have same: "sc_ids st' = sc_ids st" "sc_visited st' = sc_visited st" "sc_stack st' = sc_stack st"
    "sc_components st' = sc_components st" "sc_id st' = sc_id st" by (simp_all add: st')
  have "n \<in> set (sc_visited st)"
    using num ln unfolding scc_numbered_def by blast
  moreover have "ln \<le> i" if "map_get (sc_ids st) n = Some i" for i
    using num ln that unfolding scc_numbered_def by blast
  ultimately have "scc_numbered st'"
    using num unfolding scc_numbered_def same low by (auto simp: min_le_iff_disj)
  moreover have "scc_lows g st'"
  proof -
    have reach: "\<exists>y. map_get (sc_ids st) y = Some l \<and> (x, y) \<in> (succ_rel g)\<^sup>*"
      if "map_get (sc_low st) x = Some l" for x l
      using lows that unfolding scc_lows_def by blast
    obtain y where "map_get (sc_ids st) y = Some lc" "(n, y) \<in> (succ_rel g)\<^sup>*"
      using reach [OF lc] edge by (blast intro: converse_rtrancl_into_rtrancl)
    with reach [OF ln] have "\<exists>y. map_get (sc_ids st) y = Some (min lc ln) \<and> (n, y) \<in> (succ_rel g)\<^sup>*"
      by (auto simp: min_def)
    with reach show ?thesis unfolding scc_lows_def same low by auto
  qed
  ultimately show ?thesis
    using placed inv by (simp add: scc_inv_def scc_placed_def same)
qed

subsection \<open>Popping a component\<close>

lemma pop_component_splits:
  "pop_component low i stack scc = (stack', scc') \<Longrightarrow> distinct (stack @ scc) \<Longrightarrow>
    \<exists>top. stack = stack' @ top \<and> set scc' = set scc \<union> set top \<and> distinct (stack' @ scc') \<and>
      (\<forall>x \<in> set top. map_get low x = Some i)"
proof (induction low i stack scc rule: pop_component.induct)
  case (1 low i stack scc)
  show ?case
  proof (cases "stack \<noteq> [] \<and> map_get low (last stack) = Some i")
    case True
    then obtain xs x where stack: "stack = xs @ [x]" by (metis rev_exhaust)
    with True 1 have "\<exists>top. xs = stack' @ top \<and> set scc' = set (set_add x scc) \<union> set top \<and>
        distinct (stack' @ scc') \<and> (\<forall>x \<in> set top. map_get low x = Some i)"
      by (simp add: pop_component.simps [of low i "xs @ [x]" scc] set_add_def)
    then obtain top where "xs = stack' @ top" "set scc' = set (set_add x scc) \<union> set top"
        "distinct (stack' @ scc')" "\<forall>x \<in> set top. map_get low x = Some i" by blast
    with stack True show ?thesis by (intro exI [of _ "top @ [x]"]) auto
  next
    case False
    with 1 show ?thesis by (intro exI [of _ "[]"]) (auto simp: pop_component.simps)
  qed
qed

text \<open>
  What one visit does: it only pushes nodes on top of the stack, and these are reachable from the
  node it started from and have newer ids.
\<close>

definition scc_step :: "directed_graph \<Rightarrow> node set \<Rightarrow> scc_state \<Rightarrow> scc_state \<Rightarrow> bool" where
  "scc_step g roots st st' \<longleftrightarrow>
     (\<exists>new. sc_stack st' = sc_stack st @ new \<and> set new \<subseteq> (succ_rel g)\<^sup>* `` roots) \<and>
     map_get (sc_ids st) \<subseteq>\<^sub>m map_get (sc_ids st') \<and> sc_id st \<le> sc_id st'"

lemma scc_step_refl: "scc_step g roots st st"
  by (simp add: scc_step_def)

lemma scc_step_trans:
  assumes "scc_step g A st st1" and "scc_step g B st1 st2" and "(succ_rel g)\<^sup>* `` (A \<union> B) \<subseteq> (succ_rel g)\<^sup>* `` C"
  shows "scc_step g C st st2"
proof -
  obtain n1 where n1: "sc_stack st1 = sc_stack st @ n1" "set n1 \<subseteq> (succ_rel g)\<^sup>* `` A"
    using assms(1) unfolding scc_step_def by blast
  obtain n2 where n2: "sc_stack st2 = sc_stack st1 @ n2" "set n2 \<subseteq> (succ_rel g)\<^sup>* `` B"
    using assms(2) unfolding scc_step_def by blast
  have "sc_stack st2 = sc_stack st @ n1 @ n2" "set (n1 @ n2) \<subseteq> (succ_rel g)\<^sup>* `` C"
    using n1 n2 assms(3) by (simp_all add: Image_Un) blast
  moreover have "map_get (sc_ids st) \<subseteq>\<^sub>m map_get (sc_ids st2)" "sc_id st \<le> sc_id st2"
    using assms(1,2) unfolding scc_step_def by (auto intro: map_le_trans)
  ultimately show ?thesis unfolding scc_step_def by blast
qed

lemma scc_relax_step: "scc_relax n c st = Inr st' \<Longrightarrow> scc_step g {} st st'"
  by (auto simp: scc_relax_def scc_step_def split: if_splits option.splits)

lemma rtrancl_Image_succ: "X \<subseteq> r `` {n} \<Longrightarrow> r\<^sup>* `` X \<subseteq> r\<^sup>* `` {n}"
  by (blast intro: converse_rtrancl_into_rtrancl)

lemma scc_close_spec:
  assumes inv: "scc_inv g st" and own: "map_get (sc_ids st) n = Some i"
    and top: "sc_stack st = lower @ upper" and reach: "set upper \<subseteq> (succ_rel g)\<^sup>* `` {n}"
    and old: "\<And>x j. x \<in> set lower \<Longrightarrow> map_get (sc_ids st) x = Some j \<Longrightarrow> j < i"
    and c: "scc_close n st = Inr st'"
  shows "scc_inv g st' \<and> (\<exists>keep. sc_stack st' = lower @ keep \<and> set keep \<subseteq> set upper) \<and>
    sc_ids st' = sc_ids st \<and> sc_id st' = sc_id st"
proof (cases "map_get (sc_low st) n = Some i")
  case False
  with c own inv top show ?thesis
    by (auto simp: scc_close_def split: option.splits if_splits)
next
  case True
  have num: "scc_numbered st" and lows: "scc_lows g st" and placed: "scc_placed st"
    and strong: "\<forall>C \<in> set (sc_components st). strongly_connected g C"
    using inv by (auto simp: scc_inv_def)
  obtain stack scc where pop: "pop_component (sc_low st) i (sc_stack st) [] = (stack, scc)" by force
  have st': "st' = st\<lparr>sc_stack := stack, sc_components :=
      (if scc \<noteq> [] then sc_components st @ [scc] else sc_components st)\<rparr>"
    using c own True pop by (simp add: scc_close_def)
  have "distinct (sc_stack st @ [])" using placed by (simp add: scc_placed_def)
  from pop_component_splits [OF pop this] obtain popped where
    pp: "sc_stack st = stack @ popped" "set scc = set popped" "distinct (stack @ scc)"
      "\<forall>x \<in> set popped. map_get (sc_low st) x = Some i" by auto
  have upper: "x \<in> set upper" if "x \<in> set popped" for x
  proof (rule ccontr)
    assume "x \<notin> set upper"
    with that pp(1) top have x: "x \<in> set lower" by (metis Un_iff set_append)
    with top placed have "x \<in> set (sc_visited st)" by (auto simp: scc_placed_def)
    then obtain j where j: "map_get (sc_ids st) x = Some j" using num unfolding scc_numbered_def by blast
    then have "i \<le> j" using pp(4) that num unfolding scc_numbered_def by blast
    with old [OF x j] show False by simp
  qed
  have "length popped \<le> length upper"
  proof -
    have "distinct popped" using pp(1) placed by (auto simp: scc_placed_def)
    then have "length popped = card (set popped)" by (simp add: distinct_card)
    also have "\<dots> \<le> card (set upper)" using upper by (intro card_mono) auto
    also have "\<dots> \<le> length upper" by (rule card_length)
    finally show ?thesis .
  qed
  then obtain keep where keep: "stack = lower @ keep" "upper = keep @ popped"
  proof -
    have "stack @ popped = lower @ upper" using pp(1) top by simp
    then obtain us where "stack = lower @ us \<and> us @ popped = upper \<or> stack @ us = lower \<and> popped = us @ upper"
      unfolding append_eq_append_conv2 by blast
    then show ?thesis using that [of us] \<open>length popped \<le> length upper\<close> by (cases us) auto
  qed
  have to_root: "(x, n) \<in> (succ_rel g)\<^sup>*" if "x \<in> set popped" for x
  proof -
    have "map_get (sc_low st) x = Some i" using pp(4) that by (rule bspec)
    with lows have "\<exists>y. map_get (sc_ids st) y = Some i \<and> (x, y) \<in> (succ_rel g)\<^sup>*"
      by (simp add: scc_lows_def)
    then obtain y where "map_get (sc_ids st) y = Some i" "(x, y) \<in> (succ_rel g)\<^sup>*" by blast
    moreover from this(1) own num have "y = n" unfolding scc_numbered_def by metis
    ultimately show ?thesis by simp
  qed
  have from_root: "(n, y) \<in> (succ_rel g)\<^sup>*" if "y \<in> set popped" for y
    using subsetD [OF reach upper [OF that]] by simp
  have "strongly_connected g scc"
    unfolding strongly_connected_def pp(2)
    by (intro ballI) (rule rtrancl_trans [OF to_root from_root])
  moreover have "scc_placed st'"
    using placed pp unfolding scc_placed_def st' by auto
  moreover have "scc_numbered st'" "scc_lows g st'"
    using num lows by (simp_all add: st' scc_numbered_def scc_lows_def)
  ultimately show ?thesis
    using strong keep by (auto simp: scc_inv_def st')
qed

lemma scc_step_stack: "scc_step g R st st' \<Longrightarrow>
    \<exists>new. sc_stack st' = sc_stack st @ new \<and> set new \<subseteq> (succ_rel g)\<^sup>* `` R"
  by (simp add: scc_step_def)

subsection \<open>The whole search keeps the invariant\<close>

lemma follow_correct:
  shows "follow_node g n st = Inr st' \<Longrightarrow> scc_inv g st \<Longrightarrow> scc_inv g st' \<and> scc_step g {n} st st'"
    and "follow_children g n cs st = Inr st' \<Longrightarrow> scc_inv g st \<Longrightarrow> set cs \<subseteq> succ_rel g `` {n} \<Longrightarrow>
      scc_inv g st' \<and> scc_step g (set cs) st st'"
proof (induction g n st and g n cs st arbitrary: st' and st' rule: follow_node_follow_children.induct)
  case (1 g n st)
  show ?case
  proof (cases "n \<in> set (sc_visited st)")
    case True
    with 1 show ?thesis by (simp add: scc_step_refl)
  next
    case False
    with "1.prems" obtain cs st1 where cs: "getDirectChildConnections g n = Inr cs"
      and st1: "follow_children g n (map gc_to cs) (scc_enter n st) = Inr st1"
      and close: "scc_close n st1 = Inr st'"
      by (auto simp: bind_result_eq_Inr)
    have kids: "set (map gc_to cs) \<subseteq> succ_rel g `` {n}"
      using cs by (auto simp: result_simps succ_rel_def conns_of_def)
    have num: "scc_numbered st" and placed: "scc_placed st" using "1.prems" by (auto simp: scc_inv_def)
    have "scc_inv g (scc_enter n st)" using "1.prems"(2) False by (rule scc_enter_inv)
    then have inv1: "scc_inv g st1" and step1: "scc_step g (set (map gc_to cs)) (scc_enter n st) st1"
      using "1.IH" [OF False cs st1] kids by blast+
    obtain new where new: "sc_stack st1 = (sc_stack st @ [n]) @ new"
        "set new \<subseteq> (succ_rel g)\<^sup>* `` set (map gc_to cs)"
      using scc_step_stack [OF step1] unfolding scc_enter_maps by blast
    have ids1: "(map_get (sc_ids st))(n \<mapsto> sc_id st) \<subseteq>\<^sub>m map_get (sc_ids st1)" and "Suc (sc_id st) \<le> sc_id st1"
      using step1 unfolding scc_step_def scc_enter_maps by auto
    have ids_old: "map_get (sc_ids st) \<subseteq>\<^sub>m map_get (sc_ids st1)"
    proof -
      have "n \<notin> dom (map_get (sc_ids st))" using False num by (simp add: scc_numbered_def)
      then have "map_get (sc_ids st) \<subseteq>\<^sub>m (map_get (sc_ids st))(n \<mapsto> sc_id st)"
        by (auto simp: map_le_def)
      then show ?thesis using ids1 by (rule map_le_trans)
    qed
    have own: "map_get (sc_ids st1) n = Some (sc_id st)"
      using ids1 by (auto simp: map_le_def)
    have "set new \<subseteq> (succ_rel g)\<^sup>* `` {n}"
      using new(2) rtrancl_Image_succ [OF kids] by (rule subset_trans)
    then have reach: "set ([n] @ new) \<subseteq> (succ_rel g)\<^sup>* `` {n}" by simp
    have old: "\<And>x j. x \<in> set (sc_stack st) \<Longrightarrow> map_get (sc_ids st1) x = Some j \<Longrightarrow> j < sc_id st"
    proof -
      fix x j
      assume that: "x \<in> set (sc_stack st)" "map_get (sc_ids st1) x = Some j"
      have "x \<in> dom (map_get (sc_ids st))"
        using that(1) placed num unfolding scc_placed_def scc_numbered_def by blast
      with ids_old that(2) have "map_get (sc_ids st) x = Some j" by (auto simp: map_le_def)
      with num show "j < sc_id st" unfolding scc_numbered_def by blast
    qed
    have top: "sc_stack st1 = sc_stack st @ ([n] @ new)" using new(1) by simp
    have "scc_inv g st' \<and> (\<exists>keep. sc_stack st' = sc_stack st @ keep \<and> set keep \<subseteq> set ([n] @ new)) \<and>
        sc_ids st' = sc_ids st1 \<and> sc_id st' = sc_id st1"
      by (rule scc_close_spec [OF inv1 own top reach _ close]) (rule old)
    then obtain keep where "scc_inv g st'" "sc_stack st' = sc_stack st @ keep" "set keep \<subseteq> set ([n] @ new)"
        "sc_ids st' = sc_ids st1" "sc_id st' = sc_id st1"
      by blast
    moreover from this have "set keep \<subseteq> (succ_rel g)\<^sup>* `` {n}" using reach by blast
    ultimately show ?thesis
      using ids_old \<open>Suc (sc_id st) \<le> sc_id st1\<close> unfolding scc_step_def by auto
  qed
next
  case (2 g n st)
  then show ?case by (simp add: scc_step_refl)
next
  case (3 g n c cs st)
  then obtain st1 st2 where st1: "follow_node g c st = Inr st1" and st2: "scc_relax n c st1 = Inr st2"
    and rest: "follow_children g n cs st2 = Inr st'"
    by (auto simp: bind_result_eq_Inr)
  have inv1: "scc_inv g st1" and s1: "scc_step g {c} st st1" using 3 st1 by blast+
  have inv2: "scc_inv g st2" using scc_relax_inv [OF inv1 _ st2] "3.prems"(3) by auto
  have s2: "scc_step g {} st1 st2" using st2 by (rule scc_relax_step)
  have inv': "scc_inv g st'" and s3: "scc_step g (set cs) st2 st'"
    using "3.IH"(2) [OF st1 st2 rest inv2] "3.prems"(3) by auto
  have "scc_step g {c} st st2" by (rule scc_step_trans [OF s1 s2]) simp
  then have "scc_step g (set (c # cs)) st st'" by (rule scc_step_trans [OF _ s3]) auto
  with inv' show ?case by blast
qed

subsection \<open>The search returns\<close>

lemma scc_inv_defined:
  assumes "scc_inv g st" and "n \<in> set (sc_visited st) \<union> set (sc_stack st)"
  shows "\<exists>i l. map_get (sc_ids st) n = Some i \<and> map_get (sc_low st) n = Some l"
  using assms unfolding scc_inv_def scc_numbered_def scc_placed_def by blast

lemma scc_relax_total:
  "scc_inv g st \<Longrightarrow> n \<in> set (sc_visited st) \<Longrightarrow> \<exists>st'. scc_relax n c st = Inr st'"
  using scc_inv_defined [of g st n] scc_inv_defined [of g st c] by (auto simp: scc_relax_def)

lemma scc_close_total:
  "scc_inv g st \<Longrightarrow> n \<in> set (sc_visited st) \<Longrightarrow> \<exists>st'. scc_close n st = Inr st'"
  using scc_inv_defined [of g st n] by (auto simp: scc_close_def split: prod.splits)

lemma follow_total:
  assumes wf: "graph_wf g"
  shows "in_graph g n \<Longrightarrow> scc_inv g st \<Longrightarrow>
      \<exists>st'. follow_node g n st = Inr st' \<and> set (sc_visited st) \<union> {n} \<subseteq> set (sc_visited st')"
    and "set cs \<subseteq> succ_rel g `` {n} \<Longrightarrow> scc_inv g st \<Longrightarrow> n \<in> set (sc_visited st) \<Longrightarrow>
      \<exists>st'. follow_children g n cs st = Inr st' \<and> set (sc_visited st) \<subseteq> set (sc_visited st')"
  using wf
proof (induction g n st and g n cs st rule: follow_node_follow_children.induct)
  case (1 g n st)
  show ?case
  proof (cases "n \<in> set (sc_visited st)")
    case True
    then show ?thesis by simp
  next
    case False
    obtain cs where cs: "getDirectChildConnections g n = Inr cs"
      using "1.prems"(1) by (auto simp: result_simps)
    have kids: "set (map gc_to cs) \<subseteq> succ_rel g `` {n}"
      using cs by (auto simp: result_simps succ_rel_def conns_of_def)
    have inv: "scc_inv g (scc_enter n st)" using "1.prems"(2) False by (rule scc_enter_inv)
    have own: "n \<in> set (sc_visited (scc_enter n st))" by (simp add: scc_enter_maps)
    obtain st1 where st1: "follow_children g n (map gc_to cs) (scc_enter n st) = Inr st1"
      "set (sc_visited (scc_enter n st)) \<subseteq> set (sc_visited st1)"
      using "1.IH" [OF False cs kids inv own "1.prems"(3)] by blast
    moreover have "scc_inv g st1" using follow_correct(2) [OF st1(1) inv kids] by simp
    moreover obtain st' where "scc_close n st1 = Inr st'"
      using scc_close_total [OF \<open>scc_inv g st1\<close>] st1(2) own by blast
    ultimately show ?thesis
      using False cs scc_close_visited [of n st1 st'] by (auto simp: scc_enter_maps)
  qed
next
  case (2 g n st)
  then show ?case by simp
next
  case (3 g n c cs st)
  have edge: "(n, c) \<in> succ_rel g" using "3.prems"(1) by simp
  then have "in_graph g c" using graph_wf_conn [OF "3.prems"(4)] by (auto simp: succ_rel_def conns_of_def)
  then obtain st1 where st1: "follow_node g c st = Inr st1"
    "set (sc_visited st) \<subseteq> set (sc_visited st1)"
    using "3.IH"(1) "3.prems" by blast
  have inv1: "scc_inv g st1" using follow_correct(1) [OF st1(1) "3.prems"(2)] by simp
  obtain st2 where st2: "scc_relax n c st1 = Inr st2"
    using scc_relax_total [OF inv1] st1(2) "3.prems"(3) by blast
  have inv2: "scc_inv g st2" using scc_relax_inv [OF inv1 edge st2] .
  have "n \<in> set (sc_visited st2)" using scc_relax_visited [OF st2] st1(2) "3.prems"(3) by auto
  then obtain st' where "follow_children g n cs st2 = Inr st'" "set (sc_visited st2) \<subseteq> set (sc_visited st')"
    using "3.IH"(2) [OF st1(1) st2 _ inv2 _ "3.prems"(4)] "3.prems"(1) by auto
  with st1 st2 scc_relax_visited [OF st2] show ?case by auto
qed

subsection \<open>What is reported\<close>

definition reported_ok :: "directed_graph \<Rightarrow> node list list \<Rightarrow> bool" where
  "reported_ok g comps \<longleftrightarrow>
     (\<forall>C \<in> set comps. C \<noteq> [] \<and> strongly_connected g C) \<and> distinct (concat comps) \<and>
     set (concat comps) \<subseteq> set (map_values (g_nodes g))"

lemma scc_visited_in_graph:
  assumes "graph_wf g"
  shows "follow_node g n st = Inr st' \<Longrightarrow> in_graph g n \<Longrightarrow> set (sc_visited st) \<subseteq> Collect (in_graph g) \<Longrightarrow>
      set (sc_visited st') \<subseteq> Collect (in_graph g)"
    and "follow_children g n cs st = Inr st' \<Longrightarrow> set cs \<subseteq> Collect (in_graph g) \<Longrightarrow>
      set (sc_visited st) \<subseteq> Collect (in_graph g) \<Longrightarrow> set (sc_visited st') \<subseteq> Collect (in_graph g)"
  using assms
proof (induction g n st and g n cs st arbitrary: st' and st' rule: follow_node_follow_children.induct)
  case (1 g n st)
  show ?case
  proof (cases "n \<in> set (sc_visited st)")
    case True
    with 1 show ?thesis by simp
  next
    case False
    with "1.prems" obtain cs st1 where cs: "getDirectChildConnections g n = Inr cs"
      and st1: "follow_children g n (map gc_to cs) (scc_enter n st) = Inr st1"
      and close: "scc_close n st1 = Inr st'"
      by (auto simp: bind_result_eq_Inr)
    have "set (map gc_to cs) \<subseteq> Collect (in_graph g)"
      using cs graph_wf_conn [OF "1.prems"(4)] by (auto simp: result_simps)
    moreover have "set (sc_visited (scc_enter n st)) \<subseteq> Collect (in_graph g)"
      using "1.prems" by (simp add: scc_enter_maps)
    ultimately have "set (sc_visited st1) \<subseteq> Collect (in_graph g)"
      using "1.IH" [OF False cs st1] "1.prems"(4) by blast
    with scc_close_visited [OF close] show ?thesis by simp
  qed
next
  case (2 g n st)
  then show ?case by simp
next
  case (3 g n c cs st)
  then obtain st1 st2 where st1: "follow_node g c st = Inr st1" and st2: "scc_relax n c st1 = Inr st2"
    and rest: "follow_children g n cs st2 = Inr st'"
    by (auto simp: bind_result_eq_Inr)
  have "set (sc_visited st1) \<subseteq> Collect (in_graph g)" using 3 st1 by simp
  then show ?case using "3.IH"(2) [OF st1 st2 rest] "3.prems" scc_relax_visited [OF st2] by simp
qed

lemma getStronglyConnectedComponents_state:
  assumes wf: "graph_wf g"
  shows "\<exists>st. fold_result (follow_node g) (map_values (g_nodes g)) scc_init = Inr st \<and>
    scc_inv g st \<and> set (sc_visited st) \<subseteq> Collect (in_graph g)"
proof (rule fold_result_total)
  show "scc_inv g scc_init \<and> set (sc_visited scc_init) \<subseteq> Collect (in_graph g)"
    using scc_init_inv by (simp add: scc_init_def)
next
  fix n st
  assume "n \<in> set (map_values (g_nodes g))"
    and st: "scc_inv g st \<and> set (sc_visited st) \<subseteq> Collect (in_graph g)"
  then have n: "in_graph g n" using graph_wf_nodes [OF wf] by blast
  then obtain st' where "follow_node g n st = Inr st'" using follow_total(1) [OF wf n] st by blast
  then show "\<exists>st'. follow_node g n st = Inr st' \<and> scc_inv g st' \<and>
      set (sc_visited st') \<subseteq> Collect (in_graph g)"
    using follow_correct(1) [of g n st st'] scc_visited_in_graph(1) [OF wf, of n st st'] st n by blast
qed

text \<open>
  C39. On a well-formed graph \<^verbatim>\<open>getStronglyConnectedComponents\<close> returns, and every component it reports is
  not empty and strongly connected, consists of nodes of the graph, and shares no node with another
  reported component.
\<close>

theorem getStronglyConnectedComponents_sound:
  assumes "graph_wf g"
  shows "\<exists>comps. getStronglyConnectedComponents g = Inr comps \<and> reported_ok g comps"
proof -
  from getStronglyConnectedComponents_state [OF assms] obtain st where
    st: "fold_result (follow_node g) (map_values (g_nodes g)) scc_init = Inr st"
    and inv: "scc_inv g st" and vis: "set (sc_visited st) \<subseteq> Collect (in_graph g)" by blast
  have "set (concat (sc_components st)) \<subseteq> set (map_values (g_nodes g))"
    using inv vis in_graph_in_nodes [of g] unfolding scc_inv_def scc_placed_def by blast
  then have "reported_ok g (sc_components st)"
    using inv unfolding scc_inv_def scc_placed_def reported_ok_def by auto
  with st show ?thesis by (simp add: getStronglyConnectedComponents_def)
qed

subsection \<open>It misses components\<close>

text \<open>
  Three nodes in one component: r leads to a, and a leads to b and back to r, in this order; b leads
  back to a.
\<close>

definition knot_node :: "nat \<Rightarrow> string \<Rightarrow> node" where
  "knot_node i nm = plain_node i nm ''noOp''"

definition knot_conn :: "node \<Rightarrow> node \<Rightarrow> conn_input" where
  "knot_conn a b = \<lparr>ci_from = a, ci_to = b, ci_type = None, ci_outputIndex = None, ci_inputIndex = None\<rparr>"

definition knot :: "directed_graph result" where
  "knot =
     (let r = knot_node 0 ''r''; a = knot_node 1 ''a''; b = knot_node 2 ''b''
      in addConnections [knot_conn r a, knot_conn a b, knot_conn b a, knot_conn a r]
           (addNodes [r, a, b] empty_graph))"

text \<open>
  \<^verbatim>\<open>getStronglyConnectedComponents\<close> is not complete: on this graph of three nodes, all of which
  reach one another, it reports no component at all. (b keeps the low-link of a, which it takes over
  before a reaches r; popping stops at b, whose low-link is not the id of r.)
\<close>

theorem getStronglyConnectedComponents_misses:
  "bind_result knot (\<lambda>g. getStronglyConnectedComponents g) = Inr [] \<and>
   bind_result knot (\<lambda>g. bind_result (getChildren g (knot_node 2 ''b'')) (\<lambda>ns. Inr (map n_name ns))) =
     Inr [''a'', ''b'', ''r'']"
  by code_simp

text \<open>The graph is well-formed, so the soundness theorem applies to it.\<close>

theorem getStronglyConnectedComponents_sound_witness:
  "\<exists>comps. getStronglyConnectedComponents (addNode (knot_node 0 ''r'') empty_graph) = Inr comps \<and>
    reported_ok (addNode (knot_node 0 ''r'') empty_graph) comps"
  by (rule getStronglyConnectedComponents_sound)
    (simp add: graph_wf_def addNode_def empty_graph_def well_keyed_def)

end
