(* ===== verification/PartialGraph.thy ===== *)
theory PartialGraph
  imports GraphSearch GraphSCC
begin

section \<open>Preparing the graph of a partial execution\<close>

text \<open>
  The steps of \<^verbatim>\<open>packages/core/src/execution-engine/partial-execution-utils\<close> that cut the graph and the
  run data down before a partial execution: \<^verbatim>\<open>filter-disabled-nodes.ts\<close>, \<^verbatim>\<open>find-subgraph.ts\<close>,
  \<^verbatim>\<open>clean-run-data.ts\<close>, \<^verbatim>\<open>handle-cycles.ts\<close>, \<^verbatim>\<open>run-data-utils.ts\<close> and the root test of
  \<^verbatim>\<open>find-trigger-for-partial-execution.ts\<close>.
\<close>

subsection \<open>filterDisabledNodes\<close>

definition not_main :: "gconn \<Rightarrow> bool" where
  "not_main c \<longleftrightarrow> gc_type c \<noteq> Main"

definition drop_if_disabled :: "node \<Rightarrow> directed_graph \<Rightarrow> directed_graph result" where
  "drop_if_disabled n h =
     (if is_disabled n then bind_result (removeNode n True (Some not_main) h) (\<lambda>(h', _). Inr h') else Inr h)"

definition filterDisabledNodes :: "directed_graph \<Rightarrow> directed_graph result" where
  "filterDisabledNodes g =
     bind_result (clone g) (\<lambda>filtered. fold_result drop_if_disabled (map_values (getNodes filtered)) filtered)"

subsection \<open>findSubgraph\<close>

definition add_branch :: "gconn list \<Rightarrow> directed_graph \<Rightarrow> directed_graph result" where
  \<comment> \<open>adds the end points of each connection, then the connection\<close>
  "add_branch branch newGraph =
     fold_result (\<lambda>c h. addConnection (as_input c) (addNodes [gc_from c, gc_to c] h)) branch newGraph"

function findSubgraphRecursive ::
  "directed_graph \<Rightarrow> node \<Rightarrow> node \<Rightarrow> node \<Rightarrow> directed_graph \<Rightarrow> gconn list \<Rightarrow> directed_graph result" where
  "findSubgraphRecursive g destination current trigger newGraph branch =
     (if current = trigger then add_branch branch (addNode trigger newGraph)
      else bind_result (getDirectParentConnections g current) (\<lambda>parents.
        if parents = [] then Inr newGraph
        else if current = destination \<and> list_ex (\<lambda>c. gc_to c = destination) branch then Inr newGraph
        else if list_ex (\<lambda>c. gc_to c = current) branch then add_branch branch newGraph
        else fold_result (\<lambda>p h.
            if gc_type p \<noteq> Main then Inr h
            else findSubgraphRecursive g destination (gc_from p) trigger h (branch @ [p]))
          parents newGraph))"
  by pat_completeness auto

text \<open>A branch never holds two connections into the same node, so it is bounded by the graph.\<close>

definition unbranched :: "directed_graph \<Rightarrow> gconn list \<Rightarrow> nat" where
  "unbranched g branch = card (set (map_values (g_nodes g)) - gc_to ` set branch)"

lemma unbranched_step:
  assumes "getDirectParentConnections g n = Inr ps" and "p \<in> set ps"
    and "\<not> list_ex (\<lambda>c. gc_to c = n) branch"
  shows "unbranched g (branch @ [p]) < unbranched g branch"
proof -
  have "gc_to p = n" "n \<in> set (map_values (g_nodes g))"
    using assms(1,2) in_graph_in_nodes [of g n] by (auto simp: result_simps)
  with assms(3) show ?thesis
    unfolding unbranched_def by (intro psubset_card_mono) (auto simp: list_ex_iff)
qed

termination findSubgraphRecursive
  by (relation "measure (\<lambda>(g, d, c, t, h, branch). unbranched g branch)")
    (auto intro: unbranched_step)

text \<open>
  The loop over \<^verbatim>\<open>subgraph.getNodes().values()\<close> adds nodes to the map it iterates; they are visited too,
  in insertion order. \<open>done\<close> holds the nodes already visited.
\<close>

definition add_sub_nodes :: "directed_graph \<Rightarrow> node \<Rightarrow> directed_graph \<Rightarrow> directed_graph result" where
  "add_sub_nodes g n subgraph =
     bind_result (getParentConnections g n) (\<lambda>parents.
       fold_result (\<lambda>c h.
           if gc_type c = Main then Inr h
           else addConnection (as_input c) (addNodes [gc_from c, gc_to c] h))
         parents subgraph)"

function sub_node_loop :: "directed_graph \<Rightarrow> node list \<Rightarrow> directed_graph \<Rightarrow> directed_graph result" where
  "sub_node_loop g visited subgraph =
     (case filter (\<lambda>n. n \<notin> set visited) (map_values (getNodes subgraph)) of
        [] \<Rightarrow> Inr subgraph
      | n # _ \<Rightarrow> bind_result (add_sub_nodes g n subgraph) (sub_node_loop g (visited @ [n])))"
  by pat_completeness auto

termination
proof (relation "measure (\<lambda>(g, visited, h). card (set (map_values (g_nodes g)) - set visited))", goal_cases)
  case 1
  then show ?case by simp
next
  case (2 g visited subgraph n ns h)
  then have "n \<notin> set visited" by (metis filter_eq_ConsD)
  moreover have "in_graph g n"
    using 2(2) by (auto simp: add_sub_nodes_def getParentConnections_def
        getParentConnectionsRecursive_def result_simps)
  ultimately have "card (set (map_values (g_nodes g)) - set (visited @ [n])) <
      card (set (map_values (g_nodes g)) - set visited)"
    using in_graph_in_nodes [of g n] by (intro psubset_card_mono) auto
  then show ?case by simp
qed

definition findSubgraph :: "directed_graph \<Rightarrow> node \<Rightarrow> node \<Rightarrow> directed_graph result" where
  "findSubgraph g destination trigger =
     bind_result (findSubgraphRecursive g destination destination trigger empty_graph [])
       (sub_node_loop g [])"

subsection \<open>cleanRunData\<close>

definition names_to_clean :: "directed_graph \<Rightarrow> node \<Rightarrow> string list result" where
  \<comment> \<open>the keys one pass of the outer loop deletes, in order\<close>
  "names_to_clean g n =
     bind_result (getChildren g n) (\<lambda>children.
       fold_result (\<lambda>m names.
           bind_result (getParentConnections g m) (\<lambda>cs.
             Inr (names @ [n_name m] @
                  map (\<lambda>c. n_name (gc_from c)) (filter (\<lambda>c. gc_type c \<noteq> Main) cs))))
         (n # children) [n_name n])"

definition cleanRunData :: "'d jsobj \<Rightarrow> directed_graph \<Rightarrow> node list \<Rightarrow> 'd jsobj result" where
  "cleanRunData runData g nodesToClean =
     bind_result
       (fold_result (\<lambda>n rd. bind_result (names_to_clean g n) (\<lambda>names.
            Inr (foldl (\<lambda>rd nm. obj_delete nm rd) rd names)))
          nodesToClean runData)
       (\<lambda>rd. Inr (foldl (\<lambda>rd nm. if hasNode g nm then rd else obj_delete nm rd) rd (map fst rd)))"

subsection \<open>handleCycles\<close>

definition replace_start_node ::
  "directed_graph \<Rightarrow> node \<Rightarrow> node \<Rightarrow> node list \<Rightarrow> node list \<Rightarrow> node list result" where
  "replace_start_node g trigger startNode cycle newStartNodes =
     (if startNode \<in> set cycle then
        bind_result (depthFirstSearch g trigger (\<lambda>n. n \<in> set cycle)) (\<lambda>firstNode.
          case firstNode of
            None \<Rightarrow> Inl (AssertionError
              ''the trigger must be connected to the cycle, otherwise the cycle wouldn't be part of the subgraph'')
          | Some first \<Rightarrow> Inr (set_add first (set_delete startNode newStartNodes)))
      else Inr newStartNodes)"

definition handleCycles :: "directed_graph \<Rightarrow> node list \<Rightarrow> node \<Rightarrow> node list result" where
  "handleCycles g startNodes trigger =
     bind_result (getStronglyConnectedComponents g) (\<lambda>comps.
       let cycles = filter (\<lambda>cycle. length cycle \<ge> 1) comps in
       if cycles = [] then Inr startNodes
       else fold_result (\<lambda>startNode.
              fold_result (replace_start_node g trigger startNode) cycles)
            startNodes startNodes)"

subsection \<open>getNextExecutionIndex and anyReachableRootHasRunData\<close>

definition getNextExecutionIndex :: "run_data \<Rightarrow> nat" where
  "getNextExecutionIndex runData =
     (let previousIndices = List.map_filter td_executionIndex (concat (map_values runData))
      in if previousIndices = [] then 0 else Max (set previousIndices) + 1)"

definition anyReachableRootHasRunData :: "directed_graph \<Rightarrow> string \<Rightarrow> run_data \<Rightarrow> bool result" where
  "anyReachableRootHasRunData g destinationNodeName runData =
     (case map_get (getNodes g) destinationNodeName of
        None \<Rightarrow> Inr False
      | Some destinationNode \<Rightarrow>
          bind_result (getParentConnections g destinationNode) (\<lambda>parentConnections.
          bind_result (fold_result (\<lambda>parentNode rootNodes.
              bind_result (getDirectParentConnections g parentNode) (\<lambda>cs.
                Inr (if list_ex (\<lambda>c. gc_type c = Main) cs then rootNodes
                     else set_add parentNode rootNodes)))
            (set_of_list (map gc_from parentConnections)) [])
          (\<lambda>rootNodes. Inr (list_ex (\<lambda>n. map_has runData (n_name n)) rootNodes))))"

subsection \<open>cleanRunData, specified\<close>

text \<open>
  The names one start node cleans: its own, those of the nodes below it, and those of every node that
  is connected by a type other than \<^verbatim>\<open>main\<close> anywhere upstream of one of these.
\<close>

definition sub_names :: "directed_graph \<Rightarrow> node \<Rightarrow> string set" where
  "sub_names g m =
     {n_name (gc_from c) | c. c \<in> conns_of g \<and> gc_type c \<noteq> Main \<and> (gc_to c, m) \<in> (succ_rel g)\<^sup>*}"

definition cleaned_by :: "directed_graph \<Rightarrow> node \<Rightarrow> string set" where
  "cleaned_by g n = (\<Union>m \<in> (succ_rel g)\<^sup>* `` {n}. insert (n_name m) (sub_names g m))"

lemma succ_rel_in_graph: "graph_wf g \<Longrightarrow> (a, b) \<in> succ_rel g \<Longrightarrow> in_graph g a \<and> in_graph g b"
  using graph_wf_conn [of g] by (auto simp: succ_rel_def conns_of_def)

lemma reach_in_graph:
  assumes "graph_wf g" and "(a, b) \<in> (succ_rel g)\<^sup>*" and "in_graph g a"
  shows "in_graph g b"
  using assms(2,3) by (induction rule: rtrancl_induct) (use succ_rel_in_graph [OF assms(1)] in blast)+

lemma fold_sub_names:
  assumes wf: "graph_wf g" and "set ms \<subseteq> Collect (in_graph g)"
  shows "\<exists>names. fold_result (\<lambda>m names. bind_result (getParentConnections g m) (\<lambda>cs.
             Inr (names @ [n_name m] @
                  map (\<lambda>c. n_name (gc_from c)) (filter (\<lambda>c. gc_type c \<noteq> Main) cs)))) ms names0 = Inr names \<and>
    set names = set names0 \<union> (\<Union>m \<in> set ms. insert (n_name m) (sub_names g m))"
  using assms(2)
proof (induction ms arbitrary: names0)
  case Nil
  then show ?case by simp
next
  case (Cons m ms)
  then have "in_graph g m" by simp
  from getParentConnections_reach [OF wf this] obtain cs where
    cs: "getParentConnections g m = Inr cs"
      "set cs = {c \<in> conns_of g. (gc_to c, m) \<in> (succ_rel g)\<^sup>*}" by blast
  define names1 where "names1 = names0 @ [n_name m] @
    map (\<lambda>c. n_name (gc_from c)) (filter (\<lambda>c. gc_type c \<noteq> Main) cs)"
  have "set ms \<subseteq> Collect (in_graph g)" using Cons.prems by simp
  from Cons.IH [OF this, of names1] obtain names where
    names: "set names = set names1 \<union> (\<Union>m \<in> set ms. insert (n_name m) (sub_names g m))"
    and eq: "fold_result (\<lambda>m names. bind_result (getParentConnections g m) (\<lambda>cs.
             Inr (names @ [n_name m] @
                  map (\<lambda>c. n_name (gc_from c)) (filter (\<lambda>c. gc_type c \<noteq> Main) cs)))) ms names1 = Inr names"
    by blast
  have "set names1 = set names0 \<union> insert (n_name m) (sub_names g m)"
    unfolding names1_def sub_names_def using cs(2) by auto
  with names have "set names = set names0 \<union> (\<Union>m \<in> set (m # ms). insert (n_name m) (sub_names g m))"
    by (simp add: Un_assoc)
  with cs(1) eq show ?case by (intro exI [of _ names]) (simp add: names1_def)
qed

lemma rtrancl_Image_eq: "r\<^sup>* `` {n} = insert n (r\<^sup>+ `` {n})"
proof -
  have "(n, m) \<in> r\<^sup>* \<longleftrightarrow> m = n \<or> (n, m) \<in> r\<^sup>+" for m
    by (metis rtranclD rtrancl.rtrancl_refl trancl_into_rtrancl)
  then show ?thesis by (simp add: set_eq_iff)
qed

lemma names_to_clean_spec:
  assumes wf: "graph_wf g" and n: "in_graph g n"
  shows "\<exists>names. names_to_clean g n = Inr names \<and> set names = cleaned_by g n"
proof -
  from getChildren_reach [OF wf n] obtain cs where
    cs: "getChildren g n = Inr cs" "set cs = (succ_rel g)\<^sup>+ `` {n}" by blast
  have all: "set (n # cs) = (succ_rel g)\<^sup>* `` {n}"
    unfolding rtrancl_Image_eq cs(2) [symmetric] by simp
  then have "set (n # cs) \<subseteq> Collect (in_graph g)" using reach_in_graph [OF wf _ n] by blast
  from fold_sub_names [OF wf this, of "[n_name n]"] obtain names where
    "names_to_clean g n = Inr names"
    "set names = {n_name n} \<union> (\<Union>m \<in> set (n # cs). insert (n_name m) (sub_names g m))"
    using cs(1) by (auto simp: names_to_clean_def)
  then show ?thesis unfolding all cleaned_by_def by auto
qed

lemma foldl_delete_unless:
  "foldl (\<lambda>rd nm. if P nm then rd else obj_delete nm rd) rd ks =
    foldl (\<lambda>rd nm. obj_delete nm rd) rd (filter (\<lambda>k. \<not> P k) ks)"
  by (induction ks arbitrary: rd) auto

lemma cleaning_loop:
  assumes "graph_wf g" and "set ns \<subseteq> Collect (in_graph g)"
  shows "\<exists>rd'. fold_result (\<lambda>n rd. bind_result (names_to_clean g n) (\<lambda>names.
            Inr (foldl (\<lambda>rd nm. obj_delete nm rd) rd names))) ns rd = Inr rd' \<and>
    (\<forall>k. obj_get rd' k = (if k \<in> (\<Union>n \<in> set ns. cleaned_by g n) then None else obj_get rd k))"
  using assms(2)
proof (induction ns arbitrary: rd)
  case Nil
  then show ?case by simp
next
  case (Cons n ns)
  obtain names where names: "names_to_clean g n = Inr names" "set names = cleaned_by g n"
    using names_to_clean_spec [OF assms(1), of n] Cons.prems by auto
  define rd1 where "rd1 = foldl (\<lambda>rd nm. obj_delete nm rd) rd names"
  have "set ns \<subseteq> Collect (in_graph g)" using Cons.prems by simp
  from Cons.IH [OF this, of rd1] show ?case
    using names by (auto simp: rd1_def js_obj.get_foldl_del)
qed

lemma cleanRunData_ok:
  assumes "graph_wf g" and "set ns \<subseteq> Collect (in_graph g)"
  shows "\<exists>rd. cleanRunData runData g ns = Inr rd \<and>
    (\<forall>k. obj_get rd k =
       (if hasNode g k \<and> k \<notin> (\<Union>n \<in> set ns. cleaned_by g n) then obj_get runData k else None))"
proof -
  from cleaning_loop [OF assms, of runData] obtain rd1 where
    rd1: "fold_result (\<lambda>n rd. bind_result (names_to_clean g n) (\<lambda>names.
            Inr (foldl (\<lambda>rd nm. obj_delete nm rd) rd names))) ns runData = Inr rd1"
    and get: "\<And>k. obj_get rd1 k =
       (if k \<in> (\<Union>n \<in> set ns. cleaned_by g n) then None else obj_get runData k)" by blast
  have "obj_get (foldl (\<lambda>rd nm. if hasNode g nm then rd else obj_delete nm rd) rd1 (map fst rd1)) k =
      (if hasNode g k then obj_get rd1 k else None)" for k
    by (auto simp: foldl_delete_unless js_obj.get_foldl_del map_of_eq_None_iff)
  then show ?thesis using rd1 get by (simp add: cleanRunData_def)
qed

text \<open>
  C37. On a well-formed graph \<^verbatim>\<open>cleanRunData\<close> returns, and keeps the run data of exactly the nodes that
  are part of the graph, are not one of the nodes to clean nor below one, and are not connected by a
  type other than \<^verbatim>\<open>main\<close> upstream of one of these; what it keeps is unchanged.
\<close>

theorem cleanRunData_spec:
  assumes "graph_wf g" and "set ns \<subseteq> Collect (in_graph g)"
  shows "\<exists>rd. cleanRunData runData g ns = Inr rd \<and>
    (\<forall>k. obj_get rd k =
       (if hasNode g k \<and> k \<notin> (\<Union>n \<in> set ns. cleaned_by g n) then obj_get runData k else None))"
  by (rule cleanRunData_ok [OF assms])

subsection \<open>getNextExecutionIndex and anyReachableRootHasRunData, specified\<close>

lemma in_set_map_filter: "x \<in> set (List.map_filter f xs) \<longleftrightarrow> (\<exists>a \<in> set xs. f a = Some x)"
  by (induction xs) (auto simp: List.map_filter_def split: option.splits)

lemma next_index_fresh:
  "(\<forall>tds \<in> set (map_values runData). \<forall>td \<in> set tds. \<forall>i.
      td_executionIndex td = Some i \<longrightarrow> i < getNextExecutionIndex runData) \<and>
   ((\<forall>tds \<in> set (map_values runData). \<forall>td \<in> set tds. td_executionIndex td = None) \<longrightarrow>
      getNextExecutionIndex runData = 0)"
proof -
  let ?is = "List.map_filter td_executionIndex (concat (map_values runData))"
  have mem: "i \<in> set ?is \<longleftrightarrow>
      (\<exists>tds \<in> set (map_values runData). \<exists>td \<in> set tds. td_executionIndex td = Some i)" for i
    by (auto simp: in_set_map_filter)
  have "i \<in> set ?is \<Longrightarrow> i < getNextExecutionIndex runData" for i
    by (auto simp: getNextExecutionIndex_def Let_def less_Suc_eq_le)
  moreover have "set ?is = {} \<Longrightarrow> getNextExecutionIndex runData = 0"
    by (simp add: getNextExecutionIndex_def)
  ultimately show ?thesis using mem by (metis equals0I option.distinct(1))
qed

text \<open>
  The index \<^verbatim>\<open>getNextExecutionIndex\<close> gives is above every execution index in the run data, so a run
  numbered with it comes after all of them; on run data without indices it is 0.
\<close>

theorem getNextExecutionIndex_fresh:
  "(\<forall>tds \<in> set (map_values runData). \<forall>td \<in> set tds. \<forall>i.
      td_executionIndex td = Some i \<longrightarrow> i < getNextExecutionIndex runData) \<and>
   ((\<forall>tds \<in> set (map_values runData). \<forall>td \<in> set tds. td_executionIndex td = None) \<longrightarrow>
      getNextExecutionIndex runData = 0)"
  by (rule next_index_fresh)

definition is_main_root :: "directed_graph \<Rightarrow> node \<Rightarrow> bool" where
  "is_main_root g n \<longleftrightarrow> \<not> (\<exists>c \<in> conns_of g. gc_to c = n \<and> gc_type c = Main)"

lemma root_nodes_loop:
  assumes "set ns \<subseteq> Collect (in_graph g)"
  shows "\<exists>rs. fold_result (\<lambda>parentNode rootNodes.
              bind_result (getDirectParentConnections g parentNode) (\<lambda>cs.
                Inr (if list_ex (\<lambda>c. gc_type c = Main) cs then rootNodes
                     else set_add parentNode rootNodes))) ns rs0 = Inr rs \<and>
    set rs = set rs0 \<union> {n \<in> set ns. is_main_root g n}"
  using assms
proof (induction ns arbitrary: rs0)
  case Nil
  then show ?case by simp
next
  case (Cons n ns)
  define cs where "cs = filter (\<lambda>c. gc_to c = n) (map_values (g_connections g))"
  have cs: "getDirectParentConnections g n = Inr cs"
    using Cons.prems by (simp add: cs_def result_simps)
  have root: "list_ex (\<lambda>c. gc_type c = Main) cs \<longleftrightarrow> \<not> is_main_root g n"
    by (auto simp: cs_def is_main_root_def conns_of_def list_ex_iff)
  have "set ns \<subseteq> Collect (in_graph g)" using Cons.prems by simp
  note IH = Cons.IH [OF this, of "if is_main_root g n then set_add n rs0 else rs0"]
  show ?case
  proof (cases "is_main_root g n")
    case True
    with IH show ?thesis by (auto simp: cs root)
  next
    case False
    with IH show ?thesis by (auto simp: cs root)
  qed
qed

text \<open>
  On a well-formed graph \<^verbatim>\<open>anyReachableRootHasRunData\<close> returns, and tells whether the run data has
  an entry for a node that leads to the destination and has no incoming \<^verbatim>\<open>main\<close> connection. The
  destination itself counts only if it is on a cycle.
\<close>

theorem anyReachableRootHasRunData_spec:
  assumes wf: "graph_wf g" and d: "map_get (g_nodes g) nm = Some d"
  shows "anyReachableRootHasRunData g nm runData =
    Inr (\<exists>n. (n, d) \<in> (succ_rel g)\<^sup>+ \<and> is_main_root g n \<and> map_has runData (n_name n))"
proof -
  have "in_graph g d"
    using graph_wf_get [OF wf d] by simp
  from getParentConnections_reach [OF wf this] obtain cs where
    cs: "getParentConnections g d = Inr cs" "set cs = {c \<in> conns_of g. (gc_to c, d) \<in> (succ_rel g)\<^sup>*}"
    by blast
  define ns where "ns = set_of_list (map gc_from cs)"
  have ns: "n \<in> set ns \<longleftrightarrow> (n, d) \<in> (succ_rel g)\<^sup>+" for n
  proof -
    have "n \<in> set ns \<longleftrightarrow> (\<exists>m. (n, m) \<in> succ_rel g \<and> (m, d) \<in> (succ_rel g)\<^sup>*)"
      unfolding ns_def succ_rel_iff by (auto simp: cs(2) image_iff)
    then show ?thesis by (meson tranclD rtrancl_into_trancl2)
  qed
  have "set ns \<subseteq> Collect (in_graph g)"
    using cs(2) graph_wf_conn [OF wf] by (auto simp: ns_def conns_of_def)
  from root_nodes_loop [OF this, of "[]"] obtain rs where
    rs: "fold_result (\<lambda>parentNode rootNodes.
              bind_result (getDirectParentConnections g parentNode) (\<lambda>cs.
                Inr (if list_ex (\<lambda>c. gc_type c = Main) cs then rootNodes
                     else set_add parentNode rootNodes))) ns [] = Inr rs"
      "set rs = {n \<in> set ns. is_main_root g n}" by auto
  have "list_ex (\<lambda>n. map_has runData (n_name n)) rs \<longleftrightarrow>
      (\<exists>n. (n, d) \<in> (succ_rel g)\<^sup>+ \<and> is_main_root g n \<and> map_has runData (n_name n))"
    unfolding list_ex_iff rs(2) using ns by blast
  with rs(1) cs(1) d show ?thesis
    by (simp add: anyReachableRootHasRunData_def getNodes_def ns_def)
qed

subsection \<open>clone and filterDisabledNodes\<close>

lemma AList_update_fresh: "k \<notin> fst ` set m \<Longrightarrow> AList.update k v m = m @ [(k, v)]"
  by (induction m) auto

lemma addNodes_append:
  "distinct (map fst ns) \<Longrightarrow> fst ` set ns \<inter> fst ` set (g_nodes g) = {} \<Longrightarrow>
    list_all (\<lambda>(k, n). n_name n = k) ns \<Longrightarrow>
    addNodes (map snd ns) g = g\<lparr>g_nodes := g_nodes g @ ns\<rparr>"
proof (induction ns arbitrary: g)
  case Nil
  then show ?case by (simp add: addNodes_def)
next
  case (Cons p ns)
  obtain k n where p: "p = (k, n)" by force
  with Cons.prems have "addNode n g = g\<lparr>g_nodes := g_nodes g @ [(k, n)]\<rparr>"
    by (simp add: addNode_def AList_update_fresh)
  with Cons p show ?case by (auto simp: addNodes_def)
qed

lemma addConnections_append:
  "distinct (map fst cs) \<Longrightarrow> fst ` set cs \<inter> fst ` set (g_connections g) = {} \<Longrightarrow>
    list_all (\<lambda>(k, c). k = makeKey c \<and> in_graph g (gc_from c) \<and> in_graph g (gc_to c)) cs \<Longrightarrow>
    addConnections (map as_input (map snd cs)) g = Inr (g\<lparr>g_connections := g_connections g @ cs\<rparr>)"
proof (induction cs arbitrary: g)
  case Nil
  then show ?case by (simp add: addConnections_def)
next
  case (Cons p cs)
  obtain k c where p: "p = (k, c)" by force
  with Cons.prems have "addConnection (as_input c) g =
      Inr (g\<lparr>g_connections := g_connections g @ [(k, c)]\<rparr>)"
    by (simp add: addConnection_Inr AList_update_fresh)
  moreover have "addConnections (map as_input (map snd cs)) (g\<lparr>g_connections := g_connections g @ [(k, c)]\<rparr>)
      = Inr (g\<lparr>g_connections := g_connections g @ [(k, c)]\<rparr>\<lparr>g_connections := (g_connections g @ [(k, c)]) @ cs\<rparr>)"
    using Cons p by (subst Cons.IH) auto
  ultimately show ?case by (simp add: addConnections_def p)
qed

lemma clone_wf:
  assumes "graph_wf g"
  shows "clone g = Inr g"
proof -
  have nodes: "addNodes (map snd (g_nodes g)) empty_graph = empty_graph\<lparr>g_nodes := g_nodes g\<rparr>"
    using assms by (subst addNodes_append) (auto simp: graph_wf_def well_keyed_def empty_graph_def)
  have "addConnections (map as_input (map snd (g_connections g))) (empty_graph\<lparr>g_nodes := g_nodes g\<rparr>)
      = Inr (empty_graph\<lparr>g_nodes := g_nodes g, g_connections := g_connections g\<rparr>)"
    using assms by (subst addConnections_append)
      (auto simp: graph_wf_def well_keyed_def empty_graph_def in_graph_def list_all_iff)
  moreover have "empty_graph\<lparr>g_nodes := g_nodes g, g_connections := g_connections g\<rparr> = g"
    by (simp add: empty_graph_def)
  ultimately show ?thesis using nodes by (simp add: clone_def getConnections_def getNodes_def)
qed

subsection \<open>Keys that cannot collide\<close>

text \<open>
  \<^verbatim>\<open>makeKey\<close> joins its parts with dashes. If no node name and no connection type contains a dash, equal
  keys belong to connections with the same end points, type and indices.
\<close>

definition dashless :: "string \<Rightarrow> bool" where
  "dashless s \<longleftrightarrow> CHR ''-'' \<notin> set s"

lemma dash_split: "x @ CHR ''-'' # r = y @ CHR ''-'' # s \<Longrightarrow> dashless x \<Longrightarrow> dashless y \<Longrightarrow> x = y \<and> r = s"
proof (induction x arbitrary: y)
  case Nil
  then show ?case by (cases y) (auto simp: dashless_def)
next
  case (Cons a x)
  then show ?case by (cases y) (auto simp: dashless_def)
qed

lemma dashless_show_nat [simp]: "dashless (show_nat n)"
  unfolding dashless_def by (auto dest!: show_nat_digits simp: is_digit_def)

lemma makeKey_inj:
  assumes "makeKey c = makeKey d"
    and "dashless (n_name (gc_from c))" "dashless (gc_type c)"
    and "dashless (n_name (gc_from d))" "dashless (gc_type d)"
  shows "n_name (gc_from c) = n_name (gc_from d) \<and> gc_type c = gc_type d \<and>
    gc_outputIndex c = gc_outputIndex d \<and> gc_inputIndex c = gc_inputIndex d \<and>
    n_name (gc_to c) = n_name (gc_to d)"
proof -
  note key = assms(1) [unfolded makeKey_def, simplified append.simps]
  from dash_split [OF key assms(2,4)]
  have fromc: "n_name (gc_from c) = n_name (gc_from d)" and k1: "gc_type c @ CHR ''-'' #
      show_nat (gc_outputIndex c) @ CHR ''-'' # show_nat (gc_inputIndex c) @ CHR ''-'' # n_name (gc_to c) =
      gc_type d @ CHR ''-'' # show_nat (gc_outputIndex d) @ CHR ''-'' #
      show_nat (gc_inputIndex d) @ CHR ''-'' # n_name (gc_to d)" by blast+
  from dash_split [OF k1 assms(3,5)] have "gc_type c = gc_type d" and k2: "show_nat (gc_outputIndex c) @ CHR ''-'' #
      show_nat (gc_inputIndex c) @ CHR ''-'' # n_name (gc_to c) = show_nat (gc_outputIndex d) @ CHR ''-'' #
      show_nat (gc_inputIndex d) @ CHR ''-'' # n_name (gc_to d)" by blast+
  moreover from dash_split [OF k2] have "gc_outputIndex c = gc_outputIndex d"
    and k3: "show_nat (gc_inputIndex c) @ CHR ''-'' # n_name (gc_to c) =
      show_nat (gc_inputIndex d) @ CHR ''-'' # n_name (gc_to d)" by simp_all
  moreover from dash_split [OF k3] have "gc_inputIndex c = gc_inputIndex d" "n_name (gc_to c) = n_name (gc_to d)"
    by simp_all
  ultimately show ?thesis using fromc by simp
qed

definition dashless_graph :: "directed_graph \<Rightarrow> bool" where
  "dashless_graph g \<longleftrightarrow>
     list_all (\<lambda>n. dashless (n_name n)) (map_values (g_nodes g)) \<and>
     list_all (\<lambda>c. dashless (gc_type c)) (map_values (g_connections g))"

lemma makeKey_inj_graph:
  assumes "makeKey c = makeKey d" and "dashless_graph g"
    and "in_graph g (gc_from c)" "in_graph g (gc_to c)" "dashless (gc_type c)"
    and "in_graph g (gc_from d)" "in_graph g (gc_to d)" "dashless (gc_type d)"
  shows "c = d"
proof -
  have "dashless (n_name (gc_from c))" "dashless (n_name (gc_from d))"
    using assms in_graph_in_nodes unfolding dashless_graph_def list_all_iff by blast+
  from makeKey_inj [OF assms(1) this(1) assms(5) this(2) assms(8)] assms(3,4,6,7)
  show ?thesis by (auto simp: in_graph_def)
qed

lemma foldl_set_conns_keeps:
  assumes "\<And>d. d \<in> set cs \<Longrightarrow> makeKey d = makeKey c \<Longrightarrow> d = c"
    and "(makeKey c, c) \<in> set m0 \<or> c \<in> set cs"
  shows "(makeKey c, c) \<in> set (foldl (\<lambda>m c. map_set (makeKey c) c m) m0 cs)"
  using assms
proof (induction cs arbitrary: m0)
  case Nil
  then show ?case by simp
next
  case (Cons d cs)
  have "(makeKey c, c) \<in> set (map_set (makeKey d) d m0) \<or> c \<in> set cs"
  proof (cases "d = c")
    case True
    have "(k, v) \<in> set (AList.update k v m)" for k :: string and v :: gconn and m
      by (induction m) auto
    with True show ?thesis by simp
  next
    case False
    then have "makeKey d \<noteq> makeKey c" using Cons.prems(1) by auto
    moreover have "(k, v) \<in> set m \<Longrightarrow> k' \<noteq> k \<Longrightarrow> (k, v) \<in> set (AList.update k' v' m)"
      for k k' :: string and v v' :: gconn and m
      by (induction m) auto
    ultimately show ?thesis using Cons.prems(2) False by auto
  qed
  with Cons show ?case by simp
qed

subsection \<open>Removing a node, seen from the relations between nodes\<close>

definition main_rel :: "directed_graph \<Rightarrow> (node \<times> node) set" where
  "main_rel g = {(gc_from c, gc_to c) | c. c \<in> conns_of g \<and> gc_type c = Main}"

lemma main_rel_iff: "(a, b) \<in> main_rel g \<longleftrightarrow>
    (\<exists>c \<in> conns_of g. gc_type c = Main \<and> gc_from c = a \<and> gc_to c = b)"
  by (auto simp: main_rel_def)

lemma removeNode_conns_cases:
  assumes rm: "removeNode n True skip g = Inr (h, new)" and c: "c \<in> conns_of h"
  obtains "c \<in> conns_of g" "gc_from c \<noteq> n" "gc_to c \<noteq> n"
  | i out where "i \<in> conns_of g" "out \<in> conns_of g" "gc_to i = n" "gc_from out = n"
      "gc_from c = gc_from i" "gc_to c = gc_to out" "gc_type c = gc_type i"
proof -
  from c obtain k where "(k, c) \<in> set (g_connections h)" by (auto simp: conns_of_def)
  with rm obtain incoming outgoing where io: "getDirectParentConnections g n = Inr incoming"
      "getDirectChildConnections g n = Inr outgoing"
    and "((k, c) \<in> set (g_connections g) \<and> gc_from c \<noteq> n \<and> gc_to c \<noteq> n) \<or>
      c \<in> set (reconnections skip incoming outgoing)"
    by (auto simp: removeNode_def drop_node_connections_def result_simps Let_def dest!: foldl_set_conns_mem)
  then show thesis
  proof (elim disjE)
    assume "(k, c) \<in> set (g_connections g) \<and> gc_from c \<noteq> n \<and> gc_to c \<noteq> n"
    then have "c \<in> conns_of g" "gc_from c \<noteq> n" "gc_to c \<noteq> n" by (force simp: conns_of_def)+
    then show thesis by (rule that(1))
  next
    assume "c \<in> set (reconnections skip incoming outgoing)"
    from reconnections_mem [OF this] obtain i out where "i \<in> set incoming" "out \<in> set outgoing"
      "gc_from c = gc_from i" "gc_to c = gc_to out" "gc_type c = gc_type i" by blast
    with io that(2) [of i out] show thesis by (auto simp: result_simps conns_of_def)
  qed
qed

lemma removeNode_succ:
  assumes rm: "removeNode n True skip g = Inr (h, new)"
  shows "succ_rel h \<subseteq> (succ_rel g)\<^sup>+"
proof (rule subrelI)
  fix a b
  assume "(a, b) \<in> succ_rel h"
  then obtain c where c: "c \<in> conns_of h" "gc_from c = a" "gc_to c = b" by (auto simp: succ_rel_iff)
  show "(a, b) \<in> (succ_rel g)\<^sup>+"
  proof (cases rule: removeNode_conns_cases [OF rm c(1)])
    case 1
    with c show ?thesis using succ_relI [of c g] by auto
  next
    case (2 i out)
    then have "(a, n) \<in> succ_rel g" "(n, b) \<in> succ_rel g" using c by (auto simp: succ_rel_iff)
    then show ?thesis by (meson trancl.intros)
  qed
qed

lemma removeNode_main_keeps:
  assumes rm: "removeNode n True (Some not_main) g = Inr (h, new)"
    and wf: "graph_wf g" and dl: "dashless_graph g"
  shows "main_rel g \<inter> {(a, b). a \<noteq> n \<and> b \<noteq> n} \<subseteq> main_rel h"
    and "(a, n) \<in> main_rel g \<Longrightarrow> (n, b) \<in> main_rel g \<Longrightarrow> (a, b) \<in> main_rel h"
proof -
  from rm obtain incoming outgoing where inc: "getDirectParentConnections g n = Inr incoming"
    and outg: "getDirectChildConnections g n = Inr outgoing"
    and conns: "g_connections h = foldl (\<lambda>m c. map_set (makeKey c) c m)
        (g_connections (drop_node_connections n g)) (reconnections (Some not_main) incoming outgoing)"
    by (auto simp: removeNode_def result_simps Let_def)
  have ok: "in_graph g (gc_from c) \<and> in_graph g (gc_to c) \<and> dashless (gc_type c)"
    if "c \<in> conns_of g \<or> c \<in> set (reconnections (Some not_main) incoming outgoing)" for c
  proof -
    have old: "in_graph g (gc_from d) \<and> in_graph g (gc_to d) \<and> dashless (gc_type d)"
      if "d \<in> conns_of g" for d
      using that graph_wf_conn [OF wf] dl by (auto simp: conns_of_def dashless_graph_def list_all_iff)
    show ?thesis
    proof (cases "c \<in> conns_of g")
      case True
      then show ?thesis by (rule old)
    next
      case False
      with that reconnections_mem obtain i out where "i \<in> set incoming" "out \<in> set outgoing"
        "gc_from c = gc_from i" "gc_to c = gc_to out" "gc_type c = gc_type i" by blast
      moreover from this have "i \<in> conns_of g" "out \<in> conns_of g"
        using inc outg by (auto simp: result_simps conns_of_def)
      ultimately show ?thesis using old by auto
    qed
  qed
  have kept: "c \<in> conns_of h"
    if c: "(c \<in> conns_of g \<and> gc_from c \<noteq> n \<and> gc_to c \<noteq> n) \<or>
      c \<in> set (reconnections (Some not_main) incoming outgoing)" for c
  proof -
    have "(makeKey c, c) \<in> set (g_connections h)"
      unfolding conns
    proof (rule foldl_set_conns_keeps)
      fix d
      assume "d \<in> set (reconnections (Some not_main) incoming outgoing)" "makeKey d = makeKey c"
      then show "d = c" using makeKey_inj_graph [OF _ dl] ok [of c] ok [of d] c by blast
    next
      show "(makeKey c, c) \<in> set (g_connections (drop_node_connections n g)) \<or>
          c \<in> set (reconnections (Some not_main) incoming outgoing)"
        using c wf by (auto simp: drop_node_connections_def conns_of_def graph_wf_def list_all_iff)
    qed
    then show ?thesis by (force simp: conns_of_def)
  qed
  show "main_rel g \<inter> {(a, b). a \<noteq> n \<and> b \<noteq> n} \<subseteq> main_rel h"
    using kept by (force simp: main_rel_iff)
  assume "(a, n) \<in> main_rel g" "(n, b) \<in> main_rel g"
  then obtain i out where io: "i \<in> conns_of g" "gc_type i = Main" "gc_from i = a" "gc_to i = n"
    "out \<in> conns_of g" "gc_type out = Main" "gc_from out = n" "gc_to out = b" by (auto simp: main_rel_iff)
  let ?c = "i\<lparr>gc_to := gc_to out, gc_inputIndex := gc_inputIndex out\<rparr>"
  have "i \<in> set incoming" "out \<in> set outgoing" using io inc outg by (auto simp: result_simps conns_of_def)
  then have "?c \<in> set (reconnections (Some not_main) incoming outgoing)"
    using io unfolding reconnections_def not_main_def Let_def by fastforce
  then have "?c \<in> conns_of h" using kept by blast
  with io show "(a, b) \<in> main_rel h" unfolding main_rel_iff by (intro bexI [of _ ?c]) auto
qed

lemma trancl_bypass:
  assumes path: "(a, b) \<in> r\<^sup>+" and a: "a \<noteq> n"
    and keep: "r \<inter> {(a, b). a \<noteq> n \<and> b \<noteq> n} \<subseteq> s"
    and bypass: "\<And>a b. (a, n) \<in> r \<Longrightarrow> (n, b) \<in> r \<Longrightarrow> (a, b) \<in> s"
    and loop: "(n, n) \<notin> r"
  shows "if b = n then \<exists>m. (a, m) \<in> s\<^sup>* \<and> m \<noteq> n \<and> (m, n) \<in> r else (a, b) \<in> s\<^sup>+"
  using path
proof (induction rule: trancl_induct)
  case (base b)
  with a keep show ?case by auto
next
  case (step b c)
  show ?case
  proof (cases "b = n")
    case True
    with step loop obtain m where m: "(a, m) \<in> s\<^sup>*" "(m, n) \<in> r" "c \<noteq> n" by auto
    then have "(m, c) \<in> s" using bypass step True by blast
    with m show ?thesis by auto
  next
    case False
    with step have ab: "(a, b) \<in> s\<^sup>+" by simp
    show ?thesis
    proof (cases "c = n")
      case True
      with ab False step show ?thesis by (auto dest: trancl_into_rtrancl)
    next
      case False
      with \<open>b \<noteq> n\<close> step keep have "(b, c) \<in> s" by auto
      with ab False show ?thesis by (auto intro: trancl_into_trancl)
    qed
  qed
qed

lemma main_rel_succ: "main_rel g \<subseteq> succ_rel g"
  by (auto simp: main_rel_def succ_rel_def)

text \<open>
  \<open>without S g h\<close>: \<open>h\<close> is \<open>g\<close> without the nodes of \<open>S\<close>, with their connections bridged.
\<close>

definition without :: "node set \<Rightarrow> directed_graph \<Rightarrow> directed_graph \<Rightarrow> bool" where
  "without S g h \<longleftrightarrow>
     graph_wf h \<and> g_nodes h = filter (\<lambda>(k, m). m \<notin> S) (g_nodes g) \<and> succ_rel h \<subseteq> (succ_rel g)\<^sup>+ \<and>
     (dashless_graph g \<longrightarrow> dashless_graph h \<and>
       (\<forall>a b. a \<notin> S \<longrightarrow> b \<notin> S \<longrightarrow> (a, b) \<in> (main_rel g)\<^sup>+ \<longrightarrow> (a, b) \<in> (main_rel h)\<^sup>+))"

lemma without_refl: "graph_wf g \<Longrightarrow> without {} g g"
  by (auto simp: without_def r_into_trancl')

lemma without_trancl:
  assumes "without S g h"
  shows "(succ_rel h)\<^sup>+ \<subseteq> (succ_rel g)\<^sup>+"
proof (rule subrelI)
  fix a b
  assume ab: "(a, b) \<in> (succ_rel h)\<^sup>+"
  have "succ_rel h \<subseteq> (succ_rel g)\<^sup>+" using assms by (simp add: without_def)
  from trancl_mono [OF ab this] show "(a, b) \<in> (succ_rel g)\<^sup>+" by simp
qed

lemma without_trans:
  assumes gh: "without S g h" and hk: "without T h k"
  shows "without (S \<union> T) g k"
proof -
  have "g_nodes k = filter (\<lambda>(k, m). m \<notin> S \<union> T) (g_nodes g)"
    using gh hk unfolding without_def by (auto intro: filter_cong)
  moreover have "succ_rel k \<subseteq> (succ_rel g)\<^sup>+"
    using hk without_trancl [OF gh] unfolding without_def by blast
  ultimately show ?thesis using gh hk unfolding without_def by blast
qed

lemma removeNode_step:
  assumes wf: "graph_wf g" and n: "in_graph g n" and acyclic: "(n, n) \<notin> (succ_rel g)\<^sup>+"
  shows "\<exists>h new. removeNode n True (Some not_main) g = Inr (h, new) \<and> without {n} g h"
proof -
  obtain h new where rm: "removeNode n True (Some not_main) g = Inr (h, new)"
    using removeNode_total [OF n] by blast
  have "(n, n) \<notin> succ_rel g" using acyclic by blast
  then have "\<not> self_connected g n" by (auto simp: self_connected_def succ_rel_iff conns_of_def)
  with removeNode_wf [OF wf n _ rm] have wfh: "graph_wf h" by simp
  have same: "k \<noteq> n_name n \<longleftrightarrow> m \<noteq> n" if "(k, m) \<in> set (g_nodes g)" for k m
    using graph_wf_same_name [OF wf n that] by simp
  have nodes: "g_nodes h = filter (\<lambda>(k, m). m \<noteq> n) (g_nodes g)"
    unfolding removeNode_nodes [OF rm] AList.delete_eq
    by (rule filter_cong [OF refl]) (use same in auto)
  have dl: "dashless_graph h" if "dashless_graph g"
  proof -
    have "dashless (gc_type c)" if c: "c \<in> conns_of h" for c
      using removeNode_conns_cases [OF rm c] \<open>dashless_graph g\<close>
      by (metis dashless_graph_def list_all_iff conns_of_def)
    then show ?thesis using that nodes by (auto simp: dashless_graph_def list_all_iff conns_of_def)
  qed
  have loop: "(n, n) \<notin> main_rel g" using acyclic main_rel_succ by blast
  have "(a, b) \<in> (main_rel h)\<^sup>+" if "dashless_graph g" "a \<noteq> n" "b \<noteq> n" "(a, b) \<in> (main_rel g)\<^sup>+" for a b
    using trancl_bypass [OF that(4,2) removeNode_main_keeps [OF rm wf that(1)] loop] that(3) by simp
  with wfh nodes removeNode_succ [OF rm] dl have "without {n} g h" by (simp add: without_def)
  with rm show ?thesis by blast
qed

lemma disable_loop:
  assumes "graph_wf g" and "distinct ns" and "set ns \<subseteq> Collect (in_graph g)"
    and "\<And>n. n \<in> set ns \<Longrightarrow> is_disabled n \<Longrightarrow> (n, n) \<notin> (succ_rel g)\<^sup>+"
  shows "\<exists>h. fold_result drop_if_disabled ns g = Inr h \<and> without {n \<in> set ns. is_disabled n} g h"
  using assms
proof (induction ns arbitrary: g)
  case Nil
  then show ?case by (simp add: without_refl)
next
  case (Cons n ns)
  have split: "{m \<in> set (n # ns). is_disabled m} =
      (if is_disabled n then {n} else {}) \<union> {m \<in> set ns. is_disabled m}" by auto
  have "\<exists>h. drop_if_disabled n g = Inr h \<and> without (if is_disabled n then {n} else {}) g h"
    using removeNode_step [OF Cons.prems(1), of n] Cons.prems(3,4) without_refl [OF Cons.prems(1)]
    by (auto simp: drop_if_disabled_def)
  then obtain h where h: "drop_if_disabled n g = Inr h"
    and w: "without (if is_disabled n then {n} else {}) g h" by blast
  have wf: "graph_wf h" using w by (simp add: without_def)
  have "in_graph h m" if m: "m \<in> set ns" for m
  proof -
    have "m \<in> set (map_values (g_nodes g))" "m \<noteq> n"
      using Cons.prems(2,3) m in_graph_in_nodes [of g m] by auto
    then have "m \<in> set (map_values (g_nodes h))"
      using w unfolding without_def by (auto simp: image_iff split: if_splits)
    with wf show ?thesis by (rule graph_wf_nodes)
  qed
  moreover have "(m, m) \<notin> (succ_rel h)\<^sup>+" if "m \<in> set ns" "is_disabled m" for m
    using Cons.prems(4) [of m] that without_trancl [OF w] by auto
  moreover have "distinct ns" using Cons.prems(2) by simp
  ultimately obtain k where "fold_result drop_if_disabled ns h = Inr k"
    "without {m \<in> set ns. is_disabled m} h k"
    using Cons.IH [OF wf] by blast
  with h without_trans [OF w this(2)] show ?case unfolding split by simp
qed

lemma filterDisabledNodes_ok:
  assumes wf: "graph_wf g" and acyclic: "\<And>n. is_disabled n \<Longrightarrow> (n, n) \<notin> (succ_rel g)\<^sup>+"
  shows "\<exists>h. filterDisabledNodes g = Inr h \<and> graph_wf h \<and>
    g_nodes h = filter (\<lambda>(k, n). \<not> is_disabled n) (g_nodes g) \<and> succ_rel h \<subseteq> (succ_rel g)\<^sup>+ \<and>
    (dashless_graph g \<longrightarrow>
       (\<forall>a b. \<not> is_disabled a \<longrightarrow> \<not> is_disabled b \<longrightarrow> (a, b) \<in> (main_rel g)\<^sup>+ \<longrightarrow> (a, b) \<in> (main_rel h)\<^sup>+))"
proof -
  let ?S = "{n \<in> set (map_values (g_nodes g)). is_disabled n}"
  have "set (map_values (g_nodes g)) \<subseteq> Collect (in_graph g)"
    using graph_wf_nodes [OF wf] by blast
  from disable_loop [OF wf graph_wf_distinct_nodes [OF wf] this acyclic] obtain h where
    h: "fold_result drop_if_disabled (map_values (g_nodes g)) g = Inr h" and w: "without ?S g h" by blast
  have "filterDisabledNodes g = Inr h"
    using h by (simp add: filterDisabledNodes_def clone_wf [OF wf] getNodes_def)
  moreover have "filter (\<lambda>(k, m). m \<notin> ?S) (g_nodes g) = filter (\<lambda>(k, n). \<not> is_disabled n) (g_nodes g)"
    by (rule filter_cong [OF refl]) force
  ultimately show ?thesis using w unfolding without_def by auto
qed

text \<open>
  If no disabled node of a well-formed graph lies on a cycle, \<^verbatim>\<open>filterDisabledNodes\<close> returns a
  well-formed graph with exactly the nodes that are not disabled, in their old order, and makes no node
  reach another that it did not reach before. If moreover no node name and no connection type contains
  a dash (so that the keys of connections cannot collide), every enabled node that led to another one
  over \<^verbatim>\<open>main\<close> connections, possibly through disabled nodes, still does.
\<close>

theorem filterDisabledNodes_spec:
  assumes wf: "graph_wf g" and acyclic: "\<And>n. is_disabled n \<Longrightarrow> (n, n) \<notin> (succ_rel g)\<^sup>+"
  shows "\<exists>h. filterDisabledNodes g = Inr h \<and> graph_wf h \<and>
    g_nodes h = filter (\<lambda>(k, n). \<not> is_disabled n) (g_nodes g) \<and> succ_rel h \<subseteq> (succ_rel g)\<^sup>+ \<and>
    (dashless_graph g \<longrightarrow>
       (\<forall>a b. \<not> is_disabled a \<longrightarrow> \<not> is_disabled b \<longrightarrow> (a, b) \<in> (main_rel g)\<^sup>+ \<longrightarrow> (a, b) \<in> (main_rel h)\<^sup>+))"
  by (rule filterDisabledNodes_ok [OF assms])

subsection \<open>The theorems on concrete data\<close>

lemma sample_nodes_in: "set [sample_action] \<subseteq> Collect (in_graph sample_graph)"
  using sample_in_graph by simp

lemma sample_get_action: "map_get (g_nodes sample_graph) ''a'' = Some sample_action"
  by code_simp

theorem cleanRunData_spec_witness:
  "\<exists>rd. cleanRunData [(''t'', 1 :: nat), (''a'', 2)] sample_graph [sample_action] = Inr rd \<and>
    (\<forall>k. obj_get rd k =
       (if hasNode sample_graph k \<and> k \<notin> (\<Union>n \<in> set [sample_action]. cleaned_by sample_graph n)
        then obj_get [(''t'', 1), (''a'', 2)] k else None))"
  by (rule cleanRunData_spec [OF sample_graph_wf sample_nodes_in])

definition sample_task :: "nat option \<Rightarrow> task_data" where
  "sample_task i = \<lparr>td_executionIndex = i, td_source = [], td_executionStatus = None, td_data = None,
     td_inputOverride = None, td_error = None, td_metadata = None\<rparr>"

theorem getNextExecutionIndex_fresh_witness:
  "3 < getNextExecutionIndex [(''a'', [sample_task (Some 3), sample_task (Some 1)])] \<and>
   getNextExecutionIndex [(''a'', [sample_task None])] = 0"
  using getNextExecutionIndex_fresh [of "[(''a'', [sample_task (Some 3), sample_task (Some 1)])]"]
    getNextExecutionIndex_fresh [of "[(''a'', [sample_task None])]"]
  by (simp add: sample_task_def)

theorem anyReachableRootHasRunData_spec_witness:
  "anyReachableRootHasRunData sample_graph ''a'' [(''t'', [])] =
    Inr (\<exists>n. (n, sample_action) \<in> (succ_rel sample_graph)\<^sup>+ \<and> is_main_root sample_graph n \<and>
      map_has [(''t'', [] :: task_data list)] (n_name n))"
  by (rule anyReachableRootHasRunData_spec [OF sample_graph_wf sample_get_action])

theorem filterDisabledNodes_spec_witness:
  "\<exists>h. filterDisabledNodes sample_graph = Inr h \<and> graph_wf h \<and>
    g_nodes h = filter (\<lambda>(k, n). \<not> is_disabled n) (g_nodes sample_graph) \<and>
    (sample_trigger, sample_action) \<in> (main_rel h)\<^sup>+"
proof -
  have "dashless_graph sample_graph" by code_simp
  moreover have "(sample_trigger, sample_action) \<in> (main_rel sample_graph)\<^sup>+"
    by (rule r_into_trancl) (auto simp: main_rel_def conns_of_def sample_graph_def sample_conn_def)
  ultimately show ?thesis
    using filterDisabledNodes_spec [OF sample_graph_wf acyclic_sample_graph] sample_enabled by blast
qed

end
