(* ===== verification/SubgraphFacts.thy ===== *)
theory SubgraphFacts
  imports PartialGraph
begin

section \<open>What findSubgraph keeps\<close>

text \<open>
  \<^verbatim>\<open>find-subgraph.ts\<close>: the result is a well-formed part of the input graph, every node of it leads to
  the destination, every simple \<^verbatim>\<open>main\<close> route from the trigger to the destination is in it, and so are
  the connections of other types upstream of its nodes.
\<close>

subsection \<open>Growing a part of a graph\<close>

definition part_of :: "directed_graph \<Rightarrow> node \<Rightarrow> directed_graph \<Rightarrow> bool" where
  "part_of g destination h \<longleftrightarrow>
     graph_wf h \<and> conns_of h \<subseteq> conns_of g \<and>
     (\<forall>n. in_graph h n \<longrightarrow> in_graph g n \<and> (n, destination) \<in> (succ_rel g)\<^sup>*)"

definition grows :: "directed_graph \<Rightarrow> directed_graph \<Rightarrow> bool" where
  "grows h h' \<longleftrightarrow> conns_of h \<subseteq> conns_of h' \<and> (\<forall>n. in_graph h n \<longrightarrow> in_graph h' n)"

lemma grows_refl [simp]: "grows h h"
  by (simp add: grows_def)

lemma grows_trans: "grows h1 h2 \<Longrightarrow> grows h2 h3 \<Longrightarrow> grows h1 h3"
  by (auto simp: grows_def)

lemma part_of_empty: "part_of g d empty_graph"
  by (simp add: part_of_def) (simp add: empty_graph_def conns_of_def in_graph_def)

lemma conns_addNode [simp]: "conns_of (addNode n h) = conns_of h"
  by (simp add: conns_of_def)

lemma part_of_fresh:
  assumes "graph_wf g" and "part_of g d h" and "in_graph g n"
  shows "\<not> hasNode h (n_name n) \<or> in_graph h n"
proof (rule disjCI)
  assume "\<not> in_graph h n"
  show "\<not> hasNode h (n_name n)"
  proof
    assume "hasNode h (n_name n)"
    then obtain m where m: "map_get (g_nodes h) (n_name n) = Some m"
      by (auto simp: hasNode_def map_has_def)
    have "graph_wf h" using assms(2) by (simp add: part_of_def)
    have "n_name m = n_name n" and "in_graph h m"
      using graph_wf_get [OF \<open>graph_wf h\<close> m] by blast+
    then have "in_graph g m" using assms(2) by (simp add: part_of_def)
    with assms(3) \<open>n_name m = n_name n\<close> have "m = n"
      unfolding in_graph_def by (metis option.inject)
    with \<open>in_graph h m\<close> \<open>\<not> in_graph h n\<close> show False by simp
  qed
qed

lemma part_of_addNode:
  assumes wf: "graph_wf g" and h: "part_of g d h" and n: "in_graph g n" "(n, d) \<in> (succ_rel g)\<^sup>*"
  shows "part_of g d (addNode n h) \<and> grows h (addNode n h) \<and> in_graph (addNode n h) n"
proof -
  note fresh = part_of_fresh [OF wf h n(1)]
  have "graph_wf (addNode n h)" using addNode_wf [OF _ fresh] h by (simp add: part_of_def)
  moreover have "in_graph (addNode n h) m" if "in_graph h m" for m
    using fresh that by (auto simp: hasNode_def map_has_def in_graph_def addNode_def store_simps)
  ultimately show ?thesis
    using h n by (auto simp: part_of_def grows_def split: if_splits)
qed

lemma conns_of_iff: "c \<in> conns_of g \<longleftrightarrow> (\<exists>k. (k, c) \<in> set (g_connections g))"
  by (force simp: conns_of_def)

lemma conn_unique:
  assumes "graph_wf g" and "c \<in> conns_of g" and "d \<in> conns_of g" and "makeKey c = makeKey d"
  shows "c = d"
proof -
  have "map_of (g_connections g) (makeKey e) = Some e" if "e \<in> conns_of g" for e
  proof -
    from that obtain k where "(k, e) \<in> set (g_connections g)" by (auto simp: conns_of_iff)
    with assms(1) have "(makeKey e, e) \<in> set (g_connections g)" "well_keyed (g_connections g)"
      by (auto simp: graph_wf_def list_all_iff)
    then show ?thesis by (simp add: well_keyed_get)
  qed
  from this [OF assms(2)] this [OF assms(3)] show ?thesis unfolding assms(4) by (rule option.inject [THEN iffD1, OF trans [OF sym]])
qed

lemma conns_of_set:
  assumes "graph_wf h" and "\<And>d. d \<in> conns_of h \<Longrightarrow> makeKey d = makeKey c \<Longrightarrow> d = c"
  shows "snd ` set (map_set (makeKey c) c (g_connections h)) = insert c (conns_of h)"
proof -
  have key: "k = makeKey e" if "(k, e) \<in> set (g_connections h)" for k e
    using that assms(1) by (auto simp: graph_wf_def list_all_iff)
  have wk: "well_keyed (map_set (makeKey c) c (g_connections h))" using assms(1) by (simp add: graph_wf_def)
  have "e \<in> snd ` set (map_set (makeKey c) c (g_connections h)) \<longleftrightarrow> e \<in> insert c (conns_of h)" for e
  proof -
    have "e \<in> snd ` set (map_set (makeKey c) c (g_connections h)) \<longleftrightarrow>
        (\<exists>k. map_of (map_set (makeKey c) c (g_connections h)) k = Some e)"
      using well_keyed_values [OF wk] by simp
    also have "\<dots> \<longleftrightarrow> e = c \<or> (\<exists>k. k \<noteq> makeKey c \<and> map_of (g_connections h) k = Some e)"
      by (auto simp: map_get_set)
    also have "(\<exists>k. k \<noteq> makeKey c \<and> map_of (g_connections h) k = Some e) \<longleftrightarrow>
        (\<exists>k. k \<noteq> makeKey c \<and> (k, e) \<in> set (g_connections h))"
      using assms(1) by (simp add: well_keyed_get graph_wf_def)
    also have "(\<exists>k. k \<noteq> makeKey c \<and> (k, e) \<in> set (g_connections h)) \<longleftrightarrow> e \<in> conns_of h \<and> makeKey e \<noteq> makeKey c"
      using key [of _ e] by (auto simp: conns_of_iff)
    finally show ?thesis using assms(2) [of e] by blast
  qed
  then show ?thesis by blast
qed

definition add_link :: "gconn \<Rightarrow> directed_graph \<Rightarrow> directed_graph result" where
  "add_link c h = addConnection (as_input c) (addNodes [gc_from c, gc_to c] h)"

lemma add_link_ok:
  assumes wf: "graph_wf g" and h: "part_of g d h" and c: "c \<in> conns_of g" "(gc_to c, d) \<in> (succ_rel g)\<^sup>*"
  shows "\<exists>h'. add_link c h = Inr h' \<and> part_of g d h' \<and> grows h h' \<and> c \<in> conns_of h' \<and>
    in_graph h' (gc_from c) \<and> in_graph h' (gc_to c)"
proof -
  have ends: "in_graph g (gc_from c)" "in_graph g (gc_to c)"
    using graph_wf_conn [OF wf] c(1) by (simp_all add: conns_of_def)
  have "(gc_from c, d) \<in> (succ_rel g)\<^sup>*"
    using succ_relI [OF c(1)] c(2) by (rule converse_rtrancl_into_rtrancl)
  from part_of_addNode [OF wf h ends(1) this] have
    h1: "part_of g d (addNode (gc_from c) h)" "grows h (addNode (gc_from c) h)"
      "in_graph (addNode (gc_from c) h) (gc_from c)" by blast+
  define h2 where "h2 = addNode (gc_to c) (addNode (gc_from c) h)"
  have h2: "part_of g d h2" "grows (addNode (gc_from c) h) h2" "in_graph h2 (gc_to c)"
    unfolding h2_def using part_of_addNode [OF wf h1(1) ends(2) c(2)] by blast+
  then have from2: "in_graph h2 (gc_from c)" using h1(3) by (simp add: grows_def)
  let ?h' = "h2\<lparr>g_connections := map_set (makeKey c) c (g_connections h2)\<rparr>"
  have eq: "addConnection (as_input c) h2 = Inr ?h'"
    using from2 h2(3) by (simp add: addConnection_Inr)
  have "conns_of h2 \<subseteq> conns_of g" and wf2: "graph_wf h2" using h2(1) by (simp_all add: part_of_def)
  then have "snd ` set (map_set (makeKey c) c (g_connections h2)) = insert c (conns_of h2)"
    using conn_unique [OF wf _ c(1)] by (intro conns_of_set) auto
  then have conns: "conns_of ?h' = insert c (conns_of h2)" by (simp add: conns_of_def)
  have "part_of g d ?h'"
    using addConnection_wf [OF wf2 eq] h2(1) c(1) by (simp add: part_of_def conns)
  moreover have "grows h2 ?h'" by (simp add: grows_def conns subset_insertI)
  moreover have "c \<in> conns_of ?h'" by (simp add: conns)
  moreover have "in_graph ?h' (gc_from c)" "in_graph ?h' (gc_to c)" using from2 h2(3) by simp_all
  moreover have "add_link c h = Inr ?h'" using eq by (simp add: add_link_def addNodes_def h2_def)
  ultimately show ?thesis using grows_trans [OF grows_trans [OF h1(2) h2(2)]] by blast
qed

lemma add_branch_eq: "add_branch branch h = fold_result add_link branch h"
  by (simp add: add_branch_def add_link_def [abs_def])

lemma add_branch_ok:
  assumes wf: "graph_wf g" and "part_of g d h" and "set branch \<subseteq> conns_of g"
    and "\<And>c. c \<in> set branch \<Longrightarrow> (gc_to c, d) \<in> (succ_rel g)\<^sup>*"
  shows "\<exists>h'. add_branch branch h = Inr h' \<and> part_of g d h' \<and> grows h h' \<and> set branch \<subseteq> conns_of h'"
  unfolding add_branch_eq using assms(2-4)
proof (induction branch arbitrary: h)
  case Nil
  then show ?case by simp
next
  case (Cons c branch)
  have "c \<in> conns_of g" "(gc_to c, d) \<in> (succ_rel g)\<^sup>*" using Cons.prems by simp_all
  from add_link_ok [OF wf Cons.prems(1) this]
  obtain h1 where h1: "add_link c h = Inr h1" "part_of g d h1" "grows h h1" "c \<in> conns_of h1" by blast
  have "set branch \<subseteq> conns_of g" using Cons.prems(2) by simp
  from Cons.IH [OF h1(2) this] Cons.prems(3)
  obtain h' where h': "fold_result add_link branch h1 = Inr h'" "part_of g d h'" "grows h1 h'"
    "set branch \<subseteq> conns_of h'" by (metis list.set_intros(2))
  have "c \<in> conns_of h'" using h1(4) h'(3) by (auto simp: grows_def)
  with h1(1) h' grows_trans [OF h1(3) h'(3)] show ?case by simp
qed

subsection \<open>The recursion\<close>

definition branch_ok :: "directed_graph \<Rightarrow> node \<Rightarrow> gconn list \<Rightarrow> bool" where
  "branch_ok g d branch \<longleftrightarrow>
     set branch \<subseteq> conns_of g \<and> (\<forall>c \<in> set branch. (gc_to c, d) \<in> (succ_rel g)\<^sup>*)"

lemma branch_ok_snoc:
  "branch_ok g d branch \<Longrightarrow> p \<in> conns_of g \<Longrightarrow> (gc_to p, d) \<in> (succ_rel g)\<^sup>* \<Longrightarrow> branch_ok g d (branch @ [p])"
  by (simp add: branch_ok_def)

lemma parents_of_current:
  assumes "getDirectParentConnections g current = Inr ps" and "p \<in> set ps"
    and "(current, d) \<in> (succ_rel g)\<^sup>*"
  shows "p \<in> conns_of g" "gc_to p = current" "(gc_to p, d) \<in> (succ_rel g)\<^sup>*" "(gc_from p, d) \<in> (succ_rel g)\<^sup>*"
proof -
  show p: "p \<in> conns_of g" "gc_to p = current" using assms by (auto simp: result_simps conns_of_def)
  then show "(gc_to p, d) \<in> (succ_rel g)\<^sup>*" using assms(3) by simp
  then show "(gc_from p, d) \<in> (succ_rel g)\<^sup>*"
    using succ_relI [OF p(1)] by (rule converse_rtrancl_into_rtrancl [rotated])
qed

definition keeps_on :: "directed_graph \<Rightarrow> node \<Rightarrow> directed_graph \<Rightarrow> directed_graph \<Rightarrow> bool" where
  "keeps_on g d h h' \<longleftrightarrow> part_of g d h' \<and> grows h h'"

lemma keeps_on_trans: "keeps_on g d h1 h2 \<Longrightarrow> keeps_on g d h2 h3 \<Longrightarrow> keeps_on g d h1 h3"
  using grows_trans by (auto simp: keeps_on_def)

lemma keep_branch_ok:
  assumes "graph_wf g" and "part_of g d h" and "branch_ok g d branch"
  shows "\<exists>h'. add_branch branch h = Inr h' \<and> keeps_on g d h h' \<and> set branch \<subseteq> conns_of h'"
  using add_branch_ok [OF assms(1,2)] assms(3) by (auto simp: branch_ok_def keeps_on_def)

lemma keep_trigger_ok:
  assumes wf: "graph_wf g" and h: "part_of g d h" and "branch_ok g d branch"
    and t: "in_graph g t" "(t, d) \<in> (succ_rel g)\<^sup>*"
  shows "\<exists>h'. add_branch branch (addNode t h) = Inr h' \<and> keeps_on g d h h' \<and> set branch \<subseteq> conns_of h' \<and>
    in_graph h' t"
proof -
  note t = part_of_addNode [OF wf h t]
  then obtain h' where "add_branch branch (addNode t h) = Inr h'" "keeps_on g d (addNode t h) h'"
    "set branch \<subseteq> conns_of h'"
    using keep_branch_ok [OF wf _ assms(3)] by blast
  with t show ?thesis
    using keeps_on_trans [of g d h "addNode t h" h'] by (auto simp: keeps_on_def grows_def)
qed

lemma findSubgraphRecursive_ok:
  assumes "graph_wf g"
  shows "part_of g destination h \<Longrightarrow> branch_ok g destination branch \<Longrightarrow> in_graph g current \<Longrightarrow>
    (current, destination) \<in> (succ_rel g)\<^sup>* \<Longrightarrow>
    \<exists>h'. findSubgraphRecursive g destination current trigger h branch = Inr h' \<and> keeps_on g destination h h'"
  using assms
proof (induction g destination current trigger h branch rule: findSubgraphRecursive.induct)
  case (1 g d current trigger h branch)
  obtain ps where ps: "getDirectParentConnections g current = Inr ps"
    using "1.prems"(3) by (auto simp: result_simps)
  show ?case
  proof (cases "current = trigger")
    case True
    with keep_trigger_ok [OF "1.prems"(5,1,2,3,4)] show ?thesis by auto
  next
    case trigger: False
    consider "ps = [] \<or> current = d \<and> list_ex (\<lambda>c. gc_to c = d) branch"
      | "ps \<noteq> []" "\<not> (current = d \<and> list_ex (\<lambda>c. gc_to c = d) branch)" "list_ex (\<lambda>c. gc_to c = current) branch"
      | "ps \<noteq> []" "\<not> (current = d \<and> list_ex (\<lambda>c. gc_to c = d) branch)" "\<not> list_ex (\<lambda>c. gc_to c = current) branch"
      by blast
    then show ?thesis
    proof cases
      case 1
      with trigger ps "1.prems"(1) show ?thesis by (auto simp: keeps_on_def)
    next
      case 2
      with trigger ps keep_branch_ok [OF "1.prems"(5,1,2)] show ?thesis by auto
    next
      case 3
      have "\<exists>h'. fold_result (\<lambda>p h. if gc_type p \<noteq> Main then Inr h
            else findSubgraphRecursive g d (gc_from p) trigger h (branch @ [p])) ps h = Inr h' \<and> keeps_on g d h h'"
      proof (rule fold_result_total)
        show "keeps_on g d h h" using "1.prems"(1) by (simp add: keeps_on_def)
      next
        fix p t
        assume p: "p \<in> set ps" and t: "keeps_on g d h t"
        note par = parents_of_current [OF ps p "1.prems"(4)]
        have "in_graph g (gc_from p)" using graph_wf_conn [OF "1.prems"(5)] par(1) by (simp add: conns_of_def)
        moreover have "branch_ok g d (branch @ [p])" using "1.prems"(2) par(1,3) by (rule branch_ok_snoc)
        moreover have "part_of g d t" using t by (simp add: keeps_on_def)
        ultimately have "gc_type p = Main \<Longrightarrow>
            \<exists>t'. findSubgraphRecursive g d (gc_from p) trigger t (branch @ [p]) = Inr t' \<and> keeps_on g d t t'"
          using "1.IH" [OF trigger ps 3 p, of t] par(4) "1.prems"(5) by blast
        with t show "\<exists>t'. (if gc_type p \<noteq> Main then Inr t
            else findSubgraphRecursive g d (gc_from p) trigger t (branch @ [p])) = Inr t' \<and> keeps_on g d h t'"
          using keeps_on_trans by auto
      qed
      with trigger ps 3 show ?thesis by (subst findSubgraphRecursive.simps) (simp, blast)
    qed
  qed
qed

subsection \<open>Every simple route is kept\<close>

text \<open>
  \<open>route g t cs n\<close>: following \<open>cs\<close> backwards from \<open>n\<close>, over \<^verbatim>\<open>main\<close> connections of \<open>g\<close>, ends at \<open>t\<close>.
\<close>

fun route :: "directed_graph \<Rightarrow> node \<Rightarrow> gconn list \<Rightarrow> node \<Rightarrow> bool" where
  "route g t [] n \<longleftrightarrow> n = t"
| "route g t (c # cs) n \<longleftrightarrow> c \<in> conns_of g \<and> gc_type c = Main \<and> gc_to c = n \<and> route g t cs (gc_from c)"

definition simple_route :: "directed_graph \<Rightarrow> node \<Rightarrow> gconn list \<Rightarrow> node \<Rightarrow> bool" where
  "simple_route g t cs n \<longleftrightarrow> route g t cs n \<and> distinct (map gc_to cs) \<and> t \<notin> gc_to ` set cs"

lemma fold_result_grows:
  assumes "fold_result f xs s = Inr s'" and "part_of g d s"
    and "\<And>x t t'. x \<in> set xs \<Longrightarrow> part_of g d t \<Longrightarrow> f x t = Inr t' \<Longrightarrow> keeps_on g d t t'"
  shows "keeps_on g d s s'"
proof (rule fold_result_inv [OF assms(1)])
  show "keeps_on g d s s" using assms(2) by (simp add: keeps_on_def)
  fix x t t'
  assume "x \<in> set xs" "keeps_on g d s t" "f x t = Inr t'"
  with assms(3) [of x t t'] keeps_on_trans [of g d s t t'] show "keeps_on g d s t'"
    by (simp add: keeps_on_def)
qed

lemma findSubgraphRecursive_keeps:
  assumes "findSubgraphRecursive g d current t h branch = Inr h'" and wf: "graph_wf g"
    and "part_of g d h" "branch_ok g d branch" "in_graph g current" "(current, d) \<in> (succ_rel g)\<^sup>*"
  shows "keeps_on g d h h'"
  using findSubgraphRecursive_ok [OF wf assms(3-6), of t] assms(1) by auto

lemma findSubgraphRecursive_complete:
  assumes wf: "graph_wf g"
  shows "findSubgraphRecursive g d current t h branch = Inr h' \<Longrightarrow> simple_route g t cs current \<Longrightarrow>
    gc_to ` set cs \<inter> gc_to ` set branch = {} \<Longrightarrow> part_of g d h \<Longrightarrow> branch_ok g d branch \<Longrightarrow>
    in_graph g current \<Longrightarrow> (current, d) \<in> (succ_rel g)\<^sup>* \<Longrightarrow>
    set branch \<union> set cs \<subseteq> conns_of h' \<and> in_graph h' t"
proof (induction cs arbitrary: current branch h h')
  case Nil
  then have "current = t" by (simp add: simple_route_def)
  with Nil keep_trigger_ok [OF wf Nil.prems(4,5), of t] show ?case by auto
next
  case (Cons c cs)
  have c: "c \<in> conns_of g" "gc_type c = Main" "gc_to c = current" "current \<noteq> t"
    and rest: "simple_route g t cs (gc_from c)" and fresh: "current \<notin> gc_to ` set branch"
    and away: "gc_to ` set cs \<inter> gc_to ` set (branch @ [c]) = {}"
    using Cons.prems(2,3) by (auto simp: simple_route_def)
  define ps where "ps = filter (\<lambda>c. gc_to c = current) (map_values (g_connections g))"
  have ps: "getDirectParentConnections g current = Inr ps"
    using Cons.prems(6) by (simp add: ps_def result_simps)
  have "c \<in> set ps" using c by (simp add: ps_def conns_of_def)
  then obtain xs ys where split: "ps = xs @ c # ys" by (meson split_list)
  let ?f = "\<lambda>p h. if gc_type p \<noteq> Main then Inr h
            else findSubgraphRecursive g d (gc_from p) t h (branch @ [p])"
  have nofresh: "\<not> list_ex (\<lambda>c. gc_to c = current) branch" using fresh by (auto simp: list_ex_iff)
  have "fold_result ?f ps h = Inr h'"
    using Cons.prems(1) c(4) ps nofresh \<open>c \<in> set ps\<close>
    by (subst (asm) findSubgraphRecursive.simps) (auto split: if_splits)
  then obtain h1 h2 where h1: "fold_result ?f xs h = Inr h1" and h2: "?f c h1 = Inr h2"
    and h3: "fold_result ?f ys h2 = Inr h'"
    unfolding split fold_result_append by (auto simp: bind_result_eq_Inr)
  have step: "keeps_on g d t1 t2" if p: "p \<in> set ps" and "part_of g d t1" and "?f p t1 = Inr t2" for p t1 t2
  proof (cases "gc_type p = Main")
    case False
    with that show ?thesis by (simp add: keeps_on_def)
  next
    case True
    note par = parents_of_current [OF ps p Cons.prems(7)]
    have "in_graph g (gc_from p)" using graph_wf_conn [OF wf] par(1) by (simp add: conns_of_def)
    with True that findSubgraphRecursive_keeps [OF _ wf that(2) branch_ok_snoc [OF Cons.prems(5) par(1,3)] _ par(4)]
    show ?thesis by simp
  qed
  note par = parents_of_current [OF ps \<open>c \<in> set ps\<close> Cons.prems(7)]
  have "in_graph g (gc_from c)" using graph_wf_conn [OF wf] par(1) by (simp add: conns_of_def)
  have k1: "keeps_on g d h h1"
    by (rule fold_result_grows [OF h1 Cons.prems(4)]) (use step split in auto)
  then have p1: "part_of g d h1" by (simp add: keeps_on_def)
  have k2: "keeps_on g d h1 h2" using step [OF \<open>c \<in> set ps\<close> p1 h2] .
  then have p2: "part_of g d h2" by (simp add: keeps_on_def)
  have "keeps_on g d h2 h'"
    by (rule fold_result_grows [OF h3 p2]) (use step split in auto)
  moreover have "set (branch @ [c]) \<union> set cs \<subseteq> conns_of h2 \<and> in_graph h2 t"
    using Cons.IH [OF _ rest away p1 branch_ok_snoc [OF Cons.prems(5) par(1,3)] _ par(4)] h2 c(2)
      \<open>in_graph g (gc_from c)\<close> by simp
  ultimately show ?case by (auto simp: keeps_on_def grows_def)
qed

subsection \<open>The connections of other types\<close>

definition has_sub_nodes :: "directed_graph \<Rightarrow> node \<Rightarrow> directed_graph \<Rightarrow> bool" where
  "has_sub_nodes g n h \<longleftrightarrow>
     (\<forall>c \<in> conns_of g. gc_type c \<noteq> Main \<longrightarrow> (gc_to c, n) \<in> (succ_rel g)\<^sup>* \<longrightarrow> c \<in> conns_of h)"

lemma add_sub_nodes_ok:
  assumes wf: "graph_wf g" and h: "part_of g d h" and n: "in_graph h n"
  shows "\<exists>h'. add_sub_nodes g n h = Inr h' \<and> keeps_on g d h h' \<and> has_sub_nodes g n h'"
proof -
  have gn: "in_graph g n" "(n, d) \<in> (succ_rel g)\<^sup>*" using h n by (simp_all add: part_of_def)
  from getParentConnections_reach [OF wf gn(1)] obtain cs where
    cs: "getParentConnections g n = Inr cs" "set cs = {c \<in> conns_of g. (gc_to c, n) \<in> (succ_rel g)\<^sup>*}" by blast
  have "\<exists>h'. fold_result (\<lambda>c h. if gc_type c = Main then Inr h else add_link c h) cs h = Inr h' \<and>
      keeps_on g d h h' \<and> {c \<in> set cs. gc_type c \<noteq> Main} \<subseteq> conns_of h'"
    if "set cs \<subseteq> {c \<in> conns_of g. (gc_to c, n) \<in> (succ_rel g)\<^sup>*}" for cs
    using that h
  proof (induction cs arbitrary: h)
    case Nil
    then show ?case by (simp add: keeps_on_def)
  next
    case (Cons c cs)
    have c: "c \<in> conns_of g" "(gc_to c, d) \<in> (succ_rel g)\<^sup>*"
      using Cons.prems(1) gn(2) by (auto intro: rtrancl_trans)
    have "\<exists>h1. (if gc_type c = Main then Inr h else add_link c h) = Inr h1 \<and> keeps_on g d h h1 \<and>
        (gc_type c \<noteq> Main \<longrightarrow> c \<in> conns_of h1)"
      using add_link_ok [OF wf Cons.prems(2) c] Cons.prems(2) by (auto simp: keeps_on_def)
    then obtain h1 where h1: "(if gc_type c = Main then Inr h else add_link c h) = Inr h1"
      "keeps_on g d h h1" "gc_type c \<noteq> Main \<longrightarrow> c \<in> conns_of h1" by blast
    obtain h' where h': "fold_result (\<lambda>c h. if gc_type c = Main then Inr h else add_link c h) cs h1 = Inr h'"
      "keeps_on g d h1 h'" "{c \<in> set cs. gc_type c \<noteq> Main} \<subseteq> conns_of h'"
      using Cons.IH [of h1] Cons.prems(1) h1(2) by (auto simp: keeps_on_def)
    have "gc_type c \<noteq> Main \<longrightarrow> c \<in> conns_of h'" using h1(3) h'(2) by (auto simp: keeps_on_def grows_def)
    with h' h1(1) keeps_on_trans [OF h1(2) h'(2)] show ?case by auto
  qed
  from this [of cs] cs show ?thesis
    by (auto simp: add_sub_nodes_def add_link_def [abs_def] has_sub_nodes_def cong: if_cong)
qed

lemma sub_node_loop_ok:
  assumes "graph_wf g"
  shows "part_of g d h \<Longrightarrow> \<forall>n \<in> set visited. has_sub_nodes g n h \<Longrightarrow>
    \<exists>h'. sub_node_loop g visited h = Inr h' \<and> keeps_on g d h h' \<and> (\<forall>n. in_graph h' n \<longrightarrow> has_sub_nodes g n h')"
  using assms
proof (induction g visited h rule: sub_node_loop.induct)
  case (1 g visited h)
  show ?case
  proof (cases "filter (\<lambda>n. n \<notin> set visited) (map_values (getNodes h))")
    case Nil
    then have "n \<in> set visited" if "in_graph h n" for n
      using in_graph_in_nodes [OF that] by (auto simp: filter_empty_conv getNodes_def)
    with 1 Nil show ?thesis by (subst sub_node_loop.simps) (simp add: keeps_on_def)
  next
    case (Cons n ns)
    then have "n \<in> set (map_values (g_nodes h))"
      by (metis filter_is_subset getNodes_def list.set_intros(1) subsetD)
    then have "in_graph h n" using "1.prems"(1) by (simp add: part_of_def graph_wf_nodes)
    from add_sub_nodes_ok [OF "1.prems"(3,1) this] obtain h1 where
      h1: "add_sub_nodes g n h = Inr h1" "keeps_on g d h h1" "has_sub_nodes g n h1" by blast
    have "has_sub_nodes g m h1" if "m \<in> set visited" for m
      using "1.prems"(2) that h1(2) by (auto simp: has_sub_nodes_def keeps_on_def grows_def)
    with h1 have "\<forall>m \<in> set (visited @ [n]). has_sub_nodes g m h1" by simp
    moreover have "part_of g d h1" using h1(2) by (simp add: keeps_on_def)
    ultimately obtain h' where "sub_node_loop g (visited @ [n]) h1 = Inr h'" "keeps_on g d h1 h'"
      "\<forall>n. in_graph h' n \<longrightarrow> has_sub_nodes g n h'"
      using "1.IH" [OF Cons] "1.prems"(3) h1(1) by blast
    with h1 Cons keeps_on_trans [OF h1(2)] show ?thesis by (subst sub_node_loop.simps) simp
  qed
qed

lemma findSubgraph_ok:
  assumes wf: "graph_wf g" and d: "in_graph g destination"
  shows "\<exists>h. findSubgraph g destination trigger = Inr h \<and> part_of g destination h \<and>
    (\<forall>cs. simple_route g trigger cs destination \<longrightarrow> set cs \<subseteq> conns_of h \<and> in_graph h trigger) \<and>
    (\<forall>n. in_graph h n \<longrightarrow> has_sub_nodes g n h)"
proof -
  have b: "branch_ok g destination []" by (simp add: branch_ok_def)
  from findSubgraphRecursive_ok [OF wf part_of_empty b d, of trigger] obtain h1 where
    h1: "findSubgraphRecursive g destination destination trigger empty_graph [] = Inr h1"
    and k: "keeps_on g destination empty_graph h1" by blast
  have p1: "part_of g destination h1" using k by (simp add: keeps_on_def)
  from sub_node_loop_ok [OF wf p1, of "[]"] obtain h where
    h: "sub_node_loop g [] h1 = Inr h" "keeps_on g destination h1 h"
      "\<forall>n. in_graph h n \<longrightarrow> has_sub_nodes g n h" by auto
  have "set cs \<subseteq> conns_of h \<and> in_graph h trigger" if "simple_route g trigger cs destination" for cs
    using findSubgraphRecursive_complete [OF wf h1 that _ part_of_empty b d] h(2)
    by (auto simp: keeps_on_def grows_def)
  moreover have "findSubgraph g destination trigger = Inr h" using h1 h(1) by (simp add: findSubgraph_def)
  ultimately show ?thesis using h by (auto simp: keeps_on_def)
qed

text \<open>
  C30. On a well-formed graph with the destination in it, \<^verbatim>\<open>findSubgraph\<close> returns a well-formed graph
  whose nodes are nodes of the input that lead to the destination and whose connections are connections
  of the input. Every connection on a route of \<^verbatim>\<open>main\<close> connections from the trigger to the destination that
  visits no node twice is in it. With every node of it, it has the connections of other types anywhere
  upstream of the node.
\<close>

theorem findSubgraph_spec:
  assumes wf: "graph_wf g" and d: "in_graph g destination"
  shows "\<exists>h. findSubgraph g destination trigger = Inr h \<and> part_of g destination h \<and>
    (\<forall>cs. simple_route g trigger cs destination \<longrightarrow> set cs \<subseteq> conns_of h \<and> in_graph h trigger) \<and>
    (\<forall>n. in_graph h n \<longrightarrow> has_sub_nodes g n h)"
  by (rule findSubgraph_ok [OF assms])

theorem findSubgraph_spec_witness:
  "\<exists>h. findSubgraph sample_graph sample_action sample_trigger = Inr h \<and> part_of sample_graph sample_action h \<and>
    sample_conn \<in> conns_of h \<and> in_graph h sample_trigger"
proof -
  have "simple_route sample_graph sample_trigger [sample_conn] sample_action"
    using sample_distinct
    by (simp add: simple_route_def conns_of_def sample_graph_def sample_conn_def)
  then show ?thesis
    using findSubgraph_spec [OF sample_graph_wf sample_in_graph(2), of sample_trigger] by force
qed

end
