(* ===== verification/CycleFacts.thy ===== *)
theory CycleFacts
  imports SubgraphFacts
begin

section \<open>What handleCycles does to the start nodes\<close>

text \<open>
  \<^verbatim>\<open>handle-cycles.ts\<close>: relative to the components \<^verbatim>\<open>getStronglyConnectedComponents\<close> reports, every start
  node inside a component is replaced by the node of the component that the depth-first search from the
  trigger meets first. The components it does not report are not handled: the example of \<open>GraphSCC\<close>
  shows a start node left in the middle of a cycle.
\<close>

definition first_of :: "directed_graph \<Rightarrow> node \<Rightarrow> node list \<Rightarrow> node" where
  "first_of g trigger C =
     (case depthFirstSearch g trigger (\<lambda>n. n \<in> set C) of Inr (Some f) \<Rightarrow> f | _ \<Rightarrow> trigger)"

lemma first_of:
  assumes wf: "graph_wf g" and t: "in_graph g trigger"
    and C: "n \<in> set C" "(trigger, n) \<in> (succ_rel g)\<^sup>*"
  shows "depthFirstSearch g trigger (\<lambda>n. n \<in> set C) = Inr (Some (first_of g trigger C))"
    and "first_of g trigger C \<in> set C"
proof -
  from depthFirstSearch_finds [OF wf t, of "\<lambda>n. n \<in> set C"] obtain found where
    f: "depthFirstSearch g trigger (\<lambda>n. n \<in> set C) = Inr found"
      "case found of None \<Rightarrow> \<forall>m. (trigger, m) \<in> (succ_rel g)\<^sup>* \<longrightarrow> m \<notin> set C
        | Some m \<Rightarrow> m \<in> set C \<and> (trigger, m) \<in> (succ_rel g)\<^sup>*" by blast
  with C obtain m where "found = Some m" "m \<in> set C" by (auto split: option.splits)
  with f(1) show "depthFirstSearch g trigger (\<lambda>n. n \<in> set C) = Inr (Some (first_of g trigger C))"
    and "first_of g trigger C \<in> set C" by (simp_all add: first_of_def)
qed

lemma replace_one:
  assumes wf: "graph_wf g" and t: "in_graph g trigger" and s: "(trigger, s) \<in> (succ_rel g)\<^sup>*"
    and "distinct (concat comps)" and "[] \<notin> set comps"
  shows "\<exists>r'. fold_result (replace_start_node g trigger s) comps r = Inr r' \<and>
    set r' = (if s \<in> set (concat comps)
              then insert (first_of g trigger (the (List.find (\<lambda>C. s \<in> set C) comps))) (set r - {s})
              else set r)"
  using assms(4,5)
proof (induction comps arbitrary: r)
  case Nil
  then show ?case by simp
next
  case (Cons C comps)
  show ?case
  proof (cases "s \<in> set C")
    case True
    then have "s \<notin> set (concat comps)" using Cons.prems(1) by auto
    moreover have "replace_start_node g trigger s C r = Inr (set_add (first_of g trigger C) (set_delete s r))"
      using True first_of [OF wf t True s] by (simp add: replace_start_node_def)
    ultimately show ?thesis
      using Cons.IH [of "set_add (first_of g trigger C) (set_delete s r)"] Cons.prems True by auto
  next
    case False
    then have "replace_start_node g trigger s C r = Inr r" by (simp add: replace_start_node_def)
    moreover have "distinct (concat comps)" "[] \<notin> set comps" using Cons.prems by simp_all
    moreover have "s \<in> set (concat (C # comps)) \<longleftrightarrow> s \<in> set (concat comps)" using False by simp
    ultimately show ?thesis using Cons.IH [of r] False by (simp only: fold_result.simps bind_result_Inr find.simps if_False not_False_eq_True simp_thms True_implies_equals)
  qed
qed

lemma find_component:
  assumes "distinct (concat comps)" and "C \<in> set comps" and "s \<in> set C"
  shows "List.find (\<lambda>C. s \<in> set C) comps = Some C"
  using assms by (induction comps) auto

text \<open>The start nodes after the nodes of \<open>P\<close> have been handled.\<close>

definition handled :: "directed_graph \<Rightarrow> node \<Rightarrow> node list list \<Rightarrow> node set \<Rightarrow> node set \<Rightarrow> node set" where
  "handled g trigger comps S P =
     (S - (P \<inter> set (concat comps))) \<union> {first_of g trigger C | C. C \<in> set comps \<and> set C \<inter> P \<noteq> {}}"

lemma handled_step:
  assumes "distinct (concat comps)" and firsts: "\<And>C. C \<in> set comps \<Longrightarrow> first_of g t C \<in> set C"
    and C: "C \<in> set comps" "s \<in> set C"
  shows "insert (first_of g t C) (handled g t comps S P - {s}) = handled g t comps S (insert s P)"
proof -
  have unique: "D = C" if "D \<in> set comps" "s \<in> set D" for D
    using find_component [OF assms(1) that] find_component [OF assms(1) C] by simp
  have s: "s \<in> set (concat comps)" using C by auto
  show ?thesis
  proof (rule set_eqI)
    fix x
    show "x \<in> insert (first_of g t C) (handled g t comps S P - {s}) \<longleftrightarrow> x \<in> handled g t comps S (insert s P)"
    proof (cases "x = s")
      case True
      have "s = first_of g t C" if "s \<in> handled g t comps S (insert s P)"
        using that s firsts unique by (auto simp: handled_def)
      then show ?thesis using True C by (auto simp: handled_def)
    next
      case False
      have "(\<exists>D. x = first_of g t D \<and> D \<in> set comps \<and> set D \<inter> insert s P \<noteq> {}) \<longleftrightarrow>
          x = first_of g t C \<or> (\<exists>D. x = first_of g t D \<and> D \<in> set comps \<and> set D \<inter> P \<noteq> {})"
        using C unique by blast
      with False show ?thesis by (simp add: handled_def) blast
    qed
  qed
qed

lemma replace_all:
  assumes wf: "graph_wf g" and t: "in_graph g trigger"
    and "distinct (concat comps)" and "[] \<notin> set comps"
    and firsts: "\<And>C. C \<in> set comps \<Longrightarrow> first_of g trigger C \<in> set C"
  shows "(\<And>s. s \<in> set ss \<Longrightarrow> (trigger, s) \<in> (succ_rel g)\<^sup>*) \<Longrightarrow> set r = handled g trigger comps S P \<Longrightarrow>
    \<exists>r'. fold_result (\<lambda>s. fold_result (replace_start_node g trigger s) comps) ss r = Inr r' \<and>
      set r' = handled g trigger comps S (P \<union> set ss)"
proof (induction ss arbitrary: r P)
  case Nil
  then show ?case by simp
next
  case (Cons s ss)
  obtain r1 where r1: "fold_result (replace_start_node g trigger s) comps r = Inr r1"
    and set1: "set r1 = (if s \<in> set (concat comps)
              then insert (first_of g trigger (the (List.find (\<lambda>C. s \<in> set C) comps))) (set r - {s})
              else set r)"
    using replace_one [OF wf t _ assms(3,4), of s r] Cons.prems(1) by auto
  have "set r1 = handled g trigger comps S (insert s P)"
  proof (cases "s \<in> set (concat comps)")
    case True
    then obtain C where C: "C \<in> set comps" "s \<in> set C" by auto
    with find_component [OF assms(3) C] handled_step [OF assms(3) firsts C] set1 True Cons.prems(2)
    show ?thesis by simp
  next
    case False
    then have "handled g trigger comps S (insert s P) = handled g trigger comps S P"
      by (auto simp: handled_def)
    with False set1 Cons.prems(2) show ?thesis by simp
  qed
  with Cons.IH [of r1 "insert s P"] Cons.prems(1) r1 show ?case by auto
qed



end
