(* ===== verification/SourceGroups.thy ===== *)
theory SourceGroups
  imports PartialGraph Sorting
begin

section \<open>Grouping the incoming connections of a start node\<close>

text \<open>
  \<^verbatim>\<open>get-source-data-groups.ts\<close>: the connections into a node are sorted by input and by the name of the
  source, and dealt into groups with one connection per input; a group is complete if all its
  connections have data. \<^verbatim>\<open>localeCompare\<close> depends on the locale of the process: it is a parameter.
\<close>

subsection \<open>getSourceDataGroups\<close>

definition sortByInputIndexThenByName :: "(string \<Rightarrow> string \<Rightarrow> int) \<Rightarrow> gconn \<Rightarrow> gconn \<Rightarrow> int" where
  "sortByInputIndexThenByName localeCompare c1 c2 =
     (if gc_inputIndex c1 = gc_inputIndex c2
      then localeCompare (n_name (gc_from c1)) (n_name (gc_from c2))
      else int (gc_inputIndex c1) - int (gc_inputIndex c2))"

record source_group =
  sg_complete :: bool
  sg_connections :: "gconn list"

definition newGroup :: source_group where
  "newGroup = \<lparr>sg_complete = True, sg_connections = []\<rparr>"

lemma sg_connections_newGroup [simp]: "sg_connections newGroup = []"
  by (simp add: newGroup_def)

definition has_source_data :: "run_data \<Rightarrow> pin_data \<Rightarrow> gconn \<Rightarrow> bool" where
  "has_source_data runData pinnedData c \<longleftrightarrow>
     map_has runData (n_name (gc_from c)) \<or> map_has pinnedData (n_name (gc_from c))"

definition min_input :: "gconn list \<Rightarrow> gconn list \<Rightarrow> int" where
  \<comment> \<open>\<^verbatim>\<open>Math.min\<close> of no arguments is infinite; the value is then not used\<close>
  "min_input withData withoutData =
     (if withData = [] \<and> withoutData = [] then 0
      else Min (set (map (int \<circ> gc_inputIndex) (withData @ withoutData))))"

function group_loop ::
  "gconn list \<Rightarrow> gconn list \<Rightarrow> int \<Rightarrow> source_group \<Rightarrow> source_group list \<Rightarrow> source_group list" where
  "group_loop withData withoutData currentInputIndex currentGroup groups =
     (if withData = [] \<and> withoutData = [] then groups @ [currentGroup]
      else
        case List.find (\<lambda>c. int (gc_inputIndex c) = currentInputIndex + 1) withData of
          Some c \<Rightarrow> group_loop (remove1 c withData) withoutData (currentInputIndex + 1)
              (currentGroup\<lparr>sg_connections := sg_connections currentGroup @ [c]\<rparr>) groups
        | None \<Rightarrow>
            (case List.find (\<lambda>c. int (gc_inputIndex c) = currentInputIndex + 1) withoutData of
               Some c \<Rightarrow> group_loop withData (remove1 c withoutData) (currentInputIndex + 1)
                 (currentGroup\<lparr>sg_connections := sg_connections currentGroup @ [c], sg_complete := False\<rparr>) groups
             | None \<Rightarrow> group_loop withData withoutData (min_input withData withoutData - 1) newGroup
                 (groups @ [currentGroup])))"
  by pat_completeness auto

text \<open>
  Every other round at the latest removes a connection: after a group is closed the index points at
  the least input that is left.
\<close>

definition rounds_left :: "gconn list \<Rightarrow> gconn list \<Rightarrow> int \<Rightarrow> nat" where
  "rounds_left withData withoutData i =
     2 * (length withData + length withoutData) +
     (if list_ex (\<lambda>c. int (gc_inputIndex c) = i + 1) (withData @ withoutData) then 0 else 1)"

lemma length_remove1_less: "x \<in> set xs \<Longrightarrow> length (remove1 x xs) + 1 = length xs"
  by (induction xs) auto

lemma min_input_attained:
  assumes "\<not> (withData = [] \<and> withoutData = [])"
  shows "list_ex (\<lambda>c. int (gc_inputIndex c) = min_input withData withoutData) (withData @ withoutData)"
proof -
  let ?S = "set (map (int \<circ> gc_inputIndex) (withData @ withoutData))"
  have "?S \<noteq> {}" using assms by simp
  then have "Min ?S \<in> ?S" by (intro Min_in) simp_all
  with assms show ?thesis by (auto simp: min_input_def list_ex_iff)
qed

termination group_loop
proof (relation "measure (\<lambda>(w, wo, i, g, gs). rounds_left w wo i)", goal_cases)
  case 1
  then show ?case by simp
next
  case (2 w wo i g gs)
  then show ?case
    using min_input_attained [OF 2(1)] by (auto dest!: find_NoneD simp: rounds_left_def)
next
  case (3 w wo i g gs c)
  then show ?case using length_remove1_less [of c wo] by (auto dest!: find_SomeD simp: rounds_left_def)
next
  case (4 w wo i g gs c)
  then show ?case using length_remove1_less [of c w] by (auto dest!: find_SomeD simp: rounds_left_def)
qed

declare group_loop.simps [simp del]

definition getSourceDataGroups ::
  "(string \<Rightarrow> string \<Rightarrow> int) \<Rightarrow> directed_graph \<Rightarrow> node \<Rightarrow> run_data \<Rightarrow> pin_data \<Rightarrow> source_group list" where
  "getSourceDataGroups localeCompare g n runData pinnedData =
     (let conns = getConnections g (Some n);
          withData = filter (has_source_data runData pinnedData) conns;
          withoutData = filter (\<lambda>c. \<not> has_source_data runData pinnedData c \<and> gc_type c = Main) conns
      in if withData = [] \<and> withoutData = [] then []
         else
           let ws = js_sort (sortByInputIndexThenByName localeCompare) withData;
               wos = js_sort (sortByInputIndexThenByName localeCompare) withoutData
           in group_loop ws wos (min_input ws wos - 1) newGroup [])"

subsection \<open>What the groups hold\<close>

abbreviation all_connections :: "source_group list \<Rightarrow> gconn list" where
  "all_connections gs \<equiv> concat (map sg_connections gs)"

lemma group_loop_mset:
  "mset (all_connections (group_loop w wo i g gs)) =
    mset w + mset wo + mset (sg_connections g) + mset (all_connections gs)"
proof (induction w wo i g gs rule: group_loop.induct)
  case (1 w wo i g gs)
  show ?case
    by (subst group_loop.simps)
      (auto simp: 1 insert_DiffM dest!: find_SomeD split: option.split)
qed

text \<open>A group has consecutive inputs, each once.\<close>

definition consecutive :: "gconn list \<Rightarrow> bool" where
  "consecutive cs \<longleftrightarrow> (\<forall>k < length cs. gc_inputIndex (cs ! k) = gc_inputIndex (hd cs) + k)"

lemma consecutive_Nil [simp]: "consecutive []"
  by (simp add: consecutive_def)

lemma consecutive_snoc:
  assumes "consecutive cs" and "cs \<noteq> [] \<Longrightarrow> int (gc_inputIndex (last cs)) = i" and "int (gc_inputIndex c) = i + 1"
  shows "consecutive (cs @ [c])"
proof (cases "cs = []")
  case True
  then show ?thesis by (simp add: consecutive_def)
next
  case False
  then have "gc_inputIndex (last cs) = gc_inputIndex (hd cs) + (length cs - 1)"
    using assms(1) by (simp add: consecutive_def last_conv_nth)
  with assms(2,3) False have "gc_inputIndex c = gc_inputIndex (hd cs) + length cs"
    by (cases cs) auto
  with assms(1) False show ?thesis
    by (auto simp: consecutive_def nth_append less_Suc_eq)
qed

definition group_ok :: "(gconn \<Rightarrow> bool) \<Rightarrow> source_group \<Rightarrow> bool" where
  "group_ok D g \<longleftrightarrow>
     consecutive (sg_connections g) \<and> (sg_complete g \<longleftrightarrow> (\<forall>c \<in> set (sg_connections g). D c))"

lemma group_ok_snoc:
  assumes "group_ok D g" and "sg_connections g \<noteq> [] \<Longrightarrow> int (gc_inputIndex (last (sg_connections g))) = i"
    and "int (gc_inputIndex c) = i + 1"
  shows "D c \<Longrightarrow> group_ok D (g\<lparr>sg_connections := sg_connections g @ [c]\<rparr>)"
    and "\<not> D c \<Longrightarrow> group_ok D (g\<lparr>sg_connections := sg_connections g @ [c], sg_complete := False\<rparr>)"
  using assms(1) consecutive_snoc [OF _ assms(2,3)] by (simp_all add: group_ok_def)

lemma group_loop_ok:
  "group_ok D g \<Longrightarrow> (sg_connections g \<noteq> [] \<Longrightarrow> int (gc_inputIndex (last (sg_connections g))) = i) \<Longrightarrow>
    \<forall>g \<in> set gs. group_ok D g \<Longrightarrow> \<forall>c \<in> set w. D c \<Longrightarrow> \<forall>c \<in> set wo. \<not> D c \<Longrightarrow>
    \<forall>g \<in> set (group_loop w wo i g gs). group_ok D g"
proof (induction w wo i g gs rule: group_loop.induct)
  case (1 w wo i g gs)
  show ?case
  proof (cases "w = [] \<and> wo = []")
    case True
    with 1 show ?thesis by (subst group_loop.simps) simp
  next
    case False
    consider c where "List.find (\<lambda>c. int (gc_inputIndex c) = i + 1) w = Some c"
      | c where "List.find (\<lambda>c. int (gc_inputIndex c) = i + 1) w = None"
          "List.find (\<lambda>c. int (gc_inputIndex c) = i + 1) wo = Some c"
      | "List.find (\<lambda>c. int (gc_inputIndex c) = i + 1) w = None"
          "List.find (\<lambda>c. int (gc_inputIndex c) = i + 1) wo = None" by (metis option.exhaust)
    then show ?thesis
    proof cases
      case (1 c)
      from find_SomeD [OF 1] have c: "c \<in> set w" "int (gc_inputIndex c) = i + 1" by simp_all
      have "\<forall>c \<in> set (remove1 c w). D c" using "1.prems"(4) by (meson notin_set_remove1)
      with "1.IH"(3) [OF False 1] group_ok_snoc(1) [OF "1.prems"(1,2) c(2)] "1.prems" c False
      show ?thesis by (subst group_loop.simps) (simp add: 1 Let_def)
    next
      case (2 c)
      from find_SomeD [OF 2(2)] have c: "c \<in> set wo" "int (gc_inputIndex c) = i + 1" by simp_all
      have "\<forall>c \<in> set (remove1 c wo). \<not> D c" using "1.prems"(5) by (meson notin_set_remove1)
      with "1.IH"(2) [OF False 2] group_ok_snoc(2) [OF "1.prems"(1,2) c(2)] "1.prems" c False
      show ?thesis by (subst group_loop.simps) (simp add: 2 Let_def)
    next
      case 3
      have "group_ok D newGroup" "sg_connections newGroup = []" by (simp_all add: group_ok_def newGroup_def)
      with "1.IH"(1) [OF False 3] "1.prems" False
      show ?thesis by (subst group_loop.simps) (simp add: 3 Let_def)
    qed
  qed
qed

lemma groups_ok: "list_all (group_ok (has_source_data runData pinData)) (getSourceDataGroups lc g n runData pinData)"
proof -
  let ?D = "has_source_data runData pinData" and ?cmp = "sortByInputIndexThenByName lc"
  define w where "w = js_sort ?cmp (filter ?D (getConnections g (Some n)))"
  define wo where "wo = js_sort ?cmp (filter (\<lambda>c. \<not> ?D c \<and> gc_type c = Main) (getConnections g (Some n)))"
  have "group_ok ?D newGroup" by (simp add: group_ok_def newGroup_def)
  then have "\<forall>sg \<in> set (group_loop w wo (min_input w wo - 1) newGroup []). group_ok ?D sg"
    by (intro group_loop_ok) (simp_all add: w_def wo_def)
  then show ?thesis
    unfolding getSourceDataGroups_def Let_def w_def wo_def list_all_iff by simp
qed

text \<open>
  The groups \<^verbatim>\<open>getSourceDataGroups\<close> returns hold, each exactly once, the connections into the node
  whose source has run data or pinned data and the \<^verbatim>\<open>main\<close> connections whose source has none; every group
  has at most one connection per input, on consecutive inputs in ascending order; and a group is marked
  complete exactly if the sources of all its connections have data.
\<close>

theorem getSourceDataGroups_spec:
  "mset (all_connections (getSourceDataGroups localeCompare g n runData pinnedData)) =
     {#c \<in># mset (map_values (g_connections g)). gc_to c = n \<and>
        (has_source_data runData pinnedData c \<or> gc_type c = Main)#} \<and>
   list_all (group_ok (has_source_data runData pinnedData))
     (getSourceDataGroups localeCompare g n runData pinnedData)"
proof -
  define conns where "conns = getConnections g (Some n)"
  define D where "D = has_source_data runData pinnedData"
  define w where "w = filter D conns"
  define wo where "wo = filter (\<lambda>c. \<not> D c \<and> gc_type c = Main) conns"
  define cmp where "cmp = sortByInputIndexThenByName localeCompare"
  have gs: "getSourceDataGroups localeCompare g n runData pinnedData = (if w = [] \<and> wo = [] then []
      else group_loop (js_sort cmp w) (js_sort cmp wo) (min_input (js_sort cmp w) (js_sort cmp wo) - 1) newGroup [])"
    unfolding getSourceDataGroups_def conns_def D_def w_def wo_def cmp_def Let_def by simp
  have "mset (all_connections (getSourceDataGroups localeCompare g n runData pinnedData)) = mset w + mset wo"
    unfolding gs by (simp add: group_loop_mset newGroup_def)
  also have "\<dots> = mset (filter (\<lambda>c. D c \<or> gc_type c = Main) conns)"
    unfolding w_def wo_def by (induction conns) auto
  also have "conns = filter (\<lambda>c. gc_to c = n) (map_values (g_connections g))"
    by (simp add: conns_def getConnections_def)
  finally have 1: "mset (all_connections (getSourceDataGroups localeCompare g n runData pinnedData)) =
     {#c \<in># mset (map_values (g_connections g)). gc_to c = n \<and> (D c \<or> gc_type c = Main)#}"
    by (simp only: filter_filter mset_filter conj_commute)
  from this groups_ok [of runData pinnedData localeCompare g n] show ?thesis unfolding D_def by blast
qed

end
