(* ===== verification/StartNodes.thy ===== *)
theory StartNodes
  imports PartialGraph
begin

section \<open>Where a partial execution starts\<close>

text \<open>
  \<^verbatim>\<open>find-start-nodes.ts\<close> and \<^verbatim>\<open>get-incoming-data.ts\<close>: a node is dirty when it has neither usable run data
  nor pinned data; the start nodes are the first dirty nodes on the branches from the trigger to the
  destination. The theorem at the end gives them as a set: the search, which follows every simple
  branch, finds exactly the nodes to stop at that can be reached over outputs with data through nodes
  that need not be run again.
\<close>

subsection \<open>Reading run data\<close>

definition getIncomingData ::
  "run_data \<Rightarrow> string \<Rightarrow> int \<Rightarrow> connection_type \<Rightarrow> int \<Rightarrow> item list option" where
  "getIncomingData runData nodeName runIndex connectionType outputIndex =
     Option.bind (obj_get runData nodeName) (\<lambda>runs.
     Option.bind (arr_at runs runIndex) (\<lambda>run.
     Option.bind (td_data run) (\<lambda>data.
     Option.bind (obj_get data connectionType) (\<lambda>outputs.
     Option.bind (arr_at outputs outputIndex) slot_option))))"

definition getRunIndexLength :: "run_data \<Rightarrow> string \<Rightarrow> nat" where
  "getRunIndexLength runData nodeName =
     (case obj_get runData nodeName of None \<Rightarrow> 0 | Some runs \<Rightarrow> length runs)"

definition has_items :: "item list option \<Rightarrow> bool" where
  \<comment> \<open>\<^verbatim>\<open>data && data.length > 0\<close>\<close>
  "has_items data \<longleftrightarrow> (case data of None \<Rightarrow> False | Some items \<Rightarrow> items \<noteq> [])"

definition getIncomingDataFromAnyRun ::
  "run_data \<Rightarrow> string \<Rightarrow> connection_type \<Rightarrow> int \<Rightarrow> (item list \<times> nat) option" where
  "getIncomingDataFromAnyRun runData nodeName connectionType outputIndex =
     (case List.find (\<lambda>i. has_items (getIncomingData runData nodeName (int i) connectionType outputIndex))
             [0..<getRunIndexLength runData nodeName] of
        None \<Rightarrow> None
      | Some i \<Rightarrow> map_option (\<lambda>data. (data, i))
          (getIncomingData runData nodeName (int i) connectionType outputIndex))"

lemma has_items_Some: "has_items d \<longleftrightarrow> (\<exists>items. d = Some items \<and> items \<noteq> [])"
  by (simp add: has_items_def split: option.splits)

lemma getIncomingDataFromAnyRun_SomeD:
  assumes "getIncomingDataFromAnyRun rd nm t i = Some (data, r)"
  shows "getIncomingData rd nm (int r) t i = Some data \<and> data \<noteq> [] \<and> r < getRunIndexLength rd nm"
  using assms by (auto simp: getIncomingDataFromAnyRun_def has_items_Some find_Some_iff split: option.splits)

lemma getIncomingDataFromAnyRun_None:
  "getIncomingDataFromAnyRun rd nm t i = None \<longleftrightarrow>
    (\<forall>r < getRunIndexLength rd nm. \<not> has_items (getIncomingData rd nm (int r) t i))"
proof -
  let ?find = "List.find (\<lambda>r. has_items (getIncomingData rd nm (int r) t i)) [0..<getRunIndexLength rd nm]"
  have "getIncomingDataFromAnyRun rd nm t i = None \<longleftrightarrow> ?find = None"
  proof (cases ?find)
    case (Some r)
    then have "has_items (getIncomingData rd nm (int r) t i)" by (auto simp: find_Some_iff)
    with Some show ?thesis by (auto simp: getIncomingDataFromAnyRun_def has_items_Some)
  qed (simp add: getIncomingDataFromAnyRun_def)
  also have "\<dots> \<longleftrightarrow> (\<forall>r < getRunIndexLength rd nm. \<not> has_items (getIncomingData rd nm (int r) t i))"
    by (auto simp: find_None_iff)
  finally show ?thesis .
qed

subsection \<open>The search\<close>

definition isDirty :: "node \<Rightarrow> run_data \<Rightarrow> pin_data \<Rightarrow> bool" where
  "isDirty n runData pinData =
     (let runs = obj_get runData (n_name n);
          hasAnError = (case runs of None \<Rightarrow> False | Some tds \<Rightarrow> list_ex (\<lambda>td. td_error td \<noteq> None) tds);
          hasPinnedData = map_has pinData (n_name n);
          hasRunData = runs \<noteq> None
      in if hasAnError then True else if hasPinnedData then False else if hasRunData then False else True)"

definition isALoop :: "directed_graph \<Rightarrow> node \<Rightarrow> bool result" where
  "isALoop g n = bind_result (getChildren g n) (\<lambda>children. Inr (n \<in> set children))"

definition split_in_batches :: string where
  "split_in_batches = ''n8n-nodes-base.splitInBatches''"

definition is_start_node ::
  "directed_graph \<Rightarrow> node \<Rightarrow> run_data \<Rightarrow> pin_data \<Rightarrow> node \<Rightarrow> bool result" where
  \<comment> \<open>the three tests that add the current node and stop\<close>
  "is_start_node g destination runData pinData current =
     (if isDirty current runData pinData then Inr True
      else if current = destination then Inr True
      else if n_type current = split_in_batches then
        bind_result (isALoop g current) (\<lambda>loop.
          let nodeRunData = getIncomingData runData (n_name current) (-1) Main (if loop then 0 else 1)
          in Inr (case nodeRunData of None \<Rightarrow> True | Some items \<Rightarrow> items = []))
      else Inr False)"

definition follows :: "run_data \<Rightarrow> pin_data \<Rightarrow> gconn \<Rightarrow> bool" where
  \<comment> \<open>only outputs with data, or of a pinned node, are followed\<close>
  "follows runData pinData c =
     (let nodeRunData = getIncomingDataFromAnyRun runData (n_name (gc_from c)) (gc_type c) (int (gc_outputIndex c));
          hasNoRunData = (case nodeRunData of None \<Rightarrow> True | Some (data, _) \<Rightarrow> data = []);
          hasNoPinnedData = \<not> map_has pinData (n_name (gc_from c))
      in \<not> (hasNoRunData \<and> hasNoPinnedData))"

function findStartNodesRecursive ::
  "directed_graph \<Rightarrow> node \<Rightarrow> node \<Rightarrow> run_data \<Rightarrow> pin_data \<Rightarrow> node list \<Rightarrow> node list \<Rightarrow> node list result" where
  "findStartNodesRecursive g current destination runData pinData startNodes seen =
     bind_result (is_start_node g destination runData pinData current) (\<lambda>stop.
       if stop then Inr (set_add current startNodes)
       else if current \<in> set seen then Inr startNodes
       else bind_result (getDirectChildConnections g current) (\<lambda>outgoing.
         fold_result (\<lambda>c found.
             if \<not> follows runData pinData c then Inr found
             else findStartNodesRecursive g (gc_to c) destination runData pinData found (set_add current seen))
           outgoing startNodes))"
  by pat_completeness auto

termination
proof (relation "measure (\<lambda>(g, c, d, rd, pd, s, seen). card (set (map_values (g_nodes g)) - set seen))", goal_cases)
  case 1
  then show ?case by simp
next
  case (2 g current d rd pd s seen stop out c s')
  then have "in_graph g current" by (auto simp: result_simps)
  then have "current \<in> set (map_values (g_nodes g))" by (rule in_graph_in_nodes)
  with 2(3) have "card (set (map_values (g_nodes g)) - set (set_add current seen)) <
      card (set (map_values (g_nodes g)) - set seen)"
    by (intro psubset_card_mono) auto
  then show ?case by simp
qed

definition findStartNodes ::
  "directed_graph \<Rightarrow> node \<Rightarrow> node \<Rightarrow> run_data \<Rightarrow> pin_data \<Rightarrow> node list result" where
  "findStartNodes g trigger destination runData pinData =
     findStartNodesRecursive g trigger destination runData pinData [] []"

subsection \<open>The start nodes as a set\<close>

definition stops_at :: "directed_graph \<Rightarrow> node \<Rightarrow> run_data \<Rightarrow> pin_data \<Rightarrow> node \<Rightarrow> bool" where
  "stops_at g destination runData pinData n \<longleftrightarrow> is_start_node g destination runData pinData n = Inr True"

definition clean_rel :: "directed_graph \<Rightarrow> node \<Rightarrow> run_data \<Rightarrow> pin_data \<Rightarrow> (node \<times> node) set" where
  "clean_rel g destination runData pinData =
     {(gc_from c, gc_to c) | c. c \<in> conns_of g \<and> follows runData pinData c \<and>
        \<not> stops_at g destination runData pinData (gc_from c)}"

lemma is_start_node_total: "graph_wf g \<Longrightarrow> in_graph g n \<Longrightarrow> \<exists>b. is_start_node g d rd pd n = Inr b"
  using getChildren_reach [of g n] by (auto simp: is_start_node_def isALoop_def Let_def)

lemma last_visit:
  assumes "(a, n) \<in> r\<^sup>*" and "a \<noteq> n"
  shows "\<exists>c. (a, c) \<in> r \<and> (c, n) \<in> (r \<inter> {(x, y). x \<noteq> a})\<^sup>*"
  using assms
proof (induction rule: rtrancl_induct)
  case base
  then show ?case by simp
next
  case (step b n)
  show ?case
  proof (cases "b = a")
    case True
    with step show ?thesis by blast
  next
    case False
    with step obtain c where "(a, c) \<in> r" "(c, b) \<in> (r \<inter> {(x, y). x \<noteq> a})\<^sup>*" by auto
    moreover have "(b, n) \<in> r \<inter> {(x, y). x \<noteq> a}" using False step by simp
    ultimately show ?thesis by (meson rtrancl_into_rtrancl)
  qed
qed

definition found_from ::
  "directed_graph \<Rightarrow> node \<Rightarrow> run_data \<Rightarrow> pin_data \<Rightarrow> node set \<Rightarrow> node \<Rightarrow> node set" where
  \<comment> \<open>the nodes to stop at that the search finds from a node without leaving a node of \<open>seen\<close>\<close>
  "found_from g d rd pd seen current =
     {n. stops_at g d rd pd n \<and> (current, n) \<in> (clean_rel g d rd pd \<inter> {(a, b). a \<notin> seen})\<^sup>*}"

lemma found_from_stop: "stops_at g d rd pd current \<Longrightarrow> found_from g d rd pd seen current = {current}"
proof -
  assume "stops_at g d rd pd current"
  then have "n = current" if "(current, n) \<in> (clean_rel g d rd pd \<inter> {(a, b). a \<notin> seen})\<^sup>*" for n
    by (auto simp: clean_rel_def intro: converse_rtranclE [OF that])
  with \<open>stops_at g d rd pd current\<close> show ?thesis by (auto simp: found_from_def)
qed

lemma found_from_seen:
  assumes "\<not> stops_at g d rd pd current" and "current \<in> seen"
  shows "found_from g d rd pd seen current = {}"
proof -
  have "n = current" if "(current, n) \<in> (clean_rel g d rd pd \<inter> {(a, b). a \<notin> seen})\<^sup>*" for n
    using assms(2) by (auto intro: converse_rtranclE [OF that])
  with assms show ?thesis by (auto simp: found_from_def)
qed

lemma found_from_step:
  assumes stop: "\<not> stops_at g d rd pd current" and seen: "current \<notin> seen"
  shows "found_from g d rd pd seen current =
    (\<Union>m \<in> {m. (current, m) \<in> clean_rel g d rd pd}. found_from g d rd pd (insert current seen) m)"
proof -
  let ?R = "clean_rel g d rd pd \<inter> {(a, b). a \<notin> seen}"
  have R: "?R \<inter> {(x, y). x \<noteq> current} = clean_rel g d rd pd \<inter> {(a, b). a \<notin> insert current seen}" by auto
  have "\<exists>m. (current, m) \<in> clean_rel g d rd pd \<and>
      (m, n) \<in> (clean_rel g d rd pd \<inter> {(a, b). a \<notin> insert current seen})\<^sup>*"
    if "stops_at g d rd pd n" "(current, n) \<in> ?R\<^sup>*" for n
    using last_visit [OF that(2)] that(1) stop unfolding R by auto
  moreover have "(current, n) \<in> ?R\<^sup>*" if "(current, m) \<in> clean_rel g d rd pd"
      "(m, n) \<in> (clean_rel g d rd pd \<inter> {(a, b). a \<notin> insert current seen})\<^sup>*" for m n
  proof -
    have "(m, n) \<in> ?R\<^sup>*" using that(2) by (rule rtrancl_mono [THEN subsetD, rotated]) auto
    moreover have "(current, m) \<in> ?R" using that(1) seen by simp
    ultimately show ?thesis by (rule converse_rtrancl_into_rtrancl [rotated])
  qed
  ultimately show ?thesis unfolding found_from_def by blast
qed

lemma findStartNodesRecursive_spec:
  assumes "graph_wf g"
  shows "in_graph g current \<Longrightarrow>
    \<exists>r. findStartNodesRecursive g current d rd pd startNodes seen = Inr r \<and>
      set r = set startNodes \<union> found_from g d rd pd (set seen) current"
  using assms
proof (induction g current d rd pd startNodes seen rule: findStartNodesRecursive.induct)
  case (1 g current d rd pd startNodes seen)
  obtain stop where stop: "is_start_node g d rd pd current = Inr stop"
    using is_start_node_total [OF "1.prems"(2,1)] by blast
  show ?case
  proof (cases stop)
    case True
    with stop have "stops_at g d rd pd current" by (simp add: stops_at_def)
    with stop True show ?thesis by (simp add: found_from_stop)
  next
    case go: False
    with stop have nostop: "\<not> stops_at g d rd pd current" by (simp add: stops_at_def)
    show ?thesis
    proof (cases "current \<in> set seen")
      case True
      with stop go show ?thesis by (simp add: found_from_seen [OF nostop])
    next
      case False
      define out where "out = filter (\<lambda>c. gc_from c = current) (map_values (g_connections g))"
      have out: "getDirectChildConnections g current = Inr out"
        using "1.prems"(1) by (simp add: out_def result_simps)
      let ?f = "\<lambda>c found. if \<not> follows rd pd c then Inr found
             else findStartNodesRecursive g (gc_to c) d rd pd found (set_add current seen)"
      have loop: "\<exists>r. fold_result ?f cs s = Inr r \<and> set r = set s \<union>
          (\<Union>c \<in> {c \<in> set cs. follows rd pd c}. found_from g d rd pd (insert current (set seen)) (gc_to c))"
        if "set cs \<subseteq> set out" for cs s
        using that
      proof (induction cs arbitrary: s)
        case Nil
        then show ?case by simp
      next
        case (Cons c cs)
        have "c \<in> set out" using Cons.prems by simp
        then have "in_graph g (gc_to c)" using graph_wf_conn [OF "1.prems"(2)] by (auto simp: out_def)
        with "1.IH" [OF stop _ False out \<open>c \<in> set out\<close>] go "1.prems"(2) have "\<exists>r. ?f c s = Inr r \<and>
            set r = set s \<union> (if follows rd pd c then found_from g d rd pd (insert current (set seen)) (gc_to c) else {})"
          by simp
        then obtain r1 where "?f c s = Inr r1" "set r1 = set s \<union>
            (if follows rd pd c then found_from g d rd pd (insert current (set seen)) (gc_to c) else {})" by blast
        moreover obtain r where "fold_result ?f cs r1 = Inr r" "set r = set r1 \<union>
          (\<Union>c \<in> {c \<in> set cs. follows rd pd c}. found_from g d rd pd (insert current (set seen)) (gc_to c))"
          using Cons.IH [of r1] Cons.prems by auto
        ultimately show ?case by (intro exI [of _ r]) (auto split: if_splits)
      qed
      have img: "gc_to ` {c \<in> set out. follows rd pd c} = {m. (current, m) \<in> clean_rel g d rd pd}"
        using nostop by (force simp: out_def clean_rel_def conns_of_def)
      have "(\<Union>c \<in> {c \<in> set out. follows rd pd c}. found_from g d rd pd (insert current (set seen)) (gc_to c)) =
          found_from g d rd pd (set seen) current"
        unfolding found_from_step [OF nostop False] img [symmetric] by simp
      with loop [OF subset_refl, of startNodes] stop go False out show ?thesis
        by (subst findStartNodesRecursive.simps) simp
    qed
  qed
qed

text \<open>
  C31. On a well-formed graph \<^verbatim>\<open>findStartNodes\<close> returns, and the start nodes are exactly the nodes at
  which the search stops (dirty ones, the destination, and loop nodes whose \<^verbatim>\<open>done\<close> output has no data)
  that can be reached from the trigger over followed outputs of nodes at which it does not stop.
\<close>

theorem findStartNodes_spec:
  assumes "graph_wf g" and "in_graph g trigger"
  shows "\<exists>r. findStartNodes g trigger destination runData pinData = Inr r \<and>
    set r = {n. stops_at g destination runData pinData n \<and>
                (trigger, n) \<in> (clean_rel g destination runData pinData)\<^sup>*}"
  using findStartNodesRecursive_spec [OF assms, of destination runData pinData "[]" "[]"]
  by (simp add: findStartNodes_def found_from_def)

text \<open>
  A node is not dirty exactly if none of its runs failed and it has pinned data or an entry in the
  run data. (The comment on \<^verbatim>\<open>isDirty\<close> lists the error test as not implemented; it is.)
\<close>

theorem isDirty_iff:
  "\<not> isDirty n runData pinData \<longleftrightarrow>
    \<not> (\<exists>tds td. obj_get runData (n_name n) = Some tds \<and> td \<in> set tds \<and> td_error td \<noteq> None) \<and>
    (map_has pinData (n_name n) \<or> map_has runData (n_name n))"
  by (auto simp: isDirty_def Let_def map_has_def list_ex_iff split: option.splits)

theorem findStartNodes_spec_witness:
  "\<exists>r. findStartNodes sample_graph sample_trigger sample_action [] [] = Inr r \<and>
    set r = {n. stops_at sample_graph sample_action [] [] n \<and>
                (sample_trigger, n) \<in> (clean_rel sample_graph sample_action [] [])\<^sup>*}"
  by (rule findStartNodes_spec [OF sample_graph_wf sample_in_graph(1)])

end
