(* ===== verification/ExecutionStack.thy ===== *)
theory ExecutionStack
  imports SourceGroups StartNodes
begin

section \<open>Recreating the execution stack\<close>

text \<open>
  \<^verbatim>\<open>recreate-node-execution-stack.ts\<close>: from the graph, the start nodes and the data that is there, the
  state of the engine is rebuilt: the entries to execute, and the executions that still wait for an
  input. The two dictionaries are updated by \<open>put_waiting\<close>, which serves \<^verbatim>\<open>addWaitingExecution\<close> and
  \<^verbatim>\<open>addWaitingExecutionSource\<close>, the same code at two types.
\<close>

definition put_waiting ::
  "string \<Rightarrow> nat \<Rightarrow> connection_type \<Rightarrow> nat \<Rightarrow> 'a slot \<Rightarrow> ('a slot list jsobj) by_run jsobj \<Rightarrow> ('a slot list jsobj) by_run jsobj"
where
  "put_waiting nodeName runIndex inputType inputIndex v waiting =
     (let byRun = or_empty (obj_get waiting nodeName);
          conns = or_empty (map_get byRun runIndex);
          xs = or_empty (obj_get conns inputType)
      in obj_set nodeName (run_set runIndex (obj_set inputType (arr_set xs inputIndex v) conns) byRun) waiting)"

definition addWaitingExecution ::
  "string \<Rightarrow> nat \<Rightarrow> connection_type \<Rightarrow> nat \<Rightarrow> item list slot \<Rightarrow> waiting_execution \<Rightarrow> waiting_execution" where
  "addWaitingExecution = put_waiting"

definition addWaitingExecutionSource ::
  "string \<Rightarrow> nat \<Rightarrow> connection_type \<Rightarrow> nat \<Rightarrow> source_data slot \<Rightarrow> waiting_source \<Rightarrow> waiting_source" where
  "addWaitingExecutionSource = put_waiting"

text \<open>Reading a waiting value; a missing object or array on the way reads as \<^verbatim>\<open>undefined\<close>.\<close>

definition waiting_at ::
  "('a slot list jsobj) by_run jsobj \<Rightarrow> string \<Rightarrow> nat \<Rightarrow> connection_type \<Rightarrow> nat \<Rightarrow> 'a slot" where
  "waiting_at waiting nodeName runIndex inputType inputIndex =
     arr_get (or_empty (obj_get (or_empty (map_get (or_empty (obj_get waiting nodeName)) runIndex)) inputType)) inputIndex"

text \<open>
  \<^verbatim>\<open>addWaitingExecution\<close> stores the data at exactly its node, run, type and input, whatever was there
  before, and leaves every other waiting value as it was.
\<close>

theorem addWaitingExecution_lookup:
  "waiting_at (addWaitingExecution nm r t i v waiting) nm' r' t' i' =
    (if nm' = nm \<and> r' = r \<and> t' = t \<and> i' = i then v else waiting_at waiting nm' r' t' i')"
  by (simp add: waiting_at_def addWaitingExecution_def put_waiting_def Let_def)

record recreated =
  nodeExecutionStack :: "execute_data list"
  rc_waitingExecution :: waiting_execution
  rc_waitingExecutionSource :: waiting_source

subsection \<open>The loops\<close>

definition check_enabled :: "directed_graph \<Rightarrow> unit result" where
  "check_enabled g =
     fold_result (\<lambda>n _. if n_disabled n = Some True
         then Inl (AssertionError (''Graph contains disabled nodes. This is not supported. Make sure to pass the graph through '' @
           quoted ''findSubgraph'' @ '' before calling '' @ quoted ''recreateNodeExecutionStack'' @
           ''. The node in question is '' @ quoted (n_name n)))
         else Inr ())
       (map_values (getNodes g)) ()"

definition source_of :: "gconn \<Rightarrow> nat \<Rightarrow> source_data" where
  "source_of c runIndex =
     \<lparr>sd_previousNode = n_name (gc_from c), sd_previousNodeOutput = Some (gc_outputIndex c),
      sd_previousNodeRun = Some runIndex\<rparr>"

text \<open>One connection of a complete group: its data, if there is any, and its source.\<close>

definition add_incoming ::
  "node \<Rightarrow> run_data \<Rightarrow> pin_data \<Rightarrow> gconn \<Rightarrow> input_data \<times> source_data slot list \<Rightarrow>
    (input_data \<times> source_data slot list) result" where
  "add_incoming startNode runData pinData c acc =
     (let (incomingData, sources) = acc; name = n_name (gc_from c) in
      case obj_get pinData name of
        Some items \<Rightarrow> Inr (incomingData @ [Val items], sources @ [Val (source_of c 0)])
      | None \<Rightarrow>
          bind_result (assert_ok (map_has runData name)
            (''Start node('' @ n_name (gc_to c) @ '') has an incoming connection with no run or pinned data. This is not supported. The connection in question is '' @
              quoted (name @ ''->'' @ n_name startNode) @ ''. Are you sure the start nodes come from the '' @
              quoted ''findStartNodes'' @ '' function?''))
          (\<lambda>_. case getIncomingDataFromAnyRun runData name (gc_type c) (int (gc_outputIndex c)) of
                 Some (data, runIndex) \<Rightarrow> Inr (incomingData @ [Val data], sources @ [Val (source_of c runIndex)])
               | None \<Rightarrow> Inr (incomingData, sources @ [Val (source_of c 0)])))"

definition stack_entry :: "node \<Rightarrow> input_data \<Rightarrow> source_connections option \<Rightarrow> execute_data" where
  "stack_entry n data source =
     \<lparr>ed_node = n, ed_data = [(Main, data)], ed_source = source, ed_metadata = None, ed_runIndex = None\<rparr>"

text \<open>One connection of an incomplete group: waiting data and its source, if there is run data.\<close>

definition add_waiting_connection ::
  "node \<Rightarrow> nat \<Rightarrow> run_data \<Rightarrow> gconn \<Rightarrow> recreated \<Rightarrow> recreated" where
  "add_waiting_connection startNode nextRunIndex runData c st =
     (case getIncomingDataFromAnyRun runData (n_name (gc_from c)) (gc_type c) (int (gc_outputIndex c)) of
        None \<Rightarrow> st
      | Some (data, _) \<Rightarrow>
          st\<lparr>rc_waitingExecution := addWaitingExecution (n_name startNode) nextRunIndex (gc_type c) (gc_inputIndex c)
               (Val data) (rc_waitingExecution st),
             rc_waitingExecutionSource := addWaitingExecutionSource (n_name startNode) nextRunIndex (gc_type c)
               (gc_inputIndex c) (Val (source_of c nextRunIndex)) (rc_waitingExecutionSource st)\<rparr>)"

definition add_group ::
  "node \<Rightarrow> run_data \<Rightarrow> pin_data \<Rightarrow> source_group \<Rightarrow> recreated \<Rightarrow> recreated result" where
  "add_group startNode runData pinData sourceData st =
     (if sg_complete sourceData then
        bind_result (fold_result (add_incoming startNode runData pinData) (sg_connections sourceData) ([], []))
          (\<lambda>(incomingData, sources).
             Inr (st\<lparr>nodeExecutionStack := nodeExecutionStack st @
                       [stack_entry startNode incomingData (Some [(Main, sources)])]\<rparr>))
      else
        let nextRunIndex = (case obj_get (rc_waitingExecution st) (n_name startNode) of
                              None \<Rightarrow> 0 | Some byRun \<Rightarrow> length byRun)
        in Inr (foldl (\<lambda>st c. add_waiting_connection startNode nextRunIndex runData c st) st
                 (sg_connections sourceData)))"

definition add_start_node ::
  "(string \<Rightarrow> string \<Rightarrow> int) \<Rightarrow> directed_graph \<Rightarrow> run_data \<Rightarrow> pin_data \<Rightarrow> node \<Rightarrow> recreated \<Rightarrow> recreated result" where
  "add_start_node localeCompare g runData pinData startNode st =
     bind_result (getDirectParentConnections g startNode) (\<lambda>parents.
       if filter (\<lambda>c. gc_type c = Main) parents = []
       then Inr (st\<lparr>nodeExecutionStack := nodeExecutionStack st @ [stack_entry startNode [Val [empty_item]] None]\<rparr>)
       else fold_result (add_group startNode runData pinData)
              (getSourceDataGroups localeCompare g startNode runData pinData) st)"

definition recreateNodeExecutionStack ::
  "(string \<Rightarrow> string \<Rightarrow> int) \<Rightarrow> directed_graph \<Rightarrow> node list \<Rightarrow> run_data \<Rightarrow> pin_data \<Rightarrow> recreated result" where
  "recreateNodeExecutionStack localeCompare g startNodes runData pinData =
     bind_result (check_enabled g) (\<lambda>_.
       fold_result (add_start_node localeCompare g runData pinData) startNodes
         \<lparr>nodeExecutionStack = [], rc_waitingExecution = [], rc_waitingExecutionSource = []\<rparr>)"

subsection \<open>It returns, and how many entries it makes\<close>

lemma check_enabled_ok: "check_enabled g = Inr () \<longleftrightarrow> (\<forall>n \<in> set (map_values (g_nodes g)). \<not> is_disabled n)"
proof -
  have "fold_result (\<lambda>n _. if n_disabled n = Some True then Inl (e n) else Inr ()) ns () = Inr () \<longleftrightarrow>
      (\<forall>n \<in> set ns. \<not> is_disabled n)" for ns e
    by (induction ns) (auto simp: is_disabled_def)
  then show ?thesis by (simp add: check_enabled_def getNodes_def)
qed

lemma add_incoming_ok:
  assumes "has_source_data runData pinData c"
  shows "\<exists>d s. add_incoming startNode runData pinData c (ds, ss) = Inr (ds @ d, ss @ [Val s]) \<and>
    length d \<le> 1 \<and> sd_previousNode s = n_name (gc_from c) \<and>
    sd_previousNodeOutput s = Some (gc_outputIndex c)"
  using assms
  by (auto simp: add_incoming_def Let_def has_source_data_def map_has_def source_of_def split: option.splits)

lemma add_incomings_ok:
  assumes "\<forall>c \<in> set cs. has_source_data runData pinData c"
  shows "\<exists>ds' ss'. fold_result (add_incoming startNode runData pinData) cs (ds, ss) = Inr (ds @ ds', ss @ ss') \<and>
    length ss' = length cs \<and> length ds' \<le> length cs"
  using assms
proof (induction cs arbitrary: ds ss)
  case Nil
  then show ?case by simp
next
  case (Cons c cs)
  then obtain d s where "add_incoming startNode runData pinData c (ds, ss) = Inr (ds @ d, ss @ [Val s])"
    "length d \<le> 1" using add_incoming_ok [of runData pinData c startNode ds ss] by auto
  moreover obtain ds' ss' where "fold_result (add_incoming startNode runData pinData) cs (ds @ d, ss @ [Val s]) =
      Inr ((ds @ d) @ ds', (ss @ [Val s]) @ ss')" "length ss' = length cs" "length ds' \<le> length cs"
    using Cons by fastforce
  ultimately show ?case by (intro exI [of _ "d @ ds'"] exI [of _ "Val s # ss'"]) simp
qed

lemma waiting_keeps_stack:
  "nodeExecutionStack (foldl (\<lambda>st c. add_waiting_connection n r runData c st) st cs) = nodeExecutionStack st"
  by (induction cs arbitrary: st) (simp_all add: add_waiting_connection_def split: option.splits)

lemma add_group_ok:
  assumes "group_ok (has_source_data runData pinData) sg"
  shows "\<exists>st'. add_group n runData pinData sg st = Inr st' \<and>
    map ed_node (nodeExecutionStack st') = map ed_node (nodeExecutionStack st) @ (if sg_complete sg then [n] else [])"
proof (cases "sg_complete sg")
  case True
  then have "\<forall>c \<in> set (sg_connections sg). has_source_data runData pinData c"
    using assms by (simp add: group_ok_def)
  from add_incomings_ok [OF this, of n "[]" "[]"] True show ?thesis
    by (auto simp: add_group_def stack_entry_def)
next
  case False
  then show ?thesis by (simp add: add_group_def Let_def waiting_keeps_stack)
qed

lemma add_groups_ok:
  "list_all (group_ok (has_source_data runData pinData)) gs \<Longrightarrow>
    \<exists>st'. fold_result (add_group n runData pinData) gs st = Inr st' \<and>
      map ed_node (nodeExecutionStack st') =
        map ed_node (nodeExecutionStack st) @ replicate (length (filter sg_complete gs)) n"
proof (induction gs arbitrary: st)
  case Nil
  then show ?case by simp
next
  case (Cons sg gs)
  then obtain st1 where "add_group n runData pinData sg st = Inr st1"
    "map ed_node (nodeExecutionStack st1) = map ed_node (nodeExecutionStack st) @ (if sg_complete sg then [n] else [])"
    using add_group_ok [of runData pinData sg n st] by auto
  with Cons.IH [of st1] Cons.prems show ?case by auto
qed

definition entries_for ::
  "(string \<Rightarrow> string \<Rightarrow> int) \<Rightarrow> directed_graph \<Rightarrow> run_data \<Rightarrow> pin_data \<Rightarrow> node \<Rightarrow> nat" where
  "entries_for localeCompare g runData pinData n =
     (if is_main_root g n then 1
      else length (filter sg_complete (getSourceDataGroups localeCompare g n runData pinData)))"

lemma add_start_node_ok:
  assumes n: "in_graph g n"
  shows "\<exists>st'. add_start_node lc g runData pinData n st = Inr st' \<and>
    map ed_node (nodeExecutionStack st') =
      map ed_node (nodeExecutionStack st) @ replicate (entries_for lc g runData pinData n) n"
proof -
  define ps where "ps = filter (\<lambda>c. gc_to c = n) (map_values (g_connections g))"
  have ps: "getDirectParentConnections g n = Inr ps" using n by (simp add: ps_def result_simps)
  have root: "filter (\<lambda>c. gc_type c = Main) ps = [] \<longleftrightarrow> is_main_root g n"
    by (auto simp: ps_def is_main_root_def conns_of_def filter_empty_conv)
  show ?thesis
  proof (cases "is_main_root g n")
    case True
    with ps root show ?thesis by (simp add: add_start_node_def entries_for_def stack_entry_def)
  next
    case False
    with ps root add_groups_ok [OF groups_ok [of runData pinData lc g n]] show ?thesis
      by (simp add: add_start_node_def entries_for_def)
  qed
qed

lemma recreate_entries:
  assumes "\<forall>n \<in> set (map_values (g_nodes g)). \<not> is_disabled n" and "set startNodes \<subseteq> Collect (in_graph g)"
  shows "\<exists>st. recreateNodeExecutionStack localeCompare g startNodes runData pinData = Inr st \<and>
    map ed_node (nodeExecutionStack st) =
      concat (map (\<lambda>n. replicate (entries_for localeCompare g runData pinData n) n) startNodes)"
proof -
  have "\<exists>st'. fold_result (add_start_node localeCompare g runData pinData) ns st = Inr st' \<and>
      map ed_node (nodeExecutionStack st') = map ed_node (nodeExecutionStack st) @
        concat (map (\<lambda>n. replicate (entries_for localeCompare g runData pinData n) n) ns)"
    if "set ns \<subseteq> Collect (in_graph g)" for ns st
    using that
  proof (induction ns arbitrary: st)
    case Nil
    then show ?case by simp
  next
    case (Cons n ns)
    then have n: "in_graph g n" by simp
    from add_start_node_ok [OF this, of localeCompare runData pinData st] obtain st1 where
      "add_start_node localeCompare g runData pinData n st = Inr st1"
      "map ed_node (nodeExecutionStack st1) =
        map ed_node (nodeExecutionStack st) @ replicate (entries_for localeCompare g runData pinData n) n" by blast
    with Cons.IH [of st1] Cons.prems show ?case by auto
  qed
  from this [OF assms(2), of "\<lparr>nodeExecutionStack = [], rc_waitingExecution = [], rc_waitingExecutionSource = []\<rparr>"]
  show ?thesis using assms(1) by (simp add: recreateNodeExecutionStack_def check_enabled_ok [THEN iffD2])
qed

text \<open>
  C32. On a graph without disabled nodes, with all start nodes in it, \<^verbatim>\<open>recreateNodeExecutionStack\<close>
  returns (the assertion about missing data cannot fail), and the stack has, start node by start node in
  their order, one entry for a node without \<^verbatim>\<open>main\<close> parents and otherwise one entry per complete group.
\<close>

theorem recreateNodeExecutionStack_entries:
  assumes "\<forall>n \<in> set (map_values (g_nodes g)). \<not> is_disabled n" and "set startNodes \<subseteq> Collect (in_graph g)"
  shows "\<exists>st. recreateNodeExecutionStack localeCompare g startNodes runData pinData = Inr st \<and>
    map ed_node (nodeExecutionStack st) =
      concat (map (\<lambda>n. replicate (entries_for localeCompare g runData pinData n) n) startNodes)"
  by (rule recreate_entries [OF assms])

lemma sample_all_enabled: "\<forall>n \<in> set (map_values (g_nodes sample_graph)). \<not> is_disabled n"
  using sample_enabled by (simp add: sample_graph_def)

theorem recreateNodeExecutionStack_entries_witness:
  "\<exists>st. recreateNodeExecutionStack (\<lambda>a b. 0) sample_graph [sample_action] [] [] = Inr st \<and>
    map ed_node (nodeExecutionStack st) =
      concat (map (\<lambda>n. replicate (entries_for (\<lambda>a b. 0) sample_graph [] [] n) n) [sample_action])"
  by (rule recreateNodeExecutionStack_entries [OF sample_all_enabled sample_nodes_in])

subsection \<open>Inputs that get lost or moved\<close>

text \<open>A node with three sources, on its inputs 0, 1 and 2; the first source ran without output.\<close>

definition source_node :: "nat \<Rightarrow> node" where
  "source_node i = plain_node i (show_nat i) ''n8n-nodes-base.set''"

definition joined_node :: node where
  "joined_node = plain_node 9 ''join'' ''n8n-nodes-base.merge''"

definition joined_graph :: "nat list \<Rightarrow> directed_graph result" where
  "joined_graph inputs =
     addConnections (map (\<lambda>i. \<lparr>ci_from = source_node i, ci_to = joined_node, ci_type = None,
         ci_outputIndex = None, ci_inputIndex = Some i\<rparr>) inputs)
       (addNodes (joined_node # map source_node inputs) empty_graph)"

definition one_item :: "string \<Rightarrow> item list" where
  "one_item s = [empty_item\<lparr>i_json := [(s, JNull)]\<rparr>]"

definition ran :: "item list list \<Rightarrow> task_data" where
  "ran outputs = (sample_task None)\<lparr>td_data := Some [(Main, map Val outputs)]\<rparr>"

text \<open>
  When a source of a complete group ran without output, the data of the later inputs moves down: the
  items of the source on input 1 become the data of input 0, while the list of sources keeps both.
\<close>

theorem recreate_moves_input:
  "bind_result (joined_graph [0, 1]) (\<lambda>g. bind_result
      (recreateNodeExecutionStack (\<lambda>a b. 0) g [joined_node] [(''0'', [ran [[]]]), (''1'', [ran [one_item ''x'']])] [])
      (\<lambda>st. Inr (map (\<lambda>ed. (ed_data ed, map_option (map (\<lambda>(t, ss). (t, length ss))) (ed_source ed))) (nodeExecutionStack st)))) =
    Inr [([(Main, [Val (one_item ''x'')])], Some [(Main, 2)])]"
  by code_simp

text \<open>
  Two sources with data on the inputs 0 and 2, with nothing on input 1, give two complete groups:
  the node is put on the stack twice, each time with one of its inputs, instead of once with both.
\<close>

theorem recreate_splits_on_gap:
  "bind_result (joined_graph [0, 2]) (\<lambda>g. bind_result
      (recreateNodeExecutionStack (\<lambda>a b. 0) g [joined_node] [(''0'', [ran [one_item ''x'']]), (''2'', [ran [one_item ''y'']])] [])
      (\<lambda>st. Inr (map ed_data (nodeExecutionStack st)))) =
    Inr [[(Main, [Val (one_item ''x'')])], [(Main, [Val (one_item ''y'')])]]"
  by code_simp

text \<open>
  In an incomplete group the pinned data of a source is not looked up: with pinned data on input 0 and
  nothing on input 1, the node is neither put on the stack nor given any waiting data.
\<close>

theorem recreate_loses_pinned_data:
  "bind_result (joined_graph [0, 1]) (\<lambda>g. bind_result
      (recreateNodeExecutionStack (\<lambda>a b. 0) g [joined_node] [] [(''0'', one_item ''x'')])
      (\<lambda>st. Inr (nodeExecutionStack st, rc_waitingExecution st))) = Inr ([], [])"
  by code_simp

end
