(* ===== verification/ConnectionGraph.thy ===== *)
theory ConnectionGraph
  imports WorkflowTypes
begin

section \<open>Connected nodes of a workflow\<close>

text \<open>
  \<^verbatim>\<open>packages/workflow/src/common\<close>: \<^verbatim>\<open>get-connected-nodes.ts\<close>, \<^verbatim>\<open>get-child-nodes.ts\<close>, \<^verbatim>\<open>get-parent-nodes.ts\<close>,
  \<^verbatim>\<open>get-node-by-name.ts\<close> and \<^verbatim>\<open>map-connections-by-destination.ts\<close>. The traversal is a depth-first search
  that skips the nodes on the current path and caches the expansion of a node by the node and the
  remaining depth. A cached expansion was computed under another path and may lack the nodes of that
  path; the theorem shows that with unlimited depth the result of the outermost call is complete
  nevertheless.
\<close>

subsection \<open>Definitions\<close>

datatype type_filter = OfType connection_type | AllTypes | AllNonMain

definition types_of :: "type_filter \<Rightarrow> node_connections \<Rightarrow> connection_type list" where
  "types_of connectionType entry =
     (case connectionType of
        AllTypes \<Rightarrow> map fst entry
      | AllNonMain \<Rightarrow> filter (\<lambda>t. t \<noteq> Main) (map fst entry)
      | OfType t \<Rightarrow> [t])"

definition output_targets :: "node_inputs \<Rightarrow> string list" where
  "output_targets outputs = concat (map (\<lambda>s. map c_node (slot_list s)) outputs)"

text \<open>The connections the three nested \<^verbatim>\<open>forEach\<close> loops visit, in order; null and missing slots are skipped.\<close>

definition connected_names :: "connections \<Rightarrow> type_filter \<Rightarrow> string \<Rightarrow> string list" where
  "connected_names conns connectionType nodeName =
     (case obj_get conns nodeName of
        None \<Rightarrow> []
      | Some entry \<Rightarrow>
          concat (map (\<lambda>t. case obj_get entry t of
              None \<Rightarrow> []
            | Some outputs \<Rightarrow> output_targets outputs)
          (types_of connectionType entry)))"

definition move_front :: "'a \<Rightarrow> 'a list \<Rightarrow> 'a list" where
  \<comment> \<open>\<^verbatim>\<open>splice\<close> the element out if it is there, then \<^verbatim>\<open>unshift\<close> it\<close>
  "move_front x xs = x # remove1 x xs"

type_synonym memo = "(int \<times> string, string list) jsmap"

text \<open>
  \<^verbatim>\<open>currentPath\<close> is passed down: the code adds the node before its loop and deletes it after. The cache
  key \<^verbatim>\<open>depth:name\<close> is the pair, since a number contains no colon.
\<close>

function collectConnectedNodes ::
  "connections \<Rightarrow> string \<Rightarrow> type_filter \<Rightarrow> int \<Rightarrow> string list \<Rightarrow> memo \<Rightarrow> string list \<times> memo" where
  "collectConnectedNodes conns nodeName connectionType depth currentPath memo =
     (if depth = 0 then ([], memo)
      else if \<not> map_has conns nodeName then ([], memo)
      else case map_get memo (depth, nodeName) of
        Some cached \<Rightarrow> (cached, memo)
      | None \<Rightarrow>
          let newDepth = (if depth = - 1 then depth else depth - 1);
              path = set_add nodeName currentPath;
              result = foldl (\<lambda>acc child.
                  if child \<in> set path then acc
                  else let r = collectConnectedNodes conns child connectionType newDepth path (snd acc)
                       in (foldr move_front (fst r) (move_front child (fst acc)), snd r))
                ([], memo) (connected_names conns connectionType nodeName)
          in (fst result, map_set (depth, nodeName) (fst result) (snd result)))"
  by pat_completeness auto

definition all_targets :: "connections \<Rightarrow> string set" where
  "all_targets conns = set (concat (map (\<lambda>p. concat (map (\<lambda>q. output_targets (snd q)) (snd p))) conns))"

lemma finite_all_targets [simp]: "finite (all_targets conns)"
  unfolding all_targets_def by (rule finite_set)

lemma connected_names_mem:
  "x \<in> set (connected_names conns f n) \<longleftrightarrow>
    (\<exists>entry t outputs. obj_get conns n = Some entry \<and> t \<in> set (types_of f entry) \<and>
       obj_get entry t = Some outputs \<and> x \<in> set (output_targets outputs))"
proof (cases "obj_get conns n")
  case None
  then show ?thesis by (simp add: connected_names_def)
next
  case (Some entry)
  then show ?thesis by (auto simp: connected_names_def split: option.split_asm) (metis+)
qed

lemma connected_names_targets:
  assumes "x \<in> set (connected_names conns f n)"
  shows "x \<in> all_targets conns"
proof -
  from assms obtain entry t outputs where e: "obj_get conns n = Some entry" "obj_get entry t = Some outputs"
    "x \<in> set (output_targets outputs)" by (auto simp: connected_names_mem)
  have "(n, entry) \<in> set conns" "(t, outputs) \<in> set entry" using e by (auto dest: map_of_SomeD)
  with e(3) show ?thesis unfolding all_targets_def by force
qed

lemma path_grows:
  assumes "child \<in> set (connected_names conns f n)" and "child \<notin> set (set_add n path)"
  shows "card (all_targets conns - insert child (set (set_add n path))) <
    card (all_targets conns - insert n (set path))"
  using assms connected_names_targets [OF assms(1)] by (intro psubset_card_mono) auto

termination collectConnectedNodes
  by (relation "measure (\<lambda>(conns, n, f, d, path, memo). card (all_targets conns - insert n (set path)))")
    (auto simp del: set_set_add intro: path_grows)

declare collectConnectedNodes.simps [simp del]

definition getConnectedNodes :: "connections \<Rightarrow> string \<Rightarrow> type_filter \<Rightarrow> int \<Rightarrow> string list" where
  "getConnectedNodes conns nodeName connectionType depth =
     fst (collectConnectedNodes conns nodeName connectionType depth [] [])"

definition getChildNodes :: "connections \<Rightarrow> string \<Rightarrow> type_filter \<Rightarrow> int \<Rightarrow> string list" where
  "getChildNodes connectionsBySourceNode nodeName type depth =
     getConnectedNodes connectionsBySourceNode nodeName type depth"

definition getParentNodes :: "connections \<Rightarrow> string \<Rightarrow> type_filter \<Rightarrow> int \<Rightarrow> string list" where
  "getParentNodes connectionsByDestinationNode nodeName type depth =
     getConnectedNodes connectionsByDestinationNode nodeName type depth"

subsection \<open>With unlimited depth the result is complete\<close>

definition name_rel :: "connections \<Rightarrow> type_filter \<Rightarrow> (string \<times> string) set" where
  "name_rel conns f = {(a, b). b \<in> set (connected_names conns f a)}"

definition finished :: "memo \<Rightarrow> string set" where
  "finished memo = {x. map_get memo (-1, x) \<noteq> None}"

definition settled :: "connections \<Rightarrow> memo \<Rightarrow> string set" where
  \<comment> \<open>nodes that need not be expanded any more\<close>
  "settled conns memo = finished memo \<union> {x. \<not> map_has conns x}"

definition memo_ok :: "connections \<Rightarrow> type_filter \<Rightarrow> string set \<Rightarrow> memo \<Rightarrow> bool" where
  "memo_ok conns f path memo \<longleftrightarrow>
     (\<forall>x l. map_get memo (-1, x) = Some l \<longrightarrow>
        distinct l \<and> x \<notin> set l \<and> set l \<subseteq> (name_rel conns f)\<^sup>+ `` {x} \<and> set l \<subseteq> settled conns memo) \<and>
     path \<inter> settled conns memo = {}"

definition expanded :: "connections \<Rightarrow> type_filter \<Rightarrow> string set \<Rightarrow> memo \<Rightarrow> string set \<Rightarrow> memo \<Rightarrow> bool" where
  \<comment> \<open>from \<open>memo\<close> to \<open>memo'\<close>, everything newly finished and what it leads to was collected\<close>
  "expanded conns f path memo ret memo' \<longleftrightarrow>
     finished memo \<subseteq> finished memo' \<and>
     (\<forall>x \<in> finished memo' - finished memo. x \<in> ret \<and> name_rel conns f `` {x} \<subseteq> ret \<union> path)"

lemma settled_mono: "finished memo \<subseteq> finished memo' \<Longrightarrow> settled conns memo \<subseteq> settled conns memo'"
  by (auto simp: settled_def)

lemma expanded_refl: "expanded conns f path memo ret memo"
  by (simp add: expanded_def)

lemma expanded_trans:
  "expanded conns f path m1 r1 m2 \<Longrightarrow> expanded conns f path m2 r2 m3 \<Longrightarrow>
    expanded conns f path m1 (r1 \<union> r2) m3"
  unfolding expanded_def by blast

lemma set_move_front [simp]: "set (move_front x xs) = insert x (set xs)"
  by (cases "x \<in> set xs") (auto simp: move_front_def dest: notin_set_remove1 in_set_remove1 [THEN iffD2])

lemma distinct_move_front [simp]: "distinct xs \<Longrightarrow> distinct (move_front x xs)"
  by (simp add: move_front_def)

lemma set_foldr_move_front [simp]: "set (foldr move_front xs ys) = set xs \<union> set ys"
  by (induction xs) auto

lemma distinct_foldr_move_front [simp]: "distinct ys \<Longrightarrow> distinct (foldr move_front xs ys)"
  by (induction xs) auto

lemma finished_set [simp]: "finished (map_set (-1, n) l memo) = insert n (finished memo)"
  by (auto simp: finished_def store_simps)

definition visit_ok ::
  "connections \<Rightarrow> type_filter \<Rightarrow> string \<Rightarrow> string set \<Rightarrow> memo \<Rightarrow> string list \<times> memo \<Rightarrow> bool" where
  "visit_ok conns f n path memo r \<longleftrightarrow>
     distinct (fst r) \<and> n \<notin> set (fst r) \<and> set (fst r) \<subseteq> (name_rel conns f)\<^sup>+ `` {n} \<and>
     insert n (set (fst r)) \<subseteq> settled conns (snd r) \<and> memo_ok conns f path (snd r) \<and>
     expanded conns f path memo (insert n (set (fst r))) (snd r)"

text \<open>The loop over the children of a node, given that every child is visited correctly.\<close>

definition loop_ok ::
  "connections \<Rightarrow> type_filter \<Rightarrow> string \<Rightarrow> string set \<Rightarrow> memo \<Rightarrow> string list \<times> memo \<Rightarrow> bool" where
  "loop_ok conns f n path memo r \<longleftrightarrow>
     distinct (fst r) \<and> set (fst r) \<subseteq> (name_rel conns f)\<^sup>+ `` {n} \<and>
     set (fst r) \<subseteq> settled conns (snd r) \<and> memo_ok conns f path (snd r) \<and>
     expanded conns f path memo (set (fst r)) (snd r)"

lemma loop_step:
  assumes loop: "loop_ok conns f n path memo acc" and child: "(n, c) \<in> name_rel conns f"
    and visit: "visit_ok conns f c path (snd acc) r"
  shows "loop_ok conns f n path memo (foldr move_front (fst r) (move_front c (fst acc)), snd r)"
proof -
  have "(name_rel conns f)\<^sup>+ `` {c} \<subseteq> (name_rel conns f)\<^sup>+ `` {n}"
    using child by (auto intro: trancl_into_trancl2)
  moreover have "c \<in> (name_rel conns f)\<^sup>+ `` {n}" using child by auto
  moreover have "set (fst acc) \<subseteq> settled conns (snd r)"
    using loop visit settled_mono [of "snd acc" "snd r" conns]
    by (auto simp: loop_ok_def visit_ok_def expanded_def)
  moreover have "expanded conns f path memo (set (fst acc) \<union> insert c (set (fst r))) (snd r)"
    using loop visit
      expanded_trans [of conns f path memo "set (fst acc)" "snd acc" "insert c (set (fst r))" "snd r"]
    by (simp only: loop_ok_def visit_ok_def)
  moreover have "set (foldr move_front (fst r) (move_front c (fst acc))) = set (fst acc) \<union> insert c (set (fst r))"
    by auto
  ultimately show ?thesis
    using loop visit unfolding loop_ok_def visit_ok_def by simp blast
qed

definition visit_children ::
  "(string \<Rightarrow> memo \<Rightarrow> string list \<times> memo) \<Rightarrow> string list \<Rightarrow> string list \<Rightarrow> string list \<times> memo \<Rightarrow> string list \<times> memo" where
  "visit_children visit path children acc0 =
     foldl (\<lambda>acc child. if child \<in> set path then acc
        else let r = visit child (snd acc) in (foldr move_front (fst r) (move_front child (fst acc)), snd r))
       acc0 children"

lemma visit_children_ok:
  assumes "\<And>c m. c \<in> set cs \<Longrightarrow> c \<notin> set path \<Longrightarrow> memo_ok conns f (set path) m \<Longrightarrow>
      visit_ok conns f c (set path) m (visit c m)"
    and "set cs \<subseteq> name_rel conns f `` {n}" and "loop_ok conns f n (set path) memo acc"
  shows "loop_ok conns f n (set path) memo (visit_children visit path cs acc) \<and>
    set cs \<union> set (fst acc) \<subseteq> set (fst (visit_children visit path cs acc)) \<union> set path"
  using assms
proof (induction cs arbitrary: acc)
  case Nil
  then show ?case by (auto simp: visit_children_def)
next
  case (Cons c cs)
  show ?case
  proof (cases "c \<in> set path")
    case True
    then have "visit_children visit path (c # cs) acc = visit_children visit path cs acc"
      by (simp add: visit_children_def)
    with True Cons.IH [of acc] Cons.prems show ?thesis by auto
  next
    case False
    define r where "r = visit c (snd acc)"
    define acc1 where "acc1 = (foldr move_front (fst r) (move_front c (fst acc)), snd r)"
    have eq: "visit_children visit path (c # cs) acc = visit_children visit path cs acc1"
      using False by (simp add: visit_children_def Let_def acc1_def r_def)
    have "memo_ok conns f (set path) (snd acc)" using Cons.prems(3) by (simp add: loop_ok_def)
    with Cons.prems(1) False have "visit_ok conns f c (set path) (snd acc) r" by (simp add: r_def)
    with loop_step [OF Cons.prems(3)] Cons.prems(2)
    have "loop_ok conns f n (set path) memo acc1" unfolding acc1_def by auto
    with Cons.IH [of acc1] Cons.prems(1,2)
    have "loop_ok conns f n (set path) memo (visit_children visit path cs acc1)"
      and "set cs \<union> set (fst acc1) \<subseteq> set (fst (visit_children visit path cs acc1)) \<union> set path" by auto
    moreover have "insert c (set (fst acc)) \<subseteq> set (fst acc1)" by (auto simp: acc1_def)
    ultimately show ?thesis unfolding eq by auto
  qed
qed

lemma collect_cases:
  "collectConnectedNodes conns n f (-1) path memo =
    (if \<not> map_has conns n then ([], memo)
     else case map_get memo (-1, n) of
       Some cached \<Rightarrow> (cached, memo)
     | None \<Rightarrow> let r = visit_children (\<lambda>c m. collectConnectedNodes conns c f (-1) (set_add n path) m)
                  (set_add n path) (connected_names conns f n) ([], memo)
         in (fst r, map_set (-1, n) (fst r) (snd r)))"
  unfolding visit_children_def
  by (subst collectConnectedNodes.simps) (simp only: Let_def if_True simp_thms refl, simp cong: if_cong)

lemma finish_node:
  assumes loop: "loop_ok conns f n (insert n path) memo (ret, m)" and has: "map_has conns n"
    and new: "n \<notin> finished memo" and all: "name_rel conns f `` {n} \<subseteq> set ret \<union> insert n path"
    and path: "n \<notin> path"
  shows "visit_ok conns f n path memo (ret, map_set (-1, n) ret m)"
proof -
  have m: "memo_ok conns f (insert n path) m" and ex: "expanded conns f (insert n path) memo (set ret) m"
    and ret: "distinct ret" "set ret \<subseteq> (name_rel conns f)\<^sup>+ `` {n}" "set ret \<subseteq> settled conns m"
    using loop by (simp_all add: loop_ok_def)
  have s: "settled conns (map_set (-1, n) ret m) = insert n (settled conns m)"
    by (auto simp: settled_def)
  have fresh: "n \<notin> set ret" using m ret(3) by (auto simp: memo_ok_def)
  have "distinct l \<and> x \<notin> set l \<and> set l \<subseteq> (name_rel conns f)\<^sup>+ `` {x} \<and> set l \<subseteq> insert n (settled conns m)"
    if "map_get (map_set (-1, n) ret m) (-1, x) = Some l" for x l
  proof (cases "x = n")
    case True
    with that ret fresh show ?thesis by (auto simp: store_simps)
  next
    case False
    with that have "map_get m (-1, x) = Some l" by (simp add: store_simps)
    with m have "distinct l \<and> x \<notin> set l \<and> set l \<subseteq> (name_rel conns f)\<^sup>+ `` {x} \<and> set l \<subseteq> settled conns m"
      unfolding memo_ok_def by blast
    then show ?thesis by blast
  qed
  moreover have "path \<inter> insert n (settled conns m) = {}" using m path by (auto simp: memo_ok_def)
  ultimately have "memo_ok conns f path (map_set (-1, n) ret m)" unfolding memo_ok_def s by blast
  moreover have "expanded conns f path memo (insert n (set ret)) (map_set (-1, n) ret m)"
    using ex all unfolding expanded_def by auto
  ultimately show ?thesis using ret fresh by (auto simp: visit_ok_def s)
qed

lemma collect_ok:
  "memo_ok conns f (set path) memo \<Longrightarrow> depth = -1 \<Longrightarrow> n \<notin> set path \<Longrightarrow>
    visit_ok conns f n (set path) memo (collectConnectedNodes conns n f depth path memo)"
proof (induction conns n f depth path memo rule: collectConnectedNodes.induct)
  case (1 conns n f depth path memo)
  show ?case
  proof (cases "map_has conns n")
    case False
    with 1 show ?thesis
      by (simp add: collect_cases visit_ok_def expanded_refl settled_def)
  next
    case has: True
    show ?thesis
    proof (cases "map_get memo (-1, n)")
      case (Some cached)
      then have "n \<in> settled conns memo" by (simp add: settled_def finished_def)
      with 1 has Some show ?thesis
        by (simp add: collect_cases visit_ok_def expanded_refl memo_ok_def)
    next
      case None
      define r where "r = visit_children (\<lambda>c m. collectConnectedNodes conns c f (-1) (set_add n path) m)
                  (set_add n path) (connected_names conns f n) ([], memo)"
      have ok: "memo_ok conns f (set (set_add n path)) memo"
        using "1.prems"(1) has None by (auto simp: memo_ok_def settled_def finished_def)
      have "loop_ok conns f n (set (set_add n path)) memo r \<and>
          set (connected_names conns f n) \<union> set (fst ([] :: string list, memo)) \<subseteq> set (fst r) \<union> set (set_add n path)"
        unfolding r_def
      proof (rule visit_children_ok)
        fix c m
        assume "c \<in> set (connected_names conns f n)" "c \<notin> set (set_add n path)"
          "memo_ok conns f (set (set_add n path)) m"
        then show "visit_ok conns f c (set (set_add n path)) m
            (collectConnectedNodes conns c f (- 1) (set_add n path) m)"
          using "1.IH" [of "-1" "set_add n path" c "([], m)"] "1.prems"(2) has None by simp
      next
        show "set (connected_names conns f n) \<subseteq> name_rel conns f `` {n}" by (auto simp: name_rel_def)
        show "loop_ok conns f n (set (set_add n path)) memo ([], memo)"
          using ok by (simp add: loop_ok_def expanded_refl)
      qed
      then have "visit_ok conns f n (set path) memo (fst r, map_set (-1, n) (fst r) (snd r))"
        using finish_node [of conns f n "set path" memo "fst r" "snd r"] has None "1.prems"(3)
        by (auto simp: finished_def name_rel_def)
      moreover have "collectConnectedNodes conns n f (-1) path memo = (fst r, map_set (-1, n) (fst r) (snd r))"
        unfolding collect_cases [of conns n] r_def [symmetric] using has None by (simp add: Let_def)
      ultimately show ?thesis using "1.prems"(2) by simp
    qed
  qed
qed

lemma getConnectedNodes_unlimited:
  "set (getConnectedNodes conns nodeName connectionType (-1)) =
     (name_rel conns connectionType)\<^sup>+ `` {nodeName} - {nodeName} \<and>
   distinct (getConnectedNodes conns nodeName connectionType (-1))"
proof -
  let ?R = "name_rel conns connectionType"
  define r where "r = collectConnectedNodes conns nodeName connectionType (-1) [] []"
  have "memo_ok conns connectionType {} []" by (simp add: memo_ok_def)
  then have v: "visit_ok conns connectionType nodeName {} [] r"
    using collect_ok [of conns connectionType "[]" "[]" "-1" nodeName] by (simp add: r_def)
  let ?S = "insert nodeName (set (fst r))"
  have leaf: "?R `` {x} = {}" if "\<not> map_has conns x" for x
    using that by (auto simp: name_rel_def connected_names_def map_has_def)
  have closed: "?R `` ?S \<subseteq> ?S"
  proof -
    have "?R `` {x} \<subseteq> ?S" if "x \<in> ?S" for x
    proof (cases "map_has conns x")
      case True
      with that v have "x \<in> finished (snd r)" by (auto simp: visit_ok_def settled_def)
      then have "x \<in> finished (snd r) - finished []" by (simp add: finished_def)
      with v show ?thesis unfolding visit_ok_def expanded_def by blast
    next
      case False
      with leaf show ?thesis by simp
    qed
    then show ?thesis by blast
  qed
  have "?R\<^sup>* `` ?S = ?S" using closed by (rule Image_closed_trancl)
  then have "?R\<^sup>+ `` {nodeName} \<subseteq> ?S" by (auto dest: trancl_into_rtrancl)
  moreover have "nodeName \<notin> set (fst r)" using v by (simp add: visit_ok_def)
  ultimately show ?thesis
    using v unfolding getConnectedNodes_def r_def [symmetric] by (auto simp: visit_ok_def)
qed

text \<open>
  C35. With unlimited depth \<^verbatim>\<open>getConnectedNodes\<close> returns every node other than the start that can be
  reached over connections of the given type, each exactly once, although the expansions it caches are
  cut at the path they were computed under.
\<close>

theorem getConnectedNodes_reachable:
  "set (getConnectedNodes conns nodeName connectionType (-1)) =
     (name_rel conns connectionType)\<^sup>+ `` {nodeName} - {nodeName} \<and>
   distinct (getConnectedNodes conns nodeName connectionType (-1))"
  by (rule getConnectedNodes_unlimited)

end
