(* ===== verification/ConnectionMaps.thy ===== *)
theory ConnectionMaps
  imports ConnectionGraph Sorting
begin

section \<open>Connections by destination\<close>

text \<open>
  \<^verbatim>\<open>packages/workflow/src/common\<close>: \<^verbatim>\<open>map-connections-by-destination.ts\<close>, \<^verbatim>\<open>get-node-by-name.ts\<close>,
  \<^verbatim>\<open>find-ai-root-node-names.ts\<close> and \<^verbatim>\<open>resolve-variables.ts\<close>. The main result is that the map by destination
  is the transposition of the map by source: a link from an output to an input is in the one exactly
  if the opposite link is in the other, so children in the one are parents in the other.
\<close>

subsection \<open>Definitions\<close>

text \<open>
  One connection of the map by source: the entry, the type and the slots of its destination are
  created if needed, and the source is pushed onto the slot of its input.
\<close>

definition add_destination ::
  "string \<Rightarrow> connection_type \<Rightarrow> nat \<Rightarrow> connection \<Rightarrow> connections \<Rightarrow> connections" where
  "add_destination sourceNode type outputIndex info ret =
     (let entry = or_empty (obj_get ret (c_node info));
          slots = or_empty (obj_get entry (c_type info));
          padded = slots @ replicate (Suc (c_index info) - length slots) (Val []);
          pushed = slot_list (padded ! c_index info) @
                     [\<lparr>c_node = sourceNode, c_type = type, c_index = outputIndex\<rparr>]
      in obj_set (c_node info)
           (obj_set (c_type info) (padded[c_index info := Val pushed]) entry) ret)"

definition add_outputs ::
  "string \<Rightarrow> connection_type \<Rightarrow> node_inputs \<Rightarrow> connections \<Rightarrow> connections" where
  "add_outputs sourceNode type outputs ret =
     foldl (\<lambda>r p. foldl (\<lambda>r info. add_destination sourceNode type (fst p) info r) r (slot_list (snd p)))
       ret (enumerate 0 outputs)"

definition mapConnectionsByDestination :: "connections \<Rightarrow> connections" where
  "mapConnectionsByDestination conns =
     foldl (\<lambda>r p. foldl (\<lambda>r q. add_outputs (fst p) (fst q) (snd q) r) r (snd p)) [] conns"

text \<open>A node by name, in a list of nodes and in an object of nodes.\<close>

definition find_node_by_name :: "node list \<Rightarrow> string \<Rightarrow> node option" where
  "find_node_by_name nodes name = find (\<lambda>n. n_name n = name) nodes"

definition getNodeByName :: "node list + node jsobj \<Rightarrow> string \<Rightarrow> node option" where
  "getNodeByName nodes name =
     (case nodes of Inl ns \<Rightarrow> find_node_by_name ns name | Inr obj \<Rightarrow> obj_get obj name)"

text \<open>
  The targets of the AI connections. The code walks an unknown value and skips what has another
  shape; here the value is a JSON value.
\<close>

definition ai_prefix :: "string \<Rightarrow> bool" where
  "ai_prefix t \<longleftrightarrow> take 3 t = ''ai_''"

fun js_entries :: "js \<Rightarrow> (string \<times> js) list" where
  \<comment> \<open>the entries of an object record, nothing for other values; the keys of an array are its indices\<close>
  "js_entries (JObj kvs) = kvs"
| "js_entries (JArr xs) = zip (map show_nat [0..<length xs]) xs"
| "js_entries v = []"

fun js_elements :: "js \<Rightarrow> js list" where
  "js_elements (JArr xs) = xs"
| "js_elements v = []"

fun conn_target :: "js \<Rightarrow> string option" where
  "conn_target (JObj kvs) = (case map_of kvs ''node'' of Some (JStr s) \<Rightarrow> Some s | _ \<Rightarrow> None)"
| "conn_target v = None"

definition add_ai_roots :: "js \<Rightarrow> string list \<Rightarrow> string list" where
  "add_ai_roots nodeConns roots =
     foldl (\<lambda>roots p. if ai_prefix (fst p)
         then foldl (\<lambda>roots group. foldl (\<lambda>roots conn.
                case conn_target conn of None \<Rightarrow> roots | Some nm \<Rightarrow> set_add nm roots)
              roots (js_elements group)) roots (js_elements (snd p))
         else roots)
       roots (js_entries nodeConns)"

definition findAiRootNodeNames :: "js \<Rightarrow> string list" where
  "findAiRootNodeNames connections =
     foldl (\<lambda>roots p. add_ai_roots (snd p) roots) [] (js_entries connections)"

text \<open>Variables, global or scoped to a project.\<close>

record scoped_variable =
  sv_key :: string
  sv_value :: js
  sv_project :: "string option"

definition resolveVariables :: "scoped_variable list \<Rightarrow> string option \<Rightarrow> js jsobj" where
  "resolveVariables variables projectId =
     (let globals = foldl (\<lambda>m v. if sv_project v = None then obj_set (sv_key v) (sv_value v) m else m) [] variables
      in foldl (\<lambda>m v. if projectId \<noteq> None \<and> projectId \<noteq> Some [] \<and> sv_project v = projectId
                      then obj_set (sv_key v) (sv_value v) m else m) globals variables)"

fun pick_variable :: "scoped_variable list \<Rightarrow> string \<Rightarrow> string option \<Rightarrow> scoped_variable option \<Rightarrow> scoped_variable option" where
  "pick_variable [] key projectId global = global"
| "pick_variable (v # vs) key projectId global =
     (if sv_key v \<noteq> key then pick_variable vs key projectId global
      else case sv_project v of
        Some p \<Rightarrow> if projectId \<noteq> None \<and> projectId \<noteq> Some [] \<and> Some p = projectId then Some v
                  else pick_variable vs key projectId global
      | None \<Rightarrow> pick_variable vs key projectId (case global of None \<Rightarrow> Some v | Some g \<Rightarrow> Some g))"

definition pickVariableForProject :: "scoped_variable list \<Rightarrow> string \<Rightarrow> string option \<Rightarrow> scoped_variable option" where
  "pickVariableForProject variables key projectId = pick_variable variables key projectId None"

subsection \<open>The map by destination is the transposition\<close>

definition has_link :: "connections \<Rightarrow> string \<Rightarrow> connection_type \<Rightarrow> nat \<Rightarrow> connection \<Rightarrow> bool" where
  "has_link conns nm t i c \<longleftrightarrow>
     (\<exists>entry slots. obj_get conns nm = Some entry \<and> obj_get entry t = Some slots \<and>
        i < length slots \<and> c \<in> set (slot_list (slots ! i)))"

definition well_keyed_connections :: "connections \<Rightarrow> bool" where
  "well_keyed_connections conns \<longleftrightarrow>
     well_keyed conns \<and> list_all (\<lambda>p. well_keyed (snd p)) conns"

definition connection_to :: "string \<Rightarrow> connection_type \<Rightarrow> nat \<Rightarrow> connection" where
  "connection_to nm t i = \<lparr>c_node = nm, c_type = t, c_index = i\<rparr>"

lemma connection_to_simps [simp]:
  "c_node (connection_to nm t i) = nm" "c_type (connection_to nm t i) = t"
  "c_index (connection_to nm t i) = i"
  by (simp_all add: connection_to_def)

lemma connection_to_eq: "connection_to (c_node c) (c_type c) (c_index c) = c"
  by (simp add: connection_to_def)

lemma connection_to_inject [simp]:
  "connection_to a t i = connection_to b u j \<longleftrightarrow> a = b \<and> t = u \<and> i = j"
  by (simp add: connection_to_def)

definition slot_at :: "connections \<Rightarrow> string \<Rightarrow> connection_type \<Rightarrow> nat \<Rightarrow> connection list" where
  "slot_at conns nm t i = slot_list (arr_get (or_empty (obj_get (or_empty (obj_get conns nm)) t)) i)"

lemma has_link_slot: "has_link conns nm t i c \<longleftrightarrow> c \<in> set (slot_at conns nm t i)"
  by (auto simp: has_link_def slot_at_def arr_get_def or_empty_def split: option.splits if_splits)

lemma arr_get_list_update:
  "i < length xs \<Longrightarrow> arr_get (xs[i := v]) j = (if j = i then v else arr_get xs j)"
  by (simp add: arr_get_def nth_list_update)

lemma nth_arr_get: "i < length xs \<Longrightarrow> xs ! i = arr_get xs i"
  by (simp add: arr_get_def)

lemma padded_get:
  "slot_list (arr_get (slots @ replicate n (Val [])) j) = slot_list (arr_get slots j)"
  by (auto simp: arr_get_def nth_append)

lemma slot_at_add_destination:
  "slot_at (add_destination s ty i info ret) nm t j =
    (if nm = c_node info \<and> t = c_type info \<and> j = c_index info
     then slot_at ret nm t j @ [connection_to s ty i] else slot_at ret nm t j)"
proof -
  define slots where "slots = or_empty (obj_get (or_empty (obj_get ret (c_node info))) (c_type info))"
  define padded where "padded = slots @ replicate (Suc (c_index info) - length slots) (Val [])"
  have len: "c_index info < length padded" by (simp add: padded_def)
  have "slot_list (arr_get padded k) = slot_list (arr_get slots k)" for k
    by (simp add: padded_def padded_get)
  with len have "slot_list (arr_get (padded[c_index info := Val (slot_list (padded ! c_index info) @ [x])]) k) =
      (if k = c_index info then slot_list (arr_get slots k) @ [x] else slot_list (arr_get slots k))" for k x
    by (simp add: arr_get_list_update nth_arr_get)
  then show ?thesis
    unfolding slot_at_def add_destination_def Let_def slots_def [symmetric] padded_def [symmetric]
    by (auto simp: connection_to_def slots_def)
qed

text \<open>The three loops as one, over the links in the order they are visited.\<close>

definition output_links :: "node_inputs \<Rightarrow> (nat \<times> connection) list" where
  "output_links outputs = concat (map (\<lambda>p. map (Pair (fst p)) (slot_list (snd p))) (enumerate 0 outputs))"

definition source_links :: "connections \<Rightarrow> (string \<times> connection_type \<times> nat \<times> connection) list" where
  "source_links conns =
     concat (map (\<lambda>p. concat (map (\<lambda>q. map (\<lambda>l. (fst p, fst q, l)) (output_links (snd q))) (snd p))) conns)"

lemma foldl_concat_map: "foldl f s (concat (map g xs)) = foldl (\<lambda>s x. foldl f s (g x)) s xs"
  by (induction xs arbitrary: s) auto

lemma foldl_map: "foldl f s (map g xs) = foldl (\<lambda>s x. f s (g x)) s xs"
  by (induction xs arbitrary: s) auto

lemma mapConnectionsByDestination_fold:
  "mapConnectionsByDestination conns =
    foldl (\<lambda>r (s, t, i, c). add_destination s t i c r) [] (source_links conns)"
  by (simp add: mapConnectionsByDestination_def add_outputs_def source_links_def output_links_def
      foldl_concat_map foldl_map)

lemma slot_at_fold:
  "slot_at (foldl (\<lambda>r (s, t, i, c). add_destination s t i c r) ret links) nm t j =
    slot_at ret nm t j @
      map (\<lambda>(s, u, i, c). connection_to s u i) (filter (\<lambda>(s, u, i, c). c = connection_to nm t j) links)"
proof (induction links arbitrary: ret)
  case Nil
  then show ?case by simp
next
  case (Cons l links)
  obtain s u i c where l: "l = (s, u, i, c)" using prod_cases4 by blast
  have "nm = c_node c \<and> t = c_type c \<and> j = c_index c \<longleftrightarrow> c = connection_to nm t j"
    using connection_to_eq [of c] by auto
  with Cons l show ?case by (auto simp: slot_at_add_destination)
qed

lemma output_links_mem: "(i, c) \<in> set (output_links outputs) \<longleftrightarrow>
    i < length outputs \<and> c \<in> set (slot_list (outputs ! i))"
proof -
  have "(i, c) \<in> set (output_links outputs) \<longleftrightarrow>
      (\<exists>p \<in> set (enumerate 0 outputs). fst p = i \<and> c \<in> set (slot_list (snd p)))"
    by (auto simp: output_links_def)
  also have "\<dots> \<longleftrightarrow> i < length outputs \<and> c \<in> set (slot_list (outputs ! i))"
    by (auto simp: in_set_enumerate_eq Bex_def)
  finally show ?thesis .
qed

lemma source_links_mem:
  assumes "well_keyed_connections conns"
  shows "(s, t, i, c) \<in> set (source_links conns) \<longleftrightarrow> has_link conns s t i c"
proof -
  have "well_keyed entry" if "(s, entry) \<in> set conns" for entry
    using assms that by (auto simp: well_keyed_connections_def list_all_iff)
  moreover have "well_keyed conns" using assms by (simp add: well_keyed_connections_def)
  ultimately have "has_link conns s t i c \<longleftrightarrow>
      (\<exists>entry slots. (s, entry) \<in> set conns \<and> (t, slots) \<in> set entry \<and> (i, c) \<in> set (output_links slots))"
    unfolding has_link_def output_links_mem by (metis well_keyed_get)
  then show ?thesis by (force simp: source_links_def)
qed

lemma has_link_by_destination:
  assumes "well_keyed_connections conns"
  shows "has_link (mapConnectionsByDestination conns) d t j c \<longleftrightarrow>
    has_link conns (c_node c) (c_type c) (c_index c) (connection_to d t j)"
proof -
  have "has_link (mapConnectionsByDestination conns) d t j c \<longleftrightarrow>
      (\<exists>s u i. (s, u, i, connection_to d t j) \<in> set (source_links conns) \<and> c = connection_to s u i)"
    unfolding has_link_slot mapConnectionsByDestination_fold slot_at_fold
    by (force simp: slot_at_def)
  then show ?thesis
    unfolding source_links_mem [OF assms] by (metis connection_to_eq connection_to_inject)
qed

text \<open>
  C36. The map by destination holds a connection at an input exactly if the map by source holds the
  opposite connection at the output it names.
\<close>

theorem mapConnectionsByDestination_transposes:
  assumes "well_keyed_connections conns"
  shows "has_link (mapConnectionsByDestination conns) d t j (connection_to s u i) \<longleftrightarrow>
    has_link conns s u i (connection_to d t j)"
  using has_link_by_destination [OF assms] by simp

subsection \<open>Children and parents\<close>

lemma output_targets_mem: "b \<in> set (output_targets outputs) \<longleftrightarrow>
    (\<exists>i c. i < length outputs \<and> c \<in> set (slot_list (outputs ! i)) \<and> c_node c = b)"
proof -
  have "b \<in> set (output_targets outputs) \<longleftrightarrow> (\<exists>s \<in> set outputs. \<exists>c \<in> set (slot_list s). c_node c = b)"
    by (auto simp: output_targets_def)
  then show ?thesis by (metis in_set_conv_nth)
qed

lemma ex_connection: "(\<exists>c. c_node c = b \<and> P c) \<longleftrightarrow> (\<exists>t i. P (connection_to b t i))"
  by (metis connection_to_eq connection_to_simps(1))

lemma name_rel_all: "(a, b) \<in> name_rel conns AllTypes \<longleftrightarrow> (\<exists>t i c. has_link conns a t i c \<and> c_node c = b)"
proof -
  have "(a, b) \<in> name_rel conns AllTypes \<longleftrightarrow> (\<exists>entry t outputs. obj_get conns a = Some entry \<and>
      obj_get entry t = Some outputs \<and> b \<in> set (output_targets outputs))"
    by (auto simp: name_rel_def connected_names_mem types_of_def dest: map_of_SomeD)
      (metis fst_conv imageI map_of_SomeD)
  then show ?thesis unfolding has_link_def output_targets_mem by blast
qed

lemma name_rel_type: "(a, b) \<in> name_rel conns (OfType t) \<longleftrightarrow> (\<exists>i c. has_link conns a t i c \<and> c_node c = b)"
proof -
  have "(a, b) \<in> name_rel conns (OfType t) \<longleftrightarrow> (\<exists>entry outputs. obj_get conns a = Some entry \<and>
      obj_get entry t = Some outputs \<and> b \<in> set (output_targets outputs))"
    by (simp add: name_rel_def connected_names_mem types_of_def)
  then show ?thesis unfolding has_link_def output_targets_mem by blast
qed

lemma name_rel_by_destination:
  assumes "well_keyed_connections conns"
  shows "name_rel (mapConnectionsByDestination conns) AllTypes = (name_rel conns AllTypes)\<inverse>"
proof (rule set_eqI)
  fix p :: "string \<times> string"
  obtain b a where p: "p = (b, a)" by force
  have "(\<exists>t j c. has_link (mapConnectionsByDestination conns) b t j c \<and> c_node c = a) \<longleftrightarrow>
      (\<exists>t j u i. has_link conns a u i (connection_to b t j))"
    using ex_connection [of a "has_link (mapConnectionsByDestination conns) b _ _"]
    by (auto simp: has_link_by_destination [OF assms] conj_commute)
  also have "\<dots> \<longleftrightarrow> (\<exists>u i d. has_link conns a u i d \<and> c_node d = b)"
    using ex_connection [of b "has_link conns a _ _"] by (auto simp: conj_commute)
  finally show "p \<in> name_rel (mapConnectionsByDestination conns) AllTypes \<longleftrightarrow> p \<in> (name_rel conns AllTypes)\<inverse>"
    by (simp add: p name_rel_all)
qed

text \<open>Connections whose two ends have the same type, as the editor creates them.\<close>

definition straight :: "connections \<Rightarrow> bool" where
  "straight conns \<longleftrightarrow> list_all (\<lambda>(s, u, i, c). c_type c = u) (source_links conns)"

lemma straight_link: "well_keyed_connections conns \<Longrightarrow> straight conns \<Longrightarrow> has_link conns a u i c \<Longrightarrow> c_type c = u"
  using source_links_mem [of conns a u i c] by (auto simp: straight_def list_all_iff)

lemma name_rel_by_destination_type:
  assumes "well_keyed_connections conns" and "straight conns"
  shows "name_rel (mapConnectionsByDestination conns) (OfType t) = (name_rel conns (OfType t))\<inverse>"
proof (rule set_eqI)
  fix p :: "string \<times> string"
  obtain b a where p: "p = (b, a)" by force
  have "(\<exists>j c. has_link (mapConnectionsByDestination conns) b t j c \<and> c_node c = a) \<longleftrightarrow>
      (\<exists>j u i. has_link conns a u i (connection_to b t j))"
    using ex_connection [of a "has_link (mapConnectionsByDestination conns) b t _"]
    by (auto simp: has_link_by_destination [OF assms(1)] conj_commute)
  also have "\<dots> \<longleftrightarrow> (\<exists>i d. has_link conns a t i d \<and> c_node d = b)"
    using straight_link [OF assms] by (metis connection_to_eq connection_to_simps)
  finally show "p \<in> name_rel (mapConnectionsByDestination conns) (OfType t) \<longleftrightarrow> p \<in> (name_rel conns (OfType t))\<inverse>"
    by (simp add: p name_rel_type)
qed

text \<open>
  With unlimited depth, the parents a node has in the map by destination are the nodes it is a child
  of in the map by source: over all types always, over one type if both ends of every connection have
  the same type.
\<close>

theorem parents_are_sources:
  assumes "well_keyed_connections conns" and "straight conns"
  shows "(x \<in> set (getParentNodes (mapConnectionsByDestination conns) y AllTypes (-1)) \<longleftrightarrow>
      y \<in> set (getChildNodes conns x AllTypes (-1))) \<and>
    (x \<in> set (getParentNodes (mapConnectionsByDestination conns) y (OfType t) (-1)) \<longleftrightarrow>
      y \<in> set (getChildNodes conns x (OfType t) (-1)))"
  by (auto simp: getParentNodes_def getChildNodes_def getConnectedNodes_unlimited
      name_rel_by_destination [OF assms(1)] name_rel_by_destination_type [OF assms] trancl_converse)

text \<open>A workflow with one connection, for examples.\<close>

definition sample_connections :: connections where
  "sample_connections = [(''A'', [(Main, [Val [connection_to ''B'' Main 1]])])]"

lemma sample_connections_ok: "well_keyed_connections sample_connections" "straight sample_connections"
  by (simp_all add: sample_connections_def well_keyed_connections_def well_keyed_def straight_def
      source_links_def output_links_def)

theorem mapConnectionsByDestination_transposes_witness:
  "has_link (mapConnectionsByDestination sample_connections) ''B'' Main 1 (connection_to ''A'' Main 0)"
  using mapConnectionsByDestination_transposes [OF sample_connections_ok(1), of "''B''" Main 1 "''A''" Main 0]
  by (simp add: has_link_def sample_connections_def)

theorem parents_are_sources_witness:
  "(''A'' \<in> set (getParentNodes (mapConnectionsByDestination sample_connections) ''B'' AllTypes (-1)) \<longleftrightarrow>
      ''B'' \<in> set (getChildNodes sample_connections ''A'' AllTypes (-1))) \<and>
    (''A'' \<in> set (getParentNodes (mapConnectionsByDestination sample_connections) ''B'' (OfType Main) (-1)) \<longleftrightarrow>
      ''B'' \<in> set (getChildNodes sample_connections ''A'' (OfType Main) (-1)))"
  by (rule parents_are_sources [OF sample_connections_ok])

subsection \<open>Variables\<close>

definition in_project :: "string option \<Rightarrow> scoped_variable \<Rightarrow> bool" where
  "in_project projectId v \<longleftrightarrow> projectId \<noteq> None \<and> projectId \<noteq> Some [] \<and> sv_project v = projectId"

lemma get_set_if: "map_of (foldl (\<lambda>m v. if P v then obj_set (sv_key v) (sv_value v) m else m) m0 vs) k =
    (case find (\<lambda>v. P v \<and> sv_key v = k) (rev vs) of None \<Rightarrow> map_of m0 k | Some v \<Rightarrow> Some (sv_value v))"
proof (induction vs arbitrary: m0)
  case Nil
  then show ?case by simp
next
  case (Cons v vs)
  then show ?case by (auto simp: find_snoc split: option.splits)
qed

lemma find_rev_unique:
  assumes "\<And>x y. x \<in> set xs \<Longrightarrow> y \<in> set xs \<Longrightarrow> P x \<Longrightarrow> P y \<Longrightarrow> x = y"
  shows "find P (rev xs) = find P xs"
proof (cases "find P xs")
  case None
  then show ?thesis by (metis find_None_iff set_rev)
next
  case (Some x)
  then have x: "x \<in> set xs" "P x" by (auto simp: find_Some_iff)
  then obtain y where y: "find P (rev xs) = Some y"
    using find_None_iff [of P "rev xs"] by (cases "find P (rev xs)") auto
  then have "y \<in> set xs" "P y" using find_SomeD by (metis set_rev)+
  with assms x y Some show ?thesis by simp
qed

lemma pick_variable_find:
  "pick_variable vs key p global =
    (case find (\<lambda>v. in_project p v \<and> sv_key v = key) vs of
       Some v \<Rightarrow> Some v
     | None \<Rightarrow> (case global of Some g \<Rightarrow> Some g
               | None \<Rightarrow> find (\<lambda>v. sv_project v = None \<and> sv_key v = key) vs))"
  by (induction vs key p global rule: pick_variable.induct)
    (auto simp: in_project_def split: option.splits)

definition unique_variables :: "scoped_variable list \<Rightarrow> bool" where
  "unique_variables vs \<longleftrightarrow> distinct (map (\<lambda>v. (sv_key v, sv_project v)) vs)"

lemma unique_variablesD:
  "unique_variables vs \<Longrightarrow> v \<in> set vs \<Longrightarrow> w \<in> set vs \<Longrightarrow> sv_key v = sv_key w \<Longrightarrow>
    sv_project v = sv_project w \<Longrightarrow> v = w"
  by (auto simp: unique_variables_def distinct_map inj_on_def)

text \<open>
  If a key is used at most once globally and at most once per project, reading a key of the resolved
  object gives the value of the variable picked for it: both let the project's variable win.
\<close>

theorem pickVariableForProject_resolves:
  assumes "unique_variables vs"
  shows "obj_get (resolveVariables vs projectId) key =
    map_option sv_value (pickVariableForProject vs key projectId)"
proof -
  have 1: "find (\<lambda>v. in_project projectId v \<and> sv_key v = key) (rev vs) =
      find (\<lambda>v. in_project projectId v \<and> sv_key v = key) vs"
    and 2: "find (\<lambda>v. sv_project v = None \<and> sv_key v = key) (rev vs) =
      find (\<lambda>v. sv_project v = None \<and> sv_key v = key) vs"
    using unique_variablesD [OF assms] by (auto intro!: find_rev_unique simp: in_project_def)
  show ?thesis
    unfolding resolveVariables_def Let_def in_project_def [symmetric] get_set_if 1 2
      pickVariableForProject_def pick_variable_find
    by (simp split: option.splits)
qed

definition sample_variables :: "scoped_variable list" where
  "sample_variables =
    [\<lparr>sv_key = ''k'', sv_value = JBool True, sv_project = Some ''p''\<rparr>,
     \<lparr>sv_key = ''k'', sv_value = JBool False, sv_project = None\<rparr>]"

theorem pickVariableForProject_resolves_witness:
  "obj_get (resolveVariables sample_variables (Some ''p'')) ''k'' = Some (JBool True)"
  using pickVariableForProject_resolves [of sample_variables "Some ''p''" "''k''"]
  by (simp add: unique_variables_def sample_variables_def pickVariableForProject_def)

end
