(* ===== verification/WorkflowModel.thy ===== *)
theory WorkflowModel
  imports ConnectionMaps
begin

section \<open>The workflow object\<close>

text \<open>
  \<^verbatim>\<open>packages/workflow/src/workflow.ts\<close>: the class \<^verbatim>\<open>Workflow\<close>, its nodes by name, its connections in both
  directions and the searches over them. A method that reads the object is a function of it; a
  method that changes it returns the new object. A node type is what the engine reads of it: which
  methods it has, its ports and its groups.

  Names inherited from \<^verbatim>\<open>Object.prototype\<close> are not names of nodes here (\<^verbatim>\<open>renameNode\<close> refuses them).
\<close>

subsection \<open>Node types\<close>

datatype port =
    PortName connection_type
  | PortConfig connection_type "string option"

fun port_type :: "port \<Rightarrow> connection_type" where
  "port_type (PortName t) = t"
| "port_type (PortConfig t displayName) = t"

text \<open>A list of ports, or an expression that computes one.\<close>

datatype ports = Ports "port list" | PortExpression string

fun ports_length :: "ports \<Rightarrow> nat" where
  \<comment> \<open>\<^verbatim>\<open>description.inputs.length\<close>, also of an expression string\<close>
  "ports_length (Ports ps) = length ps"
| "ports_length (PortExpression s) = length s"

datatype required_inputs = RequiredExpression string | RequiredInputs "nat list" | RequiredCount nat

record node_type =
  nt_name :: string
  nt_group :: "string list"
  nt_execute :: bool
  nt_poll :: bool
  nt_trigger :: bool
  nt_webhook :: bool
  nt_supplyData :: bool
  nt_requestDefaults :: bool
  nt_customOperations :: "(string jsobj) jsobj option"
  nt_inputs :: ports
  nt_requiredInputs :: "required_inputs option"
  nt_outputs :: ports

type_synonym node_types = "string \<Rightarrow> rat \<Rightarrow> node_type option"

text \<open>A regular node with one input and one output: for examples.\<close>

definition plain_type :: "string \<Rightarrow> node_type" where
  "plain_type t =
    \<lparr>nt_name = t, nt_group = [], nt_execute = True, nt_poll = False, nt_trigger = False, nt_webhook = False,
     nt_supplyData = False, nt_requestDefaults = False, nt_customOperations = None,
     nt_inputs = Ports [PortName Main], nt_requiredInputs = None, nt_outputs = Ports [PortName Main]\<rparr>"

subsection \<open>The object\<close>

record workflow =
  w_nodes :: "node jsobj"
  w_connectionsBySourceNode :: connections
  w_connectionsByDestinationNode :: connections
  w_nodeTypes :: node_types
  w_executionOrder :: "string option"
  w_pinData :: "pin_data option"

definition setNodes :: "node list \<Rightarrow> workflow \<Rightarrow> workflow" where
  "setNodes nodes w = w\<lparr>w_nodes := foldl (\<lambda>m n. obj_set (n_name n) n m) [] nodes\<rparr>"

definition setConnections :: "connections \<Rightarrow> workflow \<Rightarrow> workflow" where
  "setConnections conns w =
     w\<lparr>w_connectionsBySourceNode := conns,
       w_connectionsByDestinationNode := mapConnectionsByDestination conns\<rparr>"

definition setPinData :: "pin_data option \<Rightarrow> workflow \<Rightarrow> workflow" where
  "setPinData pinData w = w\<lparr>w_pinData := pinData\<rparr>"

definition setSettings :: "string option \<Rightarrow> workflow \<Rightarrow> workflow" where
  "setSettings executionOrder w = w\<lparr>w_executionOrder := executionOrder\<rparr>"

text \<open>The constructor; nodes come with the default values of their parameters filled in.\<close>

definition make_workflow ::
  "node_types \<Rightarrow> node list \<Rightarrow> connections \<Rightarrow> pin_data option \<Rightarrow> string option \<Rightarrow> workflow" where
  "make_workflow types nodes conns pinData executionOrder =
     setSettings executionOrder (setPinData pinData (setConnections conns (setNodes nodes
       \<lparr>w_nodes = [], w_connectionsBySourceNode = [], w_connectionsByDestinationNode = [],
        w_nodeTypes = types, w_executionOrder = None, w_pinData = None\<rparr>)))"

definition getNode :: "workflow \<Rightarrow> string \<Rightarrow> node option" where
  "getNode w nodeName = obj_get (w_nodes w) nodeName"

definition getNodes_of :: "workflow \<Rightarrow> string list \<Rightarrow> node list" where
  "getNodes_of w nodeNames =
     foldl (\<lambda>ns nm. case getNode w nm of None \<Rightarrow> ns | Some n \<Rightarrow> ns @ [n]) [] nodeNames"

definition getPinDataOfNode :: "workflow \<Rightarrow> string \<Rightarrow> item list option" where
  "getPinDataOfNode w nodeName = (case w_pinData w of None \<Rightarrow> None | Some p \<Rightarrow> obj_get p nodeName)"

definition node_type_of :: "workflow \<Rightarrow> node \<Rightarrow> node_type option" where
  "node_type_of w n = w_nodeTypes w (n_type n) (n_typeVersion n)"

definition queryNodes :: "workflow \<Rightarrow> (node_type \<Rightarrow> bool) \<Rightarrow> node list" where
  "queryNodes w check =
     foldl (\<lambda>ns p. if n_disabled (snd p) = Some True then ns
         else case node_type_of w (snd p) of
           None \<Rightarrow> ns
         | Some t \<Rightarrow> if check t then ns @ [snd p] else ns)
       [] (w_nodes w)"

definition getTriggerNodes :: "workflow \<Rightarrow> node list" where
  "getTriggerNodes w = queryNodes w nt_trigger"

definition getPollNodes :: "workflow \<Rightarrow> node list" where
  "getPollNodes w = queryNodes w nt_poll"

definition childNodes :: "workflow \<Rightarrow> string \<Rightarrow> type_filter \<Rightarrow> string list" where
  "childNodes w nodeName type = getChildNodes (w_connectionsBySourceNode w) nodeName type (-1)"

definition parentNodes :: "workflow \<Rightarrow> string \<Rightarrow> type_filter \<Rightarrow> string list" where
  "parentNodes w nodeName type = getParentNodes (w_connectionsByDestinationNode w) nodeName type (-1)"

subsection \<open>The highest parents\<close>

text \<open>The main inputs of a node, if the workflow has an entry for them.\<close>

definition main_inputs :: "workflow \<Rightarrow> string \<Rightarrow> node_inputs option" where
  "main_inputs w nodeName =
     (case obj_get (w_connectionsByDestinationNode w) nodeName of
        None \<Rightarrow> None
      | Some entry \<Rightarrow> obj_get entry Main)"

definition own_highest :: "workflow \<Rightarrow> string \<Rightarrow> string list" where
  \<comment> \<open>\<^verbatim>\<open>disabled === false\<close>: an absent flag does not count\<close>
  "own_highest w nodeName =
     (case obj_get (w_nodes w) nodeName of
        None \<Rightarrow> []
      | Some n \<Rightarrow> if n_disabled n = Some False then [nodeName] else [])"

definition flagged_disabled :: "workflow \<Rightarrow> string \<Rightarrow> bool" where
  "flagged_disabled w nodeName =
     (case obj_get (w_nodes w) nodeName of None \<Rightarrow> False | Some n \<Rightarrow> n_disabled n = Some True)"

text \<open>
  The loop over the connections of the selected inputs. The recursive call for a parent is made only
  if the parent was not checked before and exists; the list of checked names is shared by all calls.
\<close>

function highest_loop :: "workflow \<Rightarrow> connection list \<Rightarrow> string list \<Rightarrow> string list \<Rightarrow> string list \<times> string list" where
  "highest_loop w [] returnNodes checked = (returnNodes, checked)"
| "highest_loop w (conn # rest) returnNodes checked =
     (if c_node conn \<in> set checked \<or> \<not> map_has (w_nodes w) (c_node conn)
      then highest_loop w rest returnNodes checked
      else case main_inputs w (c_node conn) of
        None \<Rightarrow>
          highest_loop w rest
            (foldl (\<lambda>ns nm. set_add nm ns) returnNodes
              (if own_highest w (c_node conn) = [] \<and> \<not> flagged_disabled w (c_node conn)
               then [c_node conn] else own_highest w (c_node conn))) checked
      | Some inputs \<Rightarrow>
          (let r = highest_loop w (concat (map slot_list inputs)) [] (checked @ [c_node conn])
           in highest_loop w rest
                (foldl (\<lambda>ns nm. set_add nm ns) returnNodes
                  (if fst r = [] \<and> \<not> flagged_disabled w (c_node conn) then [c_node conn] else fst r))
                (snd r)))"
  by pat_completeness auto

definition checkable :: "workflow \<Rightarrow> string set" where
  "checkable w = fst ` set (w_connectionsByDestinationNode w)"

lemma main_inputs_checkable: "main_inputs w nm = Some inputs \<Longrightarrow> nm \<in> checkable w"
  by (force simp: main_inputs_def checkable_def split: option.split_asm dest: map_of_SomeD)

lemma highest_loop_grows:
  "highest_loop_dom (w, cs, rs, ch) \<Longrightarrow> set ch \<subseteq> set (snd (highest_loop w cs rs ch))"
proof (induction w cs rs ch rule: highest_loop.pinduct)
  case (1 w rs ch)
  then show ?case by (simp add: highest_loop.psimps)
next
  case (2 w c cs rs ch)
  show ?case
  proof (cases "c_node c \<in> set ch \<or> \<not> map_has (w_nodes w) (c_node c)")
    case True
    with 2 show ?thesis by (simp add: highest_loop.psimps)
  next
    case False
    show ?thesis
    proof (cases "main_inputs w (c_node c)")
      case None
      with 2 False show ?thesis by (simp add: highest_loop.psimps)
    next
      case (Some inputs)
      let ?r = "highest_loop w (concat (map slot_list inputs)) [] (ch @ [c_node c])"
      have "set (ch @ [c_node c]) \<subseteq> set (snd ?r)"
        using "2.IH"(3) [OF False Some] .
      moreover have "set (snd ?r) \<subseteq> set (snd (highest_loop w (c # cs) rs ch))"
        using "2.IH"(4) [OF False Some refl] "2.hyps" False Some
        by (simp add: highest_loop.psimps Let_def)
      ultimately show ?thesis by auto
    qed
  qed
qed

termination highest_loop
proof (relation "measures [\<lambda>(w, cs, rs, ch). card (checkable w - set ch), \<lambda>(w, cs, rs, ch). length cs]")
  fix w :: workflow and c :: connection and cs :: "connection list" and rs ch :: "string list"
  fix inputs :: node_inputs
  assume c: "\<not> (c_node c \<in> set ch \<or> \<not> map_has (w_nodes w) (c_node c))" and i: "main_inputs w (c_node c) = Some inputs"
  have fin: "finite (checkable w)" by (simp add: checkable_def)
  have less: "card (checkable w - set ch') < card (checkable w - set ch)" if "set (ch @ [c_node c]) \<subseteq> set ch'" for ch'
    using fin c main_inputs_checkable [OF i] that by (intro psubset_card_mono) auto
  from less [of "ch @ [c_node c]"]
  show "((w, concat (map slot_list inputs), [], ch @ [c_node c]), w, c # cs, rs, ch)
      \<in> measures [\<lambda>(w, cs, rs, ch). card (checkable w - set ch), \<lambda>(w, cs, rs, ch). length cs]" by simp
  fix r :: "string list \<times> string list"
  assume "highest_loop_dom (w, concat (map slot_list inputs), [], ch @ [c_node c])"
    and "r = highest_loop w (concat (map slot_list inputs)) [] (ch @ [c_node c])"
  then have "set (ch @ [c_node c]) \<subseteq> set (snd r)" using highest_loop_grows by blast
  then show "((w, cs, foldl (\<lambda>ns nm. set_add nm ns) rs
      (if fst r = [] \<and> \<not> flagged_disabled w (c_node c) then [c_node c] else fst r), snd r), w, c # cs, rs, ch)
      \<in> measures [\<lambda>(w, cs, rs, ch). card (checkable w - set ch), \<lambda>(w, cs, rs, ch). length cs]"
    using less [of "snd r"] by simp
qed simp_all

definition getHighestNode :: "workflow \<Rightarrow> string \<Rightarrow> nat option \<Rightarrow> string list" where
  "getHighestNode w nodeName nodeConnectionIndex =
     (if \<not> map_has (w_nodes w) nodeName then []
      else case main_inputs w nodeName of
        None \<Rightarrow> own_highest w nodeName
      | Some inputs \<Rightarrow>
          fst (highest_loop w
            (case nodeConnectionIndex of
               None \<Rightarrow> concat (map slot_list inputs)
             | Some i \<Rightarrow> slot_list (arr_get inputs i))
            [] [nodeName]))"

text \<open>
  What the search finds. \<open>parent_rel\<close> leads from a node to the nodes of the workflow connected to its
  main inputs.
\<close>

definition parent_rel :: "workflow \<Rightarrow> (string \<times> string) set" where
  "parent_rel w = {(a, b). \<exists>inputs. main_inputs w a = Some inputs \<and>
     b \<in> c_node ` set (concat (map slot_list inputs)) \<and> map_has (w_nodes w) b}"

lemma highest_loop_checked: "set ch \<subseteq> set (snd (highest_loop w cs rs ch))"
proof (induction w cs rs ch rule: highest_loop.induct)
  case (1 w rs ch)
  then show ?case by simp
next
  case (2 w c cs rs ch)
  show ?case
  proof (cases "c_node c \<in> set ch \<or> \<not> map_has (w_nodes w) (c_node c)")
    case True
    with "2.IH"(1) [OF True] show ?thesis by simp
  next
    case False
    show ?thesis
    proof (cases "main_inputs w (c_node c)")
      case None
      with False "2.IH"(2) [OF False None] show ?thesis by simp
    next
      case (Some inputs)
      with False "2.IH"(3) [OF False Some] "2.IH"(4) [OF False Some refl] show ?thesis
        by (auto simp: Let_def)
    qed
  qed
qed

definition found_from :: "workflow \<Rightarrow> string set \<Rightarrow> connection list \<Rightarrow> string set" where
  \<comment> \<open>enabled nodes upstream of the given connections, on routes that avoid the given names\<close>
  "found_from w A cs = {x. \<not> flagged_disabled w x \<and>
     (\<exists>c \<in> set cs. map_has (w_nodes w) (c_node c) \<and> c_node c \<notin> A \<and>
        (c_node c, x) \<in> {(a, b) \<in> parent_rel w. b \<notin> A}\<^sup>*)}"

lemma found_from_Cons: "found_from w A cs \<subseteq> found_from w A (c # cs)"
  by (auto simp: found_from_def)

lemma found_from_self:
  "map_has (w_nodes w) (c_node c) \<Longrightarrow> c_node c \<notin> A \<Longrightarrow> \<not> flagged_disabled w (c_node c) \<Longrightarrow>
    c_node c \<in> found_from w A (c # cs)"
  by (auto simp: found_from_def)

lemma found_from_parents:
  assumes "map_has (w_nodes w) (c_node c)" and "c_node c \<notin> A" and "main_inputs w (c_node c) = Some inputs"
  shows "found_from w A (concat (map slot_list inputs)) \<subseteq> found_from w A (c # cs)"
proof
  let ?R = "{(a, b) \<in> parent_rel w. b \<notin> A}"
  fix x
  assume "x \<in> found_from w A (concat (map slot_list inputs))"
  then obtain d where d: "d \<in> set (concat (map slot_list inputs))" "map_has (w_nodes w) (c_node d)"
      "(c_node d, x) \<in> ?R\<^sup>*" "\<not> flagged_disabled w x" "c_node d \<notin> A"
    unfolding found_from_def by blast
  then have "(c_node c, c_node d) \<in> ?R" using assms(3) unfolding parent_rel_def by blast
  then have "(c_node c, x) \<in> ?R\<^sup>*" using d(3) by (rule converse_rtrancl_into_rtrancl)
  with assms(1,2) d(4) show "x \<in> found_from w A (c # cs)" unfolding found_from_def by auto
qed

lemma own_highest_enabled: "x \<in> set (own_highest w nm) \<Longrightarrow> x = nm \<and> \<not> flagged_disabled w nm"
  by (auto simp: own_highest_def flagged_disabled_def split: option.splits if_splits)

lemma highest_loop_sound:
  "A \<subseteq> set ch \<Longrightarrow> set (fst (highest_loop w cs rs ch)) \<subseteq> set rs \<union> found_from w A cs"
proof (induction w cs rs ch rule: highest_loop.induct)
  case (1 w rs ch)
  then show ?case by simp
next
  case (2 w c cs rs ch)
  show ?case
  proof (cases "c_node c \<in> set ch \<or> \<not> map_has (w_nodes w) (c_node c)")
    case True
    with "2.IH"(1) [OF True "2.prems"] show ?thesis using found_from_Cons [of w A cs c] by auto
  next
    case False
    then have c: "map_has (w_nodes w) (c_node c)" "c_node c \<notin> A" using "2.prems" by auto
    show ?thesis
    proof (cases "main_inputs w (c_node c)")
      case None
      have "set (if own_highest w (c_node c) = [] \<and> \<not> flagged_disabled w (c_node c) then [c_node c]
          else own_highest w (c_node c)) \<subseteq> found_from w A (c # cs)"
        using found_from_self [OF c] by (auto dest: own_highest_enabled)
      then show ?thesis
        using "2.IH"(2) [OF False None "2.prems"] found_from_Cons [of w A cs c] False None by auto
    next
      case (Some inputs)
      let ?r = "highest_loop w (concat (map slot_list inputs)) [] (ch @ [c_node c])"
      have ch: "A \<subseteq> set (ch @ [c_node c])" using "2.prems" by auto
      then have r: "A \<subseteq> set (snd ?r)" using highest_loop_checked by (rule subset_trans)
      have "set (if fst ?r = [] \<and> \<not> flagged_disabled w (c_node c) then [c_node c] else fst ?r)
          \<subseteq> found_from w A (c # cs)"
        using found_from_self [OF c] found_from_parents [OF c Some, of cs] "2.IH"(3) [OF False Some ch]
        by auto
      then show ?thesis
        using "2.IH"(4) [OF False Some refl r] found_from_Cons [of w A cs c] False Some
        by (auto simp: Let_def)
    qed
  qed
qed

lemma highest_loop_keeps: "set rs \<subseteq> set (fst (highest_loop w cs rs ch))"
proof (induction w cs rs ch rule: highest_loop.induct)
  case (1 w rs ch)
  then show ?case by simp
next
  case (2 w c cs rs ch)
  show ?case
  proof (cases "c_node c \<in> set ch \<or> \<not> map_has (w_nodes w) (c_node c)")
    case True
    with "2.IH"(1) [OF True] show ?thesis by simp
  next
    case False
    show ?thesis
    proof (cases "main_inputs w (c_node c)")
      case None
      with False "2.IH"(2) [OF False None] show ?thesis by simp
    next
      case (Some inputs)
      with False "2.IH"(4) [OF False Some refl] show ?thesis by (simp add: Let_def)
    qed
  qed
qed

lemma highest_loop_empty_start: "fst (highest_loop w cs rs ch) = [] \<Longrightarrow> rs = []"
  using highest_loop_keeps [of rs w cs ch] by auto

lemma foldl_set_add_empty: "foldl (\<lambda>s x. set_add x s) s xs = [] \<longleftrightarrow> s = [] \<and> xs = []"
  using set_foldl_set_add [of s xs] by (metis Un_empty set_empty)

definition quiet :: "workflow \<Rightarrow> string list \<Rightarrow> string \<Rightarrow> bool" where
  \<comment> \<open>a name that adds nothing: checked, missing, or disabled without inputs\<close>
  "quiet w ch x \<longleftrightarrow> x \<in> set ch \<or> \<not> map_has (w_nodes w) x \<or> (main_inputs w x = None \<and> flagged_disabled w x)"

lemma quiet_mono: "quiet w ch x \<Longrightarrow> set ch \<subseteq> set ch' \<Longrightarrow> quiet w ch' x"
  by (auto simp: quiet_def)

lemma highest_loop_empty:
  "fst (highest_loop w cs rs ch) = [] \<Longrightarrow>
    list_all (\<lambda>c. quiet w (snd (highest_loop w cs rs ch)) (c_node c)) cs \<and>
    (\<forall>x \<in> set (snd (highest_loop w cs rs ch)) - set ch. flagged_disabled w x \<and>
      (\<forall>y. (x, y) \<in> parent_rel w \<longrightarrow> quiet w (snd (highest_loop w cs rs ch)) y))"
proof (induction w cs rs ch rule: highest_loop.induct)
  case (1 w rs ch)
  then show ?case by simp
next
  case (2 w c cs rs ch)
  show ?case
  proof (cases "c_node c \<in> set ch \<or> \<not> map_has (w_nodes w) (c_node c)")
    case True
    with "2.IH"(1) [OF True] "2.prems" show ?thesis
      using highest_loop_checked [of ch w cs rs] by (auto simp: quiet_def)
  next
    case False
    show ?thesis
    proof (cases "main_inputs w (c_node c)")
      case None
      let ?add = "if own_highest w (c_node c) = [] \<and> \<not> flagged_disabled w (c_node c) then [c_node c]
          else own_highest w (c_node c)"
      let ?rs = "foldl (\<lambda>ns nm. set_add nm ns) rs ?add"
      have e: "highest_loop w (c # cs) rs ch = highest_loop w cs ?rs ch" using False None by simp
      then have empty: "fst (highest_loop w cs ?rs ch) = []" using "2.prems" by simp
      then have "?rs = []" by (rule highest_loop_empty_start)
      then have "?add = []" unfolding foldl_set_add_empty by (rule conjunct2)
      then have "flagged_disabled w (c_node c)" by (auto split: if_splits)
      then have "quiet w ch (c_node c)" using None by (simp add: quiet_def)
      then have "quiet w (snd (highest_loop w cs ?rs ch)) (c_node c)"
        using highest_loop_checked by (rule quiet_mono)
      with "2.IH"(2) [OF False None empty] show ?thesis unfolding e list.pred_inject by blast
    next
      case (Some inputs)
      let ?r = "highest_loop w (concat (map slot_list inputs)) [] (ch @ [c_node c])"
      let ?add = "if fst ?r = [] \<and> \<not> flagged_disabled w (c_node c) then [c_node c] else fst ?r"
      let ?rs = "foldl (\<lambda>ns nm. set_add nm ns) rs ?add"
      let ?s = "highest_loop w cs ?rs (snd ?r)"
      have e: "highest_loop w (c # cs) rs ch = ?s" using False Some by (simp add: Let_def)
      then have empty: "fst ?s = []" using "2.prems" by simp
      then have "?rs = []" by (rule highest_loop_empty_start)
      then have "?add = []" unfolding foldl_set_add_empty by (rule conjunct2)
      then have r: "fst ?r = []" and dis: "flagged_disabled w (c_node c)" by (auto split: if_splits)
      have inner: "list_all (\<lambda>d. quiet w (snd ?r) (c_node d)) (concat (map slot_list inputs))"
        and inner': "\<forall>x \<in> set (snd ?r) - set (ch @ [c_node c]). flagged_disabled w x \<and>
          (\<forall>y. (x, y) \<in> parent_rel w \<longrightarrow> quiet w (snd ?r) y)"
        using "2.IH"(3) [OF False Some r] by blast+
      have rest: "list_all (\<lambda>d. quiet w (snd ?s) (c_node d)) cs"
        and rest': "\<forall>x \<in> set (snd ?s) - set (snd ?r). flagged_disabled w x \<and>
          (\<forall>y. (x, y) \<in> parent_rel w \<longrightarrow> quiet w (snd ?s) y)"
        using "2.IH"(4) [OF False Some refl empty] by blast+
      have sub: "set (snd ?r) \<subseteq> set (snd ?s)" "set (ch @ [c_node c]) \<subseteq> set (snd ?r)"
        by (rule highest_loop_checked)+
      have "\<forall>y. (c_node c, y) \<in> parent_rel w \<longrightarrow> quiet w (snd ?r) y"
        using inner Some unfolding parent_rel_def list_all_iff by auto
      then have "\<forall>x \<in> set (snd ?s) - set ch. flagged_disabled w x \<and>
          (\<forall>y. (x, y) \<in> parent_rel w \<longrightarrow> quiet w (snd ?s) y)"
        using dis inner' rest' quiet_mono [OF _ sub(1)]
        unfolding set_append list.set by blast
      moreover have "quiet w (snd ?s) (c_node c)" using sub by (auto simp: quiet_def)
      ultimately show ?thesis using rest unfolding e list.pred_inject by blast
    qed
  qed
qed

definition selected :: "node_inputs \<Rightarrow> nat option \<Rightarrow> connection list" where
  "selected inputs nodeConnectionIndex =
     (case nodeConnectionIndex of
        None \<Rightarrow> concat (map slot_list inputs)
      | Some i \<Rightarrow> slot_list (arr_get inputs i))"

lemma getHighestNode_inputs:
  "map_has (w_nodes w) nm \<Longrightarrow> main_inputs w nm = Some inputs \<Longrightarrow>
    getHighestNode w nm idx = fst (highest_loop w (selected inputs idx) [] [nm])"
  by (simp add: getHighestNode_def selected_def)

lemma highest_found:
  assumes "map_has (w_nodes w) nm" and "main_inputs w nm = Some inputs"
  shows "set (getHighestNode w nm idx) \<subseteq> found_from w {nm} (selected inputs idx)"
    and "getHighestNode w nm idx = [] \<longleftrightarrow> found_from w {nm} (selected inputs idx) = {}"
proof -
  let ?cs = "selected inputs idx" and ?R = "{(a, b) \<in> parent_rel w. b \<notin> {nm}}"
  note eq = getHighestNode_inputs [OF assms, of idx]
  show sound: "set (getHighestNode w nm idx) \<subseteq> found_from w {nm} ?cs"
    using highest_loop_sound [of "{nm}" "[nm]" w ?cs "[]"] unfolding eq by simp
  show "getHighestNode w nm idx = [] \<longleftrightarrow> found_from w {nm} ?cs = {}"
  proof
    assume "getHighestNode w nm idx = []"
    then have empty: "fst (highest_loop w ?cs [] [nm]) = []" unfolding eq .
    define ch where "ch = snd (highest_loop w ?cs [] [nm])"
    have cs: "list_all (\<lambda>c. quiet w ch (c_node c)) ?cs"
      and ch: "\<forall>x \<in> set ch - {nm}. flagged_disabled w x \<and> (\<forall>y. (x, y) \<in> parent_rel w \<longrightarrow> quiet w ch y)"
      using highest_loop_empty [OF empty] by (simp_all add: ch_def)
    have "x \<noteq> nm \<and> quiet w ch x \<and> flagged_disabled w x"
      if "c \<in> set ?cs" "map_has (w_nodes w) (c_node c)" "c_node c \<noteq> nm" "(c_node c, x) \<in> ?R\<^sup>*" for c x
      using that(4)
    proof (induction rule: rtrancl_induct)
      case base
      have "quiet w ch (c_node c)" using cs that(1) by (simp add: list_all_iff)
      with that ch show ?case by (auto simp: quiet_def)
    next
      case (step x y)
      then have y: "y \<noteq> nm" "map_has (w_nodes w) y" and xy: "(x, y) \<in> parent_rel w"
        by (auto simp: parent_rel_def)
      from xy have "main_inputs w x \<noteq> None" by (auto simp: parent_rel_def)
      moreover have "map_has (w_nodes w) x"
        using step.IH by (auto simp: flagged_disabled_def map_has_def split: option.splits)
      ultimately have "x \<in> set ch - {nm}" using step.IH by (auto simp: quiet_def)
      then have "quiet w ch y" using ch xy by blast
      with y ch show ?case by (auto simp: quiet_def)
    qed
    then show "found_from w {nm} ?cs = {}" unfolding found_from_def by blast
  next
    assume "found_from w {nm} ?cs = {}"
    with sound show "getHighestNode w nm idx = []" by simp
  qed
qed

text \<open>
  The highest parents of an input are enabled nodes upstream of it, and there are none exactly if
  every node upstream of it, on routes that do not pass the node itself, is disabled.
\<close>

theorem getHighestNode_spec:
  assumes "map_has (w_nodes w) nm" and "main_inputs w nm = Some inputs"
  shows "set (getHighestNode w nm idx) \<subseteq> found_from w {nm} (selected inputs idx) \<and>
    (getHighestNode w nm idx = [] \<longleftrightarrow> found_from w {nm} (selected inputs idx) = {})"
  using highest_found [OF assms] by blast

definition sample_types :: node_types where
  "sample_types t v = Some (plain_type t)"

definition sample_workflow :: workflow where
  "sample_workflow =
    make_workflow sample_types [plain_node 0 ''A'' ''t'', plain_node 1 ''B'' ''t''] sample_connections None (Some ''v1'')"

lemma sample_workflow_nodes:
  "obj_get (w_nodes sample_workflow) ''A'' = Some (plain_node 0 ''A'' ''t'')"
  "obj_get (w_nodes sample_workflow) ''B'' = Some (plain_node 1 ''B'' ''t'')"
  "main_inputs sample_workflow ''B'' = Some [Val [], Val [connection_to ''A'' Main 0]]"
  "main_inputs sample_workflow ''A'' = None"
  by (code_simp)+

theorem getHighestNode_spec_witness:
  "found_from sample_workflow {''B''} (selected [Val [], Val [connection_to ''A'' Main 0]] (Some 0)) = {}"
  using getHighestNode_spec [of sample_workflow "''B''" "[Val [], Val [connection_to ''A'' Main 0]]" "Some 0"]
  by (simp add: sample_workflow_nodes map_has_def getHighestNode_def arr_get_def)

end
