(* ===== verification/WorkflowSearch.thy ===== *)
theory WorkflowSearch
  imports WorkflowModel "HOL-Library.Monad_Syntax"
begin

section \<open>Searches over a workflow\<close>

text \<open>
  \<^verbatim>\<open>packages/workflow/src/workflow.ts\<close>: the choice of the start node, the breadth-first searches
  \<^verbatim>\<open>searchNodesBFS\<close> and \<^verbatim>\<open>getNodeConnectionIndexes\<close>, the connections between two sets of nodes, and
  \<^verbatim>\<open>getParentMainInputNode\<close>, which follows the outputs of sub-nodes and may not return;
  \<^verbatim>\<open>getNodeOutputs\<close> and \<^verbatim>\<open>getConnectionTypes\<close> of \<^verbatim>\<open>node-helpers.ts\<close>. Evaluating an expression is a
  parameter.
\<close>

subsection \<open>Start nodes\<close>

definition MANUAL_CHAT_TRIGGER :: string where
  "MANUAL_CHAT_TRIGGER = ''@n8n/n8n-nodes-langchain.manualChatTrigger''"

definition STARTING_NODE_TYPES :: "string list" where
  "STARTING_NODE_TYPES =
     [''n8n-nodes-base.manualTrigger'', ''n8n-nodes-base.executeWorkflowTrigger'',
      ''n8n-nodes-base.errorTrigger'', ''n8n-nodes-base.evaluationTrigger'',
      ''n8n-nodes-base.formTrigger'']"

definition index_of :: "'a list \<Rightarrow> 'a \<Rightarrow> int" where
  \<comment> \<open>\<^verbatim>\<open>indexOf\<close>\<close>
  "index_of xs x = (if x \<in> set xs then int (length (takeWhile (\<lambda>y. y \<noteq> x) xs)) else -1)"

fun find_trigger :: "workflow \<Rightarrow> string list \<Rightarrow> node option result" where
  "find_trigger w [] = Inr None"
| "find_trigger w (nodeName # rest) =
     (case getNode w nodeName of
        None \<Rightarrow> Inl (TypeError ''Cannot read properties of undefined'')
      | Some n \<Rightarrow>
          (case node_type_of w n of
             None \<Rightarrow> Inl (TypeError ''Cannot read properties of undefined'')
           | Some t \<Rightarrow>
               if nt_name t = MANUAL_CHAT_TRIGGER then find_trigger w rest
               else if nt_trigger t \<or> nt_poll t then
                 (if n_disabled n = Some True then find_trigger w rest else Inr (Some n))
               else find_trigger w rest))"

fun find_starting_type :: "workflow \<Rightarrow> string list \<Rightarrow> node option result" where
  "find_starting_type w [] = Inr None"
| "find_starting_type w (nodeName # rest) =
     (case getNode w nodeName of
        None \<Rightarrow> Inl (TypeError ''Cannot read properties of undefined'')
      | Some n \<Rightarrow>
          if n_type n \<in> set STARTING_NODE_TYPES then
            (if n_disabled n = Some True then find_starting_type w rest else Inr (Some n))
          else find_starting_type w rest)"

definition by_starting_type :: "node \<Rightarrow> node \<Rightarrow> int" where
  "by_starting_type a b = index_of STARTING_NODE_TYPES (n_type a) - index_of STARTING_NODE_TYPES (n_type b)"

definition start_node_of :: "workflow \<Rightarrow> string list \<Rightarrow> node option result" where
  "start_node_of w nodeNames =
     (case (case nodeNames of
              [nm] \<Rightarrow> (case getNode w nm of
                         None \<Rightarrow> None
                       | Some n \<Rightarrow> if is_disabled n then None else Some n)
            | _ \<Rightarrow> None) of
        Some n \<Rightarrow> Inr (Some n)
      | None \<Rightarrow>
          bind_result (find_trigger w nodeNames) (\<lambda>r.
            case r of
              Some n \<Rightarrow> Inr (Some n)
            | None \<Rightarrow> find_starting_type w (map n_name (js_sort by_starting_type (map_values (w_nodes w))))))"

definition getStartNode :: "workflow \<Rightarrow> string option \<Rightarrow> node option result" where
  "getStartNode w destinationNode =
     (if destinationNode = None \<or> destinationNode = Some []
      then start_node_of w (map_keys (w_nodes w))
      else
        let highest = getHighestNode w (the destinationNode) None;
            nodeNames = (if highest = [] then [the destinationNode] else highest)
        in bind_result (start_node_of w nodeNames) (\<lambda>r.
             case r of Some n \<Rightarrow> Inr (Some n) | None \<Rightarrow> Inr (getNode w (hd nodeNames))))"

lemma find_trigger_enabled:
  "find_trigger w nms = Inr (Some n) \<Longrightarrow> n_disabled n \<noteq> Some True \<and> (\<exists>nm \<in> set nms. getNode w nm = Some n)"
  by (induction w nms rule: find_trigger.induct) (auto split: option.splits if_splits)

lemma find_starting_type_enabled:
  "find_starting_type w nms = Inr (Some n) \<Longrightarrow> n_disabled n \<noteq> Some True \<and> (\<exists>nm \<in> set nms. getNode w nm = Some n)"
  by (induction w nms rule: find_starting_type.induct) (auto split: option.splits if_splits)

lemma start_node_of_enabled:
  assumes "start_node_of w nms = Inr (Some n)"
  shows "n_disabled n \<noteq> Some True \<and> (\<exists>nm. getNode w nm = Some n)"
proof (cases "\<exists>nm. nms = [nm] \<and> getNode w nm = Some n \<and> \<not> is_disabled n")
  case True
  then show ?thesis by (auto simp: is_disabled_def)
next
  case False
  with assms show ?thesis
    by (auto simp: start_node_of_def is_disabled_def bind_result_eq_Inr split: list.splits option.splits if_splits
        dest!: find_trigger_enabled find_starting_type_enabled)
qed

lemma getStartNode_Some:
  "d \<noteq> [] \<Longrightarrow> getStartNode w (Some d) =
    bind_result (start_node_of w (if getHighestNode w d None = [] then [d] else getHighestNode w d None))
      (\<lambda>r. case r of Some n \<Rightarrow> Inr (Some n)
         | None \<Rightarrow> Inr (getNode w (hd (if getHighestNode w d None = [] then [d] else getHighestNode w d None))))"
  unfolding getStartNode_def Let_def option.sel by simp

text \<open>
  The start node of a workflow is an enabled node of it. With a destination it may be a disabled
  one, but only the first of its highest parents, or the destination itself if it has none.
\<close>

theorem getStartNode_enabled:
  assumes "getStartNode w destinationNode = Inr (Some n)"
  shows "(\<exists>nm. getNode w nm = Some n) \<and>
    (n_disabled n = Some True \<longrightarrow>
      (\<exists>d. destinationNode = Some d \<and>
        getNode w (hd (getHighestNode w d None @ [d])) = Some n))"
proof (cases "destinationNode = None \<or> destinationNode = Some []")
  case True
  with assms have "start_node_of w (map_keys (w_nodes w)) = Inr (Some n)" by (simp add: getStartNode_def)
  then show ?thesis using start_node_of_enabled by blast
next
  case False
  then obtain d where d: "destinationNode = Some d" and ne: "d \<noteq> []" by auto
  let ?h = "getHighestNode w d None"
  let ?nms = "if ?h = [] then [d] else ?h"
  obtain r where r: "start_node_of w ?nms = Inr r"
    and n': "(case r of Some n \<Rightarrow> Inr (Some n) | None \<Rightarrow> Inr (getNode w (hd ?nms))) = (Inr (Some n) :: node option result)"
    using assms unfolding d getStartNode_Some [OF ne] bind_result_eq_Inr by blast
  from n' have n: "r = Some n \<or> (r = None \<and> getNode w (hd ?nms) = Some n)" by (cases r) simp_all
  have "hd ?nms = hd (?h @ [d])" by simp
  with r n d start_node_of_enabled show ?thesis by metis
qed

theorem getStartNode_enabled_witness:
  "getNode sample_workflow ''A'' = Some (plain_node 0 ''A'' ''t'')
    \<and> getHighestNode sample_workflow ''B'' None = [''A'']
    \<and> (\<exists>nm. getNode sample_workflow nm = Some (plain_node 0 ''A'' ''t''))"
proof -
  have "getStartNode sample_workflow (Some ''B'') = Inr (Some (plain_node 0 ''A'' ''t''))" by code_simp
  from getStartNode_enabled [OF this] show ?thesis by (auto simp: plain_node_def getNode_def sample_workflow_nodes) code_simp
qed

definition unknown_type_workflow :: workflow where
  "unknown_type_workflow =
    make_workflow (\<lambda>t v. if t = ''t'' then Some (plain_type t) else None)
      [plain_node 0 ''A'' ''u'', plain_node 1 ''B'' ''t''] [] None None"

text \<open>
  A start candidate whose type is not known makes the choice of the start node throw: the code
  reads the description before it tests that there is a type.
\<close>

theorem getStartNode_unknown_type_throws:
  "getStartNode unknown_type_workflow None = Inl (TypeError ''Cannot read properties of undefined'')"
  by code_simp

subsection \<open>Breadth-first search\<close>

record connected_node =
  cn_name :: string
  cn_depth :: nat
  cn_indicies :: "nat list"

definition bfs_targets :: "connections \<Rightarrow> nat \<Rightarrow> string \<Rightarrow> connected_node list" where
  "bfs_targets conns depth name =
     (case obj_get conns name of
        None \<Rightarrow> []
      | Some entry \<Rightarrow>
          (case obj_get entry Main of
             None \<Rightarrow> []
           | Some slots \<Rightarrow>
               map (\<lambda>c. \<lparr>cn_name = c_node c, cn_depth = depth, cn_indicies = [c_index c]\<rparr>)
                 (concat (map slot_list slots))))"

type_synonym bfs_state = "(string, connected_node) jsmap \<times> string list \<times> connected_node list"

definition bfs_visit :: "connections \<Rightarrow> string \<Rightarrow> nat \<Rightarrow> connected_node \<Rightarrow> bfs_state \<Rightarrow> bfs_state" where
  "bfs_visit conns sourceNode depth cur st =
     (let (visited, returned, queue) = st in
      case map_get visited (cn_name cur) of
        Some v \<Rightarrow>
          (map_set (cn_name cur) (v\<lparr>cn_indicies := set_of_list (cn_indicies v @ cn_indicies cur)\<rparr>) visited,
           returned, queue)
      | None \<Rightarrow>
          (map_set (cn_name cur) cur visited,
           if cn_name cur \<noteq> sourceNode then returned @ [cn_name cur] else returned,
           queue @ bfs_targets conns depth (cn_name cur)))"

lemma bfs_targets_names: "map cn_name (bfs_targets conns depth nm) = connected_names conns (OfType Main) nm"
  by (auto simp: bfs_targets_def connected_names_def types_of_def output_targets_def map_concat o_def
      split: option.split)

definition bfs_seen :: "bfs_state \<Rightarrow> string set" where
  "bfs_seen st = dom (map_of (fst st))"

lemma bfs_seen_simps [simp]: "bfs_seen (v, rest) = dom (map_of v)"
  by (simp add: bfs_seen_def)

lemma bfs_visit_keys:
  "bfs_seen (bfs_visit conns s depth cur st) = insert (cn_name cur) (bfs_seen st)"
  by (cases st) (auto simp: bfs_visit_def update_conv' split: option.split)

lemma bfs_fold_keys:
  "bfs_seen (foldl (\<lambda>st cur. bfs_visit conns s depth cur st) st q) =
    bfs_seen st \<union> cn_name ` set q"
  by (induction q arbitrary: st) (auto simp: bfs_visit_keys)

lemma bfs_fold_queue:
  "cn_name ` set (snd (snd (foldl (\<lambda>st cur. bfs_visit conns s depth cur st) st q))) =
    cn_name ` set (snd (snd st)) \<union>
      name_rel conns (OfType Main) `` (cn_name ` set q - bfs_seen st)"
proof (induction q arbitrary: st)
  case Nil
  then show ?case by simp
next
  case (Cons cur q)
  obtain v r q0 where st: "st = (v, r, q0)" by (cases st)
  let ?st = "bfs_visit conns s depth cur st"
  have t: "cn_name ` set (bfs_targets conns depth (cn_name cur)) = name_rel conns (OfType Main) `` {cn_name cur}"
    using arg_cong [OF bfs_targets_names, of set conns depth "cn_name cur"] by (auto simp: name_rel_def)
  have "cn_name ` set (snd (snd ?st)) = cn_name ` set q0 \<union>
      name_rel conns (OfType Main) `` ({cn_name cur} - dom (map_of v))"
  proof (cases "map_get v (cn_name cur)")
    case None
    then have "{cn_name cur} - dom (map_of v) = {cn_name cur}" by auto
    then show ?thesis using t None by (simp add: st bfs_visit_def image_Un)
  next
    case (Some w)
    then have "cn_name cur \<in> dom (map_of v)" by auto
    then show ?thesis using Some by (simp add: st bfs_visit_def)
  qed
  then show ?case
    unfolding foldl.simps Cons.IH bfs_visit_keys using st by auto
qed

lemma bfs_step_less:
  assumes "finite U" and "name_rel conns (OfType Main) `` UNIV \<subseteq> U" and "cn_name ` set q \<subseteq> U" and "q \<noteq> []"
    and st: "st = foldl (\<lambda>st cur. bfs_visit conns s depth cur st) (v, r, []) q"
  shows "snd (snd st) = [] \<or> card (U - bfs_seen st) < card (U - dom (map_of v))"
proof (cases "cn_name ` set q \<subseteq> dom (map_of v)")
  case True
  then have "cn_name ` set q - bfs_seen (v, r, [] :: connected_node list) = {}" by auto
  with bfs_fold_queue [of conns s depth "(v, r, [])" q] have "cn_name ` set (snd (snd st)) = {}"
    unfolding st by (metis Image_empty2 Un_empty_right image_empty list.set(1) snd_conv)
  then show ?thesis by simp
next
  case False
  then obtain x where "x \<in> cn_name ` set q" "x \<notin> dom (map_of v)" by auto
  moreover have "bfs_seen st = dom (map_of v) \<union> cn_name ` set q"
    unfolding st bfs_fold_keys by simp
  ultimately have "U - bfs_seen st \<subset> U - dom (map_of v)" using assms(3) by blast
  with assms(1) show ?thesis by (simp add: psubset_card_mono)
qed

function bfs_rounds :: "connections \<Rightarrow> string \<Rightarrow> int \<Rightarrow> nat \<Rightarrow> bfs_state \<Rightarrow> bfs_state" where
  "bfs_rounds conns sourceNode maxDepth depth st =
     (if snd (snd st) = [] \<or> (maxDepth \<noteq> -1 \<and> int depth > maxDepth) then st
      else bfs_rounds conns sourceNode maxDepth (depth + 1)
             (foldl (\<lambda>st' cur. bfs_visit conns sourceNode (depth + 1) cur st')
               (fst st, fst (snd st), []) (snd (snd st))))"
  by pat_completeness auto

definition bfs_universe :: "connections \<Rightarrow> bfs_state \<Rightarrow> string set" where
  "bfs_universe conns st = all_targets conns \<union> cn_name ` set (snd (snd st))"

lemma name_rel_targets: "name_rel conns f `` UNIV \<subseteq> all_targets conns"
  by (auto simp: name_rel_def dest: connected_names_targets)

termination bfs_rounds
proof (relation "measures [\<lambda>(conns, s, m, d, st). card (bfs_universe conns st - bfs_seen st),
                           \<lambda>(conns, s, m, d, st). length (snd (snd st))]")
  fix conns :: connections and s :: string and m :: int and d :: nat and st :: bfs_state
  assume a: "\<not> (snd (snd st) = [] \<or> (m \<noteq> -1 \<and> int d > m))"
  define st' where "st' = foldl (\<lambda>st' cur. bfs_visit conns s (d + 1) cur st') (fst st, fst (snd st), []) (snd (snd st))"
  have fin: "finite (bfs_universe conns st)" by (simp add: bfs_universe_def)
  have tg: "name_rel conns (OfType Main) `` UNIV \<subseteq> bfs_universe conns st"
    using name_rel_targets by (auto simp: bfs_universe_def)
  have q: "cn_name ` set (snd (snd st)) \<subseteq> bfs_universe conns st" by (simp add: bfs_universe_def)
  have "cn_name ` set (snd (snd st')) \<subseteq> all_targets conns"
    unfolding st'_def bfs_fold_queue using name_rel_targets [of conns "OfType Main"] by auto
  then have sub: "bfs_universe conns st' \<subseteq> bfs_universe conns st" by (auto simp: bfs_universe_def)
  have keys: "bfs_seen st \<subseteq> bfs_seen st'"
    unfolding st'_def bfs_fold_keys by (simp add: bfs_seen_def)
  have le: "card (bfs_universe conns st' - bfs_seen st') \<le>
      card (bfs_universe conns st - bfs_seen st')"
    using fin sub by (intro card_mono) auto
  have le': "card (bfs_universe conns st - bfs_seen st') \<le>
      card (bfs_universe conns st - bfs_seen st)"
    using fin keys by (intro card_mono) auto
  have "snd (snd st') = [] \<or>
      card (bfs_universe conns st - bfs_seen st') < card (bfs_universe conns st - bfs_seen st)"
    using a bfs_step_less [OF fin tg q _ st'_def] by (simp add: bfs_seen_def)
  moreover have "0 < length (snd (snd st))" using a by simp
  ultimately have "((conns, s, m, d + 1, st'), conns, s, m, d, st) \<in>
      measures [\<lambda>(conns, s, m, d, st). card (bfs_universe conns st - bfs_seen st),
                \<lambda>(conns, s, m, d, st). length (snd (snd st))]"
    using le le' by auto
  then show "((conns, s, m, d + 1, foldl (\<lambda>st' cur. bfs_visit conns s (d + 1) cur st')
        (fst st, fst (snd st), []) (snd (snd st))), conns, s, m, d, st) \<in>
      measures [\<lambda>(conns, s, m, d, st). card (bfs_universe conns st - bfs_seen st),
                \<lambda>(conns, s, m, d, st). length (snd (snd st))]"
    unfolding st'_def .
qed simp

declare bfs_rounds.simps [simp del]

text \<open>
  The result lists the objects of the visited nodes in the order they were found; a later visit
  changes the indices of the object in place.
\<close>

definition searchNodesBFS :: "connections \<Rightarrow> string \<Rightarrow> int \<Rightarrow> connected_node list" where
  "searchNodesBFS conns sourceNode maxDepth =
     (let (visited, returned, queue) = bfs_rounds conns sourceNode maxDepth 0
            ([], [], [\<lparr>cn_name = sourceNode, cn_depth = 0, cn_indicies = []\<rparr>])
      in map (\<lambda>nm. the (map_get visited nm)) returned)"

definition getParentNodesByDepth :: "workflow \<Rightarrow> string \<Rightarrow> int \<Rightarrow> connected_node list" where
  "getParentNodesByDepth w nodeName maxDepth =
     searchNodesBFS (w_connectionsByDestinationNode w) nodeName maxDepth"

subsection \<open>The search finds every node at its distance\<close>

definition nearer :: "('a \<times> 'a) set \<Rightarrow> 'a \<Rightarrow> nat \<Rightarrow> 'a set" where
  "nearer R s d = {x. \<exists>k < d. (s, x) \<in> R ^^ k}"

definition distance :: "('a \<times> 'a) set \<Rightarrow> 'a \<Rightarrow> 'a \<Rightarrow> nat" where
  "distance R s x = (LEAST k. (s, x) \<in> R ^^ k)"

lemma nearer_Suc: "nearer R s (Suc d) = nearer R s d \<union> (R ^^ d) `` {s}"
  by (auto simp: nearer_def less_Suc_eq)

lemma nearer_grows: "nearer R s d \<subseteq> nearer R s (Suc d)"
  by (simp add: nearer_Suc)

lemma nearer_image: "R `` nearer R s d \<subseteq> nearer R s (Suc d)"
proof
  fix y
  assume "y \<in> R `` nearer R s d"
  then obtain x k where "k < d" "(s, x) \<in> R ^^ k" "(x, y) \<in> R" by (auto simp: nearer_def)
  then have "(s, y) \<in> R ^^ Suc k" by auto
  with \<open>k < d\<close> show "y \<in> nearer R s (Suc d)" unfolding nearer_def by blast
qed

lemma distance_new: "(s, x) \<in> R ^^ d \<Longrightarrow> x \<notin> nearer R s d \<Longrightarrow> distance R s x = d"
  unfolding distance_def nearer_def by (rule Least_equality) (auto simp: not_less [symmetric])

definition bfs_ok :: "connections \<Rightarrow> string \<Rightarrow> bfs_state \<Rightarrow> bool" where
  \<comment> \<open>entries are stored under their name with the distance of the node, and are returned once\<close>
  "bfs_ok conns s st \<longleftrightarrow>
     (\<forall>x v. map_get (fst st) x = Some v \<longrightarrow>
        cn_name v = x \<and> cn_depth v = distance (name_rel conns (OfType Main)) s x) \<and>
     distinct (fst (snd st)) \<and> set (fst (snd st)) = bfs_seen st - {s}"

lemma bfs_visit_ok:
  assumes "bfs_ok conns s st"
    and "cn_name cur \<notin> bfs_seen st \<Longrightarrow> cn_depth cur = distance (name_rel conns (OfType Main)) s (cn_name cur)"
  shows "bfs_ok conns s (bfs_visit conns s depth cur st)"
proof -
  obtain v r q where st: "st = (v, r, q)" by (cases st)
  show ?thesis
  proof (cases "map_get v (cn_name cur)")
    case None
    then have "cn_name cur \<notin> dom (map_of v)" by auto
    with None assms show ?thesis
      by (auto simp: st bfs_visit_def bfs_ok_def update_conv' split: if_splits)
  next
    case (Some w)
    then have "cn_name cur \<in> dom (map_of v)" by auto
    with Some assms(1) show ?thesis
      by (auto simp: st bfs_visit_def bfs_ok_def update_conv' split: if_splits)
  qed
qed

lemma bfs_fold_ok:
  assumes "bfs_ok conns s st"
    and "\<And>c. c \<in> set q \<Longrightarrow> cn_name c \<notin> bfs_seen st \<Longrightarrow>
      cn_depth c = distance (name_rel conns (OfType Main)) s (cn_name c)"
  shows "bfs_ok conns s (foldl (\<lambda>st cur. bfs_visit conns s depth cur st) st q)"
  using assms
proof (induction q arbitrary: st)
  case Nil
  then show ?case by simp
next
  case (Cons c q)
  have "bfs_ok conns s (bfs_visit conns s depth c st)"
    using Cons.prems by (intro bfs_visit_ok) auto
  moreover have "bfs_seen st \<subseteq> bfs_seen (bfs_visit conns s depth c st)"
    by (simp add: bfs_visit_keys subset_insertI)
  ultimately show ?case
    using Cons.IH [of "bfs_visit conns s depth c st"] Cons.prems(2) by auto
qed

lemma bfs_fold_depth:
  "(\<And>c. c \<in> set (snd (snd st)) \<Longrightarrow> cn_depth c = depth) \<Longrightarrow>
    c \<in> set (snd (snd (foldl (\<lambda>st cur. bfs_visit conns s depth cur st) st q))) \<Longrightarrow> cn_depth c = depth"
proof (induction q arbitrary: st)
  case Nil
  then show ?case by simp
next
  case (Cons a q)
  have "cn_depth c = depth" if "c \<in> set (snd (snd (bfs_visit conns s depth a st)))" for c
    using that Cons.prems(1)
    by (cases st) (auto simp: bfs_visit_def bfs_targets_def split: option.splits)
  with Cons.IH [of "bfs_visit conns s depth a st"] Cons.prems(2) show ?case by simp
qed

definition bfs_round_ok :: "connections \<Rightarrow> string \<Rightarrow> nat \<Rightarrow> bfs_state \<Rightarrow> bool" where
  "bfs_round_ok conns s d st \<longleftrightarrow>
     (let R = name_rel conns (OfType Main) in
      bfs_ok conns s st \<and> bfs_seen st = nearer R s d \<and>
      cn_name ` set (snd (snd st)) \<subseteq> (R ^^ d) `` {s} \<and>
      nearer R s (Suc d) \<subseteq> bfs_seen st \<union> cn_name ` set (snd (snd st)) \<and>
      (\<forall>c \<in> set (snd (snd st)). cn_depth c = d))"

lemma bfs_round_step:
  assumes ok: "bfs_round_ok conns s d (v, r, q)"
  shows "bfs_round_ok conns s (Suc d) (foldl (\<lambda>st cur. bfs_visit conns s (Suc d) cur st) (v, r, []) q)"
    (is "bfs_round_ok _ _ _ ?st")
proof -
  let ?R = "name_rel conns (OfType Main)"
  have q: "cn_name ` set q \<subseteq> (?R ^^ d) `` {s}" and seen: "dom (map_of v) = nearer ?R s d"
    and all: "nearer ?R s (Suc d) \<subseteq> dom (map_of v) \<union> cn_name ` set q"
    and depth: "\<forall>c \<in> set q. cn_depth c = d"
    using ok unfolding bfs_round_ok_def Let_def bfs_seen_simps prod.sel by blast+
  have "bfs_ok conns s (v, r, [])" using ok by (simp add: bfs_round_ok_def bfs_ok_def Let_def)
  then have ok': "bfs_ok conns s ?st"
  proof (rule bfs_fold_ok)
    fix c
    assume c: "c \<in> set q" "cn_name c \<notin> bfs_seen (v, r, [] :: connected_node list)"
    then have "(s, cn_name c) \<in> ?R ^^ d" "cn_name c \<notin> nearer ?R s d" using q seen by auto
    with depth c(1) show "cn_depth c = distance ?R s (cn_name c)" by (simp add: distance_new)
  qed
  have keys: "bfs_seen ?st = nearer ?R s d \<union> cn_name ` set q"
    unfolding bfs_fold_keys by (simp add: seen)
  then have seen': "bfs_seen ?st = nearer ?R s (Suc d)"
    using all q seen nearer_Suc [of ?R s d] by auto
  have queue: "cn_name ` set (snd (snd ?st)) = ?R `` (cn_name ` set q - nearer ?R s d)"
    unfolding bfs_fold_queue by (simp add: seen)
  have "cn_name ` set (snd (snd ?st)) \<subseteq> (?R ^^ Suc d) `` {s}"
    unfolding queue using q by auto
  moreover have "nearer ?R s (Suc (Suc d)) \<subseteq> bfs_seen ?st \<union> cn_name ` set (snd (snd ?st))"
  proof
    fix y
    assume "y \<in> nearer ?R s (Suc (Suc d))"
    then consider "y \<in> nearer ?R s (Suc d)" | x where "(s, x) \<in> ?R ^^ d" "(x, y) \<in> ?R"
      unfolding nearer_Suc [of ?R s "Suc d"] by auto
    then show "y \<in> bfs_seen ?st \<union> cn_name ` set (snd (snd ?st))"
    proof cases
      case 1
      then show ?thesis by (simp add: seen')
    next
      case 2
      then have "x \<in> nearer ?R s (Suc d)" by (simp add: nearer_Suc)
      then consider "x \<in> nearer ?R s d" | "x \<in> cn_name ` set q - nearer ?R s d" using all seen by blast
      then show ?thesis
      proof cases
        case 1
        then show ?thesis using 2(2) nearer_image [of ?R s d] by (auto simp: seen')
      next
        case 2
        then show ?thesis using \<open>(x, y) \<in> ?R\<close> unfolding queue by blast
      qed
    qed
  qed
  moreover have "cn_depth c = Suc d" if "c \<in> set (snd (snd ?st))" for c
    using bfs_fold_depth [of "(v, r, [])" "Suc d" c conns s q] that by simp
  ultimately show ?thesis using ok' seen' unfolding bfs_round_ok_def Let_def by blast
qed

lemma bfs_rounds_ok:
  "bfs_round_ok conns s d st \<Longrightarrow>
    bfs_ok conns s (bfs_rounds conns s (-1) d st) \<and>
    bfs_seen (bfs_rounds conns s (-1) d st) = (name_rel conns (OfType Main))\<^sup>* `` {s}"
proof (induction conns s "-1 :: int" d st rule: bfs_rounds.induct)
  case (1 conns s d st)
  let ?R = "name_rel conns (OfType Main)"
  obtain v r q where st: "st = (v, r, q)" by (cases st)
  show ?case
  proof (cases "q = []")
    case True
    have e: "snd (snd st) = []" using True st by simp
    have w0: "bfs_seen st = nearer ?R s d" and w1: "nearer ?R s (Suc d) \<subseteq> bfs_seen st" and ok: "bfs_ok conns s st"
      using "1.prems" unfolding bfs_round_ok_def Let_def e list.set image_empty Un_empty_right by blast+
    have w: "bfs_seen st = nearer ?R s d" "nearer ?R s (Suc d) \<subseteq> nearer ?R s d" using w0 w1 by simp_all
    have closed: "?R `` nearer ?R s d \<subseteq> nearer ?R s d" using nearer_image w(2) by (rule subset_trans)
    have "s \<in> nearer ?R s (Suc d)" unfolding nearer_def by (intro CollectI exI [of _ 0]) simp
    then have s: "s \<in> nearer ?R s d" using w(2) by blast
    have "?R\<^sup>* `` nearer ?R s d = nearer ?R s d" using closed by (rule Image_closed_trancl)
    moreover have "?R\<^sup>* `` {s} \<subseteq> ?R\<^sup>* `` nearer ?R s d"
      by (rule Image_mono [OF subset_refl]) (rule insert_subsetI [OF s empty_subsetI])
    ultimately have "?R\<^sup>* `` {s} \<subseteq> nearer ?R s d" by (metis (no_types))
    moreover have "nearer ?R s d \<subseteq> ?R\<^sup>* `` {s}" unfolding nearer_def by (blast dest: relpow_imp_rtrancl)
    ultimately have "nearer ?R s d = ?R\<^sup>* `` {s}" by (rule subset_antisym [rotated])
    moreover have "bfs_rounds conns s (-1) d st = st" using e by (subst bfs_rounds.simps) simp
    ultimately show ?thesis using ok w0 by metis
  next
    case False
    have "bfs_round_ok conns s (d + 1) (foldl (\<lambda>st' cur. bfs_visit conns s (d + 1) cur st')
        (fst st, fst (snd st), []) (snd (snd st)))"
      using bfs_round_step [of conns s d v r q] "1.prems" by (simp add: st)
    with "1.hyps" False show ?thesis
      unfolding bfs_rounds.simps [of conns s "-1" d st] by (simp add: st)
  qed
qed

text \<open>
  Without a depth limit the breadth-first search returns exactly the other nodes that can be reached
  over main connections, each once, with its distance from the source.
\<close>

theorem searchNodesBFS_spec:
  "set (map cn_name (searchNodesBFS conns s (-1))) = (name_rel conns (OfType Main))\<^sup>* `` {s} - {s} \<and>
   distinct (map cn_name (searchNodesBFS conns s (-1))) \<and>
   list_all (\<lambda>c. cn_depth c = distance (name_rel conns (OfType Main)) s (cn_name c)) (searchNodesBFS conns s (-1))"
proof -
  let ?R = "name_rel conns (OfType Main)"
  define st where "st = bfs_rounds conns s (-1) 0 ([], [], [\<lparr>cn_name = s, cn_depth = 0, cn_indicies = []\<rparr>])"
  obtain v r q where v: "st = (v, r, q)" by (cases st)
  have "bfs_round_ok conns s 0 ([], [], [\<lparr>cn_name = s, cn_depth = 0, cn_indicies = []\<rparr>])"
    by (auto simp: bfs_round_ok_def bfs_ok_def nearer_def)
  then have ok: "bfs_ok conns s st" and seen: "bfs_seen st = ?R\<^sup>* `` {s}"
    unfolding st_def by (simp_all add: bfs_rounds_ok)
  have get: "cn_name (the (map_get v x)) = x \<and> cn_depth (the (map_get v x)) = distance ?R s x" if "x \<in> set r" for x
  proof -
    from ok that have "x \<in> dom (map_of v)" by (simp add: bfs_ok_def v)
    then show ?thesis using ok by (auto simp: bfs_ok_def v)
  qed
  then have names: "map cn_name (map (\<lambda>nm. the (map_get v nm)) r) = r" by (simp add: map_idI)
  have "searchNodesBFS conns s (-1) = map (\<lambda>nm. the (map_get v nm)) r"
    using v by (simp add: searchNodesBFS_def st_def)
  then show ?thesis
    using ok seen names get by (auto simp: bfs_ok_def v list_all_iff)
qed

subsection \<open>How a node is connected to a parent\<close>

fun conn_index :: "string \<Rightarrow> nat \<Rightarrow> connection list \<Rightarrow> (nat \<times> nat) option" where
  \<comment> \<open>the first connection of a slot that names the node: its index and its position in the slot\<close>
  "conn_index nm i [] = None"
| "conn_index nm i (c # cs) = (if c_node c = nm then Some (c_index c, i) else conn_index nm (Suc i) cs)"

fun slots_index :: "string \<Rightarrow> node_inputs \<Rightarrow> (nat \<times> nat) option" where
  "slots_index nm [] = None"
| "slots_index nm (s # ss) =
     (case conn_index nm 0 (slot_list s) of None \<Rightarrow> slots_index nm ss | Some r \<Rightarrow> Some r)"

definition typed_slots :: "connections \<Rightarrow> connection_type \<Rightarrow> string \<Rightarrow> node_inputs" where
  \<comment> \<open>\<^verbatim>\<open>connections[node]?.[type]\<close>, nothing if it is missing\<close>
  "typed_slots conns type nm = or_empty (obj_get (or_empty (obj_get conns nm)) type)"

lemma typed_slots_targets: "set (output_targets (typed_slots conns type nm)) = name_rel conns (OfType type) `` {nm}"
  by (auto simp: typed_slots_def name_rel_def connected_names_def types_of_def output_targets_def or_empty_def
      split: option.splits)

lemma conn_index_None: "conn_index nm i cs = None \<longleftrightarrow> nm \<notin> c_node ` set cs"
  by (induction nm i cs rule: conn_index.induct) auto

lemma slots_index_None: "slots_index nm ss = None \<longleftrightarrow> nm \<notin> set (output_targets ss)"
  by (induction nm ss rule: slots_index.induct)
    (auto simp: output_targets_def conn_index_None split: option.splits, (metis conn_index_None option.distinct(1) imageI)+)

function index_search ::
  "connections \<Rightarrow> connection_type \<Rightarrow> string \<Rightarrow> string list \<Rightarrow> string list \<Rightarrow> (nat \<times> nat) option" where
  "index_search conns type parentNodeName visited [] = None"
| "index_search conns type parentNodeName visited (nm # queue) =
     (if nm \<in> set visited then index_search conns type parentNodeName visited queue
      else case slots_index parentNodeName (typed_slots conns type nm) of
        Some r \<Rightarrow> Some r
      | None \<Rightarrow> index_search conns type parentNodeName (set_add nm visited)
          (queue @ filter (\<lambda>x. x \<notin> set (set_add nm visited)) (output_targets (typed_slots conns type nm))))"
  by pat_completeness auto

lemma typed_slots_universe: "set (output_targets (typed_slots conns type nm)) \<subseteq> all_targets conns"
  using typed_slots_targets name_rel_targets by blast

termination index_search
proof (relation "measures [\<lambda>(conns, t, p, v, q). card (all_targets conns \<union> set q - set v), \<lambda>(conns, t, p, v, q). length q]")
  fix conns :: connections and t :: connection_type and p nm :: string and v q :: "string list"
  have "card (all_targets conns \<union> set q - set v) \<le> card (all_targets conns \<union> set (nm # q) - set v)"
    by (intro card_mono) auto
  then show "((conns, t, p, v, q), conns, t, p, v, nm # q) \<in>
      measures [\<lambda>(conns, t, p, v, q). card (all_targets conns \<union> set q - set v), \<lambda>(conns, t, p, v, q). length q]"
    by (auto simp: le_less)
  assume "nm \<notin> set v"
  then have "card (all_targets conns \<union> set (q @ filter (\<lambda>x. x \<notin> set (set_add nm v)) (output_targets (typed_slots conns t nm))) -
      set (set_add nm v)) < card (all_targets conns \<union> set (nm # q) - set v)"
    using typed_slots_universe [of conns t nm] by (intro psubset_card_mono) auto
  then show "((conns, t, p, set_add nm v, q @ filter (\<lambda>x. x \<notin> set (set_add nm v)) (output_targets (typed_slots conns t nm))),
      conns, t, p, v, nm # q) \<in>
      measures [\<lambda>(conns, t, p, v, q). card (all_targets conns \<union> set q - set v), \<lambda>(conns, t, p, v, q). length q]"
    by simp
qed simp

definition getNodeConnectionIndexes ::
  "workflow \<Rightarrow> string \<Rightarrow> string \<Rightarrow> connection_type \<Rightarrow> (nat \<times> nat) option" where
  "getNodeConnectionIndexes w nodeName parentNodeName type =
     (case getNode w parentNodeName of
        None \<Rightarrow> None
      | Some _ \<Rightarrow> index_search (w_connectionsByDestinationNode w) type parentNodeName [] [nodeName])"

lemma index_search_Some:
  "index_search conns t p v q = Some r \<Longrightarrow> p \<in> (name_rel conns (OfType t))\<^sup>+ `` set q"
proof (induction conns t p v q rule: index_search.induct)
  case (1 conns t p v)
  then show ?case by simp
next
  case (2 conns t p v nm q)
  let ?R = "name_rel conns (OfType t)"
  show ?case
  proof (cases "nm \<in> set v")
    case True
    with "2.IH"(1) [OF True] "2.prems" show ?thesis by auto
  next
    case False
    show ?thesis
    proof (cases "slots_index p (typed_slots conns t nm)")
      case None
      with "2.IH"(2) [OF False None] "2.prems" False
      obtain x where x: "x \<in> set q \<or> x \<in> ?R `` {nm}" "(x, p) \<in> ?R\<^sup>+"
        by (auto simp: typed_slots_targets)
      then show ?thesis by (auto intro: trancl_into_trancl2)
    next
      case (Some s)
      then have "p \<in> ?R `` {nm}" using slots_index_None [of p] typed_slots_targets by (metis option.distinct(1))
      then show ?thesis by auto
    qed
  qed
qed

lemma index_search_None:
  "index_search conns t p v q = None \<Longrightarrow>
    name_rel conns (OfType t) `` set v \<subseteq> (set v \<union> set q) - {p} \<Longrightarrow>
    p \<notin> (name_rel conns (OfType t))\<^sup>+ `` (set v \<union> set q)"
proof (induction conns t p v q rule: index_search.induct)
  case (1 conns t p v)
  then have "name_rel conns (OfType t) `` set v \<subseteq> set v" by auto
  then have "(name_rel conns (OfType t))\<^sup>* `` set v = set v" by (rule Image_closed_trancl)
  with "1.prems"(2) show ?case by (auto dest!: tranclD2)
next
  case (2 conns t p v nm q)
  show ?case
  proof (cases "nm \<in> set v")
    case True
    then have e: "set v \<union> set (nm # q) = set v \<union> set q" by auto
    show ?thesis using "2.IH"(1) [OF True] "2.prems" True unfolding e by simp
  next
    case False
    let ?q = "q @ filter (\<lambda>x. x \<notin> set (set_add nm v)) (output_targets (typed_slots conns t nm))"
    have none: "slots_index p (typed_slots conns t nm) = None"
      using "2.prems"(1) False by (cases "slots_index p (typed_slots conns t nm)") auto
    then have p: "p \<notin> name_rel conns (OfType t) `` {nm}"
      unfolding slots_index_None typed_slots_targets .
    have i: "index_search conns t p (set_add nm v) ?q = None" using "2.prems"(1) False none by simp
    have "name_rel conns (OfType t) `` set (set_add nm v) \<subseteq> (set (set_add nm v) \<union> set ?q) - {p}"
      using "2.prems"(2) p by (auto simp: typed_slots_targets)
    then have "p \<notin> (name_rel conns (OfType t))\<^sup>+ `` (set (set_add nm v) \<union> set ?q)"
      using "2.IH"(2) [OF False none i] by blast
    moreover have "set v \<union> set (nm # q) \<subseteq> set (set_add nm v) \<union> set ?q" by auto
    ultimately show ?thesis by blast
  qed
qed

text \<open>
  A connection to a parent is found exactly if the parent is a node of the workflow and lies upstream
  over connections of the given type.
\<close>

theorem getNodeConnectionIndexes_spec:
  "getNodeConnectionIndexes w nodeName parentNodeName type \<noteq> None \<longleftrightarrow>
    map_has (w_nodes w) parentNodeName \<and>
    (nodeName, parentNodeName) \<in> (name_rel (w_connectionsByDestinationNode w) (OfType type))\<^sup>+"
proof -
  let ?c = "w_connectionsByDestinationNode w"
  have "index_search ?c type parentNodeName [] [nodeName] \<noteq> None \<longleftrightarrow>
      (nodeName, parentNodeName) \<in> (name_rel ?c (OfType type))\<^sup>+"
    using index_search_Some [of ?c type parentNodeName "[]" "[nodeName]"]
      index_search_None [of ?c type parentNodeName "[]" "[nodeName]"]
    by (cases "index_search ?c type parentNodeName [] [nodeName]") (simp_all del: index_search.simps)
  then show ?thesis
    by (simp add: getNodeConnectionIndexes_def getNode_def map_has_def del: index_search.simps split: option.split)
qed

text \<open>All connections from one of the sources to one of the targets, with their outputs.\<close>

definition getConnectionsBetweenNodes ::
  "workflow \<Rightarrow> string list \<Rightarrow> string list \<Rightarrow> (connection \<times> connection) list" where
  "getConnectionsBetweenNodes w sources targets =
     concat (map (\<lambda>source.
       concat (map (\<lambda>p.
         map (\<lambda>l. (connection_to source (fst p) (fst l), snd l))
           (filter (\<lambda>l. c_node (snd l) \<in> set targets) (output_links (snd p))))
         (or_empty (obj_get (w_connectionsBySourceNode w) source)))) sources)"

text \<open>
  The connections between two sets of nodes are those of the map by source whose two ends are in
  the sets.
\<close>

theorem getConnectionsBetweenNodes_spec:
  assumes "well_keyed_connections (w_connectionsBySourceNode w)"
  shows "(a, b) \<in> set (getConnectionsBetweenNodes w sources targets) \<longleftrightarrow>
    c_node a \<in> set sources \<and> c_node b \<in> set targets \<and>
    has_link (w_connectionsBySourceNode w) (c_node a) (c_type a) (c_index a) b"
proof -
  let ?conns = "w_connectionsBySourceNode w"
  have k: "obj_get entry t = Some slots \<longleftrightarrow> (t, slots) \<in> set entry" if "obj_get ?conns s = Some entry" for s entry t slots
  proof -
    from that have "(s, entry) \<in> set ?conns" by (rule map_of_SomeD)
    with assms have "well_keyed entry" by (auto simp: well_keyed_connections_def list_all_iff)
    then show ?thesis by (rule well_keyed_get)
  qed
  have "(a, b) \<in> set (getConnectionsBetweenNodes w sources targets) \<longleftrightarrow>
      (\<exists>s \<in> set sources. \<exists>t slots i. (t, slots) \<in> set (or_empty (obj_get ?conns s)) \<and>
        (i, b) \<in> set (output_links slots) \<and> c_node b \<in> set targets \<and> a = connection_to s t i)"
    by (force simp: getConnectionsBetweenNodes_def)
  also have "\<dots> \<longleftrightarrow> (\<exists>s \<in> set sources. \<exists>t slots i entry. obj_get ?conns s = Some entry \<and> obj_get entry t = Some slots \<and>
        (i, b) \<in> set (output_links slots) \<and> c_node b \<in> set targets \<and> a = connection_to s t i)"
  proof -
    have "(t, slots) \<in> set (or_empty (obj_get ?conns s)) \<longleftrightarrow>
        (\<exists>entry. obj_get ?conns s = Some entry \<and> obj_get entry t = Some slots)" for s t slots
      using k by (cases "obj_get ?conns s") auto
    then show ?thesis by (simp only:) blast
  qed
  finally show ?thesis
    unfolding has_link_def output_links_mem
    by (metis connection_to_eq connection_to_simps)
qed

theorem getConnectionsBetweenNodes_spec_witness:
  "(connection_to ''A'' Main 0, connection_to ''B'' Main 1)
    \<in> set (getConnectionsBetweenNodes sample_workflow [''A''] [''B''])"
proof -
  have s: "w_connectionsBySourceNode sample_workflow = sample_connections"
    by (simp add: sample_workflow_def make_workflow_def setSettings_def setPinData_def setConnections_def setNodes_def)
  have "well_keyed_connections (w_connectionsBySourceNode sample_workflow)"
    using s sample_connections_ok by simp
  from getConnectionsBetweenNodes_spec [OF this] show ?thesis
    by (simp add: s has_link_def sample_connections_def)
qed

subsection \<open>The main input of a sub-node\<close>

text \<open>
  The outputs of a node: a list in its description, or an expression. \<open>evalPorts\<close> is the evaluation of
  such an expression, the empty list if it throws or gives no array.
\<close>

type_synonym eval_ports = "node \<Rightarrow> string \<Rightarrow> port list"

definition getNodeOutputs :: "eval_ports \<Rightarrow> node \<Rightarrow> node_type \<Rightarrow> port list" where
  "getNodeOutputs evalPorts n t =
     (let outputs = (case nt_outputs t of Ports ps \<Rightarrow> ps | PortExpression e \<Rightarrow> evalPorts n e) in
      if n_onError n = Some ContinueErrorOutput then
        (case outputs of
           [p] \<Rightarrow> [PortConfig (port_type p) (Some ''Success'')]
         | _ \<Rightarrow> outputs) @ [PortConfig Main (Some ''Error'')]
      else outputs)"

definition getConnectionTypes :: "port list \<Rightarrow> connection_type list" where
  "getConnectionTypes ports = map port_type ports"

definition non_main_types :: "eval_ports \<Rightarrow> node \<Rightarrow> node_type \<Rightarrow> connection_type list" where
  "non_main_types evalPorts n t =
     sort_strings (filter (\<lambda>ty. ty \<noteq> Main) (map port_type (getNodeOutputs evalPorts n t)))"

text \<open>The nodes connected to the outputs of these types, in the order they are tried.\<close>

definition non_main_children :: "workflow \<Rightarrow> string \<Rightarrow> connection_type list \<Rightarrow> string list" where
  "non_main_children w nm types =
     sort_strings (concat (map (\<lambda>ty.
       if map_has (or_empty (obj_get (w_connectionsBySourceNode w) nm)) ty
       then childNodes w nm (OfType ty) else []) types))"

definition has_outputs :: "node_type \<Rightarrow> bool" where
  \<comment> \<open>\<^verbatim>\<open>description.outputs\<close> is truthy\<close>
  "has_outputs t \<longleftrightarrow> nt_outputs t \<noteq> PortExpression []"

text \<open>Following the first connected sub-node outputs. \<open>None\<close> means that the recursion does not end.\<close>

partial_function (option) getParentMainInputNode ::
  "workflow \<Rightarrow> eval_ports \<Rightarrow> node \<Rightarrow> node result option" where
  "getParentMainInputNode w evalPorts n =
     (case node_type_of w n of
        None \<Rightarrow> Some (Inr n)
      | Some t \<Rightarrow>
          if \<not> has_outputs t then Some (Inr n)
          else (case non_main_children w (n_name n) (non_main_types evalPorts n t) of
            [] \<Rightarrow> Some (Inr n)
          | nm # _ \<Rightarrow>
              (case getNode w nm of
                 None \<Rightarrow> Some (Inl (UnexpectedError (''Node '' @ [CHR 0x22] @ nm @ [CHR 0x22] @ '' not found'')))
               | Some parent \<Rightarrow> getParentMainInputNode w evalPorts parent)))"

text \<open>
  When it returns a node, that node has no connected output other than main ones.
\<close>

definition at_main_input :: "workflow \<Rightarrow> eval_ports \<Rightarrow> node \<Rightarrow> bool" where
  "at_main_input w evalPorts m \<longleftrightarrow>
     (case node_type_of w m of None \<Rightarrow> True
      | Some t \<Rightarrow> \<not> has_outputs t \<or> non_main_children w (n_name m) (non_main_types evalPorts m t) = [])"

lemma getParentMainInputNode_result:
  assumes "getParentMainInputNode w evalPorts n = Some (Inr m)"
  shows "at_main_input w evalPorts m"
proof -
  have "\<forall>m. r = Inr m \<longrightarrow> at_main_input w evalPorts m" if "getParentMainInputNode w evalPorts n = Some r" for w evalPorts n r
    by (rule getParentMainInputNode.raw_induct
        [of "\<lambda>w evalPorts n r. \<forall>m. r = Inr m \<longrightarrow> at_main_input w evalPorts m", OF _ that])
      (fastforce simp: at_main_input_def split: option.splits if_splits list.splits)
  with assms show ?thesis by blast
qed

definition agent_tool_type :: node_type where
  "agent_tool_type = (plain_type ''agentTool'')\<lparr>nt_outputs := Ports [PortName AiTool]\<rparr>"

definition tool_cycle_workflow :: workflow where
  \<comment> \<open>two agent tools, each a tool of the other\<close>
  "tool_cycle_workflow =
    make_workflow (\<lambda>t v. Some agent_tool_type) [plain_node 0 ''A'' ''agentTool'', plain_node 1 ''B'' ''agentTool'']
      [(''A'', [(AiTool, [Val [connection_to ''B'' AiTool 0]])]),
       (''B'', [(AiTool, [Val [connection_to ''A'' AiTool 0]])])] None None"

lemma tool_cycle_next:
  "non_main_children tool_cycle_workflow ''A'' [AiTool] = [''B'']"
  "non_main_children tool_cycle_workflow ''B'' [AiTool] = [''A'']"
  "getNode tool_cycle_workflow ''A'' = Some (plain_node 0 ''A'' ''agentTool'')"
  "getNode tool_cycle_workflow ''B'' = Some (plain_node 1 ''B'' ''agentTool'')"
  by code_simp+

lemma tool_cycle_type:
  "node_type_of tool_cycle_workflow n = Some agent_tool_type" "has_outputs agent_tool_type"
  "n_onError n = None \<Longrightarrow> non_main_types evalPorts n agent_tool_type = [AiTool]"
  by (simp_all add: tool_cycle_workflow_def make_workflow_def setSettings_def setPinData_def setConnections_def
      setNodes_def node_type_of_def has_outputs_def agent_tool_type_def non_main_types_def getNodeOutputs_def
      sort_strings_def js_sort_def Main_def AiTool_def)

lemma plain_node_simps: "n_onError (plain_node k nm t) = None" "n_name (plain_node k nm t) = nm"
  by (simp_all add: plain_node_def)

lemma tool_cycle_diverges:
  assumes "getParentMainInputNode w evalPorts n = Some r"
  shows "w = tool_cycle_workflow \<longrightarrow>
    n \<noteq> plain_node 0 ''A'' ''agentTool'' \<and> n \<noteq> plain_node 1 ''B'' ''agentTool''"
  by (rule getParentMainInputNode.raw_induct
      [of "\<lambda>w evalPorts n r. w = tool_cycle_workflow \<longrightarrow>
        n \<noteq> plain_node 0 ''A'' ''agentTool'' \<and> n \<noteq> plain_node 1 ''B'' ''agentTool''", OF _ assms])
    (fastforce simp: tool_cycle_type tool_cycle_next plain_node_simps)

text \<open>
  If two sub-nodes are connected to each other the search for the main input does not return.
\<close>

theorem getParentMainInputNode_diverges:
  "getParentMainInputNode tool_cycle_workflow evalPorts (plain_node 0 ''A'' ''agentTool'') = None"
  using tool_cycle_diverges [of tool_cycle_workflow evalPorts] by (cases "getParentMainInputNode tool_cycle_workflow evalPorts (plain_node 0 ''A'' ''agentTool'')") auto

end
