(* ===== verification/WorkflowEdits.thy ===== *)
theory WorkflowEdits
  imports WorkflowSearch
begin

section \<open>Renaming nodes and static data\<close>

text \<open>
  \<^verbatim>\<open>renameNode\<close> and \<^verbatim>\<open>getStaticData\<close> of \<^verbatim>\<open>packages/workflow/src/workflow.ts\<close>, with
  \<^verbatim>\<open>node-parameters/rename-node-utils.ts\<close> and \<^verbatim>\<open>observable-object.ts\<close>. The text substitution inside an
  expression (\<^verbatim>\<open>applyAccessPatterns\<close>, a set of regular expressions) is a parameter: a function of the
  text, the old and the new name.
\<close>

subsection \<open>Renaming inside parameters\<close>

type_synonym access_patterns = "string \<Rightarrow> string \<Rightarrow> string \<Rightarrow> string"

fun renameNodeInParameterValue :: "access_patterns \<Rightarrow> js \<Rightarrow> string \<Rightarrow> string \<Rightarrow> bool \<Rightarrow> js" where
  "renameNodeInParameterValue apply_patterns (JStr s) currentName newName hasRenamableContent =
     (if take 1 s = ''='' \<or> hasRenamableContent then JStr (apply_patterns s currentName newName) else JStr s)"
| "renameNodeInParameterValue apply_patterns (JArr xs) currentName newName hasRenamableContent =
     JArr (map (\<lambda>x. renameNodeInParameterValue apply_patterns x currentName newName False) xs)"
| "renameNodeInParameterValue apply_patterns (JObj kvs) currentName newName hasRenamableContent =
     JObj (map (\<lambda>(k, v). (k, renameNodeInParameterValue apply_patterns v currentName newName hasRenamableContent)) kvs)"
| "renameNodeInParameterValue apply_patterns JNull currentName newName hasRenamableContent =
     JObj []"  \<comment> \<open>\<^verbatim>\<open>typeof null\<close> is \<^verbatim>\<open>'object'\<close>\<close>
| "renameNodeInParameterValue apply_patterns v currentName newName hasRenamableContent = v"

definition rename_html_field :: "(js \<Rightarrow> js) \<Rightarrow> js \<Rightarrow> js" where
  "rename_html_field renameField field =
     (case field of
        JObj kvs \<Rightarrow>
          if map_of kvs ''fieldType'' = Some (JStr ''html'') then
            (case map_of kvs ''html'' of
               None \<Rightarrow> field
             | Some h \<Rightarrow> JObj (AList.update ''html'' (renameField h) kvs))
          else field
      | _ \<Rightarrow> field)"

definition renameFormFields :: "(js \<Rightarrow> js) \<Rightarrow> js jsobj \<Rightarrow> js jsobj" where
  "renameFormFields renameField parameters =
     (case obj_get parameters ''formFields'' of
        Some (JObj ff) \<Rightarrow>
          (case map_of ff ''values'' of
             Some (JArr vs) \<Rightarrow>
               AList.update ''formFields''
                 (JObj (AList.update ''values'' (JArr (map (rename_html_field renameField) vs)) ff)) parameters
           | _ \<Rightarrow> parameters)
      | _ \<Rightarrow> parameters)"

definition NODES_WITH_RENAMABLE_CONTENT :: "string list" where
  "NODES_WITH_RENAMABLE_CONTENT =
     [''n8n-nodes-base.code'', ''n8n-nodes-base.function'', ''n8n-nodes-base.functionItem'',
      ''n8n-nodes-base.aiTransform'']"

definition NODES_WITH_RENAMEABLE_TOPLEVEL_HTML_CONTENT :: "string list" where
  "NODES_WITH_RENAMEABLE_TOPLEVEL_HTML_CONTENT = [''n8n-nodes-base.mailgun'', ''n8n-nodes-base.html'']"

definition NODES_WITH_RENAMABLE_FORM_HTML_CONTENT :: "string list" where
  "NODES_WITH_RENAMABLE_FORM_HTML_CONTENT = [''n8n-nodes-base.form'']"

definition param_value :: "js jsobj \<Rightarrow> string \<Rightarrow> js" where
  "param_value ps k = (case obj_get ps k of None \<Rightarrow> JUndefined | Some v \<Rightarrow> v)"

definition renamed_object :: "js \<Rightarrow> js jsobj" where
  "renamed_object v = (case v of JObj kvs \<Rightarrow> kvs | _ \<Rightarrow> [])"

text \<open>The parameters of one node after a renaming.\<close>

definition rename_parameters :: "access_patterns \<Rightarrow> string \<Rightarrow> string \<Rightarrow> node \<Rightarrow> node" where
  "rename_parameters apply_patterns currentName newName n =
     (let content = (\<lambda>v. renameNodeInParameterValue apply_patterns v currentName newName True);
          p0 = renamed_object (renameNodeInParameterValue apply_patterns (JObj (n_parameters n)) currentName newName False);
          p1 = (if n_type n \<in> set NODES_WITH_RENAMABLE_CONTENT
                then obj_set ''jsCode'' (content (param_value p0 ''jsCode'')) p0 else p0);
          p2 = (if n_type n \<in> set NODES_WITH_RENAMEABLE_TOPLEVEL_HTML_CONTENT
                then obj_set ''html'' (content (param_value p1 ''html'')) p1 else p1);
          p3 = (if n_type n \<in> set NODES_WITH_RENAMABLE_FORM_HTML_CONTENT
                then renameFormFields content p2 else p2)
      in n\<lparr>n_parameters := p3\<rparr>)"

text \<open>
  A renaming turns every \<^verbatim>\<open>null\<close> among the parameters of a node, renamed or not, into an empty
  object, whatever the names.
\<close>

theorem rename_null_parameter:
  assumes "obj_get (n_parameters n) k = Some JNull"
    and "n_type n \<notin> set (NODES_WITH_RENAMABLE_CONTENT @ NODES_WITH_RENAMEABLE_TOPLEVEL_HTML_CONTENT @
      NODES_WITH_RENAMABLE_FORM_HTML_CONTENT)"
  shows "obj_get (n_parameters (rename_parameters apply_patterns currentName newName n)) k = Some (JObj [])"
proof -
  let ?f = "\<lambda>v. renameNodeInParameterValue apply_patterns v currentName newName False"
  have "map_of (map (\<lambda>(k, v). (k, ?f v)) ps) k = map_option ?f (map_of ps k)" for ps
    by (induction ps) auto
  then show ?thesis
    using assms by (simp add: rename_parameters_def renamed_object_def Let_def)
qed

theorem rename_null_parameter_witness:
  "obj_get (n_parameters (rename_parameters (\<lambda>s a b. s) ''A'' ''B''
      ((plain_node 0 ''C'' ''t'')\<lparr>n_parameters := [(''p'', JNull)]\<rparr>))) ''p'' = Some (JObj [])"
  by (rule rename_null_parameter)
    (simp_all add: plain_node_def NODES_WITH_RENAMABLE_CONTENT_def
      NODES_WITH_RENAMEABLE_TOPLEVEL_HTML_CONTENT_def NODES_WITH_RENAMABLE_FORM_HTML_CONTENT_def)

subsection \<open>Renaming a node\<close>

definition restricted_names :: "string list" where
  \<comment> \<open>the restricted keys in lower case\<close>
  "restricted_names =
     [''hasownproperty'', ''isprototypeof'', ''propertyisenumerable'', ''tolocalestring'', ''tostring'',
      ''valueof'', ''constructor'', ''prototype'', ''__proto__'', ''__definegetter__'', ''__definesetter__'',
      ''__lookupgetter__'', ''__lookupsetter__'']"

definition lower_char :: "char \<Rightarrow> char" where
  "lower_char c = (if 65 \<le> (of_char c :: nat) \<and> (of_char c :: nat) \<le> 90 then char_of (of_char c + 32 :: nat) else c)"

definition rename_key :: "string \<Rightarrow> string \<Rightarrow> 'v jsobj \<Rightarrow> 'v jsobj" where
  \<comment> \<open>\<^verbatim>\<open>o[new] = o[old]; delete o[old]\<close>\<close>
  "rename_key old new m =
     (case obj_get m old of None \<Rightarrow> m | Some v \<Rightarrow> obj_delete old (obj_set new v m))"

definition retarget :: "string \<Rightarrow> string \<Rightarrow> connection \<Rightarrow> connection" where
  "retarget currentName newName c = (if c_node c = currentName then c\<lparr>c_node := newName\<rparr> else c)"

fun map_slot :: "('a \<Rightarrow> 'b) \<Rightarrow> 'a slot \<Rightarrow> 'b slot" where
  "map_slot f (Val x) = Val (f x)"
| "map_slot f Null = Null"
| "map_slot f Undefined = Undefined"

definition retarget_connections :: "string \<Rightarrow> string \<Rightarrow> connections \<Rightarrow> connections" where
  "retarget_connections currentName newName conns =
     map (\<lambda>(s, entry). (s, map (\<lambda>(t, slots).
       (t, map (map_slot (map (retarget currentName newName))) slots)) entry)) conns"

definition rename_own :: "string \<Rightarrow> string \<Rightarrow> node jsobj \<Rightarrow> node jsobj" where
  "rename_own currentName newName nodes =
     (case obj_get nodes currentName of
        None \<Rightarrow> nodes
      | Some n \<Rightarrow> obj_delete currentName (obj_set newName (n\<lparr>n_name := newName\<rparr>) nodes))"

definition renameNode :: "access_patterns \<Rightarrow> string \<Rightarrow> string \<Rightarrow> workflow \<Rightarrow> workflow result" where
  "renameNode apply_patterns currentName newName w =
     (if map lower_char newName \<in> set restricted_names
      then Inl (UserError (''Node name '' @ [CHR 0x22] @ newName @ [CHR 0x22] @ '' is a restricted name.''))
      else Inr (w\<lparr>
        w_nodes := map (\<lambda>(k, n). (k, rename_parameters apply_patterns currentName newName n))
          (rename_own currentName newName (w_nodes w)),
        w_connectionsBySourceNode := retarget_connections currentName newName
          (rename_key currentName newName (w_connectionsBySourceNode w))\<rparr>))"

lemma map_of_map_values: "map_of (map (\<lambda>(k, v). (k, f v)) m) k = map_option f (map_of m k)"
  by (induction m) auto

lemma rename_parameters_simps [simp]:
  "n_name (rename_parameters p a b n) = n_name n" "n_type (rename_parameters p a b n) = n_type n"
  by (simp_all add: rename_parameters_def Let_def)

text \<open>
  Renaming moves the node to its new name and keeps every other node under its own; a node that had
  the new name before is replaced.
\<close>

theorem renameNode_nodes:
  assumes "renameNode apply_patterns currentName newName w = Inr w'" and "currentName \<noteq> newName"
    and "obj_get (w_nodes w) currentName = Some n"
  shows "map_option n_name (obj_get (w_nodes w') nm) =
    (if nm = newName then Some newName
     else if nm = currentName then None
     else map_option n_name (obj_get (w_nodes w) nm))"
proof -
  have w': "w_nodes w' = map (\<lambda>(k, n). (k, rename_parameters apply_patterns currentName newName n))
      (rename_own currentName newName (w_nodes w))"
    using assms(1) by (auto simp: renameNode_def split: if_splits)
  show ?thesis
    unfolding w' map_of_map_values rename_own_def
    using assms(2,3) by (simp add: map_get_delete option.map_comp o_def)
qed

lemma renameNode_keeps_destinations:
  "renameNode p a b w = Inr w' \<Longrightarrow> w_connectionsByDestinationNode w' = w_connectionsByDestinationNode w"
  by (auto simp: renameNode_def split: if_splits)

theorem renameNode_nodes_witness:
  "\<exists>w'. renameNode (\<lambda>s a b. s) ''A'' ''C'' sample_workflow = Inr w' \<and>
     map_option n_name (obj_get (w_nodes w') ''C'') = Some ''C''"
proof -
  have "map lower_char ''C'' \<notin> set restricted_names" by code_simp
  then obtain w' where w': "renameNode (\<lambda>s a b. s) ''A'' ''C'' sample_workflow = Inr w'"
    by (simp add: renameNode_def)
  then show ?thesis
    using renameNode_nodes [OF w' _ sample_workflow_nodes(1), of "''C''"] by simp
qed

text \<open>
  Renaming a node to the name it has deletes it, and its outgoing connections with it.
\<close>

theorem renameNode_same_name_deletes:
  assumes "well_keyed (w_nodes w)" and "renameNode apply_patterns nm nm w = Inr w'"
  shows "obj_get (w_nodes w') nm = None \<and> obj_get (w_connectionsBySourceNode w') nm = None"
proof -
  have "obj_get (rename_own nm nm (w_nodes w)) nm = None"
    by (simp add: rename_own_def map_get_delete split: option.split)
  moreover have "obj_get (rename_key nm nm (w_connectionsBySourceNode w)) nm = None"
    by (simp add: rename_key_def map_get_delete split: option.split)
  moreover have "w_nodes w' = map (\<lambda>(k, n). (k, rename_parameters apply_patterns nm nm n)) (rename_own nm nm (w_nodes w))"
    and "w_connectionsBySourceNode w' = retarget_connections nm nm (rename_key nm nm (w_connectionsBySourceNode w))"
    using assms(2) by (auto simp: renameNode_def split: if_splits)
  ultimately show ?thesis by (simp add: map_of_map_values retarget_connections_def)
qed

theorem renameNode_same_name_deletes_witness:
  "\<exists>w'. renameNode (\<lambda>s a b. s) ''A'' ''A'' sample_workflow = Inr w' \<and> obj_get (w_nodes w') ''A'' = None"
proof -
  have "map lower_char ''A'' \<notin> set restricted_names" by code_simp
  then obtain w' where w': "renameNode (\<lambda>s a b. s) ''A'' ''A'' sample_workflow = Inr w'"
    by (simp add: renameNode_def)
  moreover have "well_keyed (w_nodes sample_workflow)" by code_simp
  ultimately show ?thesis using renameNode_same_name_deletes by blast
qed

text \<open>
  The connections by destination are not renamed: after a renaming a parent is still listed under
  its old name.
\<close>

theorem renameNode_stale_destinations:
  assumes "renameNode apply_patterns ''A'' newName sample_workflow = Inr w'"
  shows "''A'' \<in> set (parentNodes w' ''B'' (OfType Main))"
proof -
  have "parentNodes w' ''B'' (OfType Main) = parentNodes sample_workflow ''B'' (OfType Main)"
    using renameNode_keeps_destinations [OF assms] by (simp add: parentNodes_def)
  moreover have "''A'' \<in> set (parentNodes sample_workflow ''B'' (OfType Main))" by code_simp
  ultimately show ?thesis by simp
qed

theorem renameNode_stale_destinations_witness:
  "\<exists>w'. renameNode (\<lambda>s a b. s) ''A'' ''C'' sample_workflow = Inr w' \<and> ''A'' \<in> set (parentNodes w' ''B'' (OfType Main))"
proof -
  have "map lower_char ''C'' \<notin> set restricted_names" by code_simp
  then obtain w' where w': "renameNode (\<lambda>s a b. s) ''A'' ''C'' sample_workflow = Inr w'"
    by (simp add: renameNode_def)
  then show ?thesis using renameNode_stale_destinations by blast
qed

subsection \<open>Static data\<close>

text \<open>
  An observable object notes in \<^verbatim>\<open>__dataChanged\<close> of the root that it, or an object inside it, was written. Writing
  an empty object to a missing key of the root does not count (option \<^verbatim>\<open>ignoreEmptyOnFirstChild\<close>).
\<close>

record observable =
  ob_data :: "js jsobj"
  ob_changed :: bool

definition observable_create :: "js jsobj \<Rightarrow> observable" where
  "observable_create target = \<lparr>ob_data = target, ob_changed = False\<rparr>"

definition observable_delete :: "string \<Rightarrow> observable \<Rightarrow> observable" where
  "observable_delete name ob = ob\<lparr>ob_data := obj_delete name (ob_data ob), ob_changed := True\<rparr>"

definition is_object :: "js \<Rightarrow> bool" where
  \<comment> \<open>\<^verbatim>\<open>typeof value === 'object'\<close>\<close>
  "is_object v = (case v of JObj _ \<Rightarrow> True | JArr _ \<Rightarrow> True | JNull \<Rightarrow> True | _ \<Rightarrow> False)"

text \<open>Writing a key of the root.\<close>

definition observable_set :: "string \<Rightarrow> js \<Rightarrow> observable \<Rightarrow> observable result" where
  "observable_set name v ob =
     (if param_value (ob_data ob) name = JUndefined \<and> is_object v then
        (if v = JNull then Inl (TypeError ''Cannot convert undefined or null to object'')
         else if js_entries v = [] then Inr (ob\<lparr>ob_data := obj_set name v (ob_data ob)\<rparr>)
         else Inr (ob\<lparr>ob_data := obj_set name v (ob_data ob), ob_changed := True\<rparr>))
      else Inr (ob\<lparr>ob_data := obj_set name v (ob_data ob), ob_changed := True\<rparr>))"

text \<open>Writing a key of the object stored under \<open>key\<close>: the root is always marked.\<close>

definition observable_set_child :: "string \<Rightarrow> string \<Rightarrow> js \<Rightarrow> observable \<Rightarrow> observable" where
  "observable_set_child key name v ob =
     (case obj_get (ob_data ob) key of
        Some (JObj kvs) \<Rightarrow> ob\<lparr>ob_data := obj_set key (JObj (obj_set name v kvs)) (ob_data ob), ob_changed := True\<rparr>
      | _ \<Rightarrow> ob)"

definition static_key :: "string \<Rightarrow> node option \<Rightarrow> string result" where
  "static_key type n =
     (if type = ''global'' then Inr ''global''
      else if type = ''node'' then
        (case n of
           None \<Rightarrow> Inl (UnexpectedError ''The request data of context type \"node\" the node parameter has to be set!'')
         | Some m \<Rightarrow> Inr (''node:'' @ n_name m))
      else Inl (UnexpectedError ''Unknown context type. Only `global` and `node` are supported.''))"

text \<open>The static data and the value read; test data takes precedence where it has the key.\<close>

definition getStaticData ::
  "js jsobj option \<Rightarrow> observable \<Rightarrow> string \<Rightarrow> node option \<Rightarrow> (observable \<times> js) result" where
  "getStaticData testStaticData staticData type n =
     bind_result (static_key type n) (\<lambda>key.
       if js_truthy (param_value (or_empty testStaticData) key)
       then Inr (staticData, param_value (or_empty testStaticData) key)
       else if param_value (ob_data staticData) key = JUndefined
       then bind_result (observable_set key (JObj []) staticData) (\<lambda>ob. Inr (ob, param_value (ob_data ob) key))
       else Inr (staticData, param_value (ob_data staticData) key))"

lemma param_value_set [simp]: "param_value (obj_set k v m) k' = (if k' = k then v else param_value m k')"
  by (simp add: param_value_def)

text \<open>
  Reading static data never marks the workflow as changed, so it is not saved for it; writing inside
  the object that was read does.
\<close>

theorem getStaticData_unchanged:
  assumes "getStaticData None staticData type n = Inr (ob, v)" and "static_key type n = Inr key"
  shows "ob_changed ob = ob_changed staticData \<and> param_value (ob_data ob) key = v \<and> v \<noteq> JUndefined \<and>
    (\<forall>name x. (\<exists>kvs. v = JObj kvs) \<longrightarrow> ob_changed (observable_set_child key name x ob))"
proof -
  have "ob_changed ob = ob_changed staticData" and v: "param_value (ob_data ob) key = v" and nu: "v \<noteq> JUndefined"
    using assms by (auto simp: getStaticData_def observable_set_def is_object_def bind_result_eq_Inr
        param_value_def [of "[]"] split: if_splits)
  moreover have "ob_changed (observable_set_child key name x ob)" if "v = JObj kvs" for name x kvs
    using v that by (auto simp: observable_set_child_def param_value_def split: option.splits)
  ultimately show ?thesis by blast
qed

theorem getStaticData_unchanged_witness:
  "\<not> ob_changed (fst (observable_create [(''global'', JObj [])], JObj []))"
  using getStaticData_unchanged [of "observable_create []" "''global''" None
      "\<lparr>ob_data = [(''global'', JObj [])], ob_changed = False\<rparr>" "JObj []" "''global''"]
  by (simp add: getStaticData_def static_key_def observable_set_def observable_create_def is_object_def
      param_value_def obj_set_def array_index_def is_digit_def)

text \<open>
  Storing \<^verbatim>\<open>null\<close> under a new key of the static data throws, because the test for an empty object asks
  \<^verbatim>\<open>null\<close> for its keys.
\<close>

theorem observable_set_null_throws:
  assumes "obj_get (ob_data ob) name = None"
  shows "observable_set name JNull ob = Inl (TypeError ''Cannot convert undefined or null to object'')"
  using assms by (simp add: observable_set_def param_value_def is_object_def)

theorem observable_set_null_throws_witness:
  "observable_set ''k'' JNull (observable_create []) = Inl (TypeError ''Cannot convert undefined or null to object'')"
  by (rule observable_set_null_throws) (simp add: observable_create_def)

end
