(* ===== verification/EngineState.thy ===== *)
theory EngineState
  imports ExecutionStack WorkflowEdits
begin

section \<open>The state of an execution\<close>

text \<open>
  What \<^verbatim>\<open>packages/core/src/execution-engine/workflow-execute.ts\<close> keeps in \<^verbatim>\<open>runExecutionData\<close> and in its own
  fields, the constructor of run data (\<^verbatim>\<open>packages/workflow/src/run-execution-data-factory.ts\<close>), the
  execution statuses and the small operations on the state: the stack, the run index, the retry
  budget, the stored task data, the timeout and the run filter.

  A node is one object wherever it is stored: changing it (\<open>update_node\<close>) changes every copy with the
  same reference. Run data without execution data is not modelled: every function of the engine
  that touches it asserts that it is there.
\<close>

subsection \<open>Run data\<close>

datatype destination_mode = Inclusive | Exclusive

record destination_node =
  dn_nodeName :: string
  dn_mode :: destination_mode

record run_state =
  rs_destinationNode :: "destination_node option"
  rs_originalDestinationNode :: "destination_node option"
  rs_runNodeFilter :: "string list option"
  rs_error :: "exec_error option"
  rs_runData :: run_data
  rs_pinData :: "pin_data option"
  rs_lastNodeExecuted :: "string option"
  rs_nodeExecutionStack :: "execute_data list"
  rs_metadata :: "task_metadata list jsobj"
  rs_waitingExecution :: waiting_execution
  rs_waitingExecutionSource :: "waiting_source option"
  rs_waitTill :: "nat option"

text \<open>The options of \<^verbatim>\<open>createRunExecutionData\<close>; an option left out is \<open>None\<close>.\<close>

record run_options =
  ro_destinationNode :: "destination_node option"
  ro_originalDestinationNode :: "destination_node option"
  ro_runNodeFilter :: "string list option"
  ro_error :: "exec_error option"
  ro_runData :: "run_data option"
  ro_pinData :: "pin_data option"
  ro_lastNodeExecuted :: "string option"
  ro_nodeExecutionStack :: "execute_data list option"
  ro_metadata :: "task_metadata list jsobj option"
  ro_waitingExecution :: "waiting_execution option"
  ro_waitingExecutionSource :: "waiting_source option"
  ro_waitTill :: "nat option"

definition no_options :: run_options where
  "no_options =
    \<lparr>ro_destinationNode = None, ro_originalDestinationNode = None, ro_runNodeFilter = None, ro_error = None,
     ro_runData = None, ro_pinData = None, ro_lastNodeExecuted = None, ro_nodeExecutionStack = None,
     ro_metadata = None, ro_waitingExecution = None, ro_waitingExecutionSource = None, ro_waitTill = None\<rparr>"

definition buildResultData :: "run_options \<Rightarrow> run_state \<Rightarrow> run_state" where
  "buildResultData opts st =
     st\<lparr>rs_error := ro_error opts, rs_runData := or_empty (ro_runData opts), rs_pinData := ro_pinData opts,
        rs_lastNodeExecuted := ro_lastNodeExecuted opts\<rparr>"

definition buildExecutionData :: "run_options \<Rightarrow> run_state \<Rightarrow> run_state" where
  "buildExecutionData opts st =
     st\<lparr>rs_nodeExecutionStack := or_empty (ro_nodeExecutionStack opts), rs_metadata := or_empty (ro_metadata opts),
        rs_waitingExecution := or_empty (ro_waitingExecution opts),
        rs_waitingExecutionSource := Some (or_empty (ro_waitingExecutionSource opts))\<rparr>"

definition createRunExecutionData :: "run_options \<Rightarrow> run_state" where
  "createRunExecutionData opts =
     buildExecutionData opts (buildResultData opts
       \<lparr>rs_destinationNode = ro_destinationNode opts,
        rs_originalDestinationNode = ro_originalDestinationNode opts,
        rs_runNodeFilter = ro_runNodeFilter opts, rs_error = None, rs_runData = [], rs_pinData = None,
        rs_lastNodeExecuted = None, rs_nodeExecutionStack = [], rs_metadata = [], rs_waitingExecution = [],
        rs_waitingExecutionSource = None, rs_waitTill = ro_waitTill opts\<rparr>)"

definition empty_task :: task_data where
  "empty_task = \<lparr>td_executionIndex = None, td_source = [], td_executionStatus = None, td_data = None,
     td_inputOverride = None, td_error = None, td_metadata = None\<rparr>"

definition createErrorExecutionData :: "node \<Rightarrow> exec_error \<Rightarrow> run_state" where
  "createErrorExecutionData n err =
    \<lparr>rs_destinationNode = Some \<lparr>dn_nodeName = n_name n, dn_mode = Inclusive\<rparr>, rs_originalDestinationNode = None,
     rs_runNodeFilter = Some [n_name n], rs_error = Some err,
     rs_runData = [(n_name n, [empty_task\<lparr>td_executionIndex := Some 0, td_error := Some err\<rparr>])],
     rs_pinData = None, rs_lastNodeExecuted = Some (n_name n),
     rs_nodeExecutionStack =
       [\<lparr>ed_node = n,
         ed_data = [(Main, [Val [empty_item\<lparr>i_pairedItem :=
           Some (PairedObject \<lparr>pi_item = 0, pi_input = None, pi_sourceOverwrite = None\<rparr>)\<rparr>]])],
         ed_source = None, ed_metadata = None, ed_runIndex = None\<rparr>],
     rs_metadata = [], rs_waitingExecution = [], rs_waitingExecutionSource = Some [], rs_waitTill = None\<rparr>"

subsection \<open>Execution statuses\<close>

definition ExecutionStatusList :: "ExecutionStatus list" where
  "ExecutionStatusList = [Canceled, Crashed, Error, New, Running, Success, Unknown, Waiting]"

definition isCompletedExecutionStatus :: "ExecutionStatus \<Rightarrow> bool" where
  "isCompletedExecutionStatus s \<longleftrightarrow> s = Crashed \<or> s = Error \<or> s = Success"

definition CRASHABLE_EXECUTION_STATUSES :: "ExecutionStatus list" where
  "CRASHABLE_EXECUTION_STATUSES = [New, Running, Unknown]"

definition isTerminalExecutionStatus :: "ExecutionStatus option \<Rightarrow> bool" where
  "isTerminalExecutionStatus s \<longleftrightarrow>
     s = Some Canceled \<or> s = Some Crashed \<or> s = Some Error \<or> s = Some Success"

text \<open>
  Every status is exactly one of: terminal, crashable by recovery, or waiting; the completed ones are
  the terminal ones other than canceled.
\<close>

theorem execution_status_partition:
  "s \<in> set ExecutionStatusList \<and>
   (isTerminalExecutionStatus (Some s) \<longleftrightarrow> s \<notin> set CRASHABLE_EXECUTION_STATUSES \<and> s \<noteq> Waiting) \<and>
   (isCompletedExecutionStatus s \<longleftrightarrow> isTerminalExecutionStatus (Some s) \<and> s \<noteq> Canceled)"
  by (cases s) (simp_all add: ExecutionStatusList_def isTerminalExecutionStatus_def
      CRASHABLE_EXECUTION_STATUSES_def isCompletedExecutionStatus_def)

subsection \<open>The engine\<close>

text \<open>
  The fields of \<^verbatim>\<open>WorkflowExecute\<close> and the variables its loop keeps from round to round. The workflow is
  part of the state because nodes are changed in place. \<open>en_ticks\<close> counts the questions asked of the
  outside world (the clock, the nodes), which may answer each differently.
\<close>

record engine =
  en_run :: run_state
  en_workflow :: workflow
  en_status :: ExecutionStatus
  en_timedOut :: bool
  en_executionIndex :: nat
  en_lastExecutionTry :: string
  en_executionError :: "exec_error option"
  en_ticks :: nat

definition isLegacyExecutionOrder :: "workflow \<Rightarrow> bool" where
  "isLegacyExecutionOrder w \<longleftrightarrow> w_executionOrder w \<noteq> Some ''v1''"

definition update_node :: "nat \<Rightarrow> (node \<Rightarrow> node) \<Rightarrow> node \<Rightarrow> node" where
  "update_node ref f n = (if n_ref n = ref then f n else n)"

definition update_workflow_node :: "nat \<Rightarrow> (node \<Rightarrow> node) \<Rightarrow> workflow \<Rightarrow> workflow" where
  "update_workflow_node ref f w = w\<lparr>w_nodes := map (\<lambda>(k, n). (k, update_node ref f n)) (w_nodes w)\<rparr>"

definition update_stack_node :: "nat \<Rightarrow> (node \<Rightarrow> node) \<Rightarrow> run_state \<Rightarrow> run_state" where
  "update_stack_node ref f st =
     st\<lparr>rs_nodeExecutionStack :=
        map (\<lambda>e. e\<lparr>ed_node := update_node ref f (ed_node e)\<rparr>) (rs_nodeExecutionStack st)\<rparr>"

definition isExecutionStackNotEmpty :: "run_state \<Rightarrow> bool" where
  "isExecutionStackNotEmpty st \<longleftrightarrow> rs_nodeExecutionStack st \<noteq> []"

definition popExecutionStack :: "run_state \<Rightarrow> (execute_data \<times> run_state) option" where
  "popExecutionStack st =
     (case rs_nodeExecutionStack st of
        [] \<Rightarrow> None
      | e # rest \<Rightarrow> Some (e, st\<lparr>rs_nodeExecutionStack := rest\<rparr>))"

definition pushExecutionStack :: "execute_data \<Rightarrow> run_state \<Rightarrow> run_state" where
  "pushExecutionStack e st = st\<lparr>rs_nodeExecutionStack := e # rs_nodeExecutionStack st\<rparr>"

definition enqueue_last :: "execute_data \<Rightarrow> run_state \<Rightarrow> run_state" where
  "enqueue_last e st = st\<lparr>rs_nodeExecutionStack := rs_nodeExecutionStack st @ [e]\<rparr>"

text \<open>\<^verbatim>\<open>nodeExecutionStack[enqueueFn]\<close>: \<^verbatim>\<open>unshift\<close> in the order v1, else \<^verbatim>\<open>push\<close>.\<close>

definition enqueue :: "workflow \<Rightarrow> execute_data \<Rightarrow> run_state \<Rightarrow> run_state" where
  "enqueue w e st =
     (if w_executionOrder w = Some ''v1'' then pushExecutionStack e st else enqueue_last e st)"

definition shouldStopExecuting :: "bool \<Rightarrow> engine \<Rightarrow> bool \<times> engine" where
  \<comment> \<open>the first argument is \<^verbatim>\<open>hasExecutionTimedOut()\<close>\<close>
  "shouldStopExecuting timedOut en =
     (let en = (if timedOut then en\<lparr>en_status := Canceled, en_timedOut := True\<rparr> else en)
      in (en_status en = Canceled, en))"

definition isNodeFilteredOut :: "run_state \<Rightarrow> string \<Rightarrow> bool" where
  "isNodeFilteredOut st nodeName \<longleftrightarrow>
     (case rs_runNodeFilter st of None \<Rightarrow> False | Some names \<Rightarrow> nodeName \<notin> set names)"

definition createTaskStartedData :: "execute_data \<Rightarrow> engine \<Rightarrow> task_data \<times> engine" where
  "createTaskStartedData e en =
     (empty_task\<lparr>td_executionIndex := Some (en_executionIndex en),
        td_source := (case ed_source e of None \<Rightarrow> [] | Some s \<Rightarrow> or_empty (obj_get s Main))\<rparr>,
      en\<lparr>en_executionIndex := Suc (en_executionIndex en)\<rparr>)"

definition computeRunIndex :: "run_state \<Rightarrow> execute_data \<Rightarrow> nat" where
  "computeRunIndex st e =
     (case ed_runIndex e of
        Some i \<Rightarrow> i
      | None \<Rightarrow>
          (case obj_get (rs_runData st) (n_name (ed_node e)) of None \<Rightarrow> 0 | Some tasks \<Rightarrow> length tasks))"

definition or_number :: "rat option \<Rightarrow> rat \<Rightarrow> rat" where
  \<comment> \<open>\<^verbatim>\<open>x || d\<close> for an optional number\<close>
  "or_number x d = (case x of None \<Rightarrow> d | Some y \<Rightarrow> if y = 0 then d else y)"

definition getRetryParams :: "execute_data \<Rightarrow> rat \<times> rat" where
  "getRetryParams e =
     (let isResumedError = (case ed_metadata e of None \<Rightarrow> False | Some m \<Rightarrow> tm_resumeError m \<noteq> None) in
      if n_retryOnFail (ed_node e) \<noteq> Some True \<or> isResumedError then (1, 0)
      else (min 5 (max 2 (or_number (n_maxTries (ed_node e)) 3)),
            min 5000 (max 0 (or_number (n_waitBetweenTries (ed_node e)) 1000))))"

definition getPinnedOutput :: "run_state \<Rightarrow> node \<Rightarrow> item list slot list option" where
  "getPinnedOutput st n =
     (case rs_pinData st of
        None \<Rightarrow> None
      | Some pinData \<Rightarrow>
          if is_disabled n then None
          else (case obj_get pinData (n_name n) of None \<Rightarrow> None | Some items \<Rightarrow> Some [Val items]))"

text \<open>\<^verbatim>\<open>Object.assign(old, taskData)\<close>: fields the new record has win.\<close>

definition or_else :: "'a option \<Rightarrow> 'a option \<Rightarrow> 'a option" where
  "or_else new old = (case new of None \<Rightarrow> old | Some x \<Rightarrow> Some x)"

definition assign_task :: "task_data \<Rightarrow> task_data \<Rightarrow> task_data" where
  "assign_task old new =
    \<lparr>td_executionIndex = or_else (td_executionIndex new) (td_executionIndex old), td_source = td_source new,
     td_executionStatus = or_else (td_executionStatus new) (td_executionStatus old),
     td_data = or_else (td_data new) (td_data old),
     td_inputOverride = or_else (td_inputOverride new) (td_inputOverride old),
     td_error = or_else (td_error new) (td_error old),
     td_metadata = td_metadata new\<rparr>"

definition upsertTaskData :: "string \<Rightarrow> nat \<Rightarrow> task_data \<Rightarrow> run_state \<Rightarrow> run_state result" where
  "upsertTaskData nodeName runIndex taskData st =
     (case obj_get (rs_runData st) nodeName of
        None \<Rightarrow> Inl (TypeError ''Cannot read properties of undefined'')
      | Some tasks \<Rightarrow>
          Inr (st\<lparr>rs_runData := obj_set nodeName
            (if runIndex < length tasks then tasks[runIndex := assign_task (tasks ! runIndex) taskData]
             else tasks @ [taskData]) (rs_runData st)\<rparr>))"

definition updateTaskStatusesToCancelled :: "run_state \<Rightarrow> run_state" where
  "updateTaskStatusesToCancelled st =
     st\<lparr>rs_runData := map (\<lambda>(k, tasks).
        (k, map (\<lambda>t. if td_executionStatus t = Some Running then t\<lparr>td_executionStatus := Some Canceled\<rparr> else t) tasks))
        (rs_runData st)\<rparr>"

definition merge_metadata :: "task_metadata option \<Rightarrow> task_metadata \<Rightarrow> task_metadata" where
  \<comment> \<open>\<^verbatim>\<open>{ ...old, ...new }\<close>\<close>
  "merge_metadata old new =
     (case old of None \<Rightarrow> new | Some m \<Rightarrow>
       \<lparr>tm_subExecution = or_else (tm_subExecution new) (tm_subExecution m),
        tm_subNodeExecutionData = or_else (tm_subNodeExecutionData new) (tm_subNodeExecutionData m),
        tm_preserveSourceOverwrite = or_else (tm_preserveSourceOverwrite new) (tm_preserveSourceOverwrite m),
        tm_preservedSourceOverwrite = or_else (tm_preservedSourceOverwrite new) (tm_preservedSourceOverwrite m),
        tm_nodeWasResumed = or_else (tm_nodeWasResumed new) (tm_nodeWasResumed m),
        tm_forwardAllOutputs = or_else (tm_forwardAllOutputs new) (tm_forwardAllOutputs m),
        tm_resumeError = or_else (tm_resumeError new) (tm_resumeError m)\<rparr>)"

definition add_task_metadata :: "string \<Rightarrow> nat \<Rightarrow> task_metadata \<Rightarrow> run_data \<Rightarrow> run_data" where
  "add_task_metadata nodeName index m runData =
     (case obj_get runData nodeName of
        None \<Rightarrow> runData
      | Some tasks \<Rightarrow>
          if index < length tasks
          then obj_set nodeName (tasks[index := (tasks ! index)\<lparr>td_metadata :=
                 Some (merge_metadata (td_metadata (tasks ! index)) m)\<rparr>]) runData
          else runData)"

definition moveNodeMetadata :: "run_state \<Rightarrow> run_state" where
  "moveNodeMetadata st =
     st\<lparr>rs_runData := foldl (\<lambda>rd p. foldl (\<lambda>rd q. add_task_metadata (fst p) (fst q) (snd q) rd) rd
        (enumerate 0 (snd p))) (rs_runData st) (rs_metadata st)\<rparr>"

end
