(* ===== verification/WaitingNodes.thy ===== *)
theory WaitingNodes
  imports EngineState
begin

section \<open>Scheduling nodes and waiting for their inputs\<close>

text \<open>
  \<^verbatim>\<open>addNodeToBeExecuted\<close> of \<^verbatim>\<open>workflow-execute.ts\<close> with the functions it uses. A node with one input is put on
  the stack at once; a node with more gets a waiting entry per run, in two dictionaries (the data and
  its source) that are filled together, and moves to the stack when no input is \<^verbatim>\<open>null\<close> any more. In the
  legacy execution order the first partial input also schedules the other parents.

  Entries of the stack hold nodes: where the code would put \<^verbatim>\<open>undefined\<close> for a node that is not in the
  workflow, which throws when the entry is used, the model throws at once.
\<close>

definition undefined_property :: js_error where
  "undefined_property = TypeError ''Cannot read properties of undefined''"

definition required :: "'a option \<Rightarrow> 'a result" where
  \<comment> \<open>a value of which a property is read or written next\<close>
  "required x = (case x of None \<Rightarrow> Inl undefined_property | Some y \<Rightarrow> Inr y)"

lemma required_simps [simp]: "required None = Inl undefined_property" "required (Some x) = Inr x"
  by (simp_all add: required_def)

lemma required_Inr [result_simps]: "required x = Inr y \<longleftrightarrow> x = Some y"
  by (cases x) simp_all

subsection \<open>Empty connections\<close>

text \<open>\<^verbatim>\<open>get(runData, [node, runIndex, 'data', 'main', index])\<close>\<close>

definition output_items :: "run_data \<Rightarrow> string \<Rightarrow> nat \<Rightarrow> nat \<Rightarrow> item list slot" where
  "output_items runData nm runIndex i =
     (case obj_get runData nm of
        None \<Rightarrow> Undefined
      | Some tasks \<Rightarrow>
          if runIndex < length tasks
          then (case td_data (tasks ! runIndex) of
                  None \<Rightarrow> Undefined
                | Some d \<Rightarrow> arr_get (or_empty (obj_get d Main)) i)
          else Undefined)"

fun incomingConnectionIsEmpty :: "run_data \<Rightarrow> connection list \<Rightarrow> nat \<Rightarrow> bool result" where
  "incomingConnectionIsEmpty runData [] runIndex = Inr True"
| "incomingConnectionIsEmpty runData (c # cs) runIndex =
     (case output_items runData (c_node c) runIndex (c_index c) of
        Undefined \<Rightarrow> incomingConnectionIsEmpty runData cs runIndex
      | Null \<Rightarrow> Inl (TypeError ''Cannot read properties of null'')
      | Val items \<Rightarrow> if items \<noteq> [] then Inr False else incomingConnectionIsEmpty runData cs runIndex)"

subsection \<open>Waiting entries\<close>

definition run_get :: "'v by_run jsobj \<Rightarrow> string \<Rightarrow> nat \<Rightarrow> 'v option" where
  "run_get m nm i = (case obj_get m nm of None \<Rightarrow> None | Some byRun \<Rightarrow> map_get byRun i)"

definition run_put :: "string \<Rightarrow> nat \<Rightarrow> 'v \<Rightarrow> 'v by_run jsobj \<Rightarrow> 'v by_run jsobj" where
  "run_put nm i v m = obj_set nm (run_set i v (or_empty (obj_get m nm))) m"

definition main_of :: "('a slot list jsobj) by_run jsobj \<Rightarrow> string \<Rightarrow> nat \<Rightarrow> 'a slot list result" where
  "main_of m nm i = bind_result (required (run_get m nm i)) (\<lambda>conns. required (obj_get conns Main))"

definition set_main ::
  "string \<Rightarrow> nat \<Rightarrow> nat \<Rightarrow> 'a slot \<Rightarrow> ('a slot list jsobj) by_run jsobj \<Rightarrow> ('a slot list jsobj) by_run jsobj result"
where
  \<comment> \<open>\<^verbatim>\<open>m[nm][i].main[input] = v\<close>\<close>
  "set_main nm i input v m =
     bind_result (required (run_get m nm i)) (\<lambda>conns.
     bind_result (required (obj_get conns Main)) (\<lambda>xs.
       Inr (run_put nm i (obj_set Main (arr_set xs input v) conns) m)))"

definition run_delete :: "string \<Rightarrow> nat \<Rightarrow> 'v by_run jsobj \<Rightarrow> 'v by_run jsobj" where
  "run_delete nm i m =
     (case obj_get m nm of None \<Rightarrow> m | Some byRun \<Rightarrow> obj_set nm (AList.delete i byRun) m)"

definition prepareWaitingToExecution :: "string \<Rightarrow> nat \<Rightarrow> nat \<Rightarrow> run_state \<Rightarrow> run_state" where
  "prepareWaitingToExecution nodeName numberOfConnections runIndex st =
     st\<lparr>rs_waitingExecution :=
          run_put nodeName runIndex [(Main, replicate numberOfConnections Null)] (rs_waitingExecution st),
        rs_waitingExecutionSource := Some
          (run_put nodeName runIndex [(Main, replicate numberOfConnections Null)]
            (or_empty (rs_waitingExecutionSource st)))\<rparr>"

text \<open>The first waiting run, in ascending order, that has nothing on the given input.\<close>

fun find_waiting :: "nat \<Rightarrow> (item list slot list jsobj) by_run \<Rightarrow> nat option result" where
  "find_waiting input [] = Inr None"
| "find_waiting input ((i, conns) # rest) =
     bind_result (required (obj_get conns Main)) (\<lambda>xs.
       case arr_get xs input of
         Val _ \<Rightarrow> find_waiting input rest
       | _ \<Rightarrow> Inr (Some i))"

text \<open>What is handed over: the data of one output and where it comes from.\<close>

definition handed_data :: "item list slot list option \<Rightarrow> nat \<Rightarrow> item list slot" where
  "handed_data nodeSuccessData outputIndex =
     (case nodeSuccessData of None \<Rightarrow> Null | Some outputs \<Rightarrow> arr_get outputs outputIndex)"

definition handed_source :: "string \<Rightarrow> nat \<Rightarrow> nat \<Rightarrow> source_data" where
  "handed_source parentNodeName outputIndex runIndex =
     \<lparr>sd_previousNode = parentNodeName, sd_previousNodeOutput = Some outputIndex, sd_previousNodeRun = Some runIndex\<rparr>"

text \<open>
  The entry the data goes to: one that has nothing on the input yet, else a new one, whose index is the
  number of entries there are.
\<close>

definition waiting_entry :: "workflow \<Rightarrow> connection \<Rightarrow> run_state \<Rightarrow> (nat \<times> run_state) result" where
  "waiting_entry w conn st =
     (let nm = c_node conn;
          entries = or_empty (obj_get (rs_waitingExecution st) nm)
      in bind_result (find_waiting (c_index conn) entries) (\<lambda>found.
           case found of
             Some i \<Rightarrow> Inr (i, st)
           | None \<Rightarrow> Inr (length entries,
               prepareWaitingToExecution nm (length (or_empty (main_inputs w nm))) (length entries) st)))"

definition open_waiting :: "string \<Rightarrow> run_state \<Rightarrow> bool \<times> run_state" where
  \<comment> \<open>makes sure there are dictionaries for the node; tells whether it was waiting\<close>
  "open_waiting nm st =
     (let source = or_empty (rs_waitingExecutionSource st) in
      if obj_get (rs_waitingExecution st) nm = None
      then (False, st\<lparr>rs_waitingExecution := obj_set nm [] (rs_waitingExecution st),
                     rs_waitingExecutionSource := Some (obj_set nm [] source)\<rparr>)
      else (True, st\<lparr>rs_waitingExecutionSource := Some source\<rparr>))"

definition store_waiting ::
  "connection \<Rightarrow> nat \<Rightarrow> string \<Rightarrow> item list slot list option \<Rightarrow> nat \<Rightarrow> nat \<Rightarrow> run_state \<Rightarrow> run_state result" where
  "store_waiting conn outputIndex parentNodeName nodeSuccessData runIndex i st =
     bind_result (set_main (c_node conn) i (c_index conn) (handed_data nodeSuccessData outputIndex)
       (rs_waitingExecution st)) (\<lambda>waiting.
     bind_result (set_main (c_node conn) i (c_index conn)
       (if nodeSuccessData = None then Null else Val (handed_source parentNodeName outputIndex runIndex))
       (or_empty (rs_waitingExecutionSource st))) (\<lambda>source.
     Inr (st\<lparr>rs_waitingExecution := waiting, rs_waitingExecutionSource := Some source\<rparr>)))"

definition all_data_found :: "'a slot list \<Rightarrow> bool" where
  \<comment> \<open>only \<^verbatim>\<open>null\<close> counts as missing\<close>
  "all_data_found xs \<longleftrightarrow> Null \<notin> set xs"

text \<open>Moving a complete entry to the stack.\<close>

definition drop_waiting :: "string \<Rightarrow> nat \<Rightarrow> run_state \<Rightarrow> run_state" where
  "drop_waiting nm i st =
     (let waiting = run_delete nm i (rs_waitingExecution st);
          source = run_delete nm i (or_empty (rs_waitingExecutionSource st))
      in if or_empty (obj_get waiting nm) = []
         then st\<lparr>rs_waitingExecution := obj_delete nm waiting, rs_waitingExecutionSource := Some (obj_delete nm source)\<rparr>
         else st\<lparr>rs_waitingExecution := waiting, rs_waitingExecutionSource := Some source\<rparr>)"

definition release_waiting :: "workflow \<Rightarrow> string \<Rightarrow> nat \<Rightarrow> run_state \<Rightarrow> run_state result" where
  "release_waiting w nm i st =
     bind_result (required (getNode w nm)) (\<lambda>n.
     bind_result (required (run_get (rs_waitingExecution st) nm i)) (\<lambda>data.
     bind_result (required (run_get (or_empty (rs_waitingExecutionSource st)) nm i)) (\<lambda>source.
       Inr (drop_waiting nm i (enqueue w
         \<lparr>ed_node = n, ed_data = data, ed_source = Some source, ed_metadata = None, ed_runIndex = None\<rparr> st)))))"

subsection \<open>The legacy order: scheduling the other parents\<close>

definition check_output_nodes :: "workflow \<Rightarrow> string \<Rightarrow> string list result" where
  "check_output_nodes w parentNodeName =
     bind_result (required (obj_get (w_connectionsBySourceNode w) parentNodeName)) (\<lambda>entry.
       Inr (output_targets (or_empty (obj_get entry Main))))"

definition first_input_empty :: "workflow \<Rightarrow> run_data \<Rightarrow> string \<Rightarrow> nat \<Rightarrow> bool result" where
  \<comment> \<open>\<^verbatim>\<open>incomingConnectionIsEmpty(runData, connectionsByDestinationNode[nm].main[0] ?? [], runIndex)\<close>\<close>
  "first_input_empty w runData nm runIndex =
     bind_result (required (main_inputs w nm)) (\<lambda>inputs.
       incomingConnectionIsEmpty runData (slot_list (arr_get inputs 0)) runIndex)"

text \<open>Walking up the parents, farthest last: the node to add, if any.\<close>

fun choose_parent :: "string \<Rightarrow> string list \<Rightarrow> string list \<Rightarrow> run_data \<Rightarrow> string list \<Rightarrow> string \<Rightarrow> string option" where
  "choose_parent inputNode checkOutputNodes stackNodes runData [] candidate = Some candidate"
| "choose_parent inputNode checkOutputNodes stackNodes runData (p # ps) candidate =
     (if inputNode \<noteq> p \<and> p \<in> set checkOutputNodes then None
      else if p \<in> set stackNodes then None
      else if map_has runData p then Some candidate
      else choose_parent inputNode checkOutputNodes stackNodes runData ps p)"

definition output_length_zero :: "item list slot list option \<Rightarrow> nat \<Rightarrow> bool result" where
  \<comment> \<open>\<^verbatim>\<open>nodeSuccessData[outputIndex].length === 0\<close>\<close>
  "output_length_zero nodeSuccessData outputIndex =
     (case nodeSuccessData of
        None \<Rightarrow> Inl (TypeError ''Cannot read properties of null'')
      | Some outputs \<Rightarrow>
          (case arr_get outputs outputIndex of
             Val items \<Rightarrow> Inr (items = [])
           | Null \<Rightarrow> Inl (TypeError ''Cannot read properties of null'')
           | Undefined \<Rightarrow> Inl undefined_property))"

definition empty_start :: "node \<Rightarrow> source_data \<Rightarrow> execute_data" where
  "empty_start n src =
    \<lparr>ed_node = n, ed_data = [(Main, [Val [empty_item]])], ed_source = Some [(Main, [Val src])],
     ed_metadata = None, ed_runIndex = None\<rparr>"

definition sibling_is_settled ::
  "workflow \<Rightarrow> string list \<Rightarrow> nat \<Rightarrow> string \<Rightarrow> run_state \<Rightarrow> bool result" where
  \<comment> \<open>the tests that leave a parent alone\<close>
  "sibling_is_settled w checkOutputNodes runIndex inputNode st =
     bind_result
       (if inputNode \<in> set checkOutputNodes
        then bind_result (first_input_empty w (rs_runData st) inputNode runIndex) (\<lambda>empty. Inr (\<not> empty))
        else Inr False) (\<lambda>runsAnyway.
     Inr (runsAnyway \<or> inputNode \<in> set (map (\<lambda>e. n_name (ed_node e)) (rs_nodeExecutionStack st)) \<or>
          map_has (rs_runData st) inputNode \<or> \<not> isLegacyExecutionOrder w))"

definition add_sibling ::
  "workflow \<Rightarrow> string \<Rightarrow> item list slot list option \<Rightarrow> nat \<Rightarrow> nat \<Rightarrow> string list \<Rightarrow> connection \<Rightarrow> run_state \<Rightarrow> run_state result"
where
  "add_sibling w parentNodeName nodeSuccessData outputIndex runIndex checkOutputNodes inputData st =
     (let inputNode = c_node inputData in
      if inputNode = parentNodeName then Inr st
      else bind_result (sibling_is_settled w checkOutputNodes runIndex inputNode st) (\<lambda>settled.
      if settled then Inr st
      else
        let stackNodes = map (\<lambda>e. n_name (ed_node e)) (rs_nodeExecutionStack st);
            parents = rev (parentNodes w inputNode (OfType Main) @ [inputNode]);
            chosen = choose_parent inputNode checkOutputNodes stackNodes (rs_runData st) parents inputNode;
            lookup = (case chosen of None \<Rightarrow> ''undefined'' | Some nm \<Rightarrow> nm)
        in bind_result
             (if parentNodeName \<in> set (parentNodes w lookup (OfType Main))
              then output_length_zero nodeSuccessData outputIndex else Inr False) (\<lambda>skip.
           case (if skip then None else chosen) of
             None \<Rightarrow> Inr st
           | Some nm \<Rightarrow>
               bind_result
                 (if obj_get (w_connectionsByDestinationNode w) nm = None then Inr True
                  else first_input_empty w (rs_runData st) nm runIndex) (\<lambda>addEmptyItem.
               if addEmptyItem
               then bind_result (required (getNode w nm)) (\<lambda>n.
                      Inr (enqueue w (empty_start n (handed_source parentNodeName outputIndex runIndex)) st))
               else Inr st))))"

definition add_siblings ::
  "workflow \<Rightarrow> connection \<Rightarrow> string \<Rightarrow> item list slot list option \<Rightarrow> nat \<Rightarrow> nat \<Rightarrow> run_state \<Rightarrow> run_state result" where
  "add_siblings w conn parentNodeName nodeSuccessData outputIndex runIndex st =
     bind_result (check_output_nodes w parentNodeName) (\<lambda>checkOutputNodes.
       fold_result (add_sibling w parentNodeName nodeSuccessData outputIndex runIndex checkOutputNodes)
         (concat (map slot_list (or_empty (main_inputs w (c_node conn))))) st)"

subsection \<open>addNodeToBeExecuted\<close>

text \<open>The end of the function for an entry that still waits: it is written again with its data.\<close>

definition keep_waiting ::
  "workflow \<Rightarrow> connection \<Rightarrow> item list slot \<Rightarrow> nat \<Rightarrow> run_state \<Rightarrow> run_state result" where
  "keep_waiting w conn data i st =
     bind_result (main_of (rs_waitingExecution st) (c_node conn) i) (\<lambda>xs.
     bind_result (main_of (or_empty (rs_waitingExecutionSource st)) (c_node conn) i) (\<lambda>sources.
       let st = prepareWaitingToExecution (c_node conn) (length (or_empty (main_inputs w (c_node conn)))) i st
       in Inr (st\<lparr>rs_waitingExecution :=
            run_put (c_node conn) i [(Main, arr_set xs (c_index conn) data)] (rs_waitingExecution st),
          rs_waitingExecutionSource := Some
            (run_put (c_node conn) i [(Main, sources)] (or_empty (rs_waitingExecutionSource st)))\<rparr>)))"

definition add_to_waiting ::
  "workflow \<Rightarrow> connection \<Rightarrow> nat \<Rightarrow> string \<Rightarrow> item list slot list option \<Rightarrow> nat \<Rightarrow> run_state \<Rightarrow> run_state result" where
  \<comment> \<open>a node with more than one input\<close>
  "add_to_waiting w conn outputIndex parentNodeName nodeSuccessData runIndex st =
     (let (nodeWasWaiting, st) = open_waiting (c_node conn) st in
      bind_result (waiting_entry w conn st) (\<lambda>(i, st).
      bind_result (store_waiting conn outputIndex parentNodeName nodeSuccessData runIndex i st) (\<lambda>st.
      bind_result (main_of (rs_waitingExecution st) (c_node conn) i) (\<lambda>xs.
      if all_data_found xs then release_waiting w (c_node conn) i st
      else bind_result
        (if nodeWasWaiting then Inr st
         else add_siblings w conn parentNodeName nodeSuccessData outputIndex runIndex st) (\<lambda>st.
        keep_waiting w conn (handed_data nodeSuccessData outputIndex) i st)))))"

definition direct_entry ::
  "node \<Rightarrow> connection \<Rightarrow> nat \<Rightarrow> string \<Rightarrow> item list slot list option \<Rightarrow> nat \<Rightarrow> nat option \<Rightarrow> task_metadata option \<Rightarrow> execute_data"
where
  "direct_entry n conn outputIndex parentNodeName nodeSuccessData runIndex newRunIndex metadata =
    \<lparr>ed_node = n,
     ed_data = [(Main, arr_set (replicate (Suc (c_index conn)) Null) (c_index conn) (handed_data nodeSuccessData outputIndex))],
     ed_source = Some [(Main, [Val (handed_source parentNodeName outputIndex runIndex)])],
     ed_metadata = metadata, ed_runIndex = newRunIndex\<rparr>"

definition addNodeToBeExecuted ::
  "workflow \<Rightarrow> connection \<Rightarrow> nat \<Rightarrow> string \<Rightarrow> item list slot list option \<Rightarrow> nat \<Rightarrow> nat option \<Rightarrow> task_metadata option \<Rightarrow>
    run_state \<Rightarrow> run_state result"
where
  "addNodeToBeExecuted w conn outputIndex parentNodeName nodeSuccessData runIndex newRunIndex metadata st =
     (if 1 < length (or_empty (main_inputs w (c_node conn)))
      then add_to_waiting w conn outputIndex parentNodeName nodeSuccessData runIndex st
      else case getNode w (c_node conn) of
        None \<Rightarrow> Inr st
      | Some n \<Rightarrow> Inr (enqueue w
          (direct_entry n conn outputIndex parentNodeName nodeSuccessData runIndex newRunIndex metadata) st))"

subsection \<open>The two dictionaries stay in step\<close>

lemma run_get_put [simp]:
  "run_get (run_put nm i v m) nm' i' = (if nm' = nm \<and> i' = i then Some v else run_get m nm' i')"
  by (auto simp: run_get_def run_put_def or_empty_def split: option.split)

lemma obj_get_run_put [simp]: "obj_get (run_put nm i v m) nm' = None \<longleftrightarrow> nm' \<noteq> nm \<and> obj_get m nm' = None"
  by (simp add: run_put_def)

lemma run_get_delete [simp]:
  "run_get (run_delete nm i m) nm' i' = (if nm' = nm \<and> i' = i then None else run_get m nm' i')"
  by (auto simp: run_get_def run_delete_def map_get_delete split: option.split)

lemma obj_get_run_delete [simp]: "obj_get (run_delete nm i m) nm' = None \<longleftrightarrow> obj_get m nm' = None"
  by (auto simp: run_delete_def split: option.split)

lemma run_get_obj_delete: "run_get (obj_delete nm m) nm' i = (if nm' = nm then None else run_get m nm' i)"
  by (simp add: run_get_def map_get_delete)

lemma run_get_none: "or_empty (obj_get m nm) = [] \<Longrightarrow> run_get m nm i = None"
  by (auto simp: run_get_def or_empty_def split: option.splits)

lemma run_get_new [simp]:
  "run_get (obj_set nm [] m) nm' i = (if nm' = nm then None else run_get m nm' i)"
  by (simp add: run_get_def)

definition entry_match :: "task_data_connections \<Rightarrow> source_connections \<Rightarrow> bool" where
  \<comment> \<open>the same inputs, and a source for every input with data\<close>
  "entry_match d s \<longleftrightarrow>
     (\<exists>xs ys. d = [(Main, xs)] \<and> s = [(Main, ys)] \<and> length xs = length ys \<and>
        (\<forall>j v. arr_get xs j = Val v \<longrightarrow> (\<exists>u. arr_get ys j = Val u)))"

definition in_step :: "waiting_execution \<Rightarrow> waiting_source \<Rightarrow> bool" where
  "in_step waiting source \<longleftrightarrow>
     (\<forall>nm. obj_get waiting nm = None \<longleftrightarrow> obj_get source nm = None) \<and>
     (\<forall>nm i. rel_option entry_match (run_get waiting nm i) (run_get source nm i))"

definition waiting_inv :: "run_state \<Rightarrow> bool" where
  "waiting_inv st \<longleftrightarrow> in_step (rs_waitingExecution st) (or_empty (rs_waitingExecutionSource st))"

definition stack_inv :: "workflow \<Rightarrow> run_state \<Rightarrow> bool" where
  \<comment> \<open>every entry of the stack is for a node of the workflow\<close>
  "stack_inv w st \<longleftrightarrow> list_all (\<lambda>e. \<exists>nm. getNode w nm = Some (ed_node e)) (rs_nodeExecutionStack st)"

lemma in_step_empty [simp]: "in_step [] []"
  by (simp add: in_step_def run_get_def)

lemma in_step_get: "in_step m s \<Longrightarrow> rel_option entry_match (run_get m nm i) (run_get s nm i)"
  by (simp add: in_step_def)

lemma in_step_put:
  "in_step m s \<Longrightarrow> entry_match d e \<Longrightarrow> in_step (run_put nm i d m) (run_put nm i e s)"
  by (simp add: in_step_def)

lemma in_step_delete: "in_step m s \<Longrightarrow> in_step (run_delete nm i m) (run_delete nm i s)"
  by (simp add: in_step_def)

lemma in_step_obj_delete: "in_step m s \<Longrightarrow> in_step (obj_delete nm m) (obj_delete nm s)"
  by (simp add: in_step_def map_get_delete run_get_obj_delete)

lemma in_step_new: "in_step m s \<Longrightarrow> in_step (obj_set nm [] m) (obj_set nm [] s)"
  by (simp add: in_step_def)

lemma entry_match_fresh: "entry_match [(Main, replicate n Null)] [(Main, replicate n Null)]"
  by (auto simp: entry_match_def arr_get_def)

lemma entry_match_set:
  assumes "entry_match d s" and "obj_get d Main = Some xs" and "obj_get s Main = Some ys"
    and "\<And>v. x = Val v \<Longrightarrow> \<exists>u. y = Val u"
  shows "entry_match (obj_set Main (arr_set xs j x) d) (obj_set Main (arr_set ys j y) s)"
  using assms by (auto simp: entry_match_def obj_set_def)

lemma waiting_inv_enqueue [simp]: "waiting_inv (enqueue w e st) = waiting_inv st"
  by (simp add: waiting_inv_def enqueue_def pushExecutionStack_def enqueue_last_def)

lemma enqueue_waiting [simp]:
  "rs_waitingExecution (enqueue w e st) = rs_waitingExecution st"
  "rs_waitingExecutionSource (enqueue w e st) = rs_waitingExecutionSource st"
  by (simp_all add: enqueue_def pushExecutionStack_def enqueue_last_def)

lemma enqueue_stack: "set (rs_nodeExecutionStack (enqueue w e st)) = insert e (set (rs_nodeExecutionStack st))"
  by (auto simp: enqueue_def pushExecutionStack_def enqueue_last_def)

lemma stack_inv_enqueue: "stack_inv w st \<Longrightarrow> getNode w nm = Some (ed_node e) \<Longrightarrow> stack_inv w (enqueue w e st)"
  by (auto simp: stack_inv_def list_all_iff enqueue_stack)

lemma waiting_inv_prepare: "waiting_inv st \<Longrightarrow> waiting_inv (prepareWaitingToExecution nm n i st)"
  by (simp add: waiting_inv_def prepareWaitingToExecution_def in_step_put entry_match_fresh)

lemma stack_inv_prepare [simp]: "stack_inv w (prepareWaitingToExecution nm n i st) = stack_inv w st"
  by (simp add: stack_inv_def prepareWaitingToExecution_def)

lemma prepare_stack: "rs_nodeExecutionStack (prepareWaitingToExecution nm n i st) = rs_nodeExecutionStack st"
  by (simp add: prepareWaitingToExecution_def)

lemma open_waiting_inv:
  "open_waiting nm st = (b, st') \<Longrightarrow> waiting_inv st \<Longrightarrow>
    waiting_inv st' \<and> rs_nodeExecutionStack st' = rs_nodeExecutionStack st"
  by (auto simp: open_waiting_def waiting_inv_def in_step_new Let_def split: if_splits)

lemma waiting_entry_inv:
  "waiting_entry w conn st = Inr (i, st') \<Longrightarrow> waiting_inv st \<Longrightarrow>
    waiting_inv st' \<and> rs_nodeExecutionStack st' = rs_nodeExecutionStack st"
  using waiting_inv_prepare [of st]
  by (auto simp: waiting_entry_def bind_result_eq_Inr Let_def prepare_stack split: option.splits)

lemma set_main_Inr:
  "set_main nm i j v m = Inr m' \<longleftrightarrow>
    (\<exists>d xs. run_get m nm i = Some d \<and> obj_get d Main = Some xs \<and>
      m' = run_put nm i (obj_set Main (arr_set xs j v) d) m)"
  by (auto simp: set_main_def bind_result_eq_Inr result_simps)

lemma main_of_Inr: "main_of m nm i = Inr xs \<longleftrightarrow> (\<exists>d. run_get m nm i = Some d \<and> obj_get d Main = Some xs)"
  by (auto simp: main_of_def bind_result_eq_Inr result_simps)

lemma store_waiting_inv:
  assumes "store_waiting conn oi p data r i st = Inr st'" and "waiting_inv st"
  shows "waiting_inv st' \<and> rs_nodeExecutionStack st' = rs_nodeExecutionStack st"
proof -
  let ?s = "or_empty (rs_waitingExecutionSource st)"
  obtain d xs s ys where get: "run_get (rs_waitingExecution st) (c_node conn) i = Some d" "obj_get d Main = Some xs"
      "run_get ?s (c_node conn) i = Some s" "obj_get s Main = Some ys"
    and st': "st' = st\<lparr>rs_waitingExecution := run_put (c_node conn) i
          (obj_set Main (arr_set xs (c_index conn) (handed_data data oi)) d) (rs_waitingExecution st),
        rs_waitingExecutionSource := Some (run_put (c_node conn) i
          (obj_set Main (arr_set ys (c_index conn) (if data = None then Null else Val (handed_source p oi r))) s) ?s)\<rparr>"
    using assms(1) by (auto simp: store_waiting_def bind_result_eq_Inr set_main_Inr)
  have "entry_match d s"
    using in_step_get [of "rs_waitingExecution st" ?s "c_node conn" i] assms(2) get by (simp add: waiting_inv_def)
  then have "entry_match (obj_set Main (arr_set xs (c_index conn) (handed_data data oi)) d)
      (obj_set Main (arr_set ys (c_index conn) (if data = None then Null else Val (handed_source p oi r))) s)"
    using get by (intro entry_match_set) (auto simp: handed_data_def split: option.splits)
  then show ?thesis using assms(2) by (simp add: st' waiting_inv_def in_step_put)
qed

lemma drop_waiting_inv:
  "waiting_inv st \<Longrightarrow> waiting_inv (drop_waiting nm i st) \<and>
    rs_nodeExecutionStack (drop_waiting nm i st) = rs_nodeExecutionStack st"
  by (simp add: drop_waiting_def waiting_inv_def Let_def in_step_delete in_step_obj_delete)

lemma release_waiting_inv:
  assumes "release_waiting w nm i st = Inr st'" and "waiting_inv st" and "stack_inv w st"
  shows "waiting_inv st' \<and> stack_inv w st'"
proof -
  obtain n d src where n: "getNode w nm = Some n"
    and "st' = drop_waiting nm i (enqueue w
      \<lparr>ed_node = n, ed_data = d, ed_source = Some src, ed_metadata = None, ed_runIndex = None\<rparr> st)"
    using assms(1) by (auto simp: release_waiting_def bind_result_eq_Inr result_simps)
  then obtain e where e: "ed_node e = n" and st': "st' = drop_waiting nm i (enqueue w e st)"
    by (metis execute_data.select_convs(1))
  have "stack_inv w (enqueue w e st)" using assms(3) n e stack_inv_enqueue by blast
  moreover have "waiting_inv (enqueue w e st)" using assms(2) by simp
  ultimately show ?thesis using drop_waiting_inv unfolding st' stack_inv_def by simp
qed

lemma add_sibling_inv:
  assumes "add_sibling w p data oi r check c st = Inr st'" and "waiting_inv st" and "stack_inv w st"
  shows "waiting_inv st' \<and> stack_inv w st' \<and> rs_waitingExecution st' = rs_waitingExecution st \<and>
    rs_waitingExecutionSource st' = rs_waitingExecutionSource st"
  using assms stack_inv_enqueue [of w st]
  by (auto simp: add_sibling_def bind_result_eq_Inr result_simps Let_def empty_start_def
      split: if_splits option.splits)

lemma add_siblings_inv:
  assumes "add_siblings w conn p data oi r st = Inr st'" and "waiting_inv st" and "stack_inv w st"
  shows "waiting_inv st' \<and> stack_inv w st' \<and> rs_waitingExecution st' = rs_waitingExecution st \<and>
    rs_waitingExecutionSource st' = rs_waitingExecutionSource st"
proof -
  obtain check where "fold_result (add_sibling w p data oi r check)
      (concat (map slot_list (or_empty (main_inputs w (c_node conn))))) st = Inr st'"
    using assms(1) by (auto simp: add_siblings_def bind_result_eq_Inr)
  then show ?thesis
  proof (rule fold_result_inv)
    show "waiting_inv st \<and> stack_inv w st \<and> rs_waitingExecution st = rs_waitingExecution st \<and>
        rs_waitingExecutionSource st = rs_waitingExecutionSource st" using assms by simp
  next
    fix c t t'
    assume "waiting_inv t \<and> stack_inv w t \<and> rs_waitingExecution t = rs_waitingExecution st \<and>
        rs_waitingExecutionSource t = rs_waitingExecutionSource st" and "add_sibling w p data oi r check c t = Inr t'"
    then show "waiting_inv t' \<and> stack_inv w t' \<and> rs_waitingExecution t' = rs_waitingExecution st \<and>
        rs_waitingExecutionSource t' = rs_waitingExecutionSource st"
      using add_sibling_inv by fastforce
  qed
qed

lemma keep_waiting_Inr:
  assumes "keep_waiting w conn x i st = Inr st'"
  obtains xs ys where "main_of (rs_waitingExecution st) (c_node conn) i = Inr xs"
    and "main_of (or_empty (rs_waitingExecutionSource st)) (c_node conn) i = Inr ys"
    and "rs_waitingExecution st' = run_put (c_node conn) i [(Main, arr_set xs (c_index conn) x)]
      (run_put (c_node conn) i [(Main, replicate (length (or_empty (main_inputs w (c_node conn)))) Null)] (rs_waitingExecution st))"
    and "rs_waitingExecutionSource st' = Some (run_put (c_node conn) i [(Main, ys)]
      (run_put (c_node conn) i [(Main, replicate (length (or_empty (main_inputs w (c_node conn)))) Null)]
        (or_empty (rs_waitingExecutionSource st))))"
    and "rs_nodeExecutionStack st' = rs_nodeExecutionStack st"
  using assms
  by (auto simp: keep_waiting_def bind_result_eq_Inr Let_def prepareWaitingToExecution_def)

lemma keep_waiting_inv:
  assumes "keep_waiting w conn x i st = Inr st'" and "waiting_inv st" and "stack_inv w st"
    and old: "\<And>xs. main_of (rs_waitingExecution st) (c_node conn) i = Inr xs \<Longrightarrow> arr_get xs (c_index conn) = x \<and> c_index conn < length xs"
  shows "waiting_inv st' \<and> stack_inv w st'"
  using assms(1)
proof (rule keep_waiting_Inr)
  fix xs ys
  assume xs: "main_of (rs_waitingExecution st) (c_node conn) i = Inr xs"
    and ys: "main_of (or_empty (rs_waitingExecutionSource st)) (c_node conn) i = Inr ys"
    and w: "rs_waitingExecution st' = run_put (c_node conn) i [(Main, arr_set xs (c_index conn) x)]
      (run_put (c_node conn) i [(Main, replicate (length (or_empty (main_inputs w (c_node conn)))) Null)] (rs_waitingExecution st))"
    and s: "rs_waitingExecutionSource st' = Some (run_put (c_node conn) i [(Main, ys)]
      (run_put (c_node conn) i [(Main, replicate (length (or_empty (main_inputs w (c_node conn)))) Null)]
        (or_empty (rs_waitingExecutionSource st))))"
    and stack: "rs_nodeExecutionStack st' = rs_nodeExecutionStack st"
  let ?src = "or_empty (rs_waitingExecutionSource st)"
  have "rel_option entry_match (run_get (rs_waitingExecution st) (c_node conn) i) (run_get ?src (c_node conn) i)"
    using assms(2) in_step_get unfolding waiting_inv_def by blast
  then have m: "entry_match [(Main, xs)] [(Main, ys)]"
    using xs ys by (auto simp: main_of_Inr entry_match_def)
  have "arr_set xs (c_index conn) x = xs"
    using old [OF xs] by (auto simp: arr_set_def arr_get_def list_update_same_conv)
  then have "in_step (rs_waitingExecution st') (or_empty (rs_waitingExecutionSource st'))"
    using assms(2) m by (simp add: w s waiting_inv_def in_step_put entry_match_fresh)
  then show ?thesis using assms(3) stack by (simp add: waiting_inv_def stack_inv_def)
qed

lemma add_to_waiting_inv:
  assumes "add_to_waiting w conn oi p data r st = Inr st'" and "waiting_inv st" and "stack_inv w st"
  shows "waiting_inv st' \<and> stack_inv w st'"
proof -
  obtain b st1 where o: "open_waiting (c_node conn) st = (b, st1)" by force
  then obtain i st2 st3 xs where e: "waiting_entry w conn st1 = Inr (i, st2)"
    and s: "store_waiting conn oi p data r i st2 = Inr st3"
    and m: "main_of (rs_waitingExecution st3) (c_node conn) i = Inr xs"
    and rest: "(if all_data_found xs then release_waiting w (c_node conn) i st3
      else bind_result (if b then Inr st3 else add_siblings w conn p data oi r st3)
        (keep_waiting w conn (handed_data data oi) i)) = Inr st'"
    using assms(1) by (auto simp: add_to_waiting_def bind_result_eq_Inr)
  have 1: "waiting_inv st1" "rs_nodeExecutionStack st1 = rs_nodeExecutionStack st"
    using open_waiting_inv [OF o] assms(2) by simp_all
  have 2: "waiting_inv st2" "rs_nodeExecutionStack st2 = rs_nodeExecutionStack st"
    using waiting_entry_inv [OF e 1(1)] 1(2) by simp_all
  have 3: "waiting_inv st3" "stack_inv w st3"
    using store_waiting_inv [OF s 2(1)] 2(2) assms(3) by (simp_all add: stack_inv_def)
  show ?thesis
  proof (cases "all_data_found xs")
    case True
    with rest 3 release_waiting_inv show ?thesis by simp
  next
    case False
    with rest obtain st4 where st4: "(if b then Inr st3 else add_siblings w conn p data oi r st3) = Inr st4"
      and k: "keep_waiting w conn (handed_data data oi) i st4 = Inr st'"
      by (auto simp: bind_result_eq_Inr)
    have 4: "waiting_inv st4" "stack_inv w st4" "rs_waitingExecution st4 = rs_waitingExecution st3"
      using st4 3 add_siblings_inv [of w conn p data oi r st3 st4] by (auto split: if_splits)
    have "arr_get ys (c_index conn) = handed_data data oi \<and> c_index conn < length ys"
      if "main_of (rs_waitingExecution st4) (c_node conn) i = Inr ys" for ys
      using s that unfolding 4(3)
      by (auto simp: store_waiting_def bind_result_eq_Inr set_main_Inr main_of_Inr less_max_iff_disj)
    with keep_waiting_inv [OF k 4(1,2)] show ?thesis by blast
  qed
qed

lemma addNode_inv:
  assumes "addNodeToBeExecuted w conn outputIndex parentNodeName data runIndex newRunIndex metadata st = Inr st'"
    and "waiting_inv st" and "stack_inv w st"
  shows "waiting_inv st' \<and> stack_inv w st'"
proof (cases "1 < length (or_empty (main_inputs w (c_node conn)))")
  case True
  with assms show ?thesis
    using add_to_waiting_inv [of w conn outputIndex parentNodeName data runIndex st st']
    by (simp add: addNodeToBeExecuted_def)
next
  case False
  with assms show ?thesis
    by (auto simp: addNodeToBeExecuted_def direct_entry_def split: option.splits intro!: stack_inv_enqueue)
qed

text \<open>
  Scheduling a node keeps the two waiting dictionaries in step, entry by entry, with a source for every
  input that has data, and puts only nodes of the workflow on the stack.
\<close>

theorem addNodeToBeExecuted_inv:
  assumes "addNodeToBeExecuted w conn outputIndex parentNodeName data runIndex newRunIndex metadata st = Inr st'"
    and "waiting_inv st" and "stack_inv w st"
  shows "waiting_inv st' \<and> stack_inv w st'"
  using addNode_inv [OF assms] .

subsection \<open>What happens to the data\<close>

text \<open>Data is held for an input of a node if it waits there or is in an entry of the stack for the node.\<close>

definition held :: "workflow \<Rightarrow> run_state \<Rightarrow> string \<Rightarrow> nat \<Rightarrow> item list \<Rightarrow> bool" where
  "held w st nm k items \<longleftrightarrow>
     (\<exists>i. waiting_at (rs_waitingExecution st) nm i Main k = Val items) \<or>
     (\<exists>e \<in> set (rs_nodeExecutionStack st). getNode w nm = Some (ed_node e) \<and>
        arr_get (or_empty (obj_get (ed_data e) Main)) k = Val items)"

definition index_is_free :: "connection \<Rightarrow> run_state \<Rightarrow> bool" where
  \<comment> \<open>a new entry would not get the index of one that is there\<close>
  "index_is_free conn st \<longleftrightarrow>
     (let entries = or_empty (obj_get (rs_waitingExecution st) (c_node conn)) in
      find_waiting (c_index conn) entries = Inr None \<longrightarrow>
        run_get (rs_waitingExecution st) (c_node conn) (length entries) = None)"

lemma waiting_at_run_get: "waiting_at m nm i t k = arr_get (or_empty (obj_get (or_empty (run_get m nm i)) t)) k"
  by (auto simp: waiting_at_def run_get_def or_empty_def split: option.splits)

lemma waiting_at_put [simp]:
  "waiting_at (run_put nm i d m) nm' i' t k =
    (if nm' = nm \<and> i' = i then arr_get (or_empty (obj_get d t)) k else waiting_at m nm' i' t k)"
  by (simp add: waiting_at_run_get)

lemma waiting_at_Val_run_get: "waiting_at m nm i t k = Val v \<Longrightarrow> run_get m nm i \<noteq> None"
  by (cases "run_get m nm i") (auto simp: waiting_at_run_get)

lemma find_waiting_empty_slot:
  "find_waiting k m = Inr (Some i) \<Longrightarrow> distinct (map fst m) \<Longrightarrow>
    \<exists>d xs. map_get m i = Some d \<and> obj_get d Main = Some xs \<and> (\<forall>v. arr_get xs k \<noteq> Val v)"
proof (induction k m rule: find_waiting.induct)
  case (1 k)
  then show ?case by simp
next
  case (2 k j conns rest)
  then obtain xs where xs: "obj_get conns Main = Some xs"
    and c: "(case arr_get xs k of Val _ \<Rightarrow> find_waiting k rest | _ \<Rightarrow> Inr (Some j)) = Inr (Some i)"
    by (auto simp: bind_result_eq_Inr result_simps)
  show ?case
  proof (cases "\<exists>v. arr_get xs k = Val v")
    case True
    then obtain v where v: "arr_get xs k = Val v" ..
    with c have rest: "find_waiting k rest = Inr (Some i)" by simp
    have "distinct (map fst rest)" using "2.prems"(2) by simp
    then obtain d ys where d: "map_get rest i = Some d" "obj_get d Main = Some ys" "\<forall>v. arr_get ys k \<noteq> Val v"
      using "2.IH" [OF _ v rest] xs by (auto simp: result_simps)
    then have "i \<in> fst ` set rest" by (force dest: map_of_SomeD)
    then have "i \<noteq> j" using "2.prems"(2) by auto
    with d show ?thesis by simp
  next
    case False
    then have "i = j" using c by (cases "arr_get xs k") simp_all
    with False xs show ?thesis by simp
  qed
qed

text \<open>Where waiting data can be overwritten: at the slot that is written, if it holds data.\<close>

definition keeps_waiting :: "run_state \<Rightarrow> run_state \<Rightarrow> bool" where
  "keeps_waiting st st' \<longleftrightarrow>
     (\<forall>nm i k v. waiting_at (rs_waitingExecution st) nm i Main k = Val v \<longrightarrow>
        waiting_at (rs_waitingExecution st') nm i Main k = Val v)"

lemma open_waiting_keeps:
  "open_waiting nm st = (b, st') \<Longrightarrow> keeps_waiting st st' \<and> or_empty (obj_get (rs_waitingExecution st') nm') =
    or_empty (obj_get (rs_waitingExecution st) nm') \<and> run_get (rs_waitingExecution st') nm' i = run_get (rs_waitingExecution st) nm' i"
  by (auto simp: open_waiting_def keeps_waiting_def waiting_at_run_get Let_def run_get_def split: if_splits)

definition sorted_runs :: "run_state \<Rightarrow> bool" where
  "sorted_runs st \<longleftrightarrow> (\<forall>nm. distinct (map fst (or_empty (obj_get (rs_waitingExecution st) nm))))"

lemma waiting_entry_keeps:
  assumes e: "waiting_entry w conn st = Inr (i, st')" and free: "index_is_free conn st" and srt: "sorted_runs st"
  shows "keeps_waiting st st' \<and> (\<forall>v. waiting_at (rs_waitingExecution st') (c_node conn) i Main (c_index conn) \<noteq> Val v)"
proof -
  let ?m = "or_empty (obj_get (rs_waitingExecution st) (c_node conn))"
  obtain found where found: "find_waiting (c_index conn) ?m = Inr found"
    and r: "(case found of Some i \<Rightarrow> Inr (i, st)
      | None \<Rightarrow> Inr (length ?m, prepareWaitingToExecution (c_node conn) (length (or_empty (main_inputs w (c_node conn)))) (length ?m) st))
      = (Inr (i, st') :: (nat \<times> run_state) result)"
    using e unfolding waiting_entry_def Let_def bind_result_eq_Inr by blast
  show ?thesis
  proof (cases found)
    case None
    then have none: "run_get (rs_waitingExecution st) (c_node conn) (length ?m) = None"
      using free found by (simp add: index_is_free_def Let_def)
    have "waiting_at (rs_waitingExecution st) (c_node conn) (length ?m) Main k \<noteq> Val v" for k v
      using none by (auto dest: waiting_at_Val_run_get)
    then show ?thesis
      using r None by (auto simp: keeps_waiting_def prepareWaitingToExecution_def arr_get_def split: if_splits)
  next
    case (Some j)
    then have j: "i = j" "st' = st" using r by simp_all
    have "distinct (map fst ?m)" using srt by (simp add: sorted_runs_def)
    then obtain d xs where d: "map_get ?m i = Some d" "obj_get d Main = Some xs" "\<forall>v. arr_get xs (c_index conn) \<noteq> Val v"
      using find_waiting_empty_slot [of "c_index conn" ?m i] found Some j by blast
    then have "run_get (rs_waitingExecution st) (c_node conn) i = Some d"
      by (auto simp: run_get_def or_empty_def split: option.splits)
    then show ?thesis using d j by (simp add: keeps_waiting_def waiting_at_run_get)
  qed
qed

lemma store_waiting_at:
  assumes "store_waiting conn oi p data r i st = Inr st'"
  shows "waiting_at (rs_waitingExecution st') nm j Main k =
    (if nm = c_node conn \<and> j = i \<and> k = c_index conn then handed_data data oi
     else waiting_at (rs_waitingExecution st) nm j Main k)"
  using assms by (auto simp: store_waiting_def bind_result_eq_Inr set_main_Inr waiting_at_run_get)

lemma release_waiting_held:
  assumes "release_waiting w nm i st = Inr st'" and "waiting_at (rs_waitingExecution st) nm' j Main k = Val v"
  shows "held w st' nm' k v"
proof -
  obtain n d src where n: "getNode w nm = Some n" and d: "run_get (rs_waitingExecution st) nm i = Some d"
    and st': "st' = drop_waiting nm i (enqueue w
      \<lparr>ed_node = n, ed_data = d, ed_source = Some src, ed_metadata = None, ed_runIndex = None\<rparr> st)"
    using assms(1) by (auto simp: release_waiting_def bind_result_eq_Inr result_simps)
  have stack: "rs_nodeExecutionStack st' = rs_nodeExecutionStack (enqueue w
      \<lparr>ed_node = n, ed_data = d, ed_source = Some src, ed_metadata = None, ed_runIndex = None\<rparr> st)"
    by (simp add: st' drop_waiting_def Let_def)
  show ?thesis
  proof (cases "nm' = nm \<and> j = i")
    case True
    then have "arr_get (or_empty (obj_get d Main)) k = Val v"
      using assms(2) d by (simp add: waiting_at_run_get)
    then show ?thesis using True n unfolding held_def stack by (auto simp: enqueue_stack)
  next
    case False
    have "run_get (rs_waitingExecution st') nm' j = run_get (rs_waitingExecution st) nm' j"
    proof (cases "or_empty (obj_get (run_delete nm i (rs_waitingExecution st)) nm) = []")
      case True
      then have "run_get (run_delete nm i (rs_waitingExecution st)) nm j' = None" for j' by (rule run_get_none)
      then have "run_get (rs_waitingExecution st) nm j' = None" if "j' \<noteq> i" for j'
        using that by (metis run_get_delete)
      with True False show ?thesis
        by (auto simp: st' drop_waiting_def Let_def run_get_obj_delete)
    next
      case ne: False
      with False show ?thesis by (auto simp: st' drop_waiting_def Let_def)
    qed
    then have "waiting_at (rs_waitingExecution st') nm' j Main k = Val v"
      using assms(2) by (simp add: waiting_at_run_get)
    then show ?thesis unfolding held_def by blast
  qed
qed

lemma keep_waiting_keeps: "keep_waiting w conn x i st = Inr st' \<Longrightarrow>
    waiting_at (rs_waitingExecution st') nm j Main k =
      (if nm = c_node conn \<and> j = i \<and> k = c_index conn then x else waiting_at (rs_waitingExecution st) nm j Main k)"
  by (elim keep_waiting_Inr) (auto simp: main_of_Inr waiting_at_run_get)

lemma add_sibling_stack:
  "add_sibling w p data oi r check c st = Inr st' \<Longrightarrow>
    set (rs_nodeExecutionStack st) \<subseteq> set (rs_nodeExecutionStack st')"
  by (auto simp: add_sibling_def bind_result_eq_Inr result_simps Let_def enqueue_stack
      split: if_splits option.splits)

lemma add_siblings_stack:
  assumes "add_siblings w conn p data oi r st = Inr st'"
  shows "set (rs_nodeExecutionStack st) \<subseteq> set (rs_nodeExecutionStack st') \<and>
    rs_waitingExecution st' = rs_waitingExecution st"
proof -
  obtain check where "fold_result (add_sibling w p data oi r check)
      (concat (map slot_list (or_empty (main_inputs w (c_node conn))))) st = Inr st'"
    using assms(1) by (auto simp: add_siblings_def bind_result_eq_Inr)
  then show ?thesis
  proof (rule fold_result_inv)
    fix c t t'
    assume t: "set (rs_nodeExecutionStack st) \<subseteq> set (rs_nodeExecutionStack t) \<and>
        rs_waitingExecution t = rs_waitingExecution st" and a: "add_sibling w p data oi r check c t = Inr t'"
    have "rs_waitingExecution t' = rs_waitingExecution t"
      using a by (auto simp: add_sibling_def bind_result_eq_Inr result_simps Let_def split: if_splits option.splits)
    with t add_sibling_stack [OF a] show "set (rs_nodeExecutionStack st) \<subseteq> set (rs_nodeExecutionStack t') \<and>
        rs_waitingExecution t' = rs_waitingExecution st" by auto
  qed simp
qed

lemma held_mono:
  assumes "keeps_waiting st st'" and "set (rs_nodeExecutionStack st) \<subseteq> set (rs_nodeExecutionStack st')"
    and "held w st nm k v"
  shows "held w st' nm k v"
  using assms unfolding held_def keeps_waiting_def by blast

lemma add_to_waiting_held:
  assumes a: "add_to_waiting w conn oi p data r st = Inr st'"
    and free: "index_is_free conn st" and srt: "sorted_runs st"
    and h: "held w st nm k v \<or> (nm = c_node conn \<and> k = c_index conn \<and> handed_data data oi = Val v)"
  shows "held w st' nm k v"
proof -
  obtain b st1 where o: "open_waiting (c_node conn) st = (b, st1)" by force
  then obtain i st2 st3 xs where e: "waiting_entry w conn st1 = Inr (i, st2)"
    and s: "store_waiting conn oi p data r i st2 = Inr st3"
    and "main_of (rs_waitingExecution st3) (c_node conn) i = Inr xs"
    and rest: "(if all_data_found xs then release_waiting w (c_node conn) i st3
      else bind_result (if b then Inr st3 else add_siblings w conn p data oi r st3)
        (keep_waiting w conn (handed_data data oi) i)) = Inr st'"
    using a by (auto simp: add_to_waiting_def bind_result_eq_Inr)
  note open1 = open_waiting_keeps [OF o]
  have free1: "index_is_free conn st1"
    using free open1 [of "c_node conn" 0] open1 [of "c_node conn"] by (auto simp: index_is_free_def Let_def)
  have srt1: "sorted_runs st1" using srt open1 by (simp add: sorted_runs_def)
  have stack: "rs_nodeExecutionStack st1 = rs_nodeExecutionStack st" "rs_nodeExecutionStack st2 = rs_nodeExecutionStack st1"
      "rs_nodeExecutionStack st3 = rs_nodeExecutionStack st2"
    using o e s by (auto simp: open_waiting_def waiting_entry_def store_waiting_def bind_result_eq_Inr prepare_stack Let_def
        split: if_splits option.splits)
  have k12: "keeps_waiting st1 st2" and empty: "\<And>v. waiting_at (rs_waitingExecution st2) (c_node conn) i Main (c_index conn) \<noteq> Val v"
    using waiting_entry_keeps [OF e free1 srt1] by simp_all
  have k23: "keeps_waiting st2 st3"
    using store_waiting_at [OF s] empty unfolding keeps_waiting_def by auto
  have "keeps_waiting st st1" using open1 by blast
  then have keep: "keeps_waiting st st3" using k12 k23 unfolding keeps_waiting_def by blast
  have new: "waiting_at (rs_waitingExecution st3) (c_node conn) i Main (c_index conn) = handed_data data oi"
    using store_waiting_at [OF s] by simp
  have h3: "(\<exists>j. waiting_at (rs_waitingExecution st3) nm j Main k = Val v) \<or>
      (\<exists>e \<in> set (rs_nodeExecutionStack st3). getNode w nm = Some (ed_node e) \<and>
        arr_get (or_empty (obj_get (ed_data e) Main)) k = Val v)"
    using h new keep unfolding held_def keeps_waiting_def stack by metis
  show ?thesis
  proof (cases "all_data_found xs")
    case True
    with rest have rel: "release_waiting w (c_node conn) i st3 = Inr st'" by simp
    have "set (rs_nodeExecutionStack st3) \<subseteq> set (rs_nodeExecutionStack st')"
      using rel by (auto simp: release_waiting_def bind_result_eq_Inr drop_waiting_def Let_def enqueue_stack)
    with h3 release_waiting_held [OF rel] show ?thesis unfolding held_def by blast
  next
    case False
    with rest obtain st4 where st4: "(if b then Inr st3 else add_siblings w conn p data oi r st3) = Inr st4"
      and kw: "keep_waiting w conn (handed_data data oi) i st4 = Inr st'"
      by (auto simp: bind_result_eq_Inr)
    have 4: "set (rs_nodeExecutionStack st3) \<subseteq> set (rs_nodeExecutionStack st4)"
        "rs_waitingExecution st4 = rs_waitingExecution st3"
      using st4 add_siblings_stack [of w conn p data oi r st3 st4] by (auto split: if_splits)
    have "rs_nodeExecutionStack st' = rs_nodeExecutionStack st4" using kw by (rule keep_waiting_Inr)
    moreover have "waiting_at (rs_waitingExecution st') nm j Main k = waiting_at (rs_waitingExecution st3) nm j Main k" for j
      using keep_waiting_keeps [OF kw] new 4(2) by auto
    ultimately show ?thesis using h3 4(1) unfolding held_def by auto
  qed
qed

text \<open>
  C13. If the index of a new waiting entry is free, scheduling a node loses no data: whatever was held for
  an input of a node still is, and so is the data that is handed over now.
\<close>

theorem addNodeToBeExecuted_keeps_data:
  assumes "addNodeToBeExecuted w conn outputIndex parentNodeName data runIndex newRunIndex metadata st = Inr st'"
    and "index_is_free conn st" and "sorted_runs st" and "getNode w (c_node conn) \<noteq> None"
    and "held w st nm k items \<or>
      (nm = c_node conn \<and> k = c_index conn \<and> handed_data data outputIndex = Val items)"
  shows "held w st' nm k items"
proof (cases "1 < length (or_empty (main_inputs w (c_node conn)))")
  case True
  with assms(1) have "add_to_waiting w conn outputIndex parentNodeName data runIndex st = Inr st'"
    by (simp add: addNodeToBeExecuted_def)
  then show ?thesis using assms(2,3,5) by (rule add_to_waiting_held)
next
  case False
  then obtain n where n: "getNode w (c_node conn) = Some n"
    and st': "st' = enqueue w (direct_entry n conn outputIndex parentNodeName data runIndex newRunIndex metadata) st"
    using assms(1,4) by (auto simp: addNodeToBeExecuted_def split: option.splits)
  have "keeps_waiting st st'" by (simp add: keeps_waiting_def st')
  then have "held w st nm k items \<Longrightarrow> ?thesis" by (rule held_mono) (auto simp: st' enqueue_stack)
  moreover have "?thesis" if "nm = c_node conn" "k = c_index conn" "handed_data data outputIndex = Val items"
    using that n unfolding held_def st' by (auto simp: enqueue_stack direct_entry_def)
  ultimately show ?thesis using assms(5) by blast
qed

text \<open>
  A workflow in the order v1: \<open>A\<close> and \<open>B\<close> are connected to the two inputs of \<open>M\<close>.
\<close>

definition merge_workflow :: workflow where
  "merge_workflow = make_workflow sample_types
     [plain_node 0 ''A'' ''t'', plain_node 1 ''B'' ''t'', plain_node 2 ''M'' ''t'']
     [(''A'', [(Main, [Val [connection_to ''M'' Main 0]])]),
      (''B'', [(Main, [Val [connection_to ''M'' Main 1]])])] None (Some ''v1'')"

definition tagged_item :: "string \<Rightarrow> item" where
  "tagged_item s = empty_item\<lparr>i_json := [(''id'', JStr s)]\<rparr>"

lemma tagged_item_inject: "tagged_item s = tagged_item t \<longleftrightarrow> s = t"
proof
  assume "tagged_item s = tagged_item t"
  then have "i_json (tagged_item s) = i_json (tagged_item t)" by simp
  then show "s = t" by (simp add: tagged_item_def)
qed simp

definition deliver :: "string \<Rightarrow> nat \<Rightarrow> string \<Rightarrow> nat \<Rightarrow> run_state \<Rightarrow> run_state result" where
  \<comment> \<open>run \<open>r\<close> of the parent hands one item to the input of \<open>M\<close>\<close>
  "deliver parent input s r st =
     addNodeToBeExecuted merge_workflow (connection_to ''M'' Main input) 0 parent (Some [Val [tagged_item s]]) r None None st"

definition fresh_run :: run_state where
  "fresh_run = createRunExecutionData no_options"

definition after_first :: run_state where
  "after_first = fresh_run\<lparr>
     rs_waitingExecution := [(''M'', [(0, [(Main, [Val [tagged_item ''a1''], Null])])])],
     rs_waitingExecutionSource := Some [(''M'', [(0, [(Main, [Val (handed_source ''A'' 0 0), Null])])])]\<rparr>"

lemma deliver_first: "deliver ''A'' 0 ''a1'' 0 fresh_run = Inr after_first"
  by code_simp

lemma fresh_run_inv: "waiting_inv fresh_run" "stack_inv merge_workflow fresh_run" "sorted_runs fresh_run"
  "index_is_free conn fresh_run"
  by (simp_all add: fresh_run_def createRunExecutionData_def buildExecutionData_def buildResultData_def no_options_def
      waiting_inv_def stack_inv_def sorted_runs_def index_is_free_def run_get_def)

theorem addNodeToBeExecuted_inv_witness:
  "waiting_inv after_first \<and> stack_inv merge_workflow after_first"
  by (rule addNodeToBeExecuted_inv [OF deliver_first [unfolded deliver_def] fresh_run_inv(1,2)])

theorem addNodeToBeExecuted_keeps_data_witness:
  "held merge_workflow after_first ''M'' 0 [tagged_item ''a1'']"
proof (rule addNodeToBeExecuted_keeps_data [OF deliver_first [unfolded deliver_def] fresh_run_inv(4,3)])
  show "getNode merge_workflow (c_node (connection_to ''M'' Main 0)) \<noteq> None" by code_simp
qed (simp add: handed_data_def arr_get_def)

definition three_deliveries :: "run_state result" where
  "three_deliveries =
     bind_result (deliver ''A'' 0 ''a1'' 0 fresh_run) (\<lambda>st.
     bind_result (deliver ''A'' 0 ''a2'' 1 st) (\<lambda>st.
     bind_result (deliver ''B'' 1 ''b1'' 0 st) (\<lambda>st.
     deliver ''A'' 0 ''a3'' 2 st)))"

definition after_three :: run_state where
  "after_three = fresh_run\<lparr>
     rs_nodeExecutionStack :=
       [\<lparr>ed_node = plain_node 2 ''M'' ''t'', ed_data = [(Main, [Val [tagged_item ''a1''], Val [tagged_item ''b1'']])],
         ed_source = Some [(Main, [Val (handed_source ''A'' 0 0), Val (handed_source ''B'' 0 0)])],
         ed_metadata = None, ed_runIndex = None\<rparr>],
     rs_waitingExecution := [(''M'', [(1, [(Main, [Val [tagged_item ''a3''], Null])])])],
     rs_waitingExecutionSource := Some [(''M'', [(1, [(Main, [Val (handed_source ''A'' 0 2), Null])])])]\<rparr>"

lemma three_deliveries_result: "three_deliveries = Inr after_three"
  by code_simp

text \<open>
  The index of a new waiting entry need not be free. \<open>A\<close> runs twice, \<open>B\<close> once, and \<open>A\<close> a third time: the
  first entry has left, the second has index 1, and the third gets index 1 again, the number of
  entries there are. The data of the second run is overwritten.
\<close>

theorem waiting_index_collides:
  "\<exists>st. three_deliveries = Inr st \<and> \<not> held merge_workflow st ''M'' 0 [tagged_item ''a2'']"
proof -
  have "waiting_at (rs_waitingExecution after_three) ''M'' i Main 0 \<noteq> Val [tagged_item ''a2'']" for i
    by (simp add: after_three_def waiting_at_run_get run_get_def arr_get_def or_empty_def tagged_item_inject)
  moreover have "arr_get (or_empty (obj_get (ed_data e) Main)) 0 \<noteq> Val [tagged_item ''a2'']"
    if "e \<in> set (rs_nodeExecutionStack after_three)" for e
    using that by (simp add: after_three_def tagged_item_inject arr_get_def)
  ultimately show ?thesis
    using three_deliveries_result unfolding held_def by blast
qed

end
