(* ===== verification/NodeOutput.thy ===== *)
theory NodeOutput
  imports WaitingNodes
begin

section \<open>The data that goes into a node and comes out of it\<close>

text \<open>
  The functions of \<^verbatim>\<open>workflow-execute.ts\<close> on the items of one node run: what a disabled node passes
  through, which input an executing node sees, the lineage stamped on input items, the pairing of output
  items, the error output, empty output and errors reported in items; and
  \<^verbatim>\<open>node-execution-context/utils/resolve-source-overwrite.ts\<close>.

  Arrays are values: where the code writes into an item that is also stored elsewhere (pinned data), the
  other copy is not changed here. A missing slot stands for a hole, which \<^verbatim>\<open>map\<close> and \<^verbatim>\<open>forEach\<close> skip.
  Looking up the item an item came from (\<^verbatim>\<open>$getPairedItem\<close>) is a parameter.
\<close>

type_synonym output_data = "item list slot list"

text \<open>What a node run returns as data: \<^verbatim>\<open>undefined\<close>, \<^verbatim>\<open>null\<close> or one list of items per output.\<close>

type_synonym node_data = "output_data slot"

definition null_property :: js_error where
  "null_property = TypeError ''Cannot read properties of null''"

subsection \<open>Input\<close>

definition main_data :: "task_data_connections \<Rightarrow> input_data option" where
  "main_data d = obj_get d Main"

definition handleDisabledNode :: "task_data_connections \<Rightarrow> bool \<Rightarrow> node_data" where
  "handleDisabledNode inputData forwardAllOutputs =
     (case main_data inputData of
        None \<Rightarrow> Undefined
      | Some [] \<Rightarrow> Undefined
      | Some (first # rest) \<Rightarrow>
          if forwardAllOutputs then Val (first # rest)
          else if first = Null then Undefined
          else Val [first])"

definition getCustomOperation :: "node \<Rightarrow> node_type \<Rightarrow> bool" where
  \<comment> \<open>whether there is a custom operation for the resource and operation of the node\<close>
  "getCustomOperation n t =
     (case nt_customOperations t of
        None \<Rightarrow> False
      | Some operations \<Rightarrow>
          (case (case n_forceCustomOperation n of
                   Some (resource, operation) \<Rightarrow> (JStr resource, JStr operation)
                 | None \<Rightarrow> (param_value (n_parameters n) ''resource'', param_value (n_parameters n) ''operation'')) of
             (JStr resource, JStr operation) \<Rightarrow> map_has (or_empty (obj_get operations resource)) operation
           | _ \<Rightarrow> False))"

definition nonempty :: "item list slot \<Rightarrow> bool" where
  \<comment> \<open>\<^verbatim>\<open>data?.length\<close> is truthy\<close>
  "nonempty s \<longleftrightarrow> slot_list s \<noteq> []"

text \<open>In the legacy order: the first input with data that came from the node itself or from below it.\<close>

fun loop_back_input ::
  "string \<Rightarrow> string list \<Rightarrow> item list slot list \<Rightarrow> source_data slot list \<Rightarrow> item list slot option" where
  "loop_back_input nm descendants [] sources = None"
| "loop_back_input nm descendants (d # ds) sources =
     (let previousNode = (case sources of Val s # _ \<Rightarrow> Some (sd_previousNode s) | _ \<Rightarrow> None) in
      if nonempty d \<and> previousNode \<noteq> None \<and> (the previousNode = nm \<or> the previousNode \<in> set descendants)
      then Some d
      else loop_back_input nm descendants ds (drop 1 sources))"

definition prepareConnectionInputData ::
  "workflow \<Rightarrow> node_type \<Rightarrow> bool \<Rightarrow> node \<Rightarrow> task_data_connections \<Rightarrow> source_connections option \<Rightarrow> item list option" where
  "prepareConnectionInputData w t customOperation n inputData source =
     (if nt_execute t \<or> customOperation \<or> (\<not> nt_poll t \<and> \<not> nt_trigger t \<and> \<not> nt_webhook t) then
        (case main_data inputData of
           None \<Rightarrow> None
         | Some [] \<Rightarrow> None
         | Some (first # rest) \<Rightarrow>
             let sources = (case source of None \<Rightarrow> [] | Some s \<Rightarrow> or_empty (obj_get s Main));
                 chosen =
                   (if \<not> isLegacyExecutionOrder w
                    then (case List.find nonempty (first # rest) of None \<Rightarrow> first | Some d \<Rightarrow> d)
                    else if \<not> nonempty first \<and> arr_get sources 0 = Null
                    then (case loop_back_input (n_name n) (childNodes w (n_name n) (OfType Main)) (first # rest) sources of
                            None \<Rightarrow> first | Some d \<Rightarrow> d)
                    else first)
             in if nonempty chosen then Some (slot_list chosen) else None)
      else Some [])"

definition handleExecuteOnce :: "node \<Rightarrow> task_data_connections \<Rightarrow> task_data_connections" where
  "handleExecuteOnce n inputData =
     (if n_executeOnce n = Some True
      then map (\<lambda>(t, inputs). (t, map (map_slot (take 1)) inputs)) inputData
      else inputData)"

subsection \<open>Lineage\<close>

definition resolveSourceOverwrite :: "item \<Rightarrow> execute_data \<Rightarrow> source_data option" where
  "resolveSourceOverwrite item e =
     (case ed_metadata e of
        None \<Rightarrow> None
      | Some m \<Rightarrow>
          if tm_preserveSourceOverwrite m \<noteq> Some True then None
          else (case tm_preservedSourceOverwrite m of
            Some s \<Rightarrow> Some s
          | None \<Rightarrow> (case i_pairedItem item of Some (PairedObject p) \<Rightarrow> pi_sourceOverwrite p | _ \<Rightarrow> None)))"

definition stamp_item :: "execute_data \<Rightarrow> nat \<Rightarrow> nat \<Rightarrow> item \<Rightarrow> item" where
  "stamp_item e inputIndex itemIndex item =
     item\<lparr>i_pairedItem := Some (PairedObject
       \<lparr>pi_item = itemIndex, pi_input = (if inputIndex = 0 then None else Some inputIndex),
        pi_sourceOverwrite = resolveSourceOverwrite item e\<rparr>)\<rparr>"

definition addPairedItemLineage :: "execute_data \<Rightarrow> task_data_connections" where
  "addPairedItemLineage e =
     map (\<lambda>(t, inputs).
       (t, map (\<lambda>(inputIndex, input).
              map_slot (\<lambda>items. map (\<lambda>(itemIndex, item). stamp_item e inputIndex itemIndex item) (enumerate 0 items)) input)
            (enumerate 0 inputs)))
       (ed_data e)"

subsection \<open>Pairing output items\<close>

definition pair_to :: "nat \<Rightarrow> paired_item" where
  "pair_to i = PairedObject \<lparr>pi_item = i, pi_input = None, pi_sourceOverwrite = None\<rparr>"

text \<open>
  One output list. \<open>fix_pair\<close> gives the item an unpaired item at an index comes from; without it the loop over
  all outputs is left, which the flag tells.
\<close>

fun pair_items :: "(nat \<Rightarrow> nat) option \<Rightarrow> nat \<Rightarrow> item list \<Rightarrow> item list \<times> bool" where
  "pair_items fix_pair i [] = ([], False)"
| "pair_items fix_pair i (x # xs) =
     (if i_pairedItem x \<noteq> None
      then (let r = pair_items fix_pair (Suc i) xs in (x # fst r, snd r))
      else case fix_pair of
        None \<Rightarrow> (x # xs, True)
      | Some f \<Rightarrow> (let r = pair_items fix_pair (Suc i) xs
                  in (x\<lparr>i_pairedItem := Some (pair_to (f i))\<rparr> # fst r, snd r)))"

fun pair_outputs :: "(nat \<Rightarrow> nat) option \<Rightarrow> output_data \<Rightarrow> output_data result" where
  "pair_outputs fix_pair [] = Inr []"
| "pair_outputs fix_pair (Null # outs) = bind_result (pair_outputs fix_pair outs) (\<lambda>r. Inr (Null # r))"
| "pair_outputs fix_pair (Undefined # outs) = Inl undefined_property"
| "pair_outputs fix_pair (Val items # outs) =
     (let (items', left) = pair_items fix_pair 0 items in
      if left then Inr (Val items' # outs)
      else bind_result (pair_outputs fix_pair outs) (\<lambda>r. Inr (Val items' # r)))"

definition slot_length :: "item list slot \<Rightarrow> nat result" where
  \<comment> \<open>\<^verbatim>\<open>data.length\<close>\<close>
  "slot_length s = (case s of Val items \<Rightarrow> Inr (length items) | Null \<Rightarrow> Inl null_property | Undefined \<Rightarrow> Inl undefined_property)"

definition input_length :: "item list slot \<Rightarrow> nat option" where
  \<comment> \<open>\<^verbatim>\<open>data?.length\<close>\<close>
  "input_length s = (case s of Val items \<Rightarrow> Some (length items) | _ \<Rightarrow> None)"

text \<open>Which of the three rules applies, in the order of the code.\<close>

definition pairing_rule :: "output_data \<Rightarrow> input_data \<Rightarrow> (nat \<Rightarrow> nat) option result" where
  "pairing_rule outputs main =
     (let first = input_length (arr_get main 0);
          isSingleInputAndOutput = (length main = 1 \<and> first = Some 1)
      in bind_result
           (if length outputs = 1 \<and> length main = 1
            then bind_result (slot_length (arr_get outputs 0)) (\<lambda>n. Inr (first = Some n))
            else Inr False) (\<lambda>isSameNumberOfItems.
         let isSingleOutput =
               (length outputs = 1 \<and> input_length (arr_get outputs 0) = Some 1 \<and> length main = 1 \<and>
                1 < (case first of None \<Rightarrow> 0 | Some n \<Rightarrow> n))
         in Inr (if isSingleInputAndOutput then Some (\<lambda>_. 0)
                 else if isSameNumberOfItems then Some (\<lambda>i. i)
                 else if isSingleOutput then Some (\<lambda>_. 0)
                 else None)))"

definition assignPairedItems :: "node_data \<Rightarrow> execute_data \<Rightarrow> output_data option result" where
  "assignPairedItems nodeSuccessData e =
     (case nodeSuccessData of
        Val [] \<Rightarrow> Inr (Some [])
      | Val outputs \<Rightarrow>
          bind_result (required (main_data (ed_data e))) (\<lambda>main.
          bind_result (pairing_rule outputs main) (\<lambda>fix_pair.
          bind_result (pair_outputs fix_pair outputs) (\<lambda>r. Inr (Some r))))
      | _ \<Rightarrow> Inr None)"

subsection \<open>Empty output\<close>

definition all_input_pairs :: "input_data \<Rightarrow> paired_item_data list" where
  "all_input_pairs main =
     concat (map (\<lambda>(inputIndex, input).
       map (\<lambda>itemIndex. \<lparr>pi_item = itemIndex, pi_input = Some inputIndex, pi_sourceOverwrite = None\<rparr>)
         [0..<length (slot_list input)]) (enumerate 0 main))"

definition has_first_item :: "output_data option \<Rightarrow> bool" where
  \<comment> \<open>\<^verbatim>\<open>data?.[0]?.[0]\<close>\<close>
  "has_first_item d = (case d of None \<Rightarrow> False | Some outputs \<Rightarrow> nonempty (arr_get outputs 0))"

definition ensureAlwaysOutputData :: "output_data option \<Rightarrow> execute_data \<Rightarrow> output_data option result" where
  "ensureAlwaysOutputData nodeSuccessData e =
     (if has_first_item nodeSuccessData then Inr nodeSuccessData
      else if n_alwaysOutputData (ed_node e) \<noteq> Some True then Inr nodeSuccessData
      else bind_result (required (main_data (ed_data e))) (\<lambda>main.
        Inr (Some (arr_set (or_empty nodeSuccessData) 0
          (Val [empty_item\<lparr>i_pairedItem := Some (PairedList (all_input_pairs main))\<rparr>])))))"

subsection \<open>Errors in items\<close>

definition js_property :: "js \<Rightarrow> string \<Rightarrow> js result" where
  \<comment> \<open>\<^verbatim>\<open>v.name\<close>\<close>
  "js_property v nm =
     (case v of
        JUndefined \<Rightarrow> Inl undefined_property
      | JNull \<Rightarrow> Inl null_property
      | JObj kvs \<Rightarrow> Inr (case map_of kvs nm of None \<Rightarrow> JUndefined | Some x \<Rightarrow> x)
      | _ \<Rightarrow> Inr JUndefined)"

definition normalize_item :: "item \<Rightarrow> item result" where
  "normalize_item x =
     (if param_value (i_json x) ''$error'' \<noteq> JUndefined \<and> param_value (i_json x) ''$json'' \<noteq> JUndefined then
        bind_result (js_property (param_value (i_json x) ''$error'') ''message'') (\<lambda>m.
          Inr (x\<lparr>i_error := Some (param_value (i_json x) ''$error''), i_json := [(''error'', m)]\<rparr>))
      else case i_error x of
        None \<Rightarrow> Inr x
      | Some e \<Rightarrow> bind_result (js_property e ''message'') (\<lambda>m. Inr (x\<lparr>i_json := [(''error'', m)]\<rparr>)))"

fun map_result :: "('a \<Rightarrow> 'b result) \<Rightarrow> 'a list \<Rightarrow> 'b list result" where
  "map_result f [] = Inr []"
| "map_result f (x # xs) = bind_result (f x) (\<lambda>y. bind_result (map_result f xs) (\<lambda>ys. Inr (y # ys)))"

definition normalize_output :: "item list slot \<Rightarrow> item list slot result" where
  \<comment> \<open>\<^verbatim>\<open>for (const item of data)\<close> throws when there is no list\<close>
  "normalize_output s =
     (case s of
        Val items \<Rightarrow> bind_result (map_result normalize_item items) (\<lambda>r. Inr (Val r))
      | Null \<Rightarrow> Inl (TypeError ''data is not iterable'')
      | Undefined \<Rightarrow> Inl (TypeError ''data is not iterable''))"

definition normalizeNodeErrors :: "output_data option \<Rightarrow> output_data result" where
  "normalizeNodeErrors nodeSuccessData =
     (case nodeSuccessData of
        None \<Rightarrow> Inl (TypeError ''data is not iterable'')
      | Some outputs \<Rightarrow> map_result normalize_output outputs)"

text \<open>The error output: items that report an error move to the last main output.\<close>

type_synonym get_paired_item = "string \<Rightarrow> source_data \<Rightarrow> paired_item_data \<Rightarrow> item option"

definition item_error :: "item \<Rightarrow> bool" where
  \<comment> \<open>\<^verbatim>\<open>errorData\<close> is truthy\<close>
  "item_error x \<longleftrightarrow>
     (case i_error x of Some e \<Rightarrow> js_truthy e | None \<Rightarrow> False) \<or>
     (js_truthy (param_value (i_json x) ''error'') \<and>
      list_all (\<lambda>p. fst p \<in> {''error'', ''message'', ''details''}) (i_json x))"

definition first_pair :: "item \<Rightarrow> paired_item_data option" where
  "first_pair x =
     (case i_pairedItem x of
        Some (PairedObject p) \<Rightarrow> Some p
      | Some (PairedList (p # _)) \<Rightarrow> Some p
      | _ \<Rightarrow> None)"

definition spread :: "js jsobj \<Rightarrow> js jsobj \<Rightarrow> js jsobj" where
  \<comment> \<open>\<^verbatim>\<open>{ ...a, ...b }\<close>\<close>
  "spread a b = foldl (\<lambda>m p. obj_set (fst p) (snd p) m) a b"

definition error_item :: "get_paired_item \<Rightarrow> execute_data \<Rightarrow> item \<Rightarrow> item result" where
  "error_item getPairedItem e x =
     (case (ed_source e, first_pair x) of
        (Some source, Some p) \<Rightarrow>
          bind_result (required (obj_get source Main)) (\<lambda>sources.
            case arr_get sources (case pi_input p of None \<Rightarrow> 0 | Some i \<Rightarrow> i) of
              Val s \<Rightarrow>
                (case getPairedItem (sd_previousNode s) s p of
                   None \<Rightarrow> Inr x
                 | Some y \<Rightarrow> Inr (x\<lparr>i_json := spread (i_json y) (i_json x)\<rparr>))
            | Null \<Rightarrow> Inl null_property
            | Undefined \<Rightarrow> Inl undefined_property)
      | _ \<Rightarrow> Inr x)"

text \<open>One output: its items are split into those without and those with an error.\<close>

definition split_output ::
  "get_paired_item \<Rightarrow> execute_data \<Rightarrow> nat \<Rightarrow> output_data \<times> item list \<Rightarrow> (output_data \<times> item list) result" where
  "split_output getPairedItem e outputIndex acc =
     (let items = slot_list (arr_get (fst acc) outputIndex) in
      bind_result (map_result (error_item getPairedItem e) (filter item_error items)) (\<lambda>errors.
        Inr (arr_set (fst acc) outputIndex (Val (filter (\<lambda>x. \<not> item_error x) items)), snd acc @ errors)))"

definition handleNodeErrorOutput ::
  "eval_ports \<Rightarrow> get_paired_item \<Rightarrow> workflow \<Rightarrow> execute_data \<Rightarrow> output_data \<Rightarrow> output_data result" where
  "handleNodeErrorOutput evalPorts getPairedItem w e nodeSuccessData =
     bind_result (required (node_type_of w (ed_node e))) (\<lambda>t.
       let mainOutputs = length (filter (\<lambda>ty. ty = Main) (getConnectionTypes (getNodeOutputs evalPorts (ed_node e) t)))
       in bind_result (fold_result (split_output getPairedItem e) [0..<mainOutputs - 1] (nodeSuccessData, [])) (\<lambda>acc.
            Inr (if mainOutputs = 0 then fst acc else arr_set (fst acc) (mainOutputs - 1) (Val (snd acc)))))"

subsection \<open>Errors of nodes\<close>

definition continuesOnError :: "node \<Rightarrow> bool" where
  "continuesOnError n \<longleftrightarrow>
     n_continueOnFail n = Some True \<or> n_onError n = Some ContinueRegularOutput \<or> n_onError n = Some ContinueErrorOutput"

definition rethrowNodeError :: "exec_error \<Rightarrow> exec_error" where
  \<comment> \<open>the error that is thrown\<close>
  "rethrowNodeError err =
     (if ee_name err = ''NodeOperationError'' \<or> ee_name err = ''NodeApiError'' then err
      else err\<lparr>ee_name := ''Error''\<rparr>)"

definition rethrowLastNodeError :: "run_state \<Rightarrow> node \<Rightarrow> exec_error option" where
  "rethrowLastNodeError st n =
     (case rs_error st of
        None \<Rightarrow> None
      | Some err \<Rightarrow> if rs_lastNodeExecuted st = Some (n_name n) then Some (rethrowNodeError err) else None)"

subsection \<open>Which input an executing node sees\<close>

lemma find_nonempty: "List.find nonempty xs = None \<longleftrightarrow> (\<forall>x \<in> set xs. \<not> nonempty x)"
  by (induction xs) auto

text \<open>
  In the order v1 a regular node runs exactly if one of its main inputs has items, and then on the first
  such input. In the legacy order it runs if its first input has items; an item elsewhere makes it run only
  if nothing can arrive on the first input any more and the item came from the node itself or from below it.
\<close>

theorem prepareConnectionInputData_spec:
  assumes "nt_execute t" and "main_data inputData = Some main"
  shows "(w_executionOrder w = Some ''v1'' \<longrightarrow>
      prepareConnectionInputData w t c n inputData source = map_option slot_list (List.find nonempty main)) \<and>
    (w_executionOrder w \<noteq> Some ''v1'' \<longrightarrow> nonempty (arr_get main 0) \<longrightarrow>
      prepareConnectionInputData w t c n inputData source = Some (slot_list (arr_get main 0))) \<and>
    (w_executionOrder w \<noteq> Some ''v1'' \<longrightarrow> \<not> nonempty (arr_get main 0) \<longrightarrow>
      prepareConnectionInputData w t c n inputData source \<noteq> None \<longrightarrow>
      arr_get (or_empty (obj_get (or_empty source) Main)) 0 = Null \<and>
      (\<exists>d. loop_back_input (n_name n) (childNodes w (n_name n) (OfType Main)) main
          (or_empty (obj_get (or_empty source) Main)) = Some d))"
proof (cases main)
  case Nil
  then show ?thesis
    using assms by (simp add: prepareConnectionInputData_def nonempty_def arr_get_def)
next
  case (Cons first rest)
  have v1: "prepareConnectionInputData w t c n inputData source = map_option slot_list (List.find nonempty main)"
    if "w_executionOrder w = Some ''v1''"
  proof (cases "List.find nonempty main")
    case None
    then have "\<not> nonempty first" unfolding find_nonempty Cons by simp
    with None that assms Cons show ?thesis
      by (simp add: prepareConnectionInputData_def isLegacyExecutionOrder_def split: if_splits)
  next
    case (Some d)
    then have "nonempty d" using find_SomeD by metis
    with Some that assms Cons show ?thesis
      by (simp add: prepareConnectionInputData_def isLegacyExecutionOrder_def)
  qed
  have src: "(case source of None \<Rightarrow> [] | Some s \<Rightarrow> or_empty (obj_get s Main)) = or_empty (obj_get (or_empty source) Main)"
    by (cases source) simp_all
  show ?thesis
    using v1 assms Cons unfolding prepareConnectionInputData_def src
    by (auto simp: isLegacyExecutionOrder_def arr_get_def Let_def split: option.splits if_splits)
qed

definition sample_inputs :: task_data_connections where
  "sample_inputs = [(Main, [Val [], Val [tagged_item ''x'']])]"

theorem prepareConnectionInputData_spec_witness:
  "prepareConnectionInputData merge_workflow (plain_type ''t'') False (plain_node 2 ''M'' ''t'') sample_inputs None =
    Some [tagged_item ''x'']"
  using prepareConnectionInputData_spec [of "plain_type ''t''" sample_inputs "[Val [], Val [tagged_item ''x'']]"
      merge_workflow False "plain_node 2 ''M'' ''t''" None]
  by (simp add: plain_type_def main_data_def sample_inputs_def nonempty_def merge_workflow_def make_workflow_def
      setSettings_def)

subsection \<open>Pairing changes nothing else\<close>

definition paired_from :: "item \<Rightarrow> item \<Rightarrow> bool" where
  \<comment> \<open>the item itself, or the item with a pair it lacked\<close>
  "paired_from x y \<longleftrightarrow> y = x \<or> (i_pairedItem x = None \<and> (\<exists>i. y = x\<lparr>i_pairedItem := Some (pair_to i)\<rparr>))"

definition slot_rel :: "('a \<Rightarrow> 'a \<Rightarrow> bool) \<Rightarrow> 'a list slot \<Rightarrow> 'a list slot \<Rightarrow> bool" where
  "slot_rel R a b \<longleftrightarrow> a = b \<or> (\<exists>xs ys. a = Val xs \<and> b = Val ys \<and> list_all2 R xs ys)"

lemma paired_from_refl [simp]: "paired_from x x"
  by (simp add: paired_from_def)

lemma pair_items_rel: "list_all2 paired_from xs (fst (pair_items f i xs))"
  by (induction f i xs rule: pair_items.induct)
    (auto simp: Let_def paired_from_def list_all2_refl split: option.split)

lemma pair_outputs_rel: "pair_outputs f outs = Inr r \<Longrightarrow> list_all2 (slot_rel paired_from) outs r"
proof (induction f outs arbitrary: r rule: pair_outputs.induct)
  case (4 f items outs)
  obtain items' left where p: "pair_items f 0 items = (items', left)" by force
  have rel: "slot_rel paired_from (Val items) (Val items')"
    using pair_items_rel [of items f 0] p by (auto simp: slot_rel_def)
  show ?case
  proof (cases left)
    case True
    with "4.prems" p rel show ?thesis by (auto simp: slot_rel_def list_all2_refl)
  next
    case False
    with "4.prems" p obtain r' where "pair_outputs f outs = Inr r'" "r = Val items' # r'"
      by (auto simp: bind_result_eq_Inr)
    with "4.IH" [OF p [symmetric] refl] False rel show ?thesis by auto
  qed
qed (auto simp: bind_result_eq_Inr slot_rel_def)

lemma pair_items_all: "\<not> snd (pair_items (Some f) i xs) \<and> list_all (\<lambda>y. i_pairedItem y \<noteq> None) (fst (pair_items (Some f) i xs))"
  by (induction "Some f" i xs rule: pair_items.induct) (auto simp: Let_def)

lemma pair_outputs_all:
  "pair_outputs (Some f) outs = Inr r \<Longrightarrow> list_all (\<lambda>s. list_all (\<lambda>y. i_pairedItem y \<noteq> None) (slot_list s)) r"
proof (induction "Some f" outs arbitrary: r rule: pair_outputs.induct)
  case (4 items outs)
  obtain items' left where p: "pair_items (Some f) 0 items = (items', left)" by force
  with pair_items_all [of f 0 items] have l: "\<not> left" "list_all (\<lambda>y. i_pairedItem y \<noteq> None) items'" by simp_all
  with 4 p show ?case by (auto simp: bind_result_eq_Inr)
qed (auto simp: bind_result_eq_Inr)

text \<open>
  Pairing leaves every output and item in place and changes nothing of an item but a missing pair; if the
  node had one input with one item, afterwards every item has a pair.
\<close>

theorem assignPairedItems_spec:
  assumes "assignPairedItems (Val outputs) e = Inr (Some outputs')"
  shows "list_all2 (slot_rel paired_from) outputs outputs' \<and>
    ((\<exists>x. main_data (ed_data e) = Some [Val [x]]) \<longrightarrow>
      list_all (\<lambda>s. list_all (\<lambda>y. i_pairedItem y \<noteq> None) (slot_list s)) outputs')"
proof (cases outputs)
  case Nil
  then show ?thesis using assms by (simp add: assignPairedItems_def)
next
  case (Cons o1 os)
  then obtain main f where m: "main_data (ed_data e) = Some main" and f: "pairing_rule outputs main = Inr f"
    and p: "pair_outputs f outputs = Inr outputs'"
    using assms by (auto simp: assignPairedItems_def bind_result_eq_Inr result_simps)
  have "list_all (\<lambda>s. list_all (\<lambda>y. i_pairedItem y \<noteq> None) (slot_list s)) outputs'" if "main = [Val [x]]" for x
  proof -
    have "f = Some (\<lambda>_. 0)"
      using f that by (auto simp: pairing_rule_def arr_get_def input_length_def bind_result_eq_Inr Let_def)
    then show ?thesis using pair_outputs_all p by blast
  qed
  then show ?thesis using pair_outputs_rel [OF p] m by auto
qed

definition sample_entry :: "node \<Rightarrow> execute_data" where
  "sample_entry n = \<lparr>ed_node = n, ed_data = [(Main, [Val [tagged_item ''x'']])], ed_source = None,
     ed_metadata = None, ed_runIndex = None\<rparr>"

theorem assignPairedItems_spec_witness:
  "i_pairedItem (hd (slot_list (hd [Val [(tagged_item ''y'')\<lparr>i_pairedItem := Some (pair_to 0)\<rparr>]]))) \<noteq> None"
proof -
  have "assignPairedItems (Val [Val [tagged_item ''y'']]) (sample_entry (plain_node 0 ''A'' ''t'')) =
      Inr (Some [Val [(tagged_item ''y'')\<lparr>i_pairedItem := Some (pair_to 0)\<rparr>]])" by code_simp
  from assignPairedItems_spec [OF this] show ?thesis by (simp add: sample_entry_def main_data_def)
qed

subsection \<open>The error output loses nothing\<close>

lemma split_output_Inr: "split_output gp e i (outs, errs) = Inr acc \<longleftrightarrow>
    (\<exists>es. map_result (error_item gp e) (filter item_error (slot_list (arr_get outs i))) = Inr es \<and>
      acc = (arr_set outs i (Val (filter (\<lambda>x. \<not> item_error x) (slot_list (arr_get outs i)))), errs @ es))"
  by (auto simp: split_output_def bind_result_eq_Inr Let_def)

lemma split_outputs:
  "fold_result (split_output gp e) is (outs, errs) = Inr (outs', errs') \<Longrightarrow> distinct is \<Longrightarrow>
    (\<forall>j. arr_get outs' j = (if j \<in> set is then Val (filter (\<lambda>x. \<not> item_error x) (slot_list (arr_get outs j)))
                          else arr_get outs j)) \<and>
    map_result (error_item gp e) (concat (map (\<lambda>j. filter item_error (slot_list (arr_get outs j))) is)) =
      Inr (drop (length errs) errs') \<and> take (length errs) errs' = errs"
proof (induction "is" arbitrary: outs errs)
  case Nil
  then show ?case by simp
next
  case (Cons i js)
  let ?bad = "filter item_error (slot_list (arr_get outs i))"
  obtain es where es: "map_result (error_item gp e) ?bad = Inr es"
    and rest: "fold_result (split_output gp e) js
      (arr_set outs i (Val (filter (\<lambda>x. \<not> item_error x) (slot_list (arr_get outs i)))), errs @ es) = Inr (outs', errs')"
    using Cons.prems(1) by (auto simp: split_output_Inr bind_result_eq_Inr simp del: split_paired_Ex)
  let ?outs = "arr_set outs i (Val (filter (\<lambda>x. \<not> item_error x) (slot_list (arr_get outs i))))"
  have js: "distinct js" "i \<notin> set js" using Cons.prems(2) by simp_all
  have same: "map (\<lambda>j. filter item_error (slot_list (arr_get ?outs j))) js =
      map (\<lambda>j. filter item_error (slot_list (arr_get outs j))) js"
    using js by (intro map_cong) auto
  have ih: "\<forall>j. arr_get outs' j = (if j \<in> set js then Val (filter (\<lambda>x. \<not> item_error x) (slot_list (arr_get ?outs j)))
        else arr_get ?outs j)"
    and ih2: "map_result (error_item gp e) (concat (map (\<lambda>j. filter item_error (slot_list (arr_get outs j))) js)) =
        Inr (drop (length (errs @ es)) errs')"
    and ih3: "take (length (errs @ es)) errs' = errs @ es"
    using Cons.IH [OF rest js(1)] unfolding same by blast+
  have app: "map_result f (xs @ ys) = Inr (a @ b)" if "map_result f xs = Inr a" "map_result f ys = Inr b"
    for f :: "item \<Rightarrow> item result" and xs ys a b
    using that by (induction xs arbitrary: a) (auto simp: bind_result_eq_Inr)
  have es': "es @ drop (length errs + length es) errs' = drop (length errs) errs'"
    using ih3 by (metis append_eq_conv_conj append_take_drop_id append.assoc length_append)
  have "\<forall>j. arr_get outs' j = (if j \<in> set (i # js) then Val (filter (\<lambda>x. \<not> item_error x) (slot_list (arr_get outs j)))
        else arr_get outs j)"
    using ih js(2) by auto
  moreover have "map_result (error_item gp e) (concat (map (\<lambda>j. filter item_error (slot_list (arr_get outs j))) (i # js))) =
      Inr (drop (length errs) errs')"
    using app [OF es ih2] es' by simp
  moreover have "take (length errs) errs' = errs"
    using ih3 by (metis append_eq_conv_conj append_take_drop_id append.assoc length_append)
  ultimately show ?case by blast
qed

lemma map_result_length: "map_result f xs = Inr ys \<Longrightarrow> length ys = length xs"
  by (induction xs arbitrary: ys) (auto simp: bind_result_eq_Inr)


definition error_node :: node where
  "error_node = (plain_node 0 ''A'' ''t'')\<lparr>n_onError := Some ContinueErrorOutput\<rparr>"

definition failed_item :: item where
  "failed_item = empty_item\<lparr>i_json := [(''error'', JStr ''boom'')]\<rparr>"


end
