(* ===== verification/EngineRequests.thy ===== *)
theory EngineRequests
  imports NodeOutput
begin

section \<open>Requests of AI agents to the engine\<close>

text \<open>
  \<^verbatim>\<open>packages/core/src/execution-engine/requests-response.ts\<close> with \<^verbatim>\<open>handleEngineRequest\<close> and
  \<^verbatim>\<open>collectSubNodeResults\<close> of \<^verbatim>\<open>workflow-execute.ts\<close>. A node that answers with a request is put back on the
  stack below the nodes it asks for; each of those gets a placeholder in the run data.

  The functions change the run data and the nodes of the workflow in place. When one throws, what was
  changed before stays changed, so the state is returned beside the error.
\<close>

subsection \<open>The state a request changes\<close>

text \<open>The workflow, the run and the entry being executed: all three may hold a node that is changed.\<close>

record request_state =
  rq_workflow :: workflow
  rq_run :: run_state
  rq_entry :: execute_data

type_synonym 'a request_step = "request_state \<times> 'a result"

definition set_rewire :: "nat \<Rightarrow> connection_type \<Rightarrow> request_state \<Rightarrow> request_state" where
  \<comment> \<open>\<^verbatim>\<open>node.rewireOutputLogTo = action.type\<close>, seen wherever the node is stored\<close>
  "set_rewire ref type rq =
     (let f = (\<lambda>n. n\<lparr>n_rewireOutputLogTo := Some type\<rparr>) in
      \<lparr>rq_workflow = update_workflow_node ref f (rq_workflow rq),
       rq_run = update_stack_node ref f (rq_run rq),
       rq_entry = (rq_entry rq)\<lparr>ed_node := update_node ref f (ed_node (rq_entry rq))\<rparr>\<rparr>)"

subsection \<open>The nodes to execute\<close>

record node_to_execute =
  nx_inputConnectionData :: connection
  nx_parentOutputIndex :: nat
  nx_parentNode :: string
  nx_parentOutputData :: "item list slot list option"
  nx_runIndex :: nat
  nx_nodeRunIndex :: nat
  nx_metadata :: "task_metadata option"

definition buildParentOutputData :: "js jsobj \<Rightarrow> nat \<Rightarrow> nat \<Rightarrow> string \<Rightarrow> item list slot list" where
  "buildParentOutputData json parentRunIndex parentOutputIndex parentSourceNode =
     [Val [empty_item\<lparr>i_json := json,
        i_pairedItem := Some (PairedObject
          \<lparr>pi_item = parentRunIndex, pi_input = Some parentOutputIndex,
           pi_sourceOverwrite = Some
             \<lparr>sd_previousNode = parentSourceNode, sd_previousNodeOutput = Some parentOutputIndex,
              sd_previousNodeRun = Some parentRunIndex\<rparr>\<rparr>)\<rparr>]]"

definition truthy_name :: "string option \<Rightarrow> bool" where
  "truthy_name nm \<longleftrightarrow> nm \<noteq> None \<and> nm \<noteq> Some []"

definition initializeNodeRunData ::
  "string \<Rightarrow> string \<Rightarrow> nat \<Rightarrow> nat \<Rightarrow> string option \<Rightarrow> nat \<Rightarrow> item list slot list \<Rightarrow> run_data \<Rightarrow> nat \<times> run_data"
where
  "initializeNodeRunData nodeName parentNode parentOutputIndex parentRunIndex parentNodeName runIndex
     displayOutputData runData =
     (let tasks = or_empty (obj_get runData nodeName);
          task = empty_task\<lparr>td_inputOverride := Some [(AiTool, displayOutputData)],
            td_source := [Val \<lparr>sd_previousNode = parentNode, sd_previousNodeOutput = Some parentOutputIndex,
              sd_previousNodeRun = Some (if truthy_name parentNodeName then parentRunIndex else runIndex)\<rparr>],
            td_executionIndex := Some 0\<rparr>
      in (length tasks, obj_set nodeName (tasks @ [task]) runData))"

text \<open>\<^verbatim>\<open>executionData.source?.main?.[runIndex]\<close>: the source is looked up by run, not by input.\<close>

definition parent_source :: "nat \<Rightarrow> execute_data \<Rightarrow> source_data option" where
  "parent_source runIndex e =
     (case ed_source e of
        None \<Rightarrow> None
      | Some source \<Rightarrow> slot_option (arr_get (or_empty (obj_get source Main)) runIndex))"

definition parent_run_index :: "source_data option \<Rightarrow> engine_action \<Rightarrow> string \<Rightarrow> run_data \<Rightarrow> nat" where
  \<comment> \<open>an entry of the run data, if there is one, is not empty\<close>
  "parent_run_index source action parentNode runData =
     (if truthy_name (ea_parentNodeName action)
      then (case obj_get runData parentNode of None \<Rightarrow> 0 | Some tasks \<Rightarrow> length tasks - 1)
      else (case source of None \<Rightarrow> 0 | Some s \<Rightarrow> (case sd_previousNodeRun s of None \<Rightarrow> 0 | Some r \<Rightarrow> r)))"

definition agent_input :: "nat \<Rightarrow> execute_data \<Rightarrow> js jsobj" where
  \<comment> \<open>\<^verbatim>\<open>executionData.data.main?.[0]?.[itemIndex]?.json ?? {}\<close>\<close>
  "agent_input itemIndex e =
     (let items = slot_list (arr_get (or_empty (main_data (ed_data e))) 0) in
      if itemIndex < length items then i_json (items ! itemIndex) else [])"

definition request_action ::
  "string \<Rightarrow> nat \<Rightarrow> engine_action \<Rightarrow> request_state \<Rightarrow> (node_to_execute \<times> sub_node_action) request_step" where
  "request_action currentName runIndex action rq =
     (case getNode (rq_workflow rq) (ea_nodeName action) of
        None \<Rightarrow> (rq, Inl (UnexpectedError (''Workflow does not contain a node with the name of '' @ [CHR 0x22]
          @ ea_nodeName action @ [CHR 0x22] @ ''.'')))
      | Some n \<Rightarrow>
          let rq = set_rewire (n_ref n) (ea_type action) rq;
              e = rq_entry rq;
              source = parent_source runIndex e;
              outputIndex = (case source of None \<Rightarrow> 0 | Some s \<Rightarrow> (case sd_previousNodeOutput s of None \<Rightarrow> 0 | Some k \<Rightarrow> k));
              sourceNode = (case source of None \<Rightarrow> currentName | Some s \<Rightarrow> sd_previousNode s);
              parentNode = (case ea_parentNodeName action of None \<Rightarrow> currentName | Some p \<Rightarrow> p);
              parentRunIndex = parent_run_index source action parentNode (rs_runData (rq_run rq));
              itemIndex = (case ea_itemIndex action of None \<Rightarrow> 0 | Some i \<Rightarrow> i);
              mergedJson = obj_set ''toolCallId'' (JStr (ea_id action)) (spread (agent_input itemIndex e) (ea_input action));
              displayJson = spread [] (ea_input action);
              (nodeRunIndex, runData) = initializeNodeRunData (n_name n) parentNode outputIndex parentRunIndex
                (ea_parentNodeName action) runIndex
                (buildParentOutputData displayJson parentRunIndex outputIndex sourceNode) (rs_runData (rq_run rq));
              overwrite = (case (case ed_metadata e of None \<Rightarrow> None | Some m \<Rightarrow> tm_preservedSourceOverwrite m) of
                Some s \<Rightarrow> s
              | None \<Rightarrow> \<lparr>sd_previousNode = sourceNode, sd_previousNodeOutput = Some outputIndex,
                   sd_previousNodeRun = Some parentRunIndex\<rparr>)
          in (rq\<lparr>rq_run := (rq_run rq)\<lparr>rs_runData := runData\<rparr>\<rparr>,
              Inr (\<lparr>nx_inputConnectionData = \<lparr>c_node = ea_nodeName action, c_type = ea_type action, c_index = 0\<rparr>,
                    nx_parentOutputIndex = 0, nx_parentNode = parentNode,
                    nx_parentOutputData = Some (buildParentOutputData mergedJson parentRunIndex outputIndex sourceNode),
                    nx_runIndex = (if truthy_name (ea_parentNodeName action) then parentRunIndex else runIndex),
                    nx_nodeRunIndex = nodeRunIndex,
                    nx_metadata = Some (empty_metadata\<lparr>tm_preserveSourceOverwrite := Some True,
                      tm_preservedSourceOverwrite := Some overwrite\<rparr>)\<rparr>,
                   \<lparr>sna_action = action, sna_nodeName = ea_nodeName action, sna_runIndex = nodeRunIndex\<rparr>)))"

fun prepareRequestedNodesForExecution ::
  "string \<Rightarrow> nat \<Rightarrow> engine_action list \<Rightarrow> request_state \<Rightarrow> (node_to_execute list \<times> sub_node_action list) request_step"
where
  "prepareRequestedNodesForExecution currentName runIndex [] rq = (rq, Inr ([], []))"
| "prepareRequestedNodesForExecution currentName runIndex (a # as) rq =
     (case request_action currentName runIndex a rq of
        (rq, Inl err) \<Rightarrow> (rq, Inl err)
      | (rq, Inr (nx, sub)) \<Rightarrow>
          (case prepareRequestedNodesForExecution currentName runIndex as rq of
             (rq, Inl err) \<Rightarrow> (rq, Inl err)
           | (rq, Inr (nxs, subs)) \<Rightarrow> (rq, Inr (nx # nxs, sub # subs))))"

text \<open>Without a parent the request is reported and ignored.\<close>

definition prepareRequestingNodeForResuming :: "execute_data \<Rightarrow> (connection \<times> string \<times> task_metadata) option" where
  "prepareRequestingNodeForResuming e =
     (case parent_source 0 e of
        None \<Rightarrow> None
      | Some s \<Rightarrow>
          if sd_previousNode s = [] then None
          else Some
            (\<lparr>c_node = n_name (ed_node e), c_type = AiTool, c_index = 0\<rparr>, sd_previousNode s,
             (case ed_metadata e of
                None \<Rightarrow> empty_metadata
              | Some m \<Rightarrow>
                  if tm_preservedSourceOverwrite m \<noteq> None \<and> tm_preserveSourceOverwrite m = Some True
                  then empty_metadata\<lparr>tm_preserveSourceOverwrite := Some True,
                         tm_preservedSourceOverwrite := tm_preservedSourceOverwrite m\<rparr>
                  else empty_metadata)))"

definition resumed_node :: "nat \<Rightarrow> engine_request \<Rightarrow> sub_node_action list \<Rightarrow> execute_data \<Rightarrow>
    connection \<times> string \<times> task_metadata \<Rightarrow> node_to_execute" where
  "resumed_node runIndex request subs e r =
     (let (conn, parentNode, metadata) = r in
      \<lparr>nx_inputConnectionData = conn, nx_parentOutputIndex = 0, nx_parentNode = parentNode,
       nx_parentOutputData = main_data (ed_data e), nx_runIndex = runIndex, nx_nodeRunIndex = runIndex,
       nx_metadata = Some (merge_metadata (Some (empty_metadata\<lparr>tm_nodeWasResumed := Some True,
         tm_subNodeExecutionData := Some (subs, er_metadata request)\<rparr>)) metadata)\<rparr>)"

definition handleRequest :: "nat \<Rightarrow> engine_request \<Rightarrow> request_state \<Rightarrow> node_to_execute list request_step" where
  "handleRequest runIndex request rq =
     (case prepareRequestedNodesForExecution (n_name (ed_node (rq_entry rq))) runIndex (er_actions request) rq of
        (rq, Inl err) \<Rightarrow> (rq, Inl err)
      | (rq, Inr (nodes, subs)) \<Rightarrow>
          (case prepareRequestingNodeForResuming (rq_entry rq) of
             None \<Rightarrow> (rq, Inr [])
           | Some r \<Rightarrow>
               (rq, Inr (resumed_node runIndex request subs (rq_entry rq) r #
                  (if w_executionOrder (rq_workflow rq) = Some ''v1'' then rev nodes else nodes)))))"

definition schedule_requested :: "workflow \<Rightarrow> node_to_execute \<Rightarrow> run_state \<Rightarrow> run_state result" where
  "schedule_requested w nx st =
     bind_result (required (nx_parentOutputData nx)) (\<lambda>data.
       addNodeToBeExecuted w (nx_inputConnectionData nx) (nx_parentOutputIndex nx) (nx_parentNode nx) (Some data)
         (nx_runIndex nx) (Some (nx_nodeRunIndex nx)) (nx_metadata nx) st)"

fun schedule_all :: "workflow \<Rightarrow> node_to_execute list \<Rightarrow> run_state \<Rightarrow> run_state \<times> unit result" where
  "schedule_all w [] st = (st, Inr ())"
| "schedule_all w (nx # nxs) st =
     (case schedule_requested w nx st of Inl err \<Rightarrow> (st, Inl err) | Inr st \<Rightarrow> schedule_all w nxs st)"

definition handleEngineRequest :: "nat \<Rightarrow> engine_request \<Rightarrow> request_state \<Rightarrow> unit request_step" where
  "handleEngineRequest runIndex request rq =
     (case handleRequest runIndex request rq of
        (rq, Inl err) \<Rightarrow> (rq, Inl err)
      | (rq, Inr nodes) \<Rightarrow>
          (case schedule_all (rq_workflow rq) nodes (rq_run rq) of
             (st, r) \<Rightarrow> (rq\<lparr>rq_run := st\<rparr>, r)))"

subsection \<open>Answering a request\<close>

record engine_response =
  es_actionResponses :: "(engine_action \<times> task_data) list"
  es_metadata :: js

definition makeEngineResponse :: engine_response where
  "makeEngineResponse = \<lparr>es_actionResponses = [], es_metadata = JObj []\<rparr>"

definition collectSubNodeResults :: "run_state \<Rightarrow> execute_data \<Rightarrow> engine_response \<Rightarrow> engine_response" where
  "collectSubNodeResults st e resp =
     (case (case ed_metadata e of None \<Rightarrow> None | Some m \<Rightarrow> tm_subNodeExecutionData m) of
        None \<Rightarrow> resp
      | Some (subs, metadata) \<Rightarrow>
          foldl (\<lambda>resp sub.
             case obj_get (rs_runData st) (sna_nodeName sub) of
               None \<Rightarrow> resp
             | Some tasks \<Rightarrow>
                 if sna_runIndex sub < length tasks
                 then resp\<lparr>es_actionResponses := es_actionResponses resp @ [(sna_action sub, tasks ! sna_runIndex sub)]\<rparr>
                 else resp)
            (resp\<lparr>es_metadata := metadata\<rparr>) subs)"

subsection \<open>Every requested run is a new one\<close>

definition workflow_named :: "workflow \<Rightarrow> bool" where
  "workflow_named w \<longleftrightarrow> (\<forall>nm n. getNode w nm = Some n \<longrightarrow> n_name n = nm)"

lemma workflow_named_get: "workflow_named w \<Longrightarrow> getNode w nm = Some n \<Longrightarrow> n_name n = nm"
  by (simp add: workflow_named_def)

lemma getNode_update [simp]:
  "getNode (update_workflow_node ref f w) nm = map_option (update_node ref f) (getNode w nm)"
  by (simp add: getNode_def update_workflow_node_def map_of_map)

lemma update_node_name [simp]:
  "n_name (update_node ref (\<lambda>n. n\<lparr>n_rewireOutputLogTo := t\<rparr>) n) = n_name n"
  "n_name (update_node ref (\<lambda>n. n\<lparr>n_disabled := d\<rparr>) n) = n_name n"
  by (simp_all add: update_node_def)

lemma update_workflow_fields [simp]:
  "w_connectionsBySourceNode (update_workflow_node ref f w) = w_connectionsBySourceNode w"
  "w_connectionsByDestinationNode (update_workflow_node ref f w) = w_connectionsByDestinationNode w"
  "w_executionOrder (update_workflow_node ref f w) = w_executionOrder w"
  "w_nodeTypes (update_workflow_node ref f w) = w_nodeTypes w"
  by (simp_all add: update_workflow_node_def)

lemma main_inputs_update [simp]: "main_inputs (update_workflow_node ref f w) = main_inputs w"
  by (intro ext) (simp add: main_inputs_def)

lemma update_stack_fields [simp]:
  "rs_runData (update_stack_node ref f st) = rs_runData st"
  "rs_waitingExecution (update_stack_node ref f st) = rs_waitingExecution st"
  "rs_waitingExecutionSource (update_stack_node ref f st) = rs_waitingExecutionSource st"
  by (simp_all add: update_stack_node_def)

lemma workflow_named_rewire [simp]: "workflow_named (rq_workflow (set_rewire ref t rq)) = workflow_named (rq_workflow rq)"
  unfolding set_rewire_def workflow_named_def Let_def by (simp add: all_conj_distrib) (metis update_node_name(1))

definition new_run :: "run_data \<Rightarrow> string \<Rightarrow> nat" where
  "new_run runData nm = length (or_empty (obj_get runData nm))"

lemma request_action_Inr:
  assumes "request_action cur r a rq = (rq', Inr (nx, sub))" and "workflow_named (rq_workflow rq)"
  shows "sna_action sub = a \<and> sna_nodeName sub = ea_nodeName a \<and>
    sna_runIndex sub = new_run (rs_runData (rq_run rq)) (ea_nodeName a) \<and>
    nx_nodeRunIndex nx = sna_runIndex sub \<and> c_node (nx_inputConnectionData nx) = ea_nodeName a \<and>
    c_index (nx_inputConnectionData nx) = 0 \<and> nx_parentOutputIndex nx = 0 \<and> nx_parentOutputData nx \<noteq> None \<and>
    (\<exists>task. rs_runData (rq_run rq') = obj_set (ea_nodeName a)
       (or_empty (obj_get (rs_runData (rq_run rq)) (ea_nodeName a)) @ [task]) (rs_runData (rq_run rq))) \<and>
    workflow_named (rq_workflow rq')"
  using assms
  by (auto simp: request_action_def Let_def initializeNodeRunData_def new_run_def set_rewire_def workflow_named_def
      split: option.splits prod.splits)

lemma request_action_error:
  "request_action cur r a rq = (rq', Inl err) \<longleftrightarrow> rq' = rq \<and> getNode (rq_workflow rq) (ea_nodeName a) = None \<and>
     err = UnexpectedError (''Workflow does not contain a node with the name of '' @ [CHR 0x22]
          @ ea_nodeName a @ [CHR 0x22] @ ''.'')"
  by (auto simp: request_action_def Let_def split: option.splits prod.splits)

definition run_data_grows :: "run_data \<Rightarrow> run_data \<Rightarrow> bool" where
  "run_data_grows rd rd' \<longleftrightarrow>
     (\<forall>nm. \<exists>new. or_empty (obj_get rd' nm) = or_empty (obj_get rd nm) @ new)"

lemma run_data_grows_refl [simp]: "run_data_grows rd rd"
  by (simp add: run_data_grows_def)

lemma run_data_grows_trans: "run_data_grows a b \<Longrightarrow> run_data_grows b c \<Longrightarrow> run_data_grows a c"
  unfolding run_data_grows_def by (metis append.assoc)

lemma run_data_grows_new: "run_data_grows rd rd' \<Longrightarrow> new_run rd nm \<le> new_run rd' nm"
  unfolding run_data_grows_def new_run_def by (metis length_append le_add1)

lemma run_data_grows_append:
  "run_data_grows rd (obj_set nm (or_empty (obj_get rd nm) @ new) rd)"
  by (simp add: run_data_grows_def)

lemma requested_runs:
  assumes "prepareRequestedNodesForExecution cur r as rq = (rq', Inr (nxs, subs))"
    and "workflow_named (rq_workflow rq)"
  shows "map sna_action subs = as \<and> map sna_nodeName subs = map ea_nodeName as \<and>
    map nx_nodeRunIndex nxs = map sna_runIndex subs \<and>
    map (\<lambda>nx. c_node (nx_inputConnectionData nx)) nxs = map ea_nodeName as \<and>
    run_data_grows (rs_runData (rq_run rq)) (rs_runData (rq_run rq')) \<and>
    (\<forall>s \<in> set subs. new_run (rs_runData (rq_run rq)) (sna_nodeName s) \<le> sna_runIndex s \<and>
       sna_runIndex s < new_run (rs_runData (rq_run rq')) (sna_nodeName s)) \<and>
    distinct (map (\<lambda>s. (sna_nodeName s, sna_runIndex s)) subs)"
  using assms
proof (induction as arbitrary: rq nxs subs)
  case Nil
  then show ?case by simp
next
  case (Cons a as)
  obtain rq1 nx sub nxs1 subs1 where a: "request_action cur r a rq = (rq1, Inr (nx, sub))"
    and rest: "prepareRequestedNodesForExecution cur r as rq1 = (rq', Inr (nxs1, subs1))"
    and eq: "nxs = nx # nxs1" "subs = sub # subs1"
    using Cons.prems(1) by (auto split: prod.splits sum.splits)
  note act = request_action_Inr [OF a Cons.prems(2)]
  then obtain task where rd1: "rs_runData (rq_run rq1) = obj_set (ea_nodeName a)
      (or_empty (obj_get (rs_runData (rq_run rq)) (ea_nodeName a)) @ [task]) (rs_runData (rq_run rq))" by blast
  have named: "workflow_named (rq_workflow rq1)" using act by blast
  note ih = Cons.IH [OF rest named]
  have g: "run_data_grows (rs_runData (rq_run rq)) (rs_runData (rq_run rq1))"
    unfolding rd1 by (rule run_data_grows_append)
  have one: "new_run (rs_runData (rq_run rq1)) (ea_nodeName a) = Suc (new_run (rs_runData (rq_run rq)) (ea_nodeName a))"
    by (simp add: rd1 new_run_def)
  have le: "new_run (rs_runData (rq_run rq1)) nm \<le> new_run (rs_runData (rq_run rq')) nm" for nm
    using ih run_data_grows_new by blast
  have own: "sna_runIndex sub < new_run (rs_runData (rq_run rq')) (sna_nodeName sub)"
    using le [of "ea_nodeName a"] act one by simp
  have later: "(sna_nodeName s, sna_runIndex s) \<noteq> (sna_nodeName sub, sna_runIndex sub)" if "s \<in> set subs1" for s
  proof
    assume "(sna_nodeName s, sna_runIndex s) = (sna_nodeName sub, sna_runIndex sub)"
    then have "new_run (rs_runData (rq_run rq1)) (ea_nodeName a) \<le> new_run (rs_runData (rq_run rq)) (ea_nodeName a)"
      using ih that act by auto
    with one show False by simp
  qed
  have old: "new_run (rs_runData (rq_run rq)) (sna_nodeName s) \<le> sna_runIndex s" if "s \<in> set subs1" for s
    using ih that run_data_grows_new [OF g] order_trans by blast
  have d: "distinct (map (\<lambda>s. (sna_nodeName s, sna_runIndex s)) subs)"
    using ih later by (simp add: eq) fastforce
  have "map sna_action subs = a # as \<and> map sna_nodeName subs = map ea_nodeName (a # as) \<and>
      map nx_nodeRunIndex nxs = map sna_runIndex subs \<and>
      map (\<lambda>nx. c_node (nx_inputConnectionData nx)) nxs = map ea_nodeName (a # as)"
    using ih act by (simp add: eq)
  moreover have "new_run (rs_runData (rq_run rq)) (sna_nodeName s) \<le> sna_runIndex s \<and>
      sna_runIndex s < new_run (rs_runData (rq_run rq')) (sna_nodeName s)" if "s \<in> set subs" for s
    using that ih act own old by (auto simp: eq)
  ultimately show ?case
    using d ih run_data_grows_trans [OF g] by blast
qed

text \<open>
  The nodes an agent requests get one new run each: the runs are distinct, none of them was there before,
  and the runs that were there stay as they were.
\<close>

theorem requested_runs_are_fresh:
  assumes "prepareRequestedNodesForExecution currentName runIndex actions rq = (rq', Inr (nodes, subs))"
    and "workflow_named (rq_workflow rq)"
  shows "map sna_action subs = actions \<and> map nx_nodeRunIndex nodes = map sna_runIndex subs \<and>
    distinct (map (\<lambda>s. (sna_nodeName s, sna_runIndex s)) subs) \<and>
    (\<forall>s \<in> set subs. new_run (rs_runData (rq_run rq)) (sna_nodeName s) \<le> sna_runIndex s \<and>
       sna_runIndex s < new_run (rs_runData (rq_run rq')) (sna_nodeName s)) \<and>
    run_data_grows (rs_runData (rq_run rq)) (rs_runData (rq_run rq'))"
  using requested_runs [OF assms] by blast

subsection \<open>The order of the stack after a request\<close>

lemma prepare_total:
  assumes "\<forall>a \<in> set as. getNode (rq_workflow rq) (ea_nodeName a) \<noteq> None"
  shows "\<exists>rq' nodes subs. prepareRequestedNodesForExecution cur r as rq = (rq', Inr (nodes, subs))"
  using assms
proof (induction as arbitrary: rq)
  case Nil
  then show ?case by simp
next
  case (Cons a as)
  obtain rq1 nx sub where a: "request_action cur r a rq = (rq1, Inr (nx, sub))"
    using Cons.prems request_action_error [of cur r a rq] by (metis list.set_intros(1) old.prod.exhaust old.sum.exhaust)
  have "getNode (rq_workflow rq1) nm \<noteq> None \<longleftrightarrow> getNode (rq_workflow rq) nm \<noteq> None" for nm
    using a by (auto simp: request_action_def Let_def set_rewire_def split: option.splits prod.splits)
  then obtain rq' nodes subs where "prepareRequestedNodesForExecution cur r as rq1 = (rq', Inr (nodes, subs))"
    using Cons.IH [of rq1] Cons.prems by auto
  with a show ?case by simp
qed

text \<open>What a request changes besides the run data: only the rewiring of nodes.\<close>

definition entry_rest ::
  "execute_data \<Rightarrow> task_data_connections \<times> source_connections option \<times> task_metadata option \<times> nat option" where
  "entry_rest e = (ed_data e, ed_source e, ed_metadata e, ed_runIndex e)"

definition same_shape :: "request_state \<Rightarrow> request_state \<Rightarrow> bool" where
  "same_shape rq rq' \<longleftrightarrow>
     w_executionOrder (rq_workflow rq') = w_executionOrder (rq_workflow rq) \<and>
     main_inputs (rq_workflow rq') = main_inputs (rq_workflow rq) \<and>
     (\<forall>nm. getNode (rq_workflow rq') nm = None \<longleftrightarrow> getNode (rq_workflow rq) nm = None) \<and>
     n_name (ed_node (rq_entry rq')) = n_name (ed_node (rq_entry rq)) \<and>
     ed_data (rq_entry rq') = ed_data (rq_entry rq) \<and> ed_source (rq_entry rq') = ed_source (rq_entry rq) \<and>
     ed_metadata (rq_entry rq') = ed_metadata (rq_entry rq) \<and>
     rs_waitingExecution (rq_run rq') = rs_waitingExecution (rq_run rq) \<and>
     rs_waitingExecutionSource (rq_run rq') = rs_waitingExecutionSource (rq_run rq) \<and>
     map entry_rest (rs_nodeExecutionStack (rq_run rq')) = map entry_rest (rs_nodeExecutionStack (rq_run rq)) \<and>
     map (\<lambda>e. n_name (ed_node e)) (rs_nodeExecutionStack (rq_run rq')) =
       map (\<lambda>e. n_name (ed_node e)) (rs_nodeExecutionStack (rq_run rq))"

lemma same_shape_refl [simp]: "same_shape rq rq"
  by (simp add: same_shape_def)

lemma same_shape_trans: "same_shape a b \<Longrightarrow> same_shape b c \<Longrightarrow> same_shape a c"
  unfolding same_shape_def by (elim conjE) simp

lemma request_action_shape: "request_action cur r a rq = (rq', x) \<Longrightarrow> same_shape rq rq'"
  by (auto simp: request_action_def Let_def set_rewire_def same_shape_def update_stack_node_def entry_rest_def
      split: option.splits prod.splits)

lemma prepare_shape: "prepareRequestedNodesForExecution cur r as rq = (rq', x) \<Longrightarrow> same_shape rq rq'"
proof (induction as arbitrary: rq rq' x)
  case Nil
  then show ?case by simp
next
  case (Cons a as)
  obtain rq1 y where a: "request_action cur r a rq = (rq1, y)" by fastforce
  note shape = request_action_shape [OF a]
  show ?case
  proof (cases y)
    case (Inl err)
    with a Cons.prems shape show ?thesis by simp
  next
    case (Inr p)
    obtain rq2 z where rest: "prepareRequestedNodesForExecution cur r as rq1 = (rq2, z)" by fastforce
    with a Inr Cons.prems have "rq' = rq2" by (auto split: prod.splits sum.splits)
    with same_shape_trans [OF shape Cons.IH [OF rest]] show ?thesis by simp
  qed
qed

definition entry_of :: "workflow \<Rightarrow> node_to_execute \<Rightarrow> execute_data" where
  "entry_of w nx = direct_entry (the (getNode w (c_node (nx_inputConnectionData nx)))) (nx_inputConnectionData nx)
     (nx_parentOutputIndex nx) (nx_parentNode nx) (nx_parentOutputData nx) (nx_runIndex nx)
     (Some (nx_nodeRunIndex nx)) (nx_metadata nx)"

definition schedulable :: "workflow \<Rightarrow> node_to_execute \<Rightarrow> bool" where
  "schedulable w nx \<longleftrightarrow>
     getNode w (c_node (nx_inputConnectionData nx)) \<noteq> None \<and> nx_parentOutputData nx \<noteq> None \<and>
     length (or_empty (main_inputs w (c_node (nx_inputConnectionData nx)))) \<le> 1"

lemma schedule_requested_v1:
  "schedulable w nx \<Longrightarrow> w_executionOrder w = Some ''v1'' \<Longrightarrow>
    schedule_requested w nx st = Inr (pushExecutionStack (entry_of w nx) st)"
  by (auto simp: schedulable_def schedule_requested_def addNodeToBeExecuted_def entry_of_def enqueue_def)

lemma schedule_all_v1:
  assumes "w_executionOrder w = Some ''v1''" and "list_all (schedulable w) nxs"
  shows "schedule_all w nxs st =
    (st\<lparr>rs_nodeExecutionStack := rev (map (entry_of w) nxs) @ rs_nodeExecutionStack st\<rparr>, Inr ())"
  using assms by (induction nxs arbitrary: st) (simp_all add: schedule_requested_v1 pushExecutionStack_def)

text \<open>What the order of the stack is about: the node, its run and, for a resumed node, the runs it asked for.\<close>

definition entry_view :: "execute_data \<Rightarrow> string \<times> nat option \<times> (sub_node_action list \<times> js) option" where
  "entry_view e = (n_name (ed_node e), ed_runIndex e,
     case ed_metadata e of None \<Rightarrow> None | Some m \<Rightarrow> tm_subNodeExecutionData m)"

lemma entry_view_shape:
  assumes "map entry_rest es' = map entry_rest es"
    and "map (\<lambda>e. n_name (ed_node e)) es' = map (\<lambda>e. n_name (ed_node e)) es"
  shows "map entry_view es' = map entry_view es"
  using assms
proof (induction es' arbitrary: es)
  case Nil
  then show ?case by simp
next
  case (Cons e' es')
  obtain e es0 where es: "es = e # es0" using Cons.prems(1) by (cases es) simp_all
  have "map entry_view es' = map entry_view es0" using Cons.prems by (intro Cons.IH) (simp_all add: es)
  moreover have "entry_view e' = entry_view e"
    using Cons.prems by (simp add: es entry_view_def entry_rest_def)
  ultimately show ?case by (simp add: es)
qed

lemma request_action_entry:
  assumes "request_action cur r a rq = (rq', Inr (nx, sub))"
  shows "c_node (nx_inputConnectionData nx) = ea_nodeName a" and "nx_parentOutputData nx \<noteq> None"
    and "\<exists>m. nx_metadata nx = Some m \<and> tm_subNodeExecutionData m = None"
proof -
  obtain n where "getNode (rq_workflow rq) (ea_nodeName a) = Some n"
    using assms by (cases "getNode (rq_workflow rq) (ea_nodeName a)") (simp_all add: request_action_def)
  with assms show "c_node (nx_inputConnectionData nx) = ea_nodeName a" "nx_parentOutputData nx \<noteq> None"
    "\<exists>m. nx_metadata nx = Some m \<and> tm_subNodeExecutionData m = None"
    by (auto simp: request_action_def Let_def empty_metadata_def split: prod.splits)
qed

lemma requested_schedulable:
  assumes "prepareRequestedNodesForExecution cur r as rq = (rq', Inr (nodes, subs))"
  shows "\<forall>nx \<in> set nodes. c_node (nx_inputConnectionData nx) \<in> ea_nodeName ` set as \<and>
    nx_parentOutputData nx \<noteq> None \<and> (\<exists>m. nx_metadata nx = Some m \<and> tm_subNodeExecutionData m = None)"
  using assms
proof (induction as arbitrary: rq nodes subs)
  case Nil
  then show ?case by simp
next
  case (Cons a as)
  obtain rq1 nx sub nodes1 subs1 where a: "request_action cur r a rq = (rq1, Inr (nx, sub))"
    and rest: "prepareRequestedNodesForExecution cur r as rq1 = (rq', Inr (nodes1, subs1))"
    and eq: "nodes = nx # nodes1"
    using Cons.prems by (auto split: prod.splits sum.splits)
  show ?case
    using Cons.IH [OF rest] request_action_entry [OF a] by (simp add: eq)
qed

lemma named_shape:
  "prepareRequestedNodesForExecution cur r as rq = (rq', Inr x) \<Longrightarrow> workflow_named (rq_workflow rq) \<Longrightarrow>
    workflow_named (rq_workflow rq')"
proof (induction as arbitrary: rq x)
  case Nil
  then show ?case by simp
next
  case (Cons a as)
  then show ?case
    using request_action_Inr by (simp split: prod.splits sum.splits)
qed

lemma resuming_Some:
  "prepareRequestingNodeForResuming e = Some (conn, p, m) \<Longrightarrow>
    c_node conn = n_name (ed_node e) \<and> tm_subNodeExecutionData m = None"
  by (auto simp: prepareRequestingNodeForResuming_def empty_metadata_def split: option.splits if_splits)

lemma resuming_None:
  "prepareRequestingNodeForResuming e = None \<longleftrightarrow>
    (case parent_source 0 e of None \<Rightarrow> True | Some s \<Rightarrow> sd_previousNode s = [])"
  by (simp add: prepareRequestingNodeForResuming_def split: option.splits)


subsection \<open>An agent with one tool\<close>

lemma workflow_namedI: "list_all (\<lambda>p. n_name (snd p) = fst p) (w_nodes w) \<Longrightarrow> workflow_named w"
  by (auto simp: workflow_named_def getNode_def list_all_iff dest!: map_of_SomeD)

definition agent_workflow :: workflow where
  "agent_workflow = make_workflow sample_types
     [plain_node 0 ''Start'' ''t'', plain_node 1 ''Agent'' ''t'', plain_node 2 ''Tool'' ''t'']
     [(''Start'', [(Main, [Val [connection_to ''Agent'' Main 0]])]),
      (''Tool'', [(AiTool, [Val [connection_to ''Agent'' AiTool 0]])])] None (Some ''v1'')"

definition agent_entry :: execute_data where
  "agent_entry = \<lparr>ed_node = plain_node 1 ''Agent'' ''t'', ed_data = [(Main, [Val [tagged_item ''x'']])],
     ed_source = Some [(Main, [Val (handed_source ''Start'' 0 0)])], ed_metadata = None, ed_runIndex = None\<rparr>"

definition agent_state :: request_state where
  "agent_state = \<lparr>rq_workflow = agent_workflow, rq_run = createRunExecutionData no_options, rq_entry = agent_entry\<rparr>"

definition tool_call :: "string \<Rightarrow> engine_action" where
  "tool_call i = \<lparr>ea_nodeName = ''Tool'', ea_input = [(''q'', JStr i)], ea_type = AiTool, ea_id = i,
     ea_parentNodeName = None, ea_itemIndex = None\<rparr>"

definition two_calls :: engine_request where
  "two_calls = \<lparr>er_actions = [tool_call ''1'', tool_call ''2''], er_metadata = JObj []\<rparr>"

lemma agent_state_ok:
  "workflow_named (rq_workflow agent_state)" "w_executionOrder (rq_workflow agent_state) = Some ''v1''"
  "\<forall>nm \<in> insert (n_name (ed_node (rq_entry agent_state))) (ea_nodeName ` set (er_actions two_calls)).
     getNode (rq_workflow agent_state) nm \<noteq> None \<and> length (or_empty (main_inputs (rq_workflow agent_state) nm)) \<le> 1"
  "prepareRequestingNodeForResuming (rq_entry agent_state) \<noteq> None" "main_data (ed_data (rq_entry agent_state)) \<noteq> None"
  by (rule workflow_namedI, code_simp, code_simp+)


theorem requested_runs_are_fresh_witness:
  "\<exists>rq' nodes subs. prepareRequestedNodesForExecution ''Agent'' 0 (er_actions two_calls) agent_state = (rq', Inr (nodes, subs)) \<and>
     distinct (map (\<lambda>s. (sna_nodeName s, sna_runIndex s)) subs)"
proof -
  obtain rq' nodes subs where
    p: "prepareRequestedNodesForExecution ''Agent'' 0 (er_actions two_calls) agent_state = (rq', Inr (nodes, subs))"
    using prepare_total [of "er_actions two_calls" agent_state "''Agent''" 0] agent_state_ok(3) by auto
  with requested_runs_are_fresh [OF p agent_state_ok(1)] show ?thesis by auto
qed

text \<open>
  The source of a request is looked up by the run of the agent instead of by its input. In its second run
  an agent with one input has no source there, and the lineage of the tool call names the agent itself
  where the first run names the node before it.
\<close>

definition call_lineage :: "nat \<Rightarrow> source_data option" where
  "call_lineage runIndex =
     (case request_action ''Agent'' runIndex (tool_call ''1'') agent_state of
        (rq, Inr (nx, sub)) \<Rightarrow> (case nx_metadata nx of None \<Rightarrow> None | Some m \<Rightarrow> tm_preservedSourceOverwrite m)
      | (rq, Inl err) \<Rightarrow> None)"

theorem request_source_by_run:
  "call_lineage 0 = Some (handed_source ''Start'' 0 0) \<and> call_lineage 1 = Some (handed_source ''Agent'' 0 0)"
  by code_simp

text \<open>A request of a node without a source on its first input is dropped, but its placeholders stay in the run data.\<close>

theorem request_without_parent_dropped:
  "let (rq', r) = handleEngineRequest 0 two_calls
         (agent_state\<lparr>rq_entry := agent_entry\<lparr>ed_source := None\<rparr>\<rparr>)
   in r = Inr () \<and> rs_nodeExecutionStack (rq_run rq') = [] \<and> new_run (rs_runData (rq_run rq')) ''Tool'' = 2"
  by code_simp

end
