(* ===== verification/NodeRun.thy ===== *)
theory NodeRun
  imports EngineRequests
begin

section \<open>Running one node\<close>

text \<open>
  \<^verbatim>\<open>runNode\<close> of \<^verbatim>\<open>workflow-execute.ts\<close> and what surrounds it in the loop of the engine: the retries, the
  handling of the result, the record of the task and the handling of errors.

  The code of the nodes is a parameter: it may answer every call differently (it is given the number of
  calls so far), set the time to wait till and leave metadata for its task. Close functions and lifecycle
  hooks are modelled by their errors; what hooks observe is not modelled.
\<close>

subsection \<open>What nodes answer\<close>

datatype node_response = NodeData node_data | NodeRequest engine_request

definition isEngineRequest :: "node_response \<Rightarrow> bool" where
  "isEngineRequest r \<longleftrightarrow> (case r of NodeRequest _ \<Rightarrow> True | NodeData _ \<Rightarrow> False)"

record node_call =
  nc_workflow :: workflow
  nc_run :: run_state
  nc_runIndex :: nat
  nc_connectionInputData :: "item list"
  nc_inputData :: task_data_connections
  nc_executionData :: execute_data
  nc_subNodeExecutionResults :: "engine_response option"

text \<open>
  The answer of an operation of a node: its result or error, the errors of its close functions
  (\<open>None\<close> for a thrown value that is not an error), and what it changed in the run data.
\<close>

record operation_answer =
  oa_result :: "exec_error + node_response"
  oa_closingErrors :: "exec_error option list"
  oa_waitTill :: "nat option"
  oa_metadata :: "task_metadata list jsobj"

record environment =
  ev_manual :: bool
  ev_evalPorts :: eval_ports
  ev_getPairedItem :: get_paired_item
  ev_requiredInputs :: "node \<Rightarrow> string \<Rightarrow> (nat list + nat) option"
  ev_operation :: "nat \<Rightarrow> node_call \<Rightarrow> operation_answer"
  ev_poll :: "nat \<Rightarrow> node \<Rightarrow> exec_error + node_data"
  ev_trigger :: "nat \<Rightarrow> node \<Rightarrow> exec_error + output_data option"
  ev_declarative :: "nat \<Rightarrow> node_call \<Rightarrow> exec_error + node_data"
  ev_timedOut :: "nat \<Rightarrow> bool"

type_synonym 'a engine_call = "engine \<times> (exec_error + 'a)"

definition exec_of_js :: "js_error \<Rightarrow> exec_error" where
  "exec_of_js err =
     (case err of
        AssertionError m \<Rightarrow> \<lparr>ee_name = ''AssertionError'', ee_message = m, ee_stack = []\<rparr>
      | TypeError m \<Rightarrow> \<lparr>ee_name = ''TypeError'', ee_message = m, ee_stack = []\<rparr>
      | UserError m \<Rightarrow> \<lparr>ee_name = ''UserError'', ee_message = m, ee_stack = []\<rparr>
      | UnexpectedError m \<Rightarrow> \<lparr>ee_name = ''UnexpectedError'', ee_message = m, ee_stack = []\<rparr>
      | OperationalError m \<Rightarrow> \<lparr>ee_name = ''OperationalError'', ee_message = m, ee_stack = []\<rparr>
      | RangeError m \<Rightarrow> \<lparr>ee_name = ''RangeError'', ee_message = m, ee_stack = []\<rparr>)"

definition exec_result :: "'a result \<Rightarrow> exec_error + 'a" where
  "exec_result r = (case r of Inl e \<Rightarrow> Inl (exec_of_js e) | Inr x \<Rightarrow> Inr x)"

definition count_call :: "engine \<Rightarrow> engine" where
  "count_call en = en\<lparr>en_ticks := Suc (en_ticks en)\<rparr>"

subsection \<open>The kinds of nodes\<close>

definition closing_error :: "exec_error option list \<Rightarrow> exec_error option" where
  "closing_error errs =
     (case errs of
        [] \<Rightarrow> None
      | Some e # _ \<Rightarrow> Some e
      | None # _ \<Rightarrow> Some (exec_of_js (UnexpectedError (''Error on execution node's close function(s)''))))"

definition executeNode :: "environment \<Rightarrow> node_call \<Rightarrow> engine \<Rightarrow> node_response engine_call" where
  "executeNode ev call en =
     (let answer = ev_operation ev (en_ticks en) call;
          en = (count_call en)\<lparr>en_run := (en_run en)\<lparr>rs_waitTill := oa_waitTill answer, rs_metadata := oa_metadata answer\<rparr>\<rparr>
      in case oa_result answer of
           Inl err \<Rightarrow> (en, Inl err)
         | Inr r \<Rightarrow> (en, case closing_error (oa_closingErrors answer) of Some err \<Rightarrow> Inl err | None \<Rightarrow> Inr r))"

definition input_as_output :: "task_data_connections \<Rightarrow> node_data" where
  \<comment> \<open>\<^verbatim>\<open>{ data: inputData.main }\<close>\<close>
  "input_as_output inputData = (case main_data inputData of None \<Rightarrow> Undefined | Some main \<Rightarrow> Val main)"

definition executePollNode :: "environment \<Rightarrow> node \<Rightarrow> task_data_connections \<Rightarrow> engine \<Rightarrow> node_response engine_call" where
  "executePollNode ev n inputData en =
     (if ev_manual ev
      then (count_call en, map_sum id NodeData (ev_poll ev (en_ticks en) n))
      else (en, Inr (NodeData (input_as_output inputData))))"

definition trigger_output :: "output_data option \<Rightarrow> node_data" where
  \<comment> \<open>no response, or one without outputs, gives \<^verbatim>\<open>null\<close>\<close>
  "trigger_output response = (case response of None \<Rightarrow> Null | Some outputs \<Rightarrow> if outputs = [] then Null else Val outputs)"

definition executeTriggerNode :: "environment \<Rightarrow> node \<Rightarrow> task_data_connections \<Rightarrow> engine \<Rightarrow> node_response engine_call" where
  "executeTriggerNode ev n inputData en =
     (if ev_manual ev
      then (count_call en, map_sum id (\<lambda>r. NodeData (trigger_output r)) (ev_trigger ev (en_ticks en) n))
      else (en, Inr (NodeData (input_as_output inputData))))"

definition executeDeclarativeNodeInTest :: "environment \<Rightarrow> node_call \<Rightarrow> engine \<Rightarrow> node_response engine_call" where
  "executeDeclarativeNodeInTest ev call en =
     (count_call en, map_sum id NodeData (ev_declarative ev (en_ticks en) call))"

subsection \<open>runNode\<close>

definition resume_error :: "execute_data \<Rightarrow> exec_error option" where
  "resume_error e = (case ed_metadata e of None \<Rightarrow> None | Some m \<Rightarrow> tm_resumeError m)"

definition resumed_error_item :: "execute_data \<Rightarrow> exec_error \<Rightarrow> item" where
  \<comment> \<open>paired with every input item and linked to the failed child execution\<close>
  "resumed_error_item e err =
     (let items = slot_list (arr_get (or_empty (main_data (ed_data e))) 0);
          sub = (case ed_metadata e of None \<Rightarrow> None | Some m \<Rightarrow> tm_subExecution m)
      in empty_item\<lparr>i_json := [(''error'', JStr (ee_message err))],
           i_pairedItem := Some (PairedList
             (map (\<lambda>i. \<lparr>pi_item = i, pi_input = None, pi_sourceOverwrite = None\<rparr>) [0..<length items])),
           i_metadata := (case sub of Some v \<Rightarrow> if js_truthy v then Some (JObj [(''subExecution'', v)]) else None
                          | None \<Rightarrow> None)\<rparr>)"

definition run_by_type ::
  "environment \<Rightarrow> node_type \<Rightarrow> bool \<Rightarrow> node_call \<Rightarrow> engine \<Rightarrow> node_response engine_call" where
  "run_by_type ev t customOperation call en =
     (let n = ed_node (nc_executionData call); inputData = nc_inputData call in
      if nt_execute t \<or> customOperation then executeNode ev call en
      else if nt_poll t then executePollNode ev n inputData en
      else if nt_trigger t then executeTriggerNode ev n inputData en
      else if nt_supplyData t then
        (en, Inl (exec_of_js (UnexpectedError (''The node '' @ [CHR 0x22] @ n_type n @ [CHR 0x22]
           @ '' has a '' @ [CHR 0x22] @ ''supplyData'' @ [CHR 0x22] @ '' method but no '' @ [CHR 0x22] @ ''execute''
           @ [CHR 0x22] @ '' method.''))))
      else if nt_webhook t \<and> \<not> nt_requestDefaults t then (en, Inr (NodeData (input_as_output inputData)))
      else executeDeclarativeNodeInTest ev call en)"

definition runNode ::
  "environment \<Rightarrow> nat \<Rightarrow> engine_response option \<Rightarrow> execute_data \<Rightarrow> engine \<Rightarrow> node_response engine_call" where
  "runNode ev runIndex results e en =
     (let n = ed_node e; w = en_workflow en in
      case resume_error e of
        Some err \<Rightarrow>
          (en, if continuesOnError n then Inr (NodeData (Val [Val [resumed_error_item e err]]))
               else Inl (rethrowNodeError err))
      | None \<Rightarrow>
      if n_disabled n = Some True then
        (en, Inr (NodeData (handleDisabledNode (ed_data e)
          (case ed_metadata e of None \<Rightarrow> False | Some m \<Rightarrow> tm_forwardAllOutputs m = Some True))))
      else case node_type_of w n of
        None \<Rightarrow> (en, Inl (exec_of_js undefined_property))
      | Some t \<Rightarrow>
          let customOperation = getCustomOperation n t in
          case prepareConnectionInputData w t customOperation n (ed_data e) (ed_source e) of
            None \<Rightarrow> (en, Inr (NodeData Undefined))
          | Some input \<Rightarrow>
              (case rethrowLastNodeError (en_run en) n of
                 Some err \<Rightarrow> (en, Inl err)
               | None \<Rightarrow> run_by_type ev t customOperation
                   \<lparr>nc_workflow = w, nc_run = en_run en, nc_runIndex = runIndex, nc_connectionInputData = input,
                    nc_inputData = handleExecuteOnce n (ed_data e), nc_executionData = e,
                    nc_subNodeExecutionResults = results\<rparr> en))"

subsection \<open>The work on one entry of the stack\<close>

text \<open>The variables of a round of the loop.\<close>

record work =
  wk_engine :: engine
  wk_entry :: execute_data
  wk_output :: "output_data option"
  wk_results :: engine_response

definition check_failure :: "node_response \<Rightarrow> bool" where
  \<comment> \<open>\<^verbatim>\<open>json.error\<close> of the first item is neither undefined, null nor false\<close>
  "check_failure r \<longleftrightarrow>
     (case r of
        NodeRequest _ \<Rightarrow> False
      | NodeData (Val outputs) \<Rightarrow>
          (case slot_list (arr_get outputs 0) of
             [] \<Rightarrow> False
           | x # _ \<Rightarrow> param_value (i_json x) ''error'' \<notin> {JUndefined, JNull, JBool False})
      | NodeData _ \<Rightarrow> False)"

text \<open>\<^verbatim>\<open>while (nodeFailed && tryIndex !== maxTries - 1)\<close>: the results of sub-nodes are not passed on.\<close>

partial_function (option) inner_tries ::
  "environment \<Rightarrow> nat \<Rightarrow> rat \<Rightarrow> execute_data \<Rightarrow> nat \<Rightarrow> node_response \<Rightarrow> engine \<Rightarrow> (nat \<times> node_response engine_call) option"
where
  "inner_tries ev runIndex maxTries e tryIndex r en =
     (if check_failure r \<and> of_nat tryIndex \<noteq> maxTries - 1 then
        (case runNode ev runIndex None e en of
           (en, Inl err) \<Rightarrow> Some (tryIndex, en, Inl err)
         | (en, Inr r) \<Rightarrow> inner_tries ev runIndex maxTries e (Suc tryIndex) r en)
      else Some (tryIndex, en, Inr r))"

declare inner_tries.simps [code]

definition processNodeOutput ::
  "environment \<Rightarrow> node_data \<Rightarrow> execute_data \<Rightarrow> engine \<Rightarrow> exec_error + node_data" where
  "processNodeOutput ev data e en =
     (case data of
        Val outputs \<Rightarrow>
          if n_onError (ed_node e) = Some ContinueErrorOutput
          then exec_result (bind_result
            (handleNodeErrorOutput (ev_evalPorts ev) (ev_getPairedItem ev) (en_workflow en) e outputs)
            (\<lambda>outputs. Inr (Val outputs)))
          else Inr data
      | _ \<Rightarrow> Inr data)"

text \<open>How a try ends: with the output, in the next round of the loop, or with an error.\<close>

datatype try_end = TryDone | TryNext | TryError exec_error

definition finish_try :: "work \<Rightarrow> node_data \<Rightarrow> work \<times> try_end" where
  \<comment> \<open>from the output of the node to the end of the \<^verbatim>\<open>try\<close> block\<close>
  "finish_try wk data =
     (let wk = wk\<lparr>wk_output := slot_option data\<rparr> in
      case assignPairedItems data (wk_entry wk) of
        Inl err \<Rightarrow> (wk, TryError (exec_of_js err))
      | Inr output \<Rightarrow>
          let en = (if output = None then wk_engine wk
                    else (wk_engine wk)\<lparr>en_run := (en_run (wk_engine wk))
                      \<lparr>rs_lastNodeExecuted := Some (n_name (ed_node (wk_entry wk)))\<rparr>\<rparr>);
              wk = wk\<lparr>wk_engine := en, wk_output := output\<rparr>
          in case ensureAlwaysOutputData output (wk_entry wk) of
               Inl err \<Rightarrow> (wk, TryError (exec_of_js err))
             | Inr output \<Rightarrow>
                 (wk\<lparr>wk_output := output\<rparr>,
                  if output = None \<and> rs_waitTill (en_run en) = None then TryNext else TryDone))"

definition answer_request :: "nat \<Rightarrow> engine_request \<Rightarrow> work \<Rightarrow> work \<times> try_end" where
  "answer_request runIndex request wk =
     (let en = wk_engine wk in
      case handleEngineRequest runIndex request
        \<lparr>rq_workflow = en_workflow en, rq_run = en_run en, rq_entry = wk_entry wk\<rparr> of
        (rq, r) \<Rightarrow>
          (wk\<lparr>wk_engine := en\<lparr>en_workflow := rq_workflow rq, en_run := rq_run rq\<rparr>, wk_entry := rq_entry rq\<rparr>,
           case r of Inl err \<Rightarrow> TryError (exec_of_js err) | Inr _ \<Rightarrow> TryNext))"

definition one_try :: "environment \<Rightarrow> nat \<Rightarrow> rat \<Rightarrow> nat \<Rightarrow> work \<Rightarrow> (nat \<times> work \<times> try_end) option" where
  "one_try ev runIndex maxTries tryIndex wk =
     (case getPinnedOutput (en_run (wk_engine wk)) (ed_node (wk_entry wk)) of
        Some pinned \<Rightarrow> Some (tryIndex, finish_try wk (Val pinned))
      | None \<Rightarrow>
          let wk = wk\<lparr>wk_results := collectSubNodeResults (en_run (wk_engine wk)) (wk_entry wk) (wk_results wk)\<rparr> in
          (case runNode ev runIndex (Some (wk_results wk)) (wk_entry wk) (wk_engine wk) of
             (en, Inl err) \<Rightarrow> Some (tryIndex, wk\<lparr>wk_engine := en\<rparr>, TryError err)
           | (en, Inr r) \<Rightarrow>
               (case inner_tries ev runIndex maxTries (wk_entry wk) tryIndex r en of
                  None \<Rightarrow> None
                | Some (tryIndex, en, Inl err) \<Rightarrow> Some (tryIndex, wk\<lparr>wk_engine := en\<rparr>, TryError err)
                | Some (tryIndex, en, Inr (NodeRequest request)) \<Rightarrow>
                    Some (tryIndex, answer_request runIndex request (wk\<lparr>wk_engine := en\<rparr>))
                | Some (tryIndex, en, Inr (NodeData data)) \<Rightarrow>
                    (case processNodeOutput ev data (wk_entry wk) en of
                       Inl err \<Rightarrow> Some (tryIndex, wk\<lparr>wk_engine := en\<rparr>, TryError err)
                     | Inr data \<Rightarrow> Some (tryIndex, finish_try (wk\<lparr>wk_engine := en\<rparr>) data)))))"

definition reportNodeExecutionError :: "node \<Rightarrow> engine \<Rightarrow> engine" where
  "reportNodeExecutionError n en =
     en\<lparr>en_run := (en_run en)\<lparr>rs_lastNodeExecuted := Some (n_name n)\<rparr>\<rparr>"

text \<open>\<^verbatim>\<open>for (let tryIndex = 0; tryIndex < maxTries; tryIndex++)\<close>; the error is that of the last try.\<close>

partial_function (option) all_tries ::
  "environment \<Rightarrow> nat \<Rightarrow> rat \<Rightarrow> nat \<Rightarrow> exec_error option \<Rightarrow> work \<Rightarrow> (work \<times> try_end) option" where
  "all_tries ev runIndex maxTries tryIndex executionError wk =
     (if of_nat tryIndex < maxTries then
        (case one_try ev runIndex maxTries tryIndex wk of
           None \<Rightarrow> None
         | Some (tryIndex, wk, TryError err) \<Rightarrow>
             all_tries ev runIndex maxTries (Suc tryIndex) (Some err)
               (wk\<lparr>wk_engine := reportNodeExecutionError (ed_node (wk_entry wk)) (wk_engine wk)\<rparr>)
         | Some (tryIndex, wk, r) \<Rightarrow> Some (wk, r))
      else Some (wk, case executionError of None \<Rightarrow> TryDone | Some err \<Rightarrow> TryError err))"

declare all_tries.simps [code]

subsection \<open>The record of a task\<close>

definition createTaskData :: "task_data \<Rightarrow> execute_data \<Rightarrow> run_state \<Rightarrow> task_data" where
  "createTaskData started e st =
     started\<lparr>td_metadata := ed_metadata e,
       td_executionStatus := Some (if rs_waitTill st = None then Success else Waiting)\<rparr>"

definition previous_override :: "run_state \<Rightarrow> string \<Rightarrow> nat \<Rightarrow> task_data_connections" where
  \<comment> \<open>\<^verbatim>\<open>runData[name]?.[runIndex]?.inputOverride || {}\<close>\<close>
  "previous_override st nm runIndex =
     (let tasks = or_empty (obj_get (rs_runData st) nm) in
      if runIndex < length tasks then or_empty (td_inputOverride (tasks ! runIndex)) else [])"

definition rewireOutputLog :: "node \<Rightarrow> output_data \<Rightarrow> nat \<Rightarrow> run_state \<Rightarrow> task_data \<Rightarrow> task_data" where
  "rewireOutputLog n output runIndex st task =
     (case n_rewireOutputLogTo n of
        None \<Rightarrow> task
      | Some t \<Rightarrow> task\<lparr>td_inputOverride := Some (previous_override st (n_name n) runIndex),
                       td_data := Some [(t, output)]\<rparr>)"

definition error_output :: "exec_error \<Rightarrow> output_data" where
  \<comment> \<open>\<^verbatim>\<open>[[{ json: { error: message } }]]\<close>\<close>
  "error_output err = [Val [empty_item\<lparr>i_json := [(''error'', JStr (ee_message err))]\<rparr>]]"

definition passes_on_error :: "node \<Rightarrow> bool" where
  \<comment> \<open>the execution goes on; tools of agents do so unless told to stop\<close>
  "passes_on_error n \<longleftrightarrow>
     continuesOnError n \<or> (n_rewireOutputLogTo n = Some AiTool \<and> n_onError n \<noteq> Some StopWorkflow)"

definition passed_output :: "execute_data \<Rightarrow> exec_error \<Rightarrow> output_data option \<Rightarrow> output_data option" where
  "passed_output e err output =
     (if n_rewireOutputLogTo (ed_node e) = Some AiTool then Some (error_output err)
      else case main_data (ed_data e) of
        None \<Rightarrow> output
      | Some main \<Rightarrow> if main \<noteq> [] \<and> main ! 0 \<noteq> Null then Some [main ! 0] else output)"

text \<open>
  \<^verbatim>\<open>handleNodeExecutionError\<close>: the output to go on with and the task, or the run with the task stored and the
  entry back on the stack.
\<close>

definition handleNodeExecutionError ::
  "execute_data \<Rightarrow> task_data \<Rightarrow> exec_error \<Rightarrow> output_data option \<Rightarrow> nat \<Rightarrow> run_state \<Rightarrow>
    (output_data option \<times> task_data + run_state) result" where
  "handleNodeExecutionError e task err output runIndex st =
     (let n = ed_node e; task = task\<lparr>td_error := Some err, td_executionStatus := Some Error\<rparr> in
      if passes_on_error n then Inr (Inl (passed_output e err output, task))
      else
        let task = (case n_rewireOutputLogTo n of
                      None \<Rightarrow> task
                    | Some t \<Rightarrow> task\<lparr>td_inputOverride := Some (previous_override st (n_name n) runIndex),
                                     td_data := Some [(t, error_output err)]\<rparr>)
        in bind_result (upsertTaskData (n_name n) runIndex task st) (\<lambda>st.
             Inr (Inr (pushExecutionStack e st))))"

end
