(* ===== verification/EngineLoop.thy ===== *)
theory EngineLoop
  imports NodeRun WorkflowSearch
begin

section \<open>The loop of the engine\<close>

text \<open>
  \<^verbatim>\<open>processRunExecutionData\<close> of \<^verbatim>\<open>workflow-execute.ts\<close>, round by round: a round takes an entry from the stack,
  runs its node, stores the task and schedules the nodes after it; when the stack is empty the nodes
  that wait for inputs that will not come any more are scheduled.
\<close>

subsection \<open>Is the input there?\<close>

fun input_loop :: "workflow \<Rightarrow> execute_data \<Rightarrow> nat \<Rightarrow> nat \<Rightarrow> bool" where
  \<comment> \<open>the loop over the input connections: the number of those left and the index of the next\<close>
  "input_loop w e 0 i = True"
| "input_loop w e (Suc k) i =
     (if getHighestNode w (n_name (ed_node e)) (Some i) = [] then True
      else case main_data (ed_data e) of
        None \<Rightarrow> False
      | Some main \<Rightarrow>
          if isLegacyExecutionOrder w \<and> (length main < i \<or> arr_get main i = Null) then False
          else input_loop w e k (Suc i))"

definition ensureInputData :: "workflow \<Rightarrow> execute_data \<Rightarrow> run_state \<Rightarrow> bool \<times> run_state" where
  "ensureInputData w e st =
     (if input_loop w e (length (or_empty (main_inputs w (n_name (ed_node e))))) 0 then (True, st)
      else (False, enqueue_last e st))"

subsection \<open>Scheduling the nodes after a node\<close>

text \<open>
  The comparison of positions is not an order in the sense of the language standard, which leaves the
  result to the implementation; V8 only looks at whether a later element is smaller than an earlier one.
\<close>

fun v8_insert :: "('a \<Rightarrow> 'a \<Rightarrow> int) \<Rightarrow> 'a \<Rightarrow> 'a list \<Rightarrow> 'a list" where
  "v8_insert cmp x [] = [x]"
| "v8_insert cmp x (y # ys) = (if cmp y x < 0 then y # v8_insert cmp x ys else x # y # ys)"

definition v8_sort :: "('a \<Rightarrow> 'a \<Rightarrow> int) \<Rightarrow> 'a list \<Rightarrow> 'a list" where
  "v8_sort cmp xs = foldr (v8_insert cmp) xs []"

record node_to_add =
  na_position :: "rat \<times> rat"
  na_connection :: connection
  na_outputIndex :: nat

definition by_position :: "node_to_add \<Rightarrow> node_to_add \<Rightarrow> int" where
  "by_position a b =
     (if snd (na_position a) < snd (na_position b) then 1
      else if snd (na_position a) > snd (na_position b) then -1
      else if fst (na_position a) > fst (na_position b) then -1
      else 0)"

text \<open>The connections from the main outputs of a node, with the index of their output.\<close>

definition main_links :: "workflow \<Rightarrow> string \<Rightarrow> (nat \<times> connection) list" where
  "main_links w nm =
     (case obj_get (w_connectionsBySourceNode w) nm of
        None \<Rightarrow> []
      | Some entry \<Rightarrow>
          concat (map (\<lambda>(i, s). map (\<lambda>c. (i, c)) (slot_list s)) (enumerate 0 (or_empty (obj_get entry Main)))))"

definition receives :: "workflow \<Rightarrow> output_data \<Rightarrow> nat \<times> connection \<Rightarrow> bool" where
  \<comment> \<open>the output has items, or it is connected to a further input in the legacy order\<close>
  "receives w output link =
     (case arr_get output (fst link) of
        Val items \<Rightarrow> items \<noteq> [] \<or> (c_index (snd link) > 0 \<and> isLegacyExecutionOrder w)
      | _ \<Rightarrow> False)"

definition destination_missing :: js_error where
  "destination_missing = UnexpectedError ''Destination node not found''"

definition add_legacy :: "workflow \<Rightarrow> string \<Rightarrow> output_data \<Rightarrow> nat \<Rightarrow> nat \<times> connection \<Rightarrow> run_state \<Rightarrow> run_state result" where
  "add_legacy w nm output runIndex link st =
     (if \<not> map_has (w_nodes w) (c_node (snd link)) then Inl destination_missing
      else if receives w output link
      then addNodeToBeExecuted w (snd link) (fst link) nm (Some output) runIndex None None st
      else Inr st)"

fun collect_nodes :: "workflow \<Rightarrow> output_data \<Rightarrow> (nat \<times> connection) list \<Rightarrow> node_to_add list result" where
  "collect_nodes w output [] = Inr []"
| "collect_nodes w output (link # links) =
     (case getNode w (c_node (snd link)) of
        None \<Rightarrow> Inl destination_missing
      | Some n \<Rightarrow>
          bind_result (collect_nodes w output links) (\<lambda>rest.
            Inr (if receives w output link
                 then \<lparr>na_position = n_position n, na_connection = snd link, na_outputIndex = fst link\<rparr> # rest
                 else rest)))"

definition enqueueChildren :: "workflow \<Rightarrow> string \<Rightarrow> output_data \<Rightarrow> nat \<Rightarrow> run_state \<Rightarrow> run_state result" where
  "enqueueChildren w nm output runIndex st =
     (let links = main_links w nm in
      if w_executionOrder w = Some ''v1''
      then bind_result (collect_nodes w output links) (\<lambda>nodes.
        fold_result (\<lambda>nd. addNodeToBeExecuted w (na_connection nd) (na_outputIndex nd) nm (Some output) runIndex None None)
          (v8_sort by_position nodes) st)
      else fold_result (add_legacy w nm output runIndex) links st)"

subsection \<open>Nodes that wait for inputs that will not come\<close>

definition required_inputs_of :: "environment \<Rightarrow> workflow \<Rightarrow> node \<Rightarrow> node_type \<Rightarrow> (nat list + nat) option" where
  "required_inputs_of ev w n t =
     (if w_executionOrder w \<noteq> Some ''v1'' then None
      else case nt_requiredInputs t of
        None \<Rightarrow> None
      | Some (RequiredExpression s) \<Rightarrow> ev_requiredInputs ev n s
      | Some (RequiredInputs ks) \<Rightarrow> Some (Inl ks)
      | Some (RequiredCount k) \<Rightarrow> Some (Inr k))"

definition all_required :: "(nat list + nat) option \<Rightarrow> node_type \<Rightarrow> bool" where
  "all_required needed t =
     (case needed of
        None \<Rightarrow> False
      | Some (Inl ks) \<Rightarrow> length ks = ports_length (nt_inputs t)
      | Some (Inr k) \<Rightarrow> k = ports_length (nt_inputs t))"

text \<open>The keys of an object are strings, and \<^verbatim>\<open>sort()\<close> compares them as such.\<close>

definition first_run_index :: "(item list slot list jsobj) by_run \<Rightarrow> nat option" where
  "first_run_index entries =
     (case sort_strings (map (\<lambda>p. show_nat (fst p)) entries) of
        [] \<Rightarrow> None
      | s # _ \<Rightarrow> Some (digits_value s))"

text \<open>
  Holes: the waiting entries of partial executions may lack inputs; \<^verbatim>\<open>map\<close> and \<^verbatim>\<open>filter\<close> pass over them.
  Here \<open>Undefined\<close> in a waiting entry stands for such a hole.
\<close>

definition inputs_with_data :: "input_data \<Rightarrow> nat list" where
  "inputs_with_data main = filter (\<lambda>i. arr_get main i \<noteq> Null \<and> arr_get main i \<noteq> Undefined) [0..<length main]"

definition enough_inputs :: "(nat list + nat) option \<Rightarrow> nat list \<Rightarrow> bool" where
  "enough_inputs needed present =
     (case needed of
        None \<Rightarrow> True
      | Some (Inl ks) \<Rightarrow> set ks \<subseteq> set present
      | Some (Inr k) \<Rightarrow> k \<le> length present)"

definition null_to_empty :: "item list slot \<Rightarrow> item list slot" where
  "null_to_empty s = (if s = Null then Val [] else s)"

definition pad_inputs :: "nat \<Rightarrow> input_data \<Rightarrow> input_data" where
  "pad_inputs k main = main @ replicate (k - length main) (Val [])"

text \<open>What is done about one waiting node: nothing, or its first entry leaves, with an entry for the stack or without.\<close>

datatype waiting_step = Skip | Release nat "execute_data option"

definition check_waiting :: "environment \<Rightarrow> workflow \<Rightarrow> string list \<Rightarrow> string \<Rightarrow> run_state \<Rightarrow> waiting_step result" where
  "check_waiting ev w waitingNodes nm st =
     (case getNode w nm of
        None \<Rightarrow> Inr Skip
      | Some n \<Rightarrow>
          bind_result (required (node_type_of w n)) (\<lambda>t.
          let needed = required_inputs_of ev w n t in
          if all_required needed t then Inr Skip
          else if list_ex (\<lambda>p. p \<in> set waitingNodes) (parentNodes w nm (OfType Main)) then Inr Skip
          else
            bind_result (required (obj_get (rs_waitingExecution st) nm)) (\<lambda>entries.
            bind_result (required (first_run_index entries)) (\<lambda>i.
            bind_result (main_of (rs_waitingExecution st) nm i) (\<lambda>main.
            if \<not> enough_inputs needed (inputs_with_data main) then Inr Skip
            else
              let data = map null_to_empty main in
              bind_result (required (obj_get (or_empty (rs_waitingExecutionSource st)) nm)) (\<lambda>sources.
                Inr (Release i
                  (if list_ex nonempty data
                   then Some \<lparr>ed_node = n, ed_data = [(Main, pad_inputs (ports_length (nt_inputs t)) data)],
                     ed_source = map_get sources i, ed_metadata = None, ed_runIndex = None\<rparr>
                   else None))))))))"

text \<open>Released without data, the search starts again; each time there is an entry less.\<close>

definition waiting_count :: "run_state \<Rightarrow> nat" where
  "waiting_count st = sum_list (map (\<lambda>p. length (snd p)) (rs_waitingExecution st))"

lemma sum_lengths_update:
  "map_of m k = Some old \<Longrightarrow>
    sum_list (map (\<lambda>p. length (snd p)) (AList.update k v m)) + length old
      = sum_list (map (\<lambda>p. length (snd p)) m) + length v"
  by (induction m) (auto split: if_splits)

lemma sum_lengths_delete:
  "sum_list (map (\<lambda>p. length (snd p)) (AList.delete k m)) \<le> sum_list (map (\<lambda>p. length (snd p)) m)"
  by (induction m) auto

lemma length_delete: "map_of m k = Some v \<Longrightarrow> length (AList.delete k m) < length m"
  by (induction m) (auto simp: less_Suc_eq_le length_delete_le split: if_splits)

lemma drop_waiting_count:
  assumes "run_get (rs_waitingExecution st) nm i = Some x"
  shows "waiting_count (drop_waiting nm i st) < waiting_count st"
proof -
  let ?m = "rs_waitingExecution st"
  obtain entries where e: "obj_get ?m nm = Some entries" "map_of entries i = Some x"
    using assms by (auto simp: run_get_def split: option.splits)
  have "nm \<in> fst ` set ?m" using e(1) by (metis domI dom_map_of_conv_image_fst)
  then have "run_delete nm i ?m = AList.update nm (AList.delete i entries) ?m"
    by (simp add: run_delete_def e(1) obj_set_def)
  with sum_lengths_update [OF e(1), of "AList.delete i entries"] length_delete [OF e(2)]
  have less: "sum_list (map (\<lambda>p. length (snd p)) (run_delete nm i ?m)) < sum_list (map (\<lambda>p. length (snd p)) ?m)"
    by simp
  with sum_lengths_delete [of nm "run_delete nm i ?m"] show ?thesis
    by (auto simp: drop_waiting_def waiting_count_def Let_def intro: le_less_trans)
qed

lemma check_waiting_Release:
  assumes "check_waiting ev w waitingNodes nm st = Inr (Release i r)"
  shows "\<exists>x. run_get (rs_waitingExecution st) nm i = Some x"
  using assms
  by (auto simp: check_waiting_def bind_result_eq_Inr main_of_Inr Let_def split: option.splits if_splits)

function scan_waiting :: "environment \<Rightarrow> workflow \<Rightarrow> string list \<Rightarrow> string list \<Rightarrow> run_state \<Rightarrow> run_state result" where
  "scan_waiting ev w waitingNodes [] st = Inr st"
| "scan_waiting ev w waitingNodes (nm # rest) st =
     (case check_waiting ev w waitingNodes nm st of
        Inl err \<Rightarrow> Inl err
      | Inr Skip \<Rightarrow> scan_waiting ev w waitingNodes rest st
      | Inr (Release i (Some e)) \<Rightarrow> Inr (drop_waiting nm i (enqueue_last e st))
      | Inr (Release i None) \<Rightarrow>
          scan_waiting ev w (map_keys (rs_waitingExecution (drop_waiting nm i st)))
            (map_keys (rs_waitingExecution (drop_waiting nm i st))) (drop_waiting nm i st))"
  by pat_completeness auto

termination scan_waiting
proof (relation "measures [\<lambda>(ev, w, waitingNodes, names, st). waiting_count st,
    \<lambda>(ev, w, waitingNodes, names, st). length names]")
  fix ev w waitingNodes nm rest st x step i r
  assume "check_waiting ev w waitingNodes nm st = Inr step" "step = Release i r"
  then obtain y where "run_get (rs_waitingExecution st) nm i = Some y" using check_waiting_Release by blast
  then show "((ev, w, map_keys (rs_waitingExecution (drop_waiting nm i st)),
      map_keys (rs_waitingExecution (drop_waiting nm i st)), drop_waiting nm i st),
      (ev, w, waitingNodes, nm # rest, st))
    \<in> measures [\<lambda>(ev, w, waitingNodes, names, st). waiting_count st,
        \<lambda>(ev, w, waitingNodes, names, st). length names]"
    using drop_waiting_count by simp
qed simp_all

definition scheduleWaiting :: "environment \<Rightarrow> workflow \<Rightarrow> run_state \<Rightarrow> run_state result" where
  "scheduleWaiting ev w st =
     (if rs_nodeExecutionStack st = []
      then scan_waiting ev w (map_keys (rs_waitingExecution st)) (map_keys (rs_waitingExecution st)) st
      else Inr st)"

subsection \<open>One round\<close>

datatype round_end = RoundNext | RoundStop | RoundThrow js_error

type_synonym round_result = "engine \<times> round_end"

definition set_run :: "run_state \<Rightarrow> engine \<Rightarrow> engine" where
  "set_run st en = en\<lparr>en_run := st\<rparr>"

definition ensure_runs :: "string \<Rightarrow> run_state \<Rightarrow> run_state" where
  "ensure_runs nm st =
     (if map_has (rs_runData st) nm then st else st\<lparr>rs_runData := obj_set nm [] (rs_runData st)\<rparr>)"

definition is_destination :: "run_state \<Rightarrow> string \<Rightarrow> bool" where
  "is_destination st nm \<longleftrightarrow>
     (case rs_destinationNode st of None \<Rightarrow> False | Some d \<Rightarrow> dn_nodeName d = nm)"

definition schedule_next :: "environment \<Rightarrow> workflow \<Rightarrow> string \<Rightarrow> output_data \<Rightarrow> nat \<Rightarrow> run_state \<Rightarrow> run_state result" where
  \<comment> \<open>the nodes after the node, then those that wait\<close>
  "schedule_next ev w nm output runIndex st =
     bind_result (enqueueChildren w nm output runIndex st) (scheduleWaiting ev w)"

definition store_output ::
  "environment \<Rightarrow> execute_data \<Rightarrow> nat \<Rightarrow> output_data option \<Rightarrow> task_data \<Rightarrow> engine \<Rightarrow> round_result" where
  "store_output ev e runIndex output task en =
     (let n = ed_node e; st = en_run en in
      case normalizeNodeErrors output of
        Inl err \<Rightarrow> (en, RoundThrow err)
      | Inr output \<Rightarrow>
          (case upsertTaskData (n_name n) runIndex
              (rewireOutputLog n output runIndex st (task\<lparr>td_data := Some [(Main, output)]\<rparr>)) st of
             Inl err \<Rightarrow> (en, RoundThrow err)
           | Inr st \<Rightarrow>
               if rs_waitTill st \<noteq> None then (set_run (pushExecutionStack e st) en, RoundStop)
               else if is_destination st (n_name n) then (set_run st en, RoundNext)
               else (case schedule_next ev (en_workflow en) (n_name n) output runIndex st of
                       Inl err \<Rightarrow> (set_run st en, RoundThrow err)
                     | Inr st \<Rightarrow> (set_run st en, RoundNext))))"

definition finish_round ::
  "environment \<Rightarrow> task_data \<Rightarrow> nat \<Rightarrow> work \<Rightarrow> exec_error option \<Rightarrow> round_result" where
  "finish_round ev started runIndex wk executionError =
     (let e = wk_entry wk;
          en = (wk_engine wk)\<lparr>en_run := ensure_runs (n_name (ed_node e)) (en_run (wk_engine wk)),
                 en_executionError := executionError\<rparr>;
          task = createTaskData started e (en_run en)
      in case executionError of
           None \<Rightarrow> store_output ev e runIndex (wk_output wk) task en
         | Some err \<Rightarrow>
             (case handleNodeExecutionError e task err (wk_output wk) runIndex (en_run en) of
                Inl jsErr \<Rightarrow> (en, RoundThrow jsErr)
              | Inr (Inr st) \<Rightarrow> (set_run st en, RoundStop)
              | Inr (Inl (output, task)) \<Rightarrow> store_output ev e runIndex output task en))"

definition execution_try :: "execute_data \<Rightarrow> nat \<Rightarrow> string" where
  "execution_try e runIndex = n_name (ed_node e) @ '':'' @ show_nat runIndex"

definition endless_loop :: js_error where
  "endless_loop = UserError ''Stopped execution because it seems to be in an endless loop''"

definition execute_entry :: "environment \<Rightarrow> task_data \<Rightarrow> execute_data \<Rightarrow> nat \<Rightarrow> engine \<Rightarrow> round_result option" where
  \<comment> \<open>the tries and what follows them\<close>
  "execute_entry ev started e runIndex en =
     (case all_tries ev runIndex (fst (getRetryParams e)) 0 None
        \<lparr>wk_engine = en, wk_entry = e, wk_output = None, wk_results = makeEngineResponse\<rparr> of
        None \<Rightarrow> None
      | Some (wk, TryNext) \<Rightarrow> Some (wk_engine wk, RoundNext)
      | Some (wk, TryDone) \<Rightarrow> Some (finish_round ev started runIndex wk None)
      | Some (wk, TryError err) \<Rightarrow> Some (finish_round ev started runIndex wk (Some err)))"

definition process_entry :: "environment \<Rightarrow> execute_data \<Rightarrow> engine \<Rightarrow> round_result option" where
  \<comment> \<open>an entry that has been taken from the stack\<close>
  "process_entry ev e en =
     (let (started, en) = createTaskStartedData e en;
          e = e\<lparr>ed_data := addPairedItemLineage e\<rparr>;
          runIndex = computeRunIndex (en_run en) e;
          try = execution_try e runIndex
      in if try = en_lastExecutionTry en then Some (en, RoundThrow endless_loop)
         else if isNodeFilteredOut (en_run en) (n_name (ed_node e)) then Some (en, RoundNext)
         else let (hasInputData, st) = ensureInputData (en_workflow en) e (en_run en) in
           if \<not> hasInputData then Some (en\<lparr>en_run := st, en_lastExecutionTry := try\<rparr>, RoundNext)
           else execute_entry ev started e runIndex (set_run st en))"

definition loop_round :: "environment \<Rightarrow> engine \<Rightarrow> round_result option" where
  "loop_round ev en =
     (if \<not> isExecutionStackNotEmpty (en_run en) then Some (en, RoundStop)
      else let (stop, en) = shouldStopExecuting (ev_timedOut ev (en_ticks en)) (count_call en) in
        if stop then Some (en, RoundStop)
        else (case popExecutionStack (en_run en) of
                None \<Rightarrow> Some (en, RoundStop)
              | Some (e, st) \<Rightarrow> process_entry ev e (en\<lparr>en_run := st, en_executionError := None\<rparr>)))"

text \<open>Rounds until the loop ends; \<open>None\<close> if it does not within so many rounds.\<close>

fun run_rounds :: "nat \<Rightarrow> environment \<Rightarrow> engine \<Rightarrow> (engine \<times> js_error option) option" where
  "run_rounds 0 ev en = None"
| "run_rounds (Suc k) ev en =
     (case loop_round ev en of
        None \<Rightarrow> None
      | Some (en, RoundNext) \<Rightarrow> run_rounds k ev en
      | Some (en, RoundStop) \<Rightarrow> Some (en, None)
      | Some (en, RoundThrow err) \<Rightarrow> Some (en, Some err))"

end
