(* ===== verification/Execution.thy ===== *)
theory Execution
  imports EngineLoop
begin

section \<open>Executing a workflow\<close>

text \<open>
  \<^verbatim>\<open>run\<close>, \<^verbatim>\<open>processRunExecutionData\<close> and \<^verbatim>\<open>processSuccessExecution\<close> of \<^verbatim>\<open>workflow-execute.ts\<close>: preparing the run data,
  checking the workflow, resuming an execution that waited, running the loop and reporting how it ended.
\<close>

subsection \<open>Is the workflow ready?\<close>

text \<open>The check of the parameters of a node, which evaluates them, is a parameter.\<close>

type_synonym parameter_issues = "node_type \<Rightarrow> node \<Rightarrow> string list \<Rightarrow> js option"

definition nodes_to_check :: "workflow \<Rightarrow> string option \<Rightarrow> destination_node option \<Rightarrow> string list" where
  "nodes_to_check w startNode destination =
     (case destination of
        Some d \<Rightarrow> parentNodes w (dn_nodeName d) (OfType Main) @ (if dn_mode d = Inclusive then [dn_nodeName d] else [])
      | None \<Rightarrow>
          if truthy_name startNode
          then childNodes w (or_empty startNode) (OfType Main) @ [or_empty startNode] else [])"

definition node_issues :: "parameter_issues \<Rightarrow> workflow \<Rightarrow> string list \<Rightarrow> node \<Rightarrow> js option" where
  "node_issues issues w pinned n =
     (case node_type_of w n of
        None \<Rightarrow> Some (JObj [(''typeUnknown'', JBool True)])
      | Some t \<Rightarrow> issues t n pinned)"

definition checkReadyForExecution ::
  "parameter_issues \<Rightarrow> workflow \<Rightarrow> string option \<Rightarrow> destination_node option \<Rightarrow> string list \<Rightarrow> js jsobj option" where
  "checkReadyForExecution issues w startNode destination pinned =
     (let found = foldl (\<lambda>m nm.
            case getNode w nm of
              None \<Rightarrow> m
            | Some n \<Rightarrow>
                if n_disabled n = Some True then m
                else (case node_issues issues w pinned n of None \<Rightarrow> m | Some i \<Rightarrow> obj_set (n_name n) i m))
          [] (nodes_to_check w startNode destination)
      in if found = [] then None else Some found)"

text \<open>The message of the error, which lists the issues, is left out.\<close>

definition has_issues :: js_error where
  "has_issues = OperationalError ''WorkflowHasIssuesError''"

definition checkForWorkflowIssues :: "parameter_issues \<Rightarrow> workflow \<Rightarrow> run_state \<Rightarrow> unit result" where
  "checkForWorkflowIssues issues w st =
     (let startNode = (case rs_nodeExecutionStack st of [] \<Rightarrow> None | e # _ \<Rightarrow> Some (n_name (ed_node e)));
          pinned = map_keys (or_empty (rs_pinData st))
      in if checkReadyForExecution issues w startNode (rs_destinationNode st) pinned = None
         then Inr () else Inl has_issues)"

subsection \<open>Resuming an execution that waited\<close>

text \<open>
  The node that waited is disabled, wherever it is stored, unless it resumes with an error, and its last
  task is dropped; it is to be written again.
\<close>

definition disable_first :: "engine \<Rightarrow> engine" where
  "disable_first en =
     (case rs_nodeExecutionStack (en_run en) of
        [] \<Rightarrow> en
      | e # _ \<Rightarrow>
          if resume_error e \<noteq> None then en
          else let f = (\<lambda>n. n\<lparr>n_disabled := Some True\<rparr>); ref = n_ref (ed_node e) in
            en\<lparr>en_workflow := update_workflow_node ref f (en_workflow en),
               en_run := update_stack_node ref f (en_run en)\<rparr>)"

definition drop_last_task :: "run_state \<Rightarrow> run_state result" where
  "drop_last_task st =
     bind_result (required (rs_lastNodeExecuted st)) (\<lambda>nm.
     bind_result (required (obj_get (rs_runData st) nm)) (\<lambda>tasks.
       Inr (st\<lparr>rs_runData := obj_set nm (butlast tasks) (rs_runData st)\<rparr>)))"

definition handleWaitingState :: "engine \<Rightarrow> engine result" where
  "handleWaitingState en =
     (if rs_waitTill (en_run en) = None then Inr en
      else if rs_nodeExecutionStack (en_run en) = [] then Inl undefined_property
      else
        let en = disable_first (en\<lparr>en_run := (en_run en)\<lparr>rs_waitTill := None\<rparr>\<rparr>)
        in bind_result (drop_last_task (en_run en)) (\<lambda>st. Inr (set_run st en)))"

subsection \<open>How an execution ends\<close>

record run_result =
  rr_run :: run_state
  rr_status :: ExecutionStatus
  rr_finished :: bool
  rr_waitTill :: "nat option"

fun includes_string :: "string \<Rightarrow> string \<Rightarrow> bool" where
  \<comment> \<open>\<^verbatim>\<open>s.includes(sub)\<close>\<close>
  "includes_string [] sub \<longleftrightarrow> sub = []"
| "includes_string (c # cs) sub \<longleftrightarrow> take (length sub) (c # cs) = sub \<or> includes_string cs sub"

definition end_status :: "exec_error option \<Rightarrow> run_state \<Rightarrow> ExecutionStatus" where
  "end_status err st =
     (case err of
        Some e \<Rightarrow>
          if includes_string (ee_message e) ''canceled'' \<or> includes_string (ee_name e) ''Cancelled''
          then Canceled else Error
      | None \<Rightarrow> if rs_waitTill st \<noteq> None then Waiting else Success)"

definition processSuccessExecution :: "exec_error option \<Rightarrow> run_state \<Rightarrow> run_result" where
  "processSuccessExecution err st =
     (let status = end_status err st;
          st = moveNodeMetadata st
      in case err of
           Some e \<Rightarrow> \<lparr>rr_run = st\<lparr>rs_error := Some e\<rparr>, rr_status = status, rr_finished = False, rr_waitTill = None\<rparr>
         | None \<Rightarrow>
             (case rs_waitTill st of
                Some t \<Rightarrow> \<lparr>rr_run = st, rr_status = status, rr_finished = False, rr_waitTill = Some t\<rparr>
              | None \<Rightarrow> \<lparr>rr_run = st, rr_status = status, rr_finished = True, rr_waitTill = None\<rparr>))"

definition manual_cancel :: exec_error where
  "manual_cancel = \<lparr>ee_name = ''ManualExecutionCancelledError'', ee_message = ''The execution was cancelled manually'',
     ee_stack = []\<rparr>"

definition timeout_cancel :: exec_error where
  "timeout_cancel = \<lparr>ee_name = ''TimeoutExecutionCancelledError'',
     ee_message = ''The execution was cancelled because it timed out'', ee_stack = []\<rparr>"

text \<open>After the loop; an error thrown by the loop is stored and the status stays as it was.\<close>

definition final_error :: "engine \<Rightarrow> exec_error option" where
  "final_error en =
     (if en_status en = Canceled \<and> en_executionError en = None
      then Some (if en_timedOut en then timeout_cancel else manual_cancel)
      else en_executionError en)"

definition end_execution :: "engine \<Rightarrow> js_error option \<Rightarrow> run_result" where
  "end_execution en thrown =
     (case thrown of
        None \<Rightarrow> processSuccessExecution (final_error en) (en_run en)
      | Some err \<Rightarrow>
          \<lparr>rr_run = moveNodeMetadata ((en_run en)\<lparr>rs_error := Some (exec_of_js err)\<rparr>), rr_status = en_status en,
           rr_finished = False, rr_waitTill = None\<rparr>)"

subsection \<open>Starting\<close>

text \<open>When the first hooks fail, the error is recorded on the first node of the stack.\<close>

definition initialization_failed :: "exec_error \<Rightarrow> run_state \<Rightarrow> run_state" where
  "initialization_failed err st =
     (case rs_nodeExecutionStack st of
        [] \<Rightarrow> st\<lparr>rs_error := Some err\<rparr>
      | e # _ \<Rightarrow>
          let task = empty_task\<lparr>td_executionIndex := Some 0, td_executionStatus := Some Error,
                td_data := Some (case main_data (ed_data e) of None \<Rightarrow> [] | Some main \<Rightarrow> [(Main, main)])\<rparr>
          in st\<lparr>rs_runData := [(n_name (ed_node e), [task])], rs_lastNodeExecuted := Some (n_name (ed_node e)),
                rs_error := Some err, rs_pinData := None\<rparr>)"

text \<open>
  The outcome: an error thrown before the promise is made, or the result if there is one after so many
  rounds. \<open>init\<close> is the error of the first hooks, if they fail.
\<close>

definition processRunExecutionData ::
  "nat \<Rightarrow> environment \<Rightarrow> parameter_issues \<Rightarrow> exec_error option \<Rightarrow> engine \<Rightarrow> run_result option result" where
  "processRunExecutionData fuel ev issues init en =
     (let en = en\<lparr>en_status := Running\<rparr> in
      bind_result (checkForWorkflowIssues issues (en_workflow en) (en_run en)) (\<lambda>_.
      bind_result (handleWaitingState en) (\<lambda>en.
      let en = en\<lparr>en_lastExecutionTry := [], en_executionError := None\<rparr> in
      case init of
        Some err \<Rightarrow>
          let st = (initialization_failed err (en_run en))\<lparr>rs_error := Some err\<rparr> in
          Inr (Some \<lparr>rr_run = moveNodeMetadata st, rr_status = en_status en, rr_finished = False, rr_waitTill = None\<rparr>)
      | None \<Rightarrow>
          Inr (case run_rounds fuel ev en of
                 None \<Rightarrow> None
               | Some (en, thrown) \<Rightarrow> Some (end_execution en thrown)))))"

definition run_node_filter :: "workflow \<Rightarrow> destination_node \<Rightarrow> string list \<Rightarrow> string list" where
  "run_node_filter w d additional =
     set_of_list (parentNodes w (dn_nodeName d) (OfType Main) @ parentNodes w (dn_nodeName d) AllNonMain @
       (if dn_mode d = Inclusive then [dn_nodeName d] else []) @ additional)"

definition start_entry :: "node \<Rightarrow> task_data_connections option \<Rightarrow> execute_data" where
  "start_entry n triggerData =
    \<lparr>ed_node = n, ed_data = (case triggerData of Some d \<Rightarrow> d | None \<Rightarrow> [(Main, [Val [empty_item]])]),
     ed_source = None, ed_metadata = None, ed_runIndex = None\<rparr>"

definition no_start_node :: js_error where
  "no_start_node = UserError ''No node to start the workflow from could be found''"

definition prepare_run ::
  "workflow \<Rightarrow> node option \<Rightarrow> destination_node option \<Rightarrow> pin_data option \<Rightarrow> task_data_connections option \<Rightarrow>
    string list \<Rightarrow> run_state result" where
  "prepare_run w startNode destination pinData triggerData additional =
     bind_result (case startNode of Some n \<Rightarrow> Inr (Some n) | None \<Rightarrow> getStartNode w (map_option dn_nodeName destination)) (\<lambda>start.
       case start of
         None \<Rightarrow> Inl no_start_node
       | Some n \<Rightarrow> Inr (createRunExecutionData (no_options
           \<lparr>ro_destinationNode := destination,
            ro_runNodeFilter := map_option (\<lambda>d. run_node_filter w d additional) destination,
            ro_nodeExecutionStack := Some [start_entry n triggerData], ro_pinData := pinData\<rparr>)))"

definition new_engine :: "workflow \<Rightarrow> nat \<Rightarrow> run_state \<Rightarrow> engine" where
  "new_engine w executionIndex st =
    \<lparr>en_run = st, en_workflow = w, en_status = Running, en_timedOut = False, en_executionIndex = executionIndex,
     en_lastExecutionTry = [], en_executionError = None, en_ticks = 0\<rparr>"

definition run ::
  "nat \<Rightarrow> environment \<Rightarrow> parameter_issues \<Rightarrow> exec_error option \<Rightarrow> workflow \<Rightarrow> node option \<Rightarrow> destination_node option \<Rightarrow>
    pin_data option \<Rightarrow> task_data_connections option \<Rightarrow> string list \<Rightarrow> run_result option result" where
  "run fuel ev issues init w startNode destination pinData triggerData additional =
     bind_result (prepare_run w startNode destination pinData triggerData additional) (\<lambda>st.
       processRunExecutionData fuel ev issues init (new_engine w 0 st))"

end
