(* ===== verification/EngineFacts.thy ===== *)
theory EngineFacts
  imports Execution
begin

section \<open>Invariants of the engine\<close>

text \<open>
  What every round of the loop keeps, however it ends and whatever the nodes answer: the waiting
  dictionaries are in step, the stack holds nodes of the workflow only, and the execution indices of
  the tasks are below the next index.
\<close>

subsection \<open>Scheduling changes the stack and the waiting entries only\<close>

definition results_of :: "run_state \<Rightarrow> run_state" where
  "results_of st = st\<lparr>rs_nodeExecutionStack := [], rs_waitingExecution := [], rs_waitingExecutionSource := None\<rparr>"

lemma results_of_fields:
  assumes "results_of st' = results_of st"
  shows "rs_runData st' = rs_runData st" and "rs_waitTill st' = rs_waitTill st" and "rs_pinData st' = rs_pinData st"
    and "rs_destinationNode st' = rs_destinationNode st" and "rs_runNodeFilter st' = rs_runNodeFilter st"
  using assms by (cases st; cases st'; simp add: results_of_def)+

lemma results_of_simps [simp]:
  "results_of (st\<lparr>rs_nodeExecutionStack := a\<rparr>) = results_of st"
  "results_of (st\<lparr>rs_waitingExecution := b\<rparr>) = results_of st"
  "results_of (st\<lparr>rs_waitingExecutionSource := c\<rparr>) = results_of st"
  by (simp_all add: results_of_def)

lemma results_of_enqueue [simp]:
  "results_of (enqueue w e st) = results_of st" "results_of (enqueue_last e st) = results_of st"
  "results_of (pushExecutionStack e st) = results_of st"
  by (simp_all add: enqueue_def pushExecutionStack_def enqueue_last_def)

lemma results_of_drop [simp]: "results_of (drop_waiting nm i st) = results_of st"
  by (simp add: drop_waiting_def Let_def)

lemma results_of_prepare [simp]: "results_of (prepareWaitingToExecution nm n i st) = results_of st"
  by (simp add: prepareWaitingToExecution_def)

lemma add_sibling_results:
  "add_sibling w p data oi r checks c st = Inr st' \<Longrightarrow> results_of st' = results_of st"
  by (auto simp: add_sibling_def Let_def bind_result_eq_Inr split: if_splits option.splits)

lemma add_siblings_results:
  assumes "add_siblings w conn p data oi r st = Inr st'"
  shows "results_of st' = results_of st"
proof -
  obtain checks where f: "fold_result (add_sibling w p data oi r checks)
      (concat (map slot_list (or_empty (main_inputs w (c_node conn))))) st = Inr st'"
    using assms by (auto simp: add_siblings_def bind_result_eq_Inr)
  show ?thesis
    by (rule fold_result_inv [OF f, of "\<lambda>s. results_of s = results_of st"]) (simp_all add: add_sibling_results)
qed

lemma addNode_results:
  assumes "addNodeToBeExecuted w conn oi p data r nr m st = Inr st'"
  shows "results_of st' = results_of st"
  using assms
  by (auto simp: addNodeToBeExecuted_def add_to_waiting_def Let_def bind_result_eq_Inr open_waiting_def
      waiting_entry_def store_waiting_def release_waiting_def keep_waiting_def add_siblings_results
      split: if_splits option.splits prod.splits dest!: add_siblings_results)

text \<open>One notion for all that scheduling keeps.\<close>

definition sched_inv :: "workflow \<Rightarrow> run_state \<Rightarrow> run_state \<Rightarrow> bool" where
  "sched_inv w st st' \<longleftrightarrow> waiting_inv st' \<and> stack_inv w st' \<and> results_of st' = results_of st"

lemma sched_inv_refl: "waiting_inv st \<Longrightarrow> stack_inv w st \<Longrightarrow> sched_inv w st st"
  by (simp add: sched_inv_def)

lemma sched_inv_add:
  "addNodeToBeExecuted w conn oi p data r nr m s = Inr s' \<Longrightarrow> sched_inv w st s \<Longrightarrow> sched_inv w st s'"
  using addNode_inv addNode_results by (metis sched_inv_def)

lemma sched_inv_enqueue_last:
  "getNode w nm = Some (ed_node e) \<Longrightarrow> sched_inv w st s \<Longrightarrow> sched_inv w st (enqueue_last e s)"
  by (auto simp: sched_inv_def waiting_inv_def stack_inv_def enqueue_last_def)

lemma sched_inv_drop: "sched_inv w st s \<Longrightarrow> sched_inv w st (drop_waiting nm i s)"
  using drop_waiting_inv [of s nm i] by (simp add: sched_inv_def stack_inv_def)

lemma enqueueChildren_sched:
  assumes "enqueueChildren w nm output r st = Inr st'" and "waiting_inv st" and "stack_inv w st"
  shows "sched_inv w st st'"
proof (cases "w_executionOrder w = Some ''v1''")
  case True
  then obtain nodes where f: "fold_result (\<lambda>nd. addNodeToBeExecuted w (na_connection nd) (na_outputIndex nd) nm
      (Some output) r None None) (v8_sort by_position nodes) st = Inr st'"
    using assms(1) by (auto simp: enqueueChildren_def bind_result_eq_Inr)
  show ?thesis
    by (rule fold_result_inv [OF f, of "sched_inv w st"]) (use assms sched_inv_refl sched_inv_add in blast)+
next
  case False
  then have f: "fold_result (add_legacy w nm output r) (main_links w nm) st = Inr st'"
    using assms(1) by (simp add: enqueueChildren_def)
  show ?thesis
    by (rule fold_result_inv [OF f, of "sched_inv w st"])
      (use assms sched_inv_refl sched_inv_add in \<open>auto simp: add_legacy_def split: if_splits\<close>)
qed

lemma check_waiting_entry:
  assumes "check_waiting ev w names nm st = Inr (Release i (Some e))"
  shows "getNode w nm = Some (ed_node e)"
  using assms
  by (auto simp: check_waiting_def bind_result_eq_Inr Let_def split: option.splits if_splits)

lemma scan_waiting_sched:
  "scan_waiting ev w names rest s = Inr st' \<Longrightarrow> sched_inv w st s \<Longrightarrow> sched_inv w st st'"
proof (induction ev w names rest s rule: scan_waiting.induct)
  case (1 ev w names s)
  then show ?case by simp
next
  case (2 ev w names nm rest s)
  then show ?case
    by (auto split: sum.splits waiting_step.splits option.splits
        intro!: sched_inv_drop sched_inv_enqueue_last dest: check_waiting_entry)
qed

lemma schedule_next_sched:
  assumes "schedule_next ev w nm output r st = Inr st'" and "waiting_inv st" and "stack_inv w st"
  shows "sched_inv w st st'"
proof -
  obtain st1 where 1: "enqueueChildren w nm output r st = Inr st1" and 2: "scheduleWaiting ev w st1 = Inr st'"
    using assms(1) by (auto simp: schedule_next_def bind_result_eq_Inr)
  from 2 enqueueChildren_sched [OF 1 assms(2,3)] show ?thesis
    by (auto simp: scheduleWaiting_def split: if_splits intro: scan_waiting_sched)
qed

subsection \<open>The invariant\<close>

definition indices_below :: "nat \<Rightarrow> run_data \<Rightarrow> bool" where
  "indices_below k runData \<longleftrightarrow>
     (\<forall>nm tasks t i. obj_get runData nm = Some tasks \<longrightarrow> t \<in> set tasks \<longrightarrow> td_executionIndex t = Some i \<longrightarrow> i < k)"

definition run_inv :: "workflow \<Rightarrow> nat \<Rightarrow> run_state \<Rightarrow> bool" where
  "run_inv w k st \<longleftrightarrow> waiting_inv st \<and> stack_inv w st \<and> indices_below k (rs_runData st)"

definition engine_inv :: "engine \<Rightarrow> bool" where
  "engine_inv en \<longleftrightarrow> run_inv (en_workflow en) (en_executionIndex en) (en_run en)"

definition of_workflow :: "workflow \<Rightarrow> execute_data \<Rightarrow> bool" where
  "of_workflow w e \<longleftrightarrow> (\<exists>nm. getNode w nm = Some (ed_node e))"

lemma stack_inv_iff: "stack_inv w st \<longleftrightarrow> (\<forall>e \<in> set (rs_nodeExecutionStack st). of_workflow w e)"
  by (simp add: stack_inv_def of_workflow_def list_all_iff)

lemma indices_below_mono: "indices_below k rd \<Longrightarrow> k \<le> k' \<Longrightarrow> indices_below k' rd"
  unfolding indices_below_def by (meson less_le_trans)

lemma indices_below_set:
  assumes "indices_below k rd" and "\<And>t i. t \<in> set tasks \<Longrightarrow> td_executionIndex t = Some i \<Longrightarrow> i < k"
  shows "indices_below k (obj_set nm tasks rd)"
  using assms by (auto simp: indices_below_def)

lemma indices_below_tasks:
  "indices_below k rd \<Longrightarrow> t \<in> set (or_empty (obj_get rd nm)) \<Longrightarrow> td_executionIndex t = Some i \<Longrightarrow> i < k"
  by (cases "obj_get rd nm") (auto simp: indices_below_def)

lemma run_inv_sched: "run_inv w k st \<Longrightarrow> sched_inv w st st' \<Longrightarrow> run_inv w k st'"
  unfolding run_inv_def sched_inv_def using results_of_fields(1) by metis

lemma run_inv_push: "run_inv w k st \<Longrightarrow> of_workflow w e \<Longrightarrow> run_inv w k (pushExecutionStack e st)"
  by (auto simp: run_inv_def stack_inv_iff waiting_inv_def pushExecutionStack_def)

lemma run_inv_enqueue_last: "run_inv w k st \<Longrightarrow> of_workflow w e \<Longrightarrow> run_inv w k (enqueue_last e st)"
  by (auto simp: run_inv_def stack_inv_iff waiting_inv_def enqueue_last_def)

lemma run_inv_fields [simp]:
  "run_inv w k (st\<lparr>rs_waitTill := a\<rparr>) = run_inv w k st" "run_inv w k (st\<lparr>rs_metadata := b\<rparr>) = run_inv w k st"
  "run_inv w k (st\<lparr>rs_lastNodeExecuted := c\<rparr>) = run_inv w k st" "run_inv w k (st\<lparr>rs_error := d\<rparr>) = run_inv w k st"
  by (simp_all add: run_inv_def waiting_inv_def stack_inv_def)

lemma run_inv_runData:
  "run_inv w k st \<Longrightarrow> indices_below k rd \<Longrightarrow> run_inv w k (st\<lparr>rs_runData := rd\<rparr>)"
  by (simp add: run_inv_def waiting_inv_def stack_inv_def)

lemma run_inv_mono: "run_inv w k st \<Longrightarrow> k \<le> k' \<Longrightarrow> run_inv w k' st"
  using indices_below_mono by (auto simp: run_inv_def)

lemma upsert_run_inv:
  assumes "upsertTaskData nm i task st = Inr st'" and "run_inv w k st"
    and "\<And>j. td_executionIndex task = Some j \<Longrightarrow> j < k"
  shows "run_inv w k st'"
proof -
  obtain tasks where t: "obj_get (rs_runData st) nm = Some tasks"
    and st': "st' = st\<lparr>rs_runData := obj_set nm
      (if i < length tasks then tasks[i := assign_task (tasks ! i) task] else tasks @ [task]) (rs_runData st)\<rparr>"
    using assms(1) by (auto simp: upsertTaskData_def split: option.splits)
  have below: "indices_below k (rs_runData st)" using assms(2) by (simp add: run_inv_def)
  with t have old: "u \<in> set tasks \<Longrightarrow> td_executionIndex u = Some j \<Longrightarrow> j < k" for u j
    by (auto simp: indices_below_def)
  have new: "j < k" if "td_executionIndex (assign_task (tasks ! i) task) = Some j" "i < length tasks" for j
    using that assms(3) old [of "tasks ! i"] by (auto simp: assign_task_def or_else_def split: option.splits)
  show ?thesis
    unfolding st'
    by (intro run_inv_runData indices_below_set assms(2) below)
      (use old new assms(3) in \<open>auto split: if_splits dest!: set_update_subset_insert [THEN subsetD]\<close>)
qed

lemma update_node_of_workflow:
  "of_workflow w e \<Longrightarrow> of_workflow (update_workflow_node ref f w) (e\<lparr>ed_node := update_node ref f (ed_node e)\<rparr>)"
  by (auto simp: of_workflow_def)

lemma run_inv_update_node:
  "run_inv w k st \<Longrightarrow> run_inv (update_workflow_node ref f w) k (update_stack_node ref f st)"
  by (auto simp: run_inv_def stack_inv_iff waiting_inv_def update_stack_node_def intro: update_node_of_workflow)

subsection \<open>Requests\<close>

definition request_inv :: "nat \<Rightarrow> request_state \<Rightarrow> bool" where
  "request_inv k rq \<longleftrightarrow> run_inv (rq_workflow rq) k (rq_run rq) \<and> of_workflow (rq_workflow rq) (rq_entry rq)"

lemma set_rewire_inv: "request_inv k rq \<Longrightarrow> request_inv k (set_rewire ref t rq)"
  by (simp add: request_inv_def set_rewire_def Let_def run_inv_update_node update_node_of_workflow)

lemma request_action_inv:
  assumes "request_action cur r a rq = (rq', x)" and "request_inv k rq" and "0 < k"
  shows "request_inv k rq'"
proof (cases "getNode (rq_workflow rq) (ea_nodeName a)")
  case None
  with assms show ?thesis by (simp add: request_action_def)
next
  case (Some n)
  let ?rq = "set_rewire (n_ref n) (ea_type a) rq"
  obtain task where rq': "rq' = ?rq\<lparr>rq_run := (rq_run ?rq)\<lparr>rs_runData := obj_set (n_name n)
      (or_empty (obj_get (rs_runData (rq_run ?rq)) (n_name n)) @ [task]) (rs_runData (rq_run ?rq))\<rparr>\<rparr>"
    and task: "td_executionIndex task = Some 0"
    using assms(1) Some by (auto simp: request_action_def Let_def initializeNodeRunData_def)
  have inv: "request_inv k ?rq" by (rule set_rewire_inv [OF assms(2)])
  then have below: "indices_below k (rs_runData (rq_run ?rq))" by (simp add: request_inv_def run_inv_def)
  have "indices_below k (obj_set (n_name n)
      (or_empty (obj_get (rs_runData (rq_run ?rq)) (n_name n)) @ [task]) (rs_runData (rq_run ?rq)))"
    by (rule indices_below_set [OF below]) (use below task assms(3) in \<open>auto intro: indices_below_tasks\<close>)
  with inv show ?thesis unfolding rq' by (simp add: request_inv_def run_inv_runData)
qed

lemma prepare_requests_inv:
  "prepareRequestedNodesForExecution cur r as rq = (rq', x) \<Longrightarrow> request_inv k rq \<Longrightarrow> 0 < k \<Longrightarrow> request_inv k rq'"
proof (induction as arbitrary: rq rq' x)
  case Nil
  then show ?case by simp
next
  case (Cons a as)
  obtain rq1 y where a: "request_action cur r a rq = (rq1, y)" by fastforce
  note inv = request_action_inv [OF a Cons.prems(2,3)]
  show ?case
  proof (cases y)
    case (Inl err)
    with a Cons.prems inv show ?thesis by simp
  next
    case (Inr p)
    obtain rq2 z where rest: "prepareRequestedNodesForExecution cur r as rq1 = (rq2, z)" by fastforce
    with a Inr Cons.prems(1) have "rq' = rq2" by (auto split: prod.splits sum.splits)
    with Cons.IH [OF rest inv Cons.prems(3)] show ?thesis by simp
  qed
qed

lemma schedule_all_sched:
  "schedule_all w nxs s = (s', x) \<Longrightarrow> sched_inv w st s \<Longrightarrow> sched_inv w st s'"
proof (induction nxs arbitrary: s)
  case Nil
  then show ?case by simp
next
  case (Cons nx nxs)
  then show ?case
    by (auto simp: schedule_requested_def bind_result_eq_Inr split: sum.splits dest: sched_inv_add)
qed

lemma handleEngineRequest_inv:
  assumes "handleEngineRequest r request rq = (rq', x)" and "request_inv k rq" and "0 < k"
  shows "request_inv k rq'"
proof -
  obtain rq1 y where h: "handleRequest r request rq = (rq1, y)" by fastforce
  then obtain z where "prepareRequestedNodesForExecution (n_name (ed_node (rq_entry rq))) r (er_actions request) rq = (rq1, z)"
    by (auto simp: handleRequest_def split: prod.splits sum.splits option.splits)
  then have inv: "request_inv k rq1" using prepare_requests_inv assms(2,3) by blast
  show ?thesis
  proof (cases y)
    case (Inl err)
    with assms(1) h inv show ?thesis by (simp add: handleEngineRequest_def)
  next
    case (Inr nodes)
    obtain st z where s: "schedule_all (rq_workflow rq1) nodes (rq_run rq1) = (st, z)" by fastforce
    have "sched_inv (rq_workflow rq1) (rq_run rq1) st"
      using schedule_all_sched [OF s] inv by (auto simp: request_inv_def run_inv_def intro: sched_inv_refl)
    then have "run_inv (rq_workflow rq1) k st" using inv run_inv_sched by (auto simp: request_inv_def)
    with assms(1) h Inr s inv show ?thesis by (auto simp: handleEngineRequest_def request_inv_def)
  qed
qed

subsection \<open>Running a node\<close>

text \<open>A node changes the counter of calls, the time to wait till and the metadata, and nothing else.\<close>

definition node_effect :: "engine \<Rightarrow> engine \<Rightarrow> bool" where
  "node_effect en en' \<longleftrightarrow>
     (\<exists>t wt md. en' = en\<lparr>en_ticks := t, en_run := (en_run en)\<lparr>rs_waitTill := wt, rs_metadata := md\<rparr>\<rparr>)"

lemma node_effect_refl [simp]: "node_effect en en"
proof -
  have "en = en\<lparr>en_ticks := en_ticks en, en_run := (en_run en)\<lparr>rs_waitTill := rs_waitTill (en_run en),
      rs_metadata := rs_metadata (en_run en)\<rparr>\<rparr>" by simp
  then show ?thesis unfolding node_effect_def by blast
qed

lemma node_effect_count [simp]: "node_effect en (count_call en)"
proof -
  have "count_call en = en\<lparr>en_ticks := Suc (en_ticks en), en_run := (en_run en)\<lparr>rs_waitTill := rs_waitTill (en_run en),
      rs_metadata := rs_metadata (en_run en)\<rparr>\<rparr>" by (simp add: count_call_def)
  then show ?thesis unfolding node_effect_def by blast
qed

lemma node_effect_trans: "node_effect a b \<Longrightarrow> node_effect b c \<Longrightarrow> node_effect a c"
  unfolding node_effect_def by (elim exE) (simp, blast)

lemma executeNode_effect: "executeNode ev call en = (en', x) \<Longrightarrow> node_effect en en'"
  unfolding executeNode_def count_call_def Let_def node_effect_def by (auto split: sum.splits)

lemma run_by_type_effect: "run_by_type ev t co call en = (en', x) \<Longrightarrow> node_effect en en'"
  by (auto simp: run_by_type_def Let_def executePollNode_def executeTriggerNode_def
      executeDeclarativeNodeInTest_def split: if_splits dest: executeNode_effect)

lemma runNode_effect: "runNode ev r res e en = (en', x) \<Longrightarrow> node_effect en en'"
  by (auto simp: runNode_def Let_def split: option.splits if_splits dest: run_by_type_effect)

lemma inner_tries_effect:
  assumes "inner_tries ev r maxTries e i x en = Some (i', en', y)"
  shows "node_effect en en'"
proof -
  have "case z of (i', en', y) \<Rightarrow> node_effect en en'" if "inner_tries ev r maxTries e i x en = Some z" for z
    by (rule inner_tries.raw_induct [of "\<lambda>ev r maxTries e i x en z. case z of (i', en', y) \<Rightarrow> node_effect en en'", OF _ that])
      (fastforce split: if_splits prod.splits sum.splits dest: runNode_effect intro: node_effect_trans)
  with assms show ?thesis by fastforce
qed

definition work_inv :: "work \<Rightarrow> bool" where
  "work_inv wk \<longleftrightarrow> engine_inv (wk_engine wk) \<and> of_workflow (en_workflow (wk_engine wk)) (wk_entry wk) \<and>
     0 < en_executionIndex (wk_engine wk)"

lemma work_inv_effect: "work_inv wk \<Longrightarrow> node_effect (wk_engine wk) en \<Longrightarrow> work_inv (wk\<lparr>wk_engine := en\<rparr>)"
  by (auto simp: work_inv_def engine_inv_def node_effect_def)

lemma work_inv_fields [simp]:
  "work_inv (wk\<lparr>wk_output := a\<rparr>) = work_inv wk" "work_inv (wk\<lparr>wk_results := b\<rparr>) = work_inv wk"
  by (simp_all add: work_inv_def)

lemma work_inv_last [simp]:
  "work_inv (wk\<lparr>wk_engine := (wk_engine wk)\<lparr>en_run := (en_run (wk_engine wk))\<lparr>rs_lastNodeExecuted := nm\<rparr>\<rparr>\<rparr>) = work_inv wk"
  by (simp add: work_inv_def engine_inv_def)

lemma finish_try_inv:
  assumes "finish_try wk data = (wk', x)" and "work_inv wk"
  shows "work_inv wk' \<and> en_executionIndex (wk_engine wk') = en_executionIndex (wk_engine wk)"
  using assms
  by (auto simp: finish_try_def Let_def work_inv_def engine_inv_def split: sum.splits if_splits)

lemma answer_request_inv:
  assumes "answer_request r request wk = (wk', x)" and "work_inv wk"
  shows "work_inv wk' \<and> en_executionIndex (wk_engine wk') = en_executionIndex (wk_engine wk)"
proof -
  let ?en = "wk_engine wk"
  let ?rq = "\<lparr>rq_workflow = en_workflow ?en, rq_run = en_run ?en, rq_entry = wk_entry wk\<rparr>"
  obtain rq y where h: "handleEngineRequest r request ?rq = (rq, y)" by fastforce
  have "request_inv (en_executionIndex ?en) ?rq"
    using assms(2) by (simp add: work_inv_def engine_inv_def request_inv_def)
  then have "request_inv (en_executionIndex ?en) rq"
    using handleEngineRequest_inv [OF h] assms(2) by (simp add: work_inv_def)
  moreover have "wk' = wk\<lparr>wk_engine := ?en\<lparr>en_workflow := rq_workflow rq, en_run := rq_run rq\<rparr>, wk_entry := rq_entry rq\<rparr>"
    using assms(1) h by (simp add: answer_request_def Let_def)
  ultimately show ?thesis
    using assms(2) by (simp add: work_inv_def engine_inv_def request_inv_def)
qed

definition same_index :: "work \<Rightarrow> work \<Rightarrow> bool" where
  "same_index wk wk' \<longleftrightarrow> work_inv wk' \<and> en_executionIndex (wk_engine wk') = en_executionIndex (wk_engine wk)"

lemma node_effect_index: "node_effect en en' \<Longrightarrow> en_executionIndex en' = en_executionIndex en"
  by (auto simp: node_effect_def)

lemma one_try_inv:
  assumes "one_try ev r maxTries i wk = Some (i', wk', x)" and "work_inv wk"
  shows "same_index wk wk'"
proof (cases "getPinnedOutput (en_run (wk_engine wk)) (ed_node (wk_entry wk))")
  case (Some pinned)
  with assms show ?thesis
    using finish_try_inv [of wk "Val pinned" wk' x] by (simp add: one_try_def same_index_def)
next
  case None
  let ?wk = "wk\<lparr>wk_results := collectSubNodeResults (en_run (wk_engine wk)) (wk_entry wk) (wk_results wk)\<rparr>"
  have inv: "work_inv ?wk" using assms(2) by simp
  obtain en y where r: "runNode ev r (Some (wk_results ?wk)) (wk_entry ?wk) (wk_engine ?wk) = (en, y)" by fastforce
  note e1 = runNode_effect [OF r]
  show ?thesis
  proof (cases y)
    case (Inl err)
    with assms(1) None r have "wk' = ?wk\<lparr>wk_engine := en\<rparr>" by (simp add: one_try_def Let_def)
    with work_inv_effect [OF inv e1] node_effect_index [OF e1] show ?thesis by (simp add: same_index_def)
  next
    case (Inr resp)
    with assms(1) None r obtain j en2 z where t: "inner_tries ev r maxTries (wk_entry wk) i resp en = Some (j, en2, z)"
      by (auto simp: one_try_def Let_def split: option.splits prod.splits)
    have e2: "node_effect (wk_engine ?wk) en2" using node_effect_trans [OF e1 inner_tries_effect [OF t]] .
    note inv2 = work_inv_effect [OF inv e2]
    have idx: "en_executionIndex en2 = en_executionIndex (wk_engine wk)" using node_effect_index [OF e2] by simp
    show ?thesis
    proof (cases z)
      case (Inl err)
      with assms(1) None r Inr t have "wk' = ?wk\<lparr>wk_engine := en2\<rparr>" by (simp add: one_try_def Let_def)
      with inv2 idx show ?thesis by (simp add: same_index_def)
    next
      case r2: (Inr resp2)
      show ?thesis
      proof (cases resp2)
        case (NodeRequest request)
        with assms(1) None r Inr t r2 have "answer_request r request (?wk\<lparr>wk_engine := en2\<rparr>) = (wk', x)"
          by (simp add: one_try_def Let_def)
        from answer_request_inv [OF this inv2] idx show ?thesis by (simp add: same_index_def)
      next
        case (NodeData data)
        show ?thesis
        proof (cases "processNodeOutput ev data (wk_entry wk) en2")
          case (Inl err)
          with assms(1) None r Inr t r2 NodeData have "wk' = ?wk\<lparr>wk_engine := en2\<rparr>"
            by (simp add: one_try_def Let_def)
          with inv2 idx show ?thesis by (simp add: same_index_def)
        next
          case r3: (Inr data2)
          with assms(1) None r Inr t r2 NodeData have "finish_try (?wk\<lparr>wk_engine := en2\<rparr>) data2 = (wk', x)"
            by (simp add: one_try_def Let_def)
          from finish_try_inv [OF this inv2] idx show ?thesis by (simp add: same_index_def)
        qed
      qed
    qed
  qed
qed

lemma all_tries_inv:
  assumes "all_tries ev r maxTries i err wk = Some (wk', x)" and "work_inv wk"
  shows "same_index wk wk'"
proof -
  let ?P = "\<lambda>ev r maxTries i err wk z. case z of (wk', x) \<Rightarrow> work_inv wk \<longrightarrow> same_index wk wk'"
  have "case z of (wk', x) \<Rightarrow> work_inv wk \<longrightarrow> same_index wk wk'" if "all_tries ev r maxTries i err wk = Some z" for z
  proof (rule all_tries.raw_induct [of ?P, OF _ that])
    fix f ev r and maxTries :: rat and i err wk z
    assume ih: "\<And>ev r maxTries i err wk z. f ev r maxTries i err wk = Some z \<Longrightarrow> ?P ev r maxTries i err wk z"
      and eq: "(if of_nat i < maxTries then
        (case one_try ev r maxTries i wk of
           None \<Rightarrow> None
         | Some (tryIndex, wk, TryError err) \<Rightarrow>
             f ev r maxTries (Suc tryIndex) (Some err)
               (wk\<lparr>wk_engine := reportNodeExecutionError (ed_node (wk_entry wk)) (wk_engine wk)\<rparr>)
         | Some (tryIndex, wk, x) \<Rightarrow> Some (wk, x))
        else Some (wk, case err of None \<Rightarrow> TryDone | Some err \<Rightarrow> TryError err)) = Some z"
    show "?P ev r maxTries i err wk z"
    proof (cases "of_nat i < maxTries")
      case False
      with eq show ?thesis by (auto simp: same_index_def)
    next
      case True
      with eq obtain j wk1 y where t: "one_try ev r maxTries i wk = Some (j, wk1, y)"
        by (auto split: option.splits prod.splits)
      show ?thesis
      proof (cases "\<exists>e. y = TryError e")
        case False
        with eq True t have "z = (wk1, y)" by (cases y) simp_all
        with one_try_inv [OF t] show ?thesis by simp
      next
        case True
        then obtain e where y: "y = TryError e" by blast
        let ?wk = "wk1\<lparr>wk_engine := reportNodeExecutionError (ed_node (wk_entry wk1)) (wk_engine wk1)\<rparr>"
        have "f ev r maxTries (Suc j) (Some e) ?wk = Some z" using eq t y \<open>of_nat i < maxTries\<close> by simp
        then have "?P ev r maxTries (Suc j) (Some e) ?wk z" by (rule ih)
        moreover have "work_inv ?wk = work_inv wk1" "en_executionIndex (wk_engine ?wk) = en_executionIndex (wk_engine wk1)"
          by (simp_all add: reportNodeExecutionError_def)
        ultimately show ?thesis
          using one_try_inv [OF t] by (auto simp: same_index_def split: prod.splits)
      qed
    qed
  qed
  with assms show ?thesis by fastforce
qed

subsection \<open>A round\<close>

lemma engine_inv_set_run [simp]:
  "engine_inv (set_run st en) = run_inv (en_workflow en) (en_executionIndex en) st"
  by (simp add: set_run_def engine_inv_def)

lemma set_run_fields [simp]:
  "en_run (set_run st en) = st" "en_workflow (set_run st en) = en_workflow en"
  "en_executionIndex (set_run st en) = en_executionIndex en" "en_status (set_run st en) = en_status en"
  "en_executionError (set_run st en) = en_executionError en"
  by (simp_all add: set_run_def)

lemma rewireOutputLog_index [simp]:
  "td_executionIndex (rewireOutputLog n output r st task) = td_executionIndex task"
  by (simp add: rewireOutputLog_def split: option.split)

lemma store_output_inv:
  assumes "store_output ev e r output task en = (en', x)" and "engine_inv en"
    and "of_workflow (en_workflow en) e" and "\<And>i. td_executionIndex task = Some i \<Longrightarrow> i < en_executionIndex en"
  shows "engine_inv en' \<and> en_executionIndex en' = en_executionIndex en"
proof (cases "normalizeNodeErrors output")
  case (Inl err)
  with assms show ?thesis by (simp add: store_output_def Let_def)
next
  case (Inr out)
  let ?task = "rewireOutputLog (ed_node e) out r (en_run en) (task\<lparr>td_data := Some [(Main, out)]\<rparr>)"
  show ?thesis
  proof (cases "upsertTaskData (n_name (ed_node e)) r ?task (en_run en)")
    case (Inl err)
    with assms Inr show ?thesis by (simp add: store_output_def Let_def)
  next
    case st: (Inr st)
    have inv: "run_inv (en_workflow en) (en_executionIndex en) st"
      by (rule upsert_run_inv [OF st]) (use assms(2,4) in \<open>simp_all add: engine_inv_def\<close>)
    then have parts: "waiting_inv st" "stack_inv (en_workflow en) st" by (simp_all add: run_inv_def)
    show ?thesis
    proof (cases "schedule_next ev (en_workflow en) (n_name (ed_node e)) out r st")
      case (Inl err)
      with assms Inr st inv run_inv_push show ?thesis
        by (auto simp: store_output_def Let_def split: if_splits)
    next
      case next': (Inr st')
      have "run_inv (en_workflow en) (en_executionIndex en) st'"
        using run_inv_sched [OF inv schedule_next_sched [OF next' parts]] .
      with assms Inr st inv next' run_inv_push show ?thesis
        by (auto simp: store_output_def Let_def split: if_splits)
    qed
  qed
qed

lemma ensure_runs_inv: "run_inv w k st \<Longrightarrow> run_inv w k (ensure_runs nm st)"
proof -
  assume inv: "run_inv w k st"
  then have "indices_below k (rs_runData st)" by (simp add: run_inv_def)
  then have "run_inv w k (st\<lparr>rs_runData := obj_set nm [] (rs_runData st)\<rparr>)"
    by (intro run_inv_runData [OF inv] indices_below_set) simp_all
  with inv show ?thesis by (simp add: ensure_runs_def)
qed

lemma createTaskData_index [simp]: "td_executionIndex (createTaskData started e st) = td_executionIndex started"
  by (simp add: createTaskData_def)

lemma finish_round_inv:
  assumes "finish_round ev started r wk err = (en', x)" and "work_inv wk"
    and "\<And>i. td_executionIndex started = Some i \<Longrightarrow> i < en_executionIndex (wk_engine wk)"
  shows "engine_inv en' \<and> en_executionIndex en' = en_executionIndex (wk_engine wk)"
proof -
  let ?e = "wk_entry wk"
  let ?en = "(wk_engine wk)\<lparr>en_run := ensure_runs (n_name (ed_node ?e)) (en_run (wk_engine wk)), en_executionError := err\<rparr>"
  let ?task = "createTaskData started ?e (en_run ?en)"
  have inv: "engine_inv ?en" and own: "of_workflow (en_workflow ?en) ?e"
    using assms(2) ensure_runs_inv by (simp_all add: work_inv_def engine_inv_def)
  show ?thesis
  proof (cases err)
    case None
    with assms(1) have "store_output ev ?e r (wk_output wk) ?task ?en = (en', x)"
      by (simp add: finish_round_def Let_def)
    from store_output_inv [OF this inv own] assms(3) show ?thesis by simp
  next
    case (Some er)
    show ?thesis
    proof (cases "handleNodeExecutionError ?e ?task er (wk_output wk) r (en_run ?en)")
      case (Inl js)
      with assms(1) Some inv show ?thesis by (auto simp: finish_round_def Let_def)
    next
      case h: (Inr y)
      show ?thesis
      proof (cases y)
        case (Inl ot)
        obtain out task where ot: "ot = (out, task)" by fastforce
        have "td_executionIndex task = td_executionIndex started"
          using h Inl ot by (auto simp: handleNodeExecutionError_def Let_def bind_result_eq_Inr split: if_splits)
        moreover have "store_output ev ?e r out task ?en = (en', x)"
          using assms(1) Some h Inl ot by (simp add: finish_round_def Let_def)
        ultimately show ?thesis using store_output_inv [OF _ inv own, of ev r out task en' x] assms(3) by simp
      next
        case (Inr st)
        obtain task st1 where u: "upsertTaskData (n_name (ed_node ?e)) r task (en_run ?en) = Inr st1"
          and st: "st = pushExecutionStack ?e st1" and task: "td_executionIndex task = td_executionIndex started"
          using h Inr by (auto simp: handleNodeExecutionError_def Let_def bind_result_eq_Inr split: if_splits option.splits)
        have "run_inv (en_workflow ?en) (en_executionIndex ?en) st1"
          by (rule upsert_run_inv [OF u]) (use inv task assms(3) in \<open>simp_all add: engine_inv_def\<close>)
        from run_inv_push [OF this own] st assms(1) Some h Inr show ?thesis
          by (simp add: finish_round_def Let_def set_run_def engine_inv_def) fastforce
      qed
    qed
  qed
qed

lemma process_entry_inv:
  assumes "process_entry ev e en = Some (en', x)" and "engine_inv en" and "of_workflow (en_workflow en) e"
  shows "engine_inv en' \<and> en_executionIndex en < en_executionIndex en'"
proof -
  obtain started en1 where s: "createTaskStartedData e en = (started, en1)" by fastforce
  let ?e = "e\<lparr>ed_data := addPairedItemLineage e\<rparr>"
  let ?r = "computeRunIndex (en_run en1) ?e"
  have en1: "engine_inv en1" "en_executionIndex en1 = Suc (en_executionIndex en)" "en_workflow en1 = en_workflow en"
      "td_executionIndex started = Some (en_executionIndex en)" "\<And>t. engine_inv (en1\<lparr>en_lastExecutionTry := t\<rparr>)"
    using s assms(2) run_inv_mono by (auto simp: createTaskStartedData_def engine_inv_def)
  have own: "of_workflow (en_workflow en1) ?e" using assms(3) en1(3) by (simp add: of_workflow_def)
  obtain b st where i: "ensureInputData (en_workflow en1) ?e (en_run en1) = (b, st)" by fastforce
  have st: "run_inv (en_workflow en1) (en_executionIndex en1) st"
    using i en1(1) own run_inv_enqueue_last by (auto simp: ensureInputData_def engine_inv_def split: if_splits)
  show ?thesis
  proof (cases "execution_try ?e ?r = en_lastExecutionTry en1 \<or> isNodeFilteredOut (en_run en1) (n_name (ed_node ?e)) \<or> \<not> b")
    case True
    with assms(1) s i en1 st show ?thesis
      by (auto simp: process_entry_def Let_def engine_inv_def split: if_splits)
  next
    case False
    let ?wk = "\<lparr>wk_engine = set_run st en1, wk_entry = ?e, wk_output = None, wk_results = makeEngineResponse\<rparr>"
    have w: "work_inv ?wk" using st own en1(2) by (simp add: work_inv_def)
    have ex: "execute_entry ev started ?e ?r (set_run st en1) = Some (en', x)"
      using assms(1) s i False by (simp add: process_entry_def Let_def)
    then obtain wk y where t: "all_tries ev ?r (fst (getRetryParams ?e)) 0 None ?wk = Some (wk, y)"
      by (auto simp: execute_entry_def split: option.splits)
    have k: "work_inv wk" "en_executionIndex (wk_engine wk) = en_executionIndex en1"
      using all_tries_inv [OF t w] by (simp_all add: same_index_def)
    show ?thesis
    proof (cases y)
      case TryNext
      with ex t k en1(2) show ?thesis by (auto simp: execute_entry_def work_inv_def)
    next
      case TryDone
      with ex t have "finish_round ev started ?r wk None = (en', x)" by (simp add: execute_entry_def)
      from finish_round_inv [OF this k(1)] k(2) en1(2,4) show ?thesis by simp
    next
      case (TryError er)
      with ex t have "finish_round ev started ?r wk (Some er) = (en', x)" by (simp add: execute_entry_def)
      from finish_round_inv [OF this k(1)] k(2) en1(2,4) show ?thesis by simp
    qed
  qed
qed

lemma loop_round_inv:
  assumes "loop_round ev en = Some (en', x)" and "engine_inv en"
  shows "engine_inv en' \<and> en_executionIndex en \<le> en_executionIndex en'"
proof (cases "rs_nodeExecutionStack (en_run en)")
  case Nil
  with assms show ?thesis by (simp add: loop_round_def isExecutionStackNotEmpty_def)
next
  case (Cons e es)
  obtain stop en1 where s: "shouldStopExecuting (ev_timedOut ev (en_ticks en)) (count_call en) = (stop, en1)" by fastforce
  then have en1: "en_run en1 = en_run en" "en_workflow en1 = en_workflow en" "en_executionIndex en1 = en_executionIndex en"
    by (auto simp: shouldStopExecuting_def count_call_def Let_def split: if_splits)
  show ?thesis
  proof (cases stop)
    case True
    with assms Cons s en1 show ?thesis by (auto simp: loop_round_def isExecutionStackNotEmpty_def engine_inv_def)
  next
    case False
    let ?en = "en1\<lparr>en_run := (en_run en)\<lparr>rs_nodeExecutionStack := es\<rparr>, en_executionError := None\<rparr>"
    have "process_entry ev e ?en = Some (en', x)"
      using assms(1) Cons s False en1(1)
      by (simp add: loop_round_def isExecutionStackNotEmpty_def popExecutionStack_def)
    moreover have "engine_inv ?en" "of_workflow (en_workflow ?en) e"
      using assms(2) Cons en1 by (auto simp: engine_inv_def run_inv_def waiting_inv_def stack_inv_iff)
    ultimately show ?thesis using process_entry_inv [of ev e ?en en' x] en1(3) by simp
  qed
qed

subsection \<open>Executions as step sequences\<close>

text \<open>
  A step is a round after which the loop goes on, or the cancellation of the execution, which may come
  between any two rounds.
\<close>

definition cancel :: "engine \<Rightarrow> engine" where
  "cancel en = en\<lparr>en_status := Canceled, en_run := updateTaskStatusesToCancelled (en_run en)\<rparr>"

inductive engine_step :: "environment \<Rightarrow> engine \<Rightarrow> engine \<Rightarrow> bool" for ev where
  Round: "loop_round ev en = Some (en', RoundNext) \<Longrightarrow> engine_step ev en en'"
| Cancel: "engine_step ev en (cancel en)"

inductive_cases engine_stepE: "engine_step ev en en'"

abbreviation engine_steps :: "environment \<Rightarrow> engine \<Rightarrow> engine \<Rightarrow> bool" where
  "engine_steps ev \<equiv> (engine_step ev)\<^sup>*\<^sup>*"

lemma cancel_inv: "engine_inv en \<Longrightarrow> engine_inv (cancel en)"
proof -
  assume inv: "engine_inv en"
  have "indices_below k (map (\<lambda>(nm, tasks). (nm, map (\<lambda>t. if td_executionStatus t = Some Running
      then t\<lparr>td_executionStatus := Some Canceled\<rparr> else t) tasks)) rd)" if "indices_below k rd" for k rd
    using that by (fastforce simp: indices_below_def map_of_map split: if_splits)
  with inv show ?thesis
    by (simp add: cancel_def engine_inv_def run_inv_def updateTaskStatusesToCancelled_def waiting_inv_def stack_inv_def)
qed

lemma engine_step_inv: "engine_step ev en en' \<Longrightarrow> engine_inv en \<Longrightarrow> engine_inv en'"
  by (elim engine_stepE) (auto dest: loop_round_inv cancel_inv)

lemma engine_steps_inv: "engine_steps ev en en' \<Longrightarrow> engine_inv en \<Longrightarrow> engine_inv en'"
  by (induction rule: rtranclp_induct) (blast dest: engine_step_inv)+

text \<open>Rounds counted are steps taken.\<close>

lemma run_rounds_steps:
  "run_rounds k ev en = Some (en', thrown) \<Longrightarrow>
    \<exists>en1. engine_steps ev en en1 \<and>
      loop_round ev en1 = Some (en', case thrown of None \<Rightarrow> RoundStop | Some err \<Rightarrow> RoundThrow err)"
proof (induction k arbitrary: en)
  case 0
  then show ?case by simp
next
  case (Suc k)
  then obtain en1 x where r: "loop_round ev en = Some (en1, x)" by (auto split: option.splits prod.splits)
  show ?case
  proof (cases x)
    case RoundNext
    with Suc r have "run_rounds k ev en1 = Some (en', thrown)" by simp
    from Suc.IH [OF this] engine_step.Round [of ev en en1] r RoundNext show ?thesis
      by (metis converse_rtranclp_into_rtranclp)
  next
    case RoundStop
    with Suc.prems r show ?thesis by auto
  next
    case (RoundThrow err)
    with Suc.prems r show ?thesis by auto
  qed
qed

lemma run_rounds_mono: "run_rounds k ev en = Some x \<Longrightarrow> k \<le> k' \<Longrightarrow> run_rounds k' ev en = Some x"
proof (induction k arbitrary: en k')
  case 0
  then show ?case by simp
next
  case (Suc k)
  then obtain m where "k' = Suc m" "k \<le> m" by (cases k') auto
  with Suc show ?case by (auto split: option.splits prod.splits round_end.splits)
qed


end
