(* ===== verification/EngineRuns.thy ===== *)
theory EngineRuns
  imports EngineFacts
begin

section \<open>Concrete executions\<close>

text \<open>
  A workflow run in an environment whose nodes give out their input, with nodes that fail, and what the
  result is.
\<close>

subsection \<open>The engine a run starts with\<close>

lemma new_engine_inv:
  assumes "rs_waitingExecution st = []" and "rs_waitingExecutionSource st = Some []"
    and "\<forall>e \<in> set (rs_nodeExecutionStack st). of_workflow w e" and "rs_runData st = []"
  shows "engine_inv (new_engine w k st)"
  using assms
  by (simp add: engine_inv_def new_engine_def run_inv_def waiting_inv_def stack_inv_iff indices_below_def)

lemma prepare_run_inv:
  assumes "prepare_run w (Some n) d pins trig extra = Inr st" and "getNode w nm = Some n"
  shows "engine_inv (new_engine w k st)"
  by (rule new_engine_inv) (use assms in \<open>auto simp: prepare_run_def createRunExecutionData_def buildExecutionData_def
      buildResultData_def no_options_def start_entry_def of_workflow_def\<close>)

subsection \<open>An environment\<close>

text \<open>
  The nodes named in the first list throw, those in the second answer with an item that holds an error,
  the others give out their input.
\<close>

definition broken :: exec_error where
  "broken = \<lparr>ee_name = ''NodeOperationError'', ee_message = ''broken'', ee_stack = []\<rparr>"

definition sample_answer :: "string list \<Rightarrow> string list \<Rightarrow> node_call \<Rightarrow> operation_answer" where
  "sample_answer throwing failing call =
     (let nm = n_name (ed_node (nc_executionData call)) in
      \<lparr>oa_result = (if nm \<in> set throwing then Inl broken
         else if nm \<in> set failing then Inr (NodeData (Val [Val [empty_item\<lparr>i_json := [(''error'', JStr ''broken'')]\<rparr>]]))
         else Inr (NodeData (Val [Val (nc_connectionInputData call)]))),
       oa_closingErrors = [], oa_waitTill = rs_waitTill (nc_run call), oa_metadata = rs_metadata (nc_run call)\<rparr>)"

definition sample_env :: "string list \<Rightarrow> string list \<Rightarrow> environment" where
  "sample_env throwing failing =
     \<lparr>ev_manual = False, ev_evalPorts = (\<lambda>_ _. []), ev_getPairedItem = (\<lambda>_ _ _. None),
      ev_requiredInputs = (\<lambda>_ _. None), ev_operation = (\<lambda>_. sample_answer throwing failing),
      ev_poll = (\<lambda>_ _. Inr Null), ev_trigger = (\<lambda>_ _. Inr None), ev_declarative = (\<lambda>_ _. Inr Null),
      ev_timedOut = (\<lambda>_. False)\<rparr>"

definition no_issues :: parameter_issues where
  "no_issues t n pinned = None"

text \<open>\<open>A\<close> is connected to both \<open>B\<close> and \<open>C\<close>, and these to the two inputs of \<open>M\<close>.\<close>

definition placed_node :: "nat \<Rightarrow> string \<Rightarrow> rat \<Rightarrow> rat \<Rightarrow> node" where
  "placed_node r nm x y = (plain_node r nm ''t'')\<lparr>n_position := (x, y)\<rparr>"

definition diamond_workflow :: workflow where
  "diamond_workflow = make_workflow sample_types
     [placed_node 0 ''A'' 0 0, placed_node 1 ''B'' 100 100, placed_node 2 ''C'' 100 0, placed_node 3 ''M'' 200 0]
     [(''A'', [(Main, [Val [connection_to ''B'' Main 0, connection_to ''C'' Main 0]])]),
      (''B'', [(Main, [Val [connection_to ''M'' Main 0]])]),
      (''C'', [(Main, [Val [connection_to ''M'' Main 1]])])] None (Some ''v1'')"

definition diamond_start :: engine where
  "diamond_start = new_engine diamond_workflow 0
     (createRunExecutionData (no_options\<lparr>ro_nodeExecutionStack := Some [start_entry (placed_node 0 ''A'' 0 0) None]\<rparr>))"

lemma diamond_start_inv: "engine_inv diamond_start"
  unfolding diamond_start_def
  by (rule new_engine_inv)
    (auto simp: createRunExecutionData_def buildExecutionData_def buildResultData_def no_options_def start_entry_def
      of_workflow_def intro!: exI [of _ "''A''"], code_simp)

definition after_round :: "environment \<Rightarrow> engine \<Rightarrow> engine" where
  "after_round ev en = (case loop_round ev en of Some (en', RoundNext) \<Rightarrow> en' | _ \<Rightarrow> en)"

lemma after_round_steps: "engine_steps ev en (after_round ev en)"
  by (auto simp: after_round_def split: option.splits prod.splits round_end.splits intro: engine_step.Round)

lemma cancel_after_round: "engine_steps ev en (cancel (after_round ev en))"
  using after_round_steps engine_step.Cancel by (rule rtranclp.rtrancl_into_rtrancl)

lemma after_first_round:
  "map (\<lambda>e. n_name (ed_node e)) (rs_nodeExecutionStack (en_run (cancel (after_round (sample_env [] []) diamond_start))))
     = [''C'', ''B'']"
  by code_simp


subsection \<open>The last node fails\<close>

definition status_of :: "run_result option result \<Rightarrow> ExecutionStatus option" where
  "status_of r = (case r of Inr (Some rr) \<Rightarrow> Some (rr_status rr) | _ \<Rightarrow> None)"

definition tolerant_node :: node where
  "tolerant_node = (plain_node 0 ''A'' ''t'')\<lparr>n_onError := Some ContinueRegularOutput\<rparr>"

definition tolerant_alone :: workflow where
  "tolerant_alone = make_workflow sample_types [tolerant_node] [] None (Some ''v1'')"

definition tolerant_followed :: workflow where
  "tolerant_followed = make_workflow sample_types [tolerant_node, plain_node 1 ''B'' ''t'']
     [(''A'', [(Main, [Val [connection_to ''B'' Main 0]])])] None (Some ''v1'')"

text \<open>
  A node set to continue on errors ends the execution with the status \<^verbatim>\<open>error\<close> if it is the last one to run
  and throws: its error is still in the variable when the loop ends. With a node after it the execution
  is a success.
\<close>

theorem last_error_despite_continue:
  "status_of (run 10 (sample_env [''A''] []) no_issues None tolerant_alone (Some tolerant_node) None None None [])
     = Some Error \<and>
   status_of (run 10 (sample_env [''A''] []) no_issues None tolerant_followed (Some tolerant_node) None None None [])
     = Some Success"
  by code_simp

end
