(* ===== verification/EngineTries.thy ===== *)
theory EngineTries
  imports EngineRuns
begin

section \<open>Retries\<close>

text \<open>
  How often the loop runs a node: with a whole number of tries the tries end, after at most twice that
  number of calls less one; with a fraction they need not end.
\<close>

subsection \<open>The budget\<close>

definition whole_tries :: "node \<Rightarrow> bool" where
  "whole_tries n \<longleftrightarrow> or_number (n_maxTries n) 3 \<in> \<int>"

lemma whole_budget:
  assumes "whole_tries (ed_node e)"
  shows "\<exists>k. fst (getRetryParams e) = of_nat k \<and> 0 < k \<and> k \<le> 5"
proof (cases "fst (getRetryParams e) = 1")
  case True
  then show ?thesis by (intro exI [of _ 1]) simp
next
  case False
  obtain z where z: "or_number (n_maxTries (ed_node e)) 3 = of_int z"
    using assms by (auto simp: whole_tries_def elim: Ints_cases)
  have "min 5 (max 2 (of_int z)) = (of_int (min 5 (max 2 z)) :: rat)"
    by (simp add: min_def max_def)
  also have "\<dots> = of_nat (nat (min 5 (max 2 z)))" by simp
  finally have "fst (getRetryParams e) = of_nat (nat (min 5 (max 2 z)))"
    using False z by (auto simp: getRetryParams_def Let_def split: if_splits)
  moreover have "0 < nat (min 5 (max 2 z))" "nat (min 5 (max 2 z)) \<le> 5" by (auto simp: nat_le_iff less_max_iff_disj)
  ultimately show ?thesis by blast
qed

subsection \<open>Counting calls\<close>

lemma executeNode_ticks: "executeNode ev call en = (en', x) \<Longrightarrow> en_ticks en' = Suc (en_ticks en)"
  by (auto simp: executeNode_def count_call_def Let_def split: sum.splits)

lemma run_by_type_ticks: "run_by_type ev t co call en = (en', x) \<Longrightarrow> en_ticks en' \<le> Suc (en_ticks en)"
  by (auto simp: run_by_type_def Let_def executePollNode_def executeTriggerNode_def
      executeDeclarativeNodeInTest_def count_call_def split: if_splits dest: executeNode_ticks)

lemma runNode_ticks: "runNode ev r res e en = (en', x) \<Longrightarrow> en_ticks en' \<le> Suc (en_ticks en)"
  by (auto simp: runNode_def Let_def split: option.splits if_splits dest: run_by_type_ticks)

lemma of_nat_last: "i < k \<Longrightarrow> of_nat i = of_nat k - (1 :: rat) \<longleftrightarrow> Suc i = k"
proof -
  assume "i < k"
  have "of_nat i = of_nat k - (1 :: rat) \<longleftrightarrow> of_nat (Suc i) = (of_nat k :: rat)" by (auto simp: algebra_simps)
  then show ?thesis by (simp only: of_nat_eq_iff)
qed

text \<open>A call that throws inside the inner loop does not advance the index.\<close>

lemma inner_tries_calls:
  assumes "i < k"
  shows "\<exists>j en' y. inner_tries ev r (of_nat k) e i x en = Some (j, en', y) \<and> i \<le> j \<and> j < k \<and>
    (case y of Inl _ \<Rightarrow> Suc j < k \<and> en_ticks en' \<le> en_ticks en + (j - i) + 1
       | Inr _ \<Rightarrow> en_ticks en' \<le> en_ticks en + (j - i))"
  using assms
proof (induction "k - i" arbitrary: i x en)
  case 0
  then show ?case by simp
next
  case (Suc d)
  show ?case
  proof (cases "check_failure x \<and> Suc i \<noteq> k")
    case False
    then have "inner_tries ev r (of_nat k) e i x en = Some (i, en, Inr x)"
      using of_nat_last [OF Suc.prems] by (subst inner_tries.simps) auto
    with Suc.prems show ?thesis by simp
  next
    case True
    obtain en1 y where run: "runNode ev r None e en = (en1, y)" by fastforce
    note t = runNode_ticks [OF run]
    show ?thesis
    proof (cases y)
      case (Inl err)
      with True run have "inner_tries ev r (of_nat k) e i x en = Some (i, en1, Inl err)"
        using of_nat_last [OF Suc.prems] by (subst inner_tries.simps) simp
      with True t Suc.prems show ?thesis by simp
    next
      case (Inr x1)
      with True run have eq: "inner_tries ev r (of_nat k) e i x en = inner_tries ev r (of_nat k) e (Suc i) x1 en1"
        using of_nat_last [OF Suc.prems] by (subst inner_tries.simps) simp
      have "d = k - Suc i" "Suc i < k" using Suc.hyps(2) Suc.prems True by simp_all
      from Suc.hyps(1) [OF this, of x1 en1] t show ?thesis
        unfolding eq by (fastforce split: sum.splits)
    qed
  qed
qed

lemma finish_try_ticks: "finish_try wk d = (wk', x) \<Longrightarrow> en_ticks (wk_engine wk') = en_ticks (wk_engine wk)"
  by (auto simp: finish_try_def Let_def split: sum.splits if_splits)

lemma answer_request_ticks: "answer_request r q wk = (wk', x) \<Longrightarrow> en_ticks (wk_engine wk') = en_ticks (wk_engine wk)"
  by (auto simp: answer_request_def Let_def split: prod.splits)

text \<open>The calls of one try that starts with the index \<open>i\<close> and ends with the index \<open>j\<close>.\<close>

definition try_calls :: "nat \<Rightarrow> nat \<Rightarrow> nat \<Rightarrow> nat" where
  "try_calls k i j = 1 + (j - i) + (if Suc j < k then 1 else 0)"

lemma one_try_calls:
  assumes "i < k"
  shows "\<exists>j wk' x. one_try ev r (of_nat k) i wk = Some (j, wk', x) \<and> i \<le> j \<and> j < k \<and>
    en_ticks (wk_engine wk') \<le> en_ticks (wk_engine wk) + try_calls k i j"
proof (cases "getPinnedOutput (en_run (wk_engine wk)) (ed_node (wk_entry wk))")
  case (Some pinned)
  obtain wk' x where "finish_try wk (Val pinned) = (wk', x)" by fastforce
  with Some assms finish_try_ticks [OF this] show ?thesis by (simp add: one_try_def)
next
  case None
  let ?wk = "wk\<lparr>wk_results := collectSubNodeResults (en_run (wk_engine wk)) (wk_entry wk) (wk_results wk)\<rparr>"
  obtain en1 y where run: "runNode ev r (Some (wk_results ?wk)) (wk_entry wk) (wk_engine wk) = (en1, y)" by fastforce
  note t = runNode_ticks [OF run]
  show ?thesis
  proof (cases y)
    case (Inl err)
    with None run t assms show ?thesis by (simp add: one_try_def Let_def try_calls_def)
  next
    case (Inr x1)
    obtain j en2 z where inner: "inner_tries ev r (of_nat k) (wk_entry wk) i x1 en1 = Some (j, en2, z)"
      and j: "i \<le> j" "j < k"
      and c: "case z of Inl _ \<Rightarrow> Suc j < k \<and> en_ticks en2 \<le> en_ticks en1 + (j - i) + 1
                | Inr _ \<Rightarrow> en_ticks en2 \<le> en_ticks en1 + (j - i)"
      using inner_tries_calls [OF assms] by blast
    have calls: "en_ticks en2 \<le> en_ticks (wk_engine wk) + try_calls k i j"
      using c t by (auto simp: try_calls_def split: sum.splits)
    show ?thesis
    proof (cases z)
      case (Inl err)
      with None run Inr inner j calls show ?thesis by (simp add: one_try_def Let_def)
    next
      case resp: (Inr resp)
      show ?thesis
      proof (cases resp)
        case (NodeRequest q)
        obtain wk' x where "answer_request r q (?wk\<lparr>wk_engine := en2\<rparr>) = (wk', x)" by fastforce
        with None run Inr inner resp NodeRequest j calls answer_request_ticks [OF this] show ?thesis
          by (simp add: one_try_def Let_def)
      next
        case (NodeData d)
        show ?thesis
        proof (cases "processNodeOutput ev d (wk_entry wk) en2")
          case (Inl err)
          with None run Inr inner resp NodeData j calls show ?thesis by (simp add: one_try_def Let_def)
        next
          case out: (Inr d')
          obtain wk' x where "finish_try (?wk\<lparr>wk_engine := en2\<rparr>) d' = (wk', x)" by fastforce
          with None run Inr inner resp NodeData out j calls finish_try_ticks [OF this] show ?thesis
            by (simp add: one_try_def Let_def)
        qed
      qed
    qed
  qed
qed

lemma all_tries_calls:
  assumes "i \<le> k"
  shows "\<exists>wk' x. all_tries ev r (of_nat k) i err wk = Some (wk', x) \<and>
    en_ticks (wk_engine wk') \<le> en_ticks (wk_engine wk) + (2 * (k - i) - 1)"
  using assms
proof (induction "k - i" arbitrary: i err wk rule: less_induct)
  case less
  show ?case
  proof (cases "i = k")
    case True
    then show ?thesis by (subst all_tries.simps) simp
  next
    case False
    with less.prems have "i < k" by simp
    then obtain j wk1 x where once: "one_try ev r (of_nat k) i wk = Some (j, wk1, x)" and j: "i \<le> j" "j < k"
      and c: "en_ticks (wk_engine wk1) \<le> en_ticks (wk_engine wk) + try_calls k i j"
      using one_try_calls by blast
    have c': "try_calls k i j \<le> 2 * (k - i) - 1" using j by (auto simp: try_calls_def)
    show ?thesis
    proof (cases "\<exists>er. x = TryError er")
      case False
      with once \<open>i < k\<close> have "all_tries ev r (of_nat k) i err wk = Some (wk1, x)"
        by (subst all_tries.simps) (cases x, simp_all)
      with c c' show ?thesis by simp
    next
      case True
      then obtain er where x: "x = TryError er" by blast
      let ?wk = "wk1\<lparr>wk_engine := reportNodeExecutionError (ed_node (wk_entry wk1)) (wk_engine wk1)\<rparr>"
      have eq: "all_tries ev r (of_nat k) i err wk = all_tries ev r (of_nat k) (Suc j) (Some er) ?wk"
        using once x \<open>i < k\<close> by (subst all_tries.simps) simp
      have "k - Suc j < k - i" "Suc j \<le> k" using j by simp_all
      from less.hyps [OF this, of "Some er" ?wk] obtain wk' y where
        rest: "all_tries ev r (of_nat k) (Suc j) (Some er) ?wk = Some (wk', y)"
          "en_ticks (wk_engine wk') \<le> en_ticks (wk_engine ?wk) + (2 * (k - Suc j) - 1)" by blast
      have "en_ticks (wk_engine ?wk) = en_ticks (wk_engine wk1)" by (simp add: reportNodeExecutionError_def)
      with rest c j have "en_ticks (wk_engine wk') \<le> en_ticks (wk_engine wk) + (2 * (k - i) - 1)"
        by (auto simp: try_calls_def split: if_splits)
      with rest eq show ?thesis by auto
    qed
  qed
qed

text \<open>
  C11. A node set to retry a whole number of times is tried between one and five times, with waits of at most
  five seconds, and the tries end after at most twice that number of calls less one.
\<close>

theorem retries_end:
  assumes "whole_tries (ed_node e)"
  shows "0 \<le> snd (getRetryParams e) \<and> snd (getRetryParams e) \<le> 5000 \<and>
    (\<exists>m. fst (getRetryParams e) = of_nat m \<and> 0 < m \<and> m \<le> 5 \<and>
      (\<forall>ev r wk. \<exists>wk' x. all_tries ev r (fst (getRetryParams e)) 0 None wk = Some (wk', x) \<and>
        en_ticks (wk_engine wk') \<le> en_ticks (wk_engine wk) + (2 * m - 1)))"
proof -
  obtain m where m: "fst (getRetryParams e) = of_nat m" "0 < m" "m \<le> 5" using whole_budget [OF assms] by blast
  have "\<exists>wk' x. all_tries ev r (fst (getRetryParams e)) 0 None wk = Some (wk', x) \<and>
      en_ticks (wk_engine wk') \<le> en_ticks (wk_engine wk) + (2 * m - 1)" for ev r wk
    using all_tries_calls [of 0 m ev r None wk] m(1) by simp
  moreover have "0 \<le> snd (getRetryParams e) \<and> snd (getRetryParams e) \<le> 5000"
    by (simp add: getRetryParams_def Let_def)
  ultimately show ?thesis using m by blast
qed

definition retrying_node :: "rat option \<Rightarrow> node" where
  "retrying_node tries = (plain_node 0 ''A'' ''t'')\<lparr>n_retryOnFail := Some True, n_maxTries := tries\<rparr>"

definition retrying_workflow :: "rat option \<Rightarrow> workflow" where
  "retrying_workflow tries = make_workflow sample_types [retrying_node tries] [] None (Some ''v1'')"

definition retrying_entry :: "rat option \<Rightarrow> execute_data" where
  "retrying_entry tries = start_entry (retrying_node tries) None"

definition retrying_start :: "rat option \<Rightarrow> engine" where
  "retrying_start tries = new_engine (retrying_workflow tries) 0
     (createRunExecutionData (no_options\<lparr>ro_nodeExecutionStack := Some [retrying_entry tries]\<rparr>))"

definition retrying_work :: "rat option \<Rightarrow> work" where
  "retrying_work tries = \<lparr>wk_engine = retrying_start tries, wk_entry = retrying_entry tries, wk_output = None,
     wk_results = makeEngineResponse\<rparr>"

theorem retries_end_witness:
  "\<exists>m. fst (getRetryParams (retrying_entry (Some 2))) = of_nat m \<and> 0 < m \<and> m \<le> 5 \<and>
     (\<exists>wk' x. all_tries (sample_env [''A''] []) 0 (fst (getRetryParams (retrying_entry (Some 2)))) 0 None
        (retrying_work (Some 2)) = Some (wk', x) \<and>
        en_ticks (wk_engine wk') \<le> en_ticks (wk_engine (retrying_work (Some 2))) + (2 * m - 1))"
  using retries_end [of "retrying_entry (Some 2)"]
  by (auto simp: retrying_entry_def start_entry_def retrying_node_def whole_tries_def or_number_def)

text \<open>
  The bound is reached: with two tries, a node that first answers with an item that holds an error and
  then throws is called three times, for the call of the inner loop that throws does not count.
\<close>

definition alternating_env :: environment where
  "alternating_env = (sample_env [] [])\<lparr>ev_operation :=
     (\<lambda>k. if k mod 2 = 0 then sample_answer [] [''A''] else sample_answer [''A''] [])\<rparr>"

definition calls_of_tries :: "environment \<Rightarrow> rat option \<Rightarrow> nat option" where
  "calls_of_tries ev tries =
     map_option (\<lambda>(wk, _). en_ticks (wk_engine wk))
       (all_tries ev 0 (fst (getRetryParams (retrying_entry tries))) 0 None (retrying_work tries))"

theorem a_call_too_many:
  "fst (getRetryParams (retrying_entry (Some 2))) = 2 \<and>
   calls_of_tries alternating_env (Some 2) = Some 3 \<and>
   calls_of_tries (sample_env [''A''] []) (Some 2) = Some 2 \<and>
   calls_of_tries (sample_env [] [''A'']) (Some 2) = Some 2"
  by code_simp

subsection \<open>A fraction of a try\<close>

text \<open>
  The number of tries is not rounded. With two and a half, the inner loop never meets its last index, and
  a node that goes on answering with an error is called without end.
\<close>

abbreviation half :: "rat option" where
  "half \<equiv> Some (5 / 2)"

abbreviation failing_env :: environment where
  "failing_env \<equiv> sample_env [] [''A'']"

definition failed_response :: node_response where
  "failed_response = NodeData (Val [Val [empty_item\<lparr>i_json := [(''error'', JStr ''broken'')]\<rparr>]])"

definition ticked :: "nat \<Rightarrow> engine" where
  "ticked t = (retrying_start half)\<lparr>en_ticks := t\<rparr>"

lemma failing_call_parts:
  "case runNode failing_env 0 res (retrying_entry half) (ticked t) of (en, r) \<Rightarrow>
     en_ticks en = Suc t \<and> rs_waitTill (en_run en) = None \<and> rs_metadata (en_run en) = [] \<and> r = Inr failed_response"
  by code_simp

lemma failing_call: "runNode failing_env 0 res (retrying_entry half) (ticked t) = (ticked (Suc t), Inr failed_response)"
proof -
  obtain en r where run: "runNode failing_env 0 res (retrying_entry half) (ticked t) = (en, r)" by fastforce
  have "rs_waitTill (en_run (ticked t)) = None" "rs_metadata (en_run (ticked t)) = []" by code_simp+
  then have "(en_run (ticked t))\<lparr>rs_waitTill := None, rs_metadata := []\<rparr> = en_run (ticked t)"
    by (cases "en_run (ticked t)") simp
  moreover have "(ticked (Suc t))\<lparr>en_run := en_run (ticked t)\<rparr> = ticked (Suc t)"
      "(ticked t)\<lparr>en_ticks := Suc t\<rparr> = ticked (Suc t)"
    by (simp_all add: ticked_def)
  ultimately show ?thesis
    using failing_call_parts [where res = res and t = t] runNode_effect [OF run] unfolding run node_effect_def by auto
qed

lemma failed_response_fails: "check_failure failed_response"
  by code_simp

lemma never_last: "of_nat i \<noteq> (5 / 2 :: rat) - 1"
proof
  assume "of_nat i = (5 / 2 :: rat) - 1"
  then have "of_nat (2 * i) = (of_nat 3 :: rat)" by simp
  then have "2 * i = 3" by (simp only: of_nat_eq_iff)
  then show False by presburger
qed

lemma inner_tries_diverge: "inner_tries failing_env 0 (5 / 2) (retrying_entry half) i failed_response (ticked t) = None"
proof (rule ccontr)
  assume "inner_tries failing_env 0 (5 / 2) (retrying_entry half) i failed_response (ticked t) \<noteq> None"
  then obtain z where z: "inner_tries failing_env 0 (5 / 2) (retrying_entry half) i failed_response (ticked t) = Some z" by blast
  let ?P = "\<lambda>ev (r :: nat) m e (i :: nat) x en (z :: nat \<times> node_response engine_call). \<forall>t. (ev, r, m, e, x, en) \<noteq> (failing_env, 0, (5 / 2 :: rat), retrying_entry half, failed_response, ticked t)"
  have "?P failing_env 0 (5 / 2) (retrying_entry half) i failed_response (ticked t) z"
  proof (rule inner_tries.raw_induct [of ?P, OF _ z])
    fix f :: "environment \<Rightarrow> nat \<Rightarrow> rat \<Rightarrow> execute_data \<Rightarrow> nat \<Rightarrow> node_response \<Rightarrow> engine \<Rightarrow>
        (nat \<times> node_response engine_call) option" and ev r m e i x en z
    assume ih: "\<And>ev r m e i x en z. f ev r m e i x en = Some z \<Longrightarrow> ?P ev r m e i x en z"
      and eq: "(if check_failure x \<and> of_nat i \<noteq> m - 1 then
         (case runNode ev r None e en of (en, Inl err) \<Rightarrow> Some (i, en, Inl err)
          | (en, Inr y) \<Rightarrow> f ev r m e (Suc i) y en)
        else Some (i, en, Inr x)) = Some z"
    show "?P ev r m e i x en z"
    proof (intro allI notI)
      fix t
      assume "(ev, r, m, e, x, en) = (failing_env, 0, 5 / 2, retrying_entry half, failed_response, ticked t)"
      with eq have "f failing_env 0 (5 / 2) (retrying_entry half) (Suc i) failed_response (ticked (Suc t)) = Some z"
        by (simp only: prod.inject never_last failed_response_fails failing_call prod.case sum.case) simp
      then show False using ih by blast
    qed
  qed
  then show False by blast
qed

lemma retrying_work_ticked: "retrying_work half = \<lparr>wk_engine = ticked 0, wk_entry = retrying_entry half,
    wk_output = None, wk_results = makeEngineResponse\<rparr>"
  by (simp add: retrying_work_def ticked_def retrying_start_def new_engine_def)

lemma not_pinned: "getPinnedOutput (en_run (ticked t)) (ed_node (retrying_entry half)) = None"
  by code_simp

lemma half_budget: "fst (getRetryParams (retrying_entry half)) = 5 / 2"
  by code_simp

theorem fractional_tries_diverge:
  "all_tries failing_env 0 (fst (getRetryParams (retrying_entry half))) 0 None (retrying_work half) = None"
proof -
  have "one_try failing_env 0 (5 / 2) 0 (retrying_work half) = None"
    by (simp add: one_try_def Let_def retrying_work_ticked not_pinned failing_call inner_tries_diverge)
  then show ?thesis unfolding half_budget by (subst all_tries.simps) simp
qed

end
