(* ===== verification/EngineTokens.thy ===== *)
theory EngineTokens
  imports EngineTries "HOL-Library.Multiset"
begin

section \<open>Executions as token games\<close>

text \<open>
  In the execution order v1 and without requests, the nodes still to run form a multiset: one token per
  entry of the stack and per waiting entry. A round takes one token and adds at most one for every
  connection from the main outputs of its node. On a workflow without cycles such a game ends, and so do the
  executions.
\<close>

subsection \<open>Tokens\<close>

definition stack_tokens :: "execute_data list \<Rightarrow> string multiset" where
  "stack_tokens es = mset (map (\<lambda>e. n_name (ed_node e)) es)"

definition waiting_runs :: "'v by_run jsobj \<Rightarrow> (string \<times> nat) set" where
  "waiting_runs m = {(nm, i). run_get m nm i \<noteq> None}"

definition waiting_tokens :: "'v by_run jsobj \<Rightarrow> string multiset" where
  "waiting_tokens m = image_mset fst (mset_set (waiting_runs m))"

definition tokens :: "run_state \<Rightarrow> string multiset" where
  "tokens st = stack_tokens (rs_nodeExecutionStack st) + waiting_tokens (rs_waitingExecution st)"

definition child_tokens :: "workflow \<Rightarrow> string \<Rightarrow> string multiset" where
  "child_tokens w nm = mset (map (\<lambda>l. c_node (snd l)) (main_links w nm))"

definition token_step :: "workflow \<Rightarrow> string multiset \<Rightarrow> string multiset \<Rightarrow> bool" where
  "token_step w M M' \<longleftrightarrow> (\<exists>nm. nm \<in># M \<and> M' \<subseteq># M - {#nm#} + child_tokens w nm)"

lemma subset_add_mset: "A \<subseteq># B \<Longrightarrow> A \<subseteq># add_mset x B"
  by (metis add_mset_add_single mset_subset_eq_add_left subset_mset.order_trans)

lemma finite_waiting_runs [simp]: "finite (waiting_runs m)"
proof (rule finite_subset)
  show "waiting_runs m \<subseteq> (\<Union>(nm, entries) \<in> set m. (\<lambda>(i, x). (nm, i)) ` set entries)"
    by (fastforce simp: waiting_runs_def run_get_def dest: map_of_SomeD split: option.splits)
qed auto

lemma waiting_tokens_empty [simp]: "waiting_tokens [] = {#}"
  by (simp add: waiting_tokens_def waiting_runs_def run_get_def)

lemma waiting_tokens_mono: "waiting_runs m \<subseteq> waiting_runs m' \<Longrightarrow> waiting_tokens m \<subseteq># waiting_tokens m'"
  unfolding waiting_tokens_def by (intro image_mset_subseteq_mono subset_imp_msubset_mset_set) simp_all

text \<open>Writing an entry adds a token at most, and none if the entry was there.\<close>

lemma waiting_runs_put [simp]: "waiting_runs (run_put nm i v m) = insert (nm, i) (waiting_runs m)"
  by (auto simp: waiting_runs_def)

lemma tokens_put: "waiting_tokens (run_put nm i v m) \<subseteq># add_mset nm (waiting_tokens m)"
  by (cases "(nm, i) \<in> waiting_runs m") (simp_all add: waiting_tokens_def insert_absorb)

lemma tokens_put_old: "run_get m nm i \<noteq> None \<Longrightarrow> waiting_tokens (run_put nm i v m) = waiting_tokens m"
proof -
  assume "run_get m nm i \<noteq> None"
  then have "(nm, i) \<in> waiting_runs m" by (simp add: waiting_runs_def)
  then show ?thesis by (simp add: waiting_tokens_def insert_absorb)
qed

lemma waiting_runs_new [simp]: "obj_get m nm = None \<Longrightarrow> waiting_runs (obj_set nm [] m) = waiting_runs m"
  by (auto simp: waiting_runs_def run_get_def split: option.splits if_splits)

lemma waiting_runs_drop:
  "waiting_runs (rs_waitingExecution (drop_waiting nm i st)) \<subseteq> waiting_runs (rs_waitingExecution st) - {(nm, i)}"
  by (auto simp: waiting_runs_def drop_waiting_def Let_def run_get_obj_delete split: if_splits)

lemma stack_drop [simp]: "rs_nodeExecutionStack (drop_waiting nm i st) = rs_nodeExecutionStack st"
  by (simp add: drop_waiting_def Let_def)

lemma tokens_drop: "tokens (drop_waiting nm i st) \<subseteq># tokens st"
  using waiting_runs_drop [of nm i st] by (auto simp: tokens_def intro!: waiting_tokens_mono)

lemma stack_tokens_enqueue:
  "stack_tokens (rs_nodeExecutionStack (enqueue w e st)) = stack_tokens (rs_nodeExecutionStack st) + {#n_name (ed_node e)#}"
  "stack_tokens (rs_nodeExecutionStack (enqueue_last e st)) = stack_tokens (rs_nodeExecutionStack st) + {#n_name (ed_node e)#}"
  by (simp_all add: stack_tokens_def enqueue_def pushExecutionStack_def enqueue_last_def)

lemma tokens_enqueue [simp]:
  "tokens (enqueue w e st) = tokens st + {#n_name (ed_node e)#}"
  "tokens (enqueue_last e st) = tokens st + {#n_name (ed_node e)#}"
  by (simp_all add: tokens_def stack_tokens_enqueue) (simp add: enqueue_last_def)

text \<open>A waiting entry that moves to the stack takes its token with it.\<close>

lemma tokens_move:
  assumes "run_get (rs_waitingExecution st) nm i = Some x" and "n_name (ed_node e) = nm"
    and "rs_waitingExecution st' = rs_waitingExecution st" and "tokens st' = tokens st + {#nm#}"
  shows "tokens (drop_waiting nm i st') \<subseteq># tokens st"
proof -
  let ?runs = "waiting_runs (rs_waitingExecution st)"
  have "(nm, i) \<in> ?runs" using assms(1) by (simp add: waiting_runs_def)
  then have "mset_set ?runs = mset_set (?runs - {(nm, i)}) + {#(nm, i)#}"
    by (simp add: mset_set.remove)
  then have all: "waiting_tokens (rs_waitingExecution st) = image_mset fst (mset_set (?runs - {(nm, i)})) + {#nm#}"
    by (simp add: waiting_tokens_def)
  have "waiting_tokens (rs_waitingExecution (drop_waiting nm i st'))
      \<subseteq># image_mset fst (mset_set (?runs - {(nm, i)}))"
    unfolding waiting_tokens_def
    by (intro image_mset_subseteq_mono subset_imp_msubset_mset_set) (use waiting_runs_drop [of nm i st'] assms(3) in auto)
  with all have "waiting_tokens (rs_waitingExecution (drop_waiting nm i st')) + {#nm#} \<subseteq># waiting_tokens (rs_waitingExecution st)"
    by simp
  moreover have "stack_tokens (rs_nodeExecutionStack st') = stack_tokens (rs_nodeExecutionStack st) + {#nm#}"
    using assms(3,4) by (simp add: tokens_def)
  ultimately show ?thesis by (simp add: tokens_def)
qed

subsection \<open>Scheduling\<close>

text \<open>Entries have a list of main inputs, so that the loop never puts one off.\<close>

definition has_main :: "run_state \<Rightarrow> bool" where
  "has_main st \<longleftrightarrow> (\<forall>e \<in> set (rs_nodeExecutionStack st). main_data (ed_data e) \<noteq> None)"

lemma open_waiting_tokens:
  "open_waiting nm st = (b, st') \<Longrightarrow>
    waiting_runs (rs_waitingExecution st') = waiting_runs (rs_waitingExecution st) \<and>
    rs_nodeExecutionStack st' = rs_nodeExecutionStack st"
  by (auto simp: open_waiting_def Let_def split: if_splits)

lemma waiting_entry_tokens:
  "waiting_entry w conn st = Inr (i, st') \<Longrightarrow>
    tokens st' \<subseteq># tokens st + {#c_node conn#} \<and> rs_nodeExecutionStack st' = rs_nodeExecutionStack st"
  using tokens_put [of "c_node conn" _ _ "rs_waitingExecution st"] subset_add_mset [of _ _ "c_node conn"]
  by (auto simp: waiting_entry_def bind_result_eq_Inr Let_def tokens_def prepareWaitingToExecution_def
      split: option.splits)

lemma store_waiting_tokens:
  "store_waiting conn oi p data r i st = Inr st' \<Longrightarrow>
    tokens st' = tokens st \<and> rs_nodeExecutionStack st' = rs_nodeExecutionStack st"
  by (auto simp: store_waiting_def bind_result_eq_Inr set_main_Inr tokens_def tokens_put_old)

lemma keep_waiting_tokens:
  "keep_waiting w conn x i st = Inr st' \<Longrightarrow>
    tokens st' = tokens st \<and> rs_nodeExecutionStack st' = rs_nodeExecutionStack st"
  by (erule keep_waiting_Inr) (auto simp: tokens_def main_of_Inr tokens_put_old)

lemma release_waiting_tokens:
  assumes "release_waiting w nm i st = Inr st'" and "workflow_named w" and "waiting_inv st" and "has_main st"
  shows "tokens st' \<subseteq># tokens st \<and> has_main st'"
proof -
  obtain n d src where n: "getNode w nm = Some n" and d: "run_get (rs_waitingExecution st) nm i = Some d"
    and src: "run_get (or_empty (rs_waitingExecutionSource st)) nm i = Some src"
    and st': "st' = drop_waiting nm i (enqueue w
      \<lparr>ed_node = n, ed_data = d, ed_source = Some src, ed_metadata = None, ed_runIndex = None\<rparr> st)" (is "_ = drop_waiting nm i (enqueue w ?e st)")
    using assms(1) by (auto simp: release_waiting_def bind_result_eq_Inr result_simps)
  have name: "n_name (ed_node ?e) = nm" using workflow_named_get [OF assms(2) n] by simp
  have "entry_match d src"
    using assms(3) d src in_step_get [of "rs_waitingExecution st" _ nm i] by (fastforce simp: waiting_inv_def)
  then have "has_main st'"
    using assms(4) by (auto simp: st' has_main_def enqueue_stack entry_match_def main_data_def)
  then show ?thesis
    using tokens_move [OF d name, of "enqueue w ?e st"] name by (simp add: st')
qed

text \<open>In the order v1 the other parents are left alone.\<close>

lemma add_siblings_v1:
  assumes "add_siblings w conn p data oi r st = Inr st'" and "w_executionOrder w = Some ''v1''"
  shows "st' = st"
proof -
  obtain checks where f: "fold_result (add_sibling w p data oi r checks)
      (concat (map slot_list (or_empty (main_inputs w (c_node conn))))) st = Inr st'"
    using assms(1) by (auto simp: add_siblings_def bind_result_eq_Inr)
  show ?thesis
    by (rule fold_result_inv [OF f, of "\<lambda>s. s = st"])
      (use assms(2) in \<open>auto simp: add_sibling_def sibling_is_settled_def isLegacyExecutionOrder_def
        bind_result_eq_Inr Let_def split: if_splits\<close>)
qed

definition token_ok :: "workflow \<Rightarrow> run_state \<Rightarrow> bool" where
  "token_ok w st \<longleftrightarrow> w_executionOrder w = Some ''v1'' \<and> workflow_named w \<and> waiting_inv st \<and> stack_inv w st \<and> has_main st"

lemma has_main_stack: "rs_nodeExecutionStack st' = rs_nodeExecutionStack st \<Longrightarrow> has_main st' = has_main st"
  by (simp add: has_main_def)

lemma add_to_waiting_tokens:
  assumes "add_to_waiting w conn oi p data r st = Inr st'" and "token_ok w st"
  shows "tokens st' \<subseteq># tokens st + {#c_node conn#} \<and> has_main st'"
proof -
  obtain b st1 where o: "open_waiting (c_node conn) st = (b, st1)" by force
  then obtain i st2 st3 xs where e: "waiting_entry w conn st1 = Inr (i, st2)"
    and s: "store_waiting conn oi p data r i st2 = Inr st3"
    and "main_of (rs_waitingExecution st3) (c_node conn) i = Inr xs"
    and rest: "(if all_data_found xs then release_waiting w (c_node conn) i st3
      else bind_result (if b then Inr st3 else add_siblings w conn p data oi r st3)
        (keep_waiting w conn (handed_data data oi) i)) = Inr st'"
    using assms(1) by (auto simp: add_to_waiting_def bind_result_eq_Inr)
  have ok: "waiting_inv st" "has_main st" "workflow_named w" "w_executionOrder w = Some ''v1''"
    using assms(2) by (simp_all add: token_ok_def)
  have 1: "waiting_inv st1" "tokens st1 = tokens st" "rs_nodeExecutionStack st1 = rs_nodeExecutionStack st"
    using open_waiting_inv [OF o ok(1)] open_waiting_tokens [OF o] by (simp_all add: tokens_def waiting_tokens_def)
  have 3: "waiting_inv st3" "tokens st3 \<subseteq># tokens st + {#c_node conn#}" "has_main st3"
    using waiting_entry_inv [OF e 1(1)] waiting_entry_tokens [OF e] store_waiting_inv [OF s]
      store_waiting_tokens [OF s] 1 ok(2) by (simp_all add: has_main_def)
  show ?thesis
  proof (cases "all_data_found xs")
    case True
    with rest have "release_waiting w (c_node conn) i st3 = Inr st'" by simp
    from release_waiting_tokens [OF this ok(3) 3(1,3)] 3(2) show ?thesis
      using subset_mset.order_trans by blast
  next
    case False
    with rest obtain st4 where st4: "(if b then Inr st3 else add_siblings w conn p data oi r st3) = Inr st4"
      and k: "keep_waiting w conn (handed_data data oi) i st4 = Inr st'"
      by (auto simp: bind_result_eq_Inr)
    have "st4 = st3" using st4 add_siblings_v1 [OF _ ok(4)] by (auto split: if_splits)
    with keep_waiting_tokens [OF k] 3 show ?thesis by (simp add: has_main_def)
  qed
qed

lemma addNode_tokens:
  assumes "addNodeToBeExecuted w conn oi p data r nr m st = Inr st'" and "token_ok w st"
  shows "tokens st' \<subseteq># tokens st + {#c_node conn#} \<and> token_ok w st'"
proof -
  have "tokens st' \<subseteq># tokens st + {#c_node conn#} \<and> has_main st'"
  proof (cases "1 < length (or_empty (main_inputs w (c_node conn)))")
    case True
    with assms add_to_waiting_tokens show ?thesis by (simp add: addNodeToBeExecuted_def)
  next
    case False
    with assms show ?thesis
      by (auto simp: addNodeToBeExecuted_def token_ok_def has_main_def enqueue_stack direct_entry_def main_data_def
          workflow_named_get split: option.splits)
  qed
  moreover have "waiting_inv st' \<and> stack_inv w st'"
    using addNode_inv [OF assms(1)] assms(2) by (simp add: token_ok_def)
  ultimately show ?thesis using assms(2) by (simp add: token_ok_def)
qed

lemma mset_v8_insert: "mset (v8_insert cmp x xs) = add_mset x (mset xs)"
  by (induction xs) auto

lemma mset_v8_sort [simp]: "mset (v8_sort cmp xs) = mset xs"
  by (induction xs) (simp_all add: v8_sort_def mset_v8_insert)

lemma collect_nodes_tokens:
  "collect_nodes w output links = Inr nodes \<Longrightarrow>
    image_mset (\<lambda>nd. c_node (na_connection nd)) (mset nodes) \<subseteq># mset (map (\<lambda>l. c_node (snd l)) links)"
  by (induction links arbitrary: nodes)
    (auto simp: bind_result_eq_Inr subset_add_mset split: option.splits if_splits)

lemma fold_add_tokens:
  "fold_result (\<lambda>nd. addNodeToBeExecuted w (na_connection nd) (na_outputIndex nd) nm output r None None) nodes st = Inr st' \<Longrightarrow>
    token_ok w st \<Longrightarrow>
    tokens st' \<subseteq># tokens st + image_mset (\<lambda>nd. c_node (na_connection nd)) (mset nodes) \<and> token_ok w st'"
proof (induction nodes arbitrary: st)
  case Nil
  then show ?case by simp
next
  case (Cons nd nodes)
  then obtain st1 where a: "addNodeToBeExecuted w (na_connection nd) (na_outputIndex nd) nm output r None None st = Inr st1"
    and rest: "fold_result (\<lambda>nd. addNodeToBeExecuted w (na_connection nd) (na_outputIndex nd) nm output r None None) nodes st1 = Inr st'"
    by (auto simp: bind_result_eq_Inr)
  note 1 = addNode_tokens [OF a Cons.prems(2)]
  let ?rest = "image_mset (\<lambda>nd. c_node (na_connection nd)) (mset nodes)"
  have "tokens st1 + ?rest \<subseteq># tokens st + {#c_node (na_connection nd)#} + ?rest"
    using 1 by (simp only: mset_subset_eq_mono_add_right_cancel)
  moreover have "tokens st' \<subseteq># tokens st1 + ?rest" "token_ok w st'" using Cons.IH [OF rest] 1 by simp_all
  ultimately have "tokens st' \<subseteq># tokens st + {#c_node (na_connection nd)#} + ?rest"
    using subset_mset.order_trans by blast
  with \<open>token_ok w st'\<close> show ?case by (simp add: ac_simps)
qed

lemma enqueueChildren_tokens:
  assumes "enqueueChildren w nm output r st = Inr st'" and "token_ok w st"
  shows "tokens st' \<subseteq># tokens st + child_tokens w nm \<and> token_ok w st'"
proof -
  obtain nodes where c: "collect_nodes w output (main_links w nm) = Inr nodes"
    and f: "fold_result (\<lambda>nd. addNodeToBeExecuted w (na_connection nd) (na_outputIndex nd) nm (Some output) r None None)
      (v8_sort by_position nodes) st = Inr st'"
    using assms by (auto simp: enqueueChildren_def bind_result_eq_Inr token_ok_def)
  have "tokens st + image_mset (\<lambda>nd. c_node (na_connection nd)) (mset nodes) \<subseteq># tokens st + child_tokens w nm"
    using collect_nodes_tokens [OF c] by (simp add: child_tokens_def)
  moreover have "tokens st' \<subseteq># tokens st + image_mset (\<lambda>nd. c_node (na_connection nd)) (mset nodes)" "token_ok w st'"
    using fold_add_tokens [OF f assms(2)] by simp_all
  ultimately show ?thesis using subset_mset.order_trans by blast
qed

lemma check_waiting_main: "check_waiting ev w names nm st = Inr (Release i (Some e)) \<Longrightarrow> main_data (ed_data e) \<noteq> None"
  by (auto simp: check_waiting_def bind_result_eq_Inr Let_def main_data_def split: option.splits if_splits)

lemma scan_waiting_tokens:
  "scan_waiting ev w names rest st = Inr st' \<Longrightarrow> token_ok w st \<Longrightarrow> tokens st' \<subseteq># tokens st \<and> token_ok w st'"
proof (induction ev w names rest st rule: scan_waiting.induct)
  case (1 ev w names st)
  then show ?case by simp
next
  case (2 ev w names nm rest st)
  obtain c where c: "check_waiting ev w names nm st = Inr c" using 2 by (auto split: sum.splits)
  have ok: "workflow_named w" "waiting_inv st" using "2.prems" by (simp_all add: token_ok_def)
  have drop: "token_ok w (drop_waiting nm i st)" for i
    using drop_waiting_inv [OF ok(2)] "2.prems" by (simp add: token_ok_def stack_inv_def has_main_def)
  show ?case
  proof (cases c)
    case Skip
    with "2.IH"(1) [OF c] "2.prems" c show ?thesis by simp
  next
    case (Release i r)
    show ?thesis
    proof (cases r)
      case None
      with "2.IH"(2) [OF c] Release "2.prems" c drop have "tokens st' \<subseteq># tokens (drop_waiting nm i st) \<and> token_ok w st'"
        by simp
      with tokens_drop show ?thesis using subset_mset.order_trans by blast
    next
      case (Some e)
      note rel = c [unfolded Release Some]
      obtain x where x: "run_get (rs_waitingExecution st) nm i = Some x" using check_waiting_Release [OF rel] by blast
      note n = check_waiting_entry [OF rel]
      have name: "n_name (ed_node e) = nm" by (rule workflow_named_get [OF ok(1) n])
      have st': "st' = drop_waiting nm i (enqueue_last e st)" using "2.prems" rel by simp
      have "tokens st' \<subseteq># tokens st"
        unfolding st' by (rule tokens_move [OF x name]) (simp_all add: name, simp add: enqueue_last_def)
      moreover have "waiting_inv (enqueue_last e st)" using ok(2) by (simp add: waiting_inv_def enqueue_last_def)
      then have "token_ok w st'"
        using "2.prems"(2) drop_waiting_inv [of "enqueue_last e st" nm i] check_waiting_main [OF rel] n
        by (auto simp: st' token_ok_def stack_inv_def has_main_def enqueue_last_def)
      ultimately show ?thesis by blast
    qed
  qed
qed

lemma schedule_next_tokens:
  assumes "schedule_next ev w nm output r st = Inr st'" and "token_ok w st"
  shows "tokens st' \<subseteq># tokens st + child_tokens w nm \<and> token_ok w st'"
proof -
  obtain st1 where 1: "enqueueChildren w nm output r st = Inr st1" and 2: "scheduleWaiting ev w st1 = Inr st'"
    using assms(1) by (auto simp: schedule_next_def bind_result_eq_Inr)
  note 3 = enqueueChildren_tokens [OF 1 assms(2)]
  from 2 3 scan_waiting_tokens [of ev w _ _ st1 st'] show ?thesis
    by (auto simp: scheduleWaiting_def split: if_splits intro: subset_mset.order_trans)
qed

subsection \<open>Running a node\<close>

text \<open>Running a node leaves the workflow, the stack and the waiting entries alone unless it answers with a request.\<close>

definition no_requests :: "environment \<Rightarrow> bool" where
  "no_requests ev \<longleftrightarrow> (\<forall>k call q. oa_result (ev_operation ev k call) \<noteq> Inr (NodeRequest q))"

definition queues :: "engine \<Rightarrow> workflow \<times> execute_data list \<times> waiting_execution \<times> waiting_source option" where
  "queues en = (en_workflow en, rs_nodeExecutionStack (en_run en), rs_waitingExecution (en_run en),
     rs_waitingExecutionSource (en_run en))"

lemma token_ok_queues: "queues en' = queues en \<Longrightarrow> token_ok (en_workflow en') (en_run en') = token_ok (en_workflow en) (en_run en)"
  by (simp add: queues_def token_ok_def waiting_inv_def stack_inv_def has_main_def)

lemma tokens_queues: "queues en' = queues en \<Longrightarrow> tokens (en_run en') = tokens (en_run en)"
  by (simp add: queues_def tokens_def)

lemma queues_effect: "node_effect en en' \<Longrightarrow> queues en' = queues en"
  by (auto simp: node_effect_def queues_def)

lemma executeNode_data: "no_requests ev \<Longrightarrow> executeNode ev call en = (en', Inr r) \<Longrightarrow> \<exists>d. r = NodeData d"
  by (cases r) (auto simp: executeNode_def Let_def no_requests_def split: sum.splits option.splits)

lemma map_sum_data: "map_sum id f x = Inr r \<Longrightarrow> (\<And>d. \<exists>d'. f d = NodeData d') \<Longrightarrow> \<exists>d. r = NodeData d"
  by (cases x) auto

lemma run_by_type_data:
  "no_requests ev \<Longrightarrow> run_by_type ev t co call en = (en', Inr r) \<Longrightarrow> \<exists>d. r = NodeData d"
  by (auto simp: run_by_type_def Let_def executePollNode_def executeTriggerNode_def
      executeDeclarativeNodeInTest_def split: if_splits dest: executeNode_data map_sum_data)

lemma runNode_data: "no_requests ev \<Longrightarrow> runNode ev r res e en = (en', Inr x) \<Longrightarrow> \<exists>d. x = NodeData d"
  by (auto simp: runNode_def Let_def split: option.splits if_splits dest: run_by_type_data)

lemma inner_tries_data:
  assumes "inner_tries ev r m e i x en = Some (i', en', Inr y)" and "no_requests ev" and "\<exists>d. x = NodeData d"
  shows "\<exists>d. y = NodeData d"
proof -
  let ?P = "\<lambda>ev (r :: nat) (m :: rat) (e :: execute_data) (i :: nat) x (en :: engine) (z :: nat \<times> node_response engine_call).
    no_requests ev \<longrightarrow> (\<exists>d. x = NodeData d) \<longrightarrow> (\<forall>y. snd (snd z) = Inr y \<longrightarrow> (\<exists>d. y = NodeData d))"
  have "?P ev r m e i x en (i', en', Inr y)"
    by (rule inner_tries.raw_induct [of ?P, OF _ assms(1)])
      (fastforce split: if_splits prod.splits sum.splits dest: runNode_data)
  with assms show ?thesis by simp
qed

lemma finish_try_queues:
  "finish_try wk d = (wk', x) \<Longrightarrow> queues (wk_engine wk') = queues (wk_engine wk) \<and> wk_entry wk' = wk_entry wk"
  by (auto simp: finish_try_def Let_def queues_def split: sum.splits if_splits)

lemma one_try_queues:
  assumes "one_try ev r m i wk = Some (j, wk', x)" and "no_requests ev"
  shows "queues (wk_engine wk') = queues (wk_engine wk) \<and> wk_entry wk' = wk_entry wk"
proof (cases "getPinnedOutput (en_run (wk_engine wk)) (ed_node (wk_entry wk))")
  case (Some pinned)
  with assms finish_try_queues show ?thesis by (simp add: one_try_def) blast
next
  case None
  let ?wk = "wk\<lparr>wk_results := collectSubNodeResults (en_run (wk_engine wk)) (wk_entry wk) (wk_results wk)\<rparr>"
  obtain en y where run: "runNode ev r (Some (wk_results ?wk)) (wk_entry wk) (wk_engine wk) = (en, y)" by fastforce
  note e1 = runNode_effect [OF run]
  show ?thesis
  proof (cases y)
    case (Inl err)
    with assms(1) None run queues_effect [OF e1] show ?thesis by (auto simp: one_try_def Let_def)
  next
    case (Inr resp)
    with assms(1) None run obtain k en2 z where t: "inner_tries ev r m (wk_entry wk) i resp en = Some (k, en2, z)"
      by (auto simp: one_try_def Let_def split: option.splits prod.splits)
    have q: "queues en2 = queues (wk_engine wk)" using queues_effect [OF node_effect_trans [OF e1 inner_tries_effect [OF t]]] .
    show ?thesis
    proof (cases z)
      case (Inl err)
      with assms(1) None run Inr t q show ?thesis by (auto simp: one_try_def Let_def)
    next
      case z: (Inr out)
      then obtain d where "out = NodeData d"
        using inner_tries_data t assms(2) runNode_data [OF assms(2) run [unfolded Inr]] by blast
      with assms(1) None run Inr t z q show ?thesis
        by (auto simp: one_try_def Let_def split: sum.splits dest!: finish_try_queues)
    qed
  qed
qed

lemma all_tries_queues:
  assumes "all_tries ev r m i err wk = Some (wk', x)" and "no_requests ev"
  shows "queues (wk_engine wk') = queues (wk_engine wk) \<and> wk_entry wk' = wk_entry wk"
proof -
  let ?P = "\<lambda>ev (r :: nat) (m :: rat) (i :: nat) (err :: exec_error option) wk (z :: work \<times> try_end). no_requests ev \<longrightarrow>
    queues (wk_engine (fst z)) = queues (wk_engine wk) \<and> wk_entry (fst z) = wk_entry wk"
  have last: "queues (reportNodeExecutionError n en) = queues en" for n en
    by (simp add: queues_def reportNodeExecutionError_def)
  have "?P ev r m i err wk (wk', x)"
    by (rule all_tries.raw_induct [of ?P, OF _ assms(1)])
      (fastforce split: if_splits prod.splits option.splits try_end.splits dest: one_try_queues simp: last)
  with assms show ?thesis by simp
qed

subsection \<open>A round is a step of the game\<close>

definition adds_children :: "string \<Rightarrow> engine \<Rightarrow> engine \<Rightarrow> bool" where
  "adds_children nm en en' \<longleftrightarrow>
     en_workflow en' = en_workflow en \<and> token_ok (en_workflow en') (en_run en') \<and>
     tokens (en_run en') \<subseteq># tokens (en_run en) + child_tokens (en_workflow en) nm"

lemma adds_children_queues:
  "queues en' = queues en \<Longrightarrow> token_ok (en_workflow en) (en_run en) \<Longrightarrow> adds_children nm en en'"
  using tokens_queues [of en' en] token_ok_queues [of en' en] unfolding adds_children_def by (simp add: queues_def)

lemma adds_children_after:
  "queues en1 = queues en \<Longrightarrow> adds_children nm en1 en' \<Longrightarrow> adds_children nm en en'"
  using tokens_queues [of en1 en] unfolding adds_children_def by (auto simp: queues_def)

lemma upsert_queues:
  "upsertTaskData nm i task st = Inr st' \<Longrightarrow> queues (set_run st' en) = queues (set_run st en)"
  by (auto simp: upsertTaskData_def queues_def split: option.splits)

lemma set_run_same [simp]: "set_run (en_run en) en = en"
  by (simp add: set_run_def)

lemma set_run_twice [simp]: "set_run a (set_run b en) = set_run a en"
  by (simp add: set_run_def)

lemma store_output_tokens:
  assumes "store_output ev e r out task en = (en', RoundNext)" and "token_ok (en_workflow en) (en_run en)"
  shows "adds_children (n_name (ed_node e)) en en'"
proof -
  obtain out1 where norm: "normalizeNodeErrors out = Inr out1"
    using assms(1) by (auto simp: store_output_def Let_def split: sum.splits)
  let ?task = "rewireOutputLog (ed_node e) out1 r (en_run en) (task\<lparr>td_data := Some [(Main, out1)]\<rparr>)"
  obtain st where st: "upsertTaskData (n_name (ed_node e)) r ?task (en_run en) = Inr st"
    using assms(1) norm by (auto simp: store_output_def Let_def split: sum.splits)
  have q: "queues (set_run st en) = queues en" using upsert_queues [OF st, of en] by simp
  have ok: "token_ok (en_workflow en) st" using token_ok_queues [OF q] assms(2) by simp
  consider "en' = set_run st en"
    | st' where "schedule_next ev (en_workflow en) (n_name (ed_node e)) out1 r st = Inr st'" "en' = set_run st' en"
    using assms(1) norm st by (auto simp: store_output_def Let_def split: sum.splits if_splits)
  then show ?thesis
  proof cases
    case 1
    with q assms(2) show ?thesis by (auto intro: adds_children_queues)
  next
    case 2
    with schedule_next_tokens [OF 2(1) ok] tokens_queues [OF q] show ?thesis by (simp add: adds_children_def)
  qed
qed

lemma finish_round_tokens:
  assumes "finish_round ev started r wk err = (en', RoundNext)"
    and "token_ok (en_workflow (wk_engine wk)) (en_run (wk_engine wk))"
  shows "adds_children (n_name (ed_node (wk_entry wk))) (wk_engine wk) en'"
proof -
  let ?e = "wk_entry wk"
  let ?en = "(wk_engine wk)\<lparr>en_run := ensure_runs (n_name (ed_node ?e)) (en_run (wk_engine wk)), en_executionError := err\<rparr>"
  have q: "queues ?en = queues (wk_engine wk)" by (simp add: queues_def ensure_runs_def)
  then have ok: "token_ok (en_workflow ?en) (en_run ?en)" using token_ok_queues assms(2) by blast
  obtain out task where "store_output ev ?e r out task ?en = (en', RoundNext)"
    using assms(1) by (auto simp: finish_round_def Let_def split: option.splits sum.splits)
  from adds_children_after [OF q store_output_tokens [OF this ok]] show ?thesis .
qed

lemma input_loop_v1:
  "w_executionOrder w = Some ''v1'' \<Longrightarrow> main_data (ed_data e) \<noteq> None \<Longrightarrow> input_loop w e k i"
  by (induction k arbitrary: i) (auto simp: isLegacyExecutionOrder_def)

lemma lineage_main: "main_data (addPairedItemLineage e) \<noteq> None \<longleftrightarrow> main_data (ed_data e) \<noteq> None"
proof -
  have "main_data (addPairedItemLineage e) = map_option (map (\<lambda>(i, input).
      map_slot (\<lambda>items. map (\<lambda>(j, x). stamp_item e i j x) (enumerate 0 items)) input) \<circ> enumerate 0) (main_data (ed_data e))"
    by (simp add: addPairedItemLineage_def main_data_def map_of_map comp_def)
  then show ?thesis by simp
qed

lemma process_entry_tokens:
  assumes "process_entry ev e en = Some (en', RoundNext)" and "no_requests ev"
    and "token_ok (en_workflow en) (en_run en)" and "main_data (ed_data e) \<noteq> None"
  shows "adds_children (n_name (ed_node e)) en en'"
proof -
  obtain started en1 where s: "createTaskStartedData e en = (started, en1)" by fastforce
  let ?e = "e\<lparr>ed_data := addPairedItemLineage e\<rparr>"
  let ?r = "computeRunIndex (en_run en1) ?e"
  have q1: "queues en1 = queues en" using s by (auto simp: createTaskStartedData_def queues_def)
  have ok1: "token_ok (en_workflow en1) (en_run en1)" using token_ok_queues [OF q1] assms(3) by simp
  then have i: "ensureInputData (en_workflow en1) ?e (en_run en1) = (True, en_run en1)"
    using assms(4) lineage_main by (simp add: ensureInputData_def token_ok_def input_loop_v1)
  show ?thesis
  proof (cases "isNodeFilteredOut (en_run en1) (n_name (ed_node e))")
    case True
    with assms(1) s have "en' = en1" by (auto simp: process_entry_def Let_def split: if_splits)
    with q1 assms(3) show ?thesis by (auto intro: adds_children_queues)
  next
    case False
    let ?wk = "\<lparr>wk_engine = en1, wk_entry = ?e, wk_output = None, wk_results = makeEngineResponse\<rparr>"
    have ex: "execute_entry ev started ?e ?r en1 = Some (en', RoundNext)"
      using assms(1) s i False by (auto simp: process_entry_def Let_def split: if_splits)
    then obtain wk y where t: "all_tries ev ?r (fst (getRetryParams ?e)) 0 None ?wk = Some (wk, y)"
      by (auto simp: execute_entry_def split: option.splits)
    have q2: "queues (wk_engine wk) = queues en1" and e2: "wk_entry wk = ?e"
      using all_tries_queues [OF t assms(2)] by simp_all
    have ok2: "token_ok (en_workflow (wk_engine wk)) (en_run (wk_engine wk))" using token_ok_queues [OF q2] ok1 by simp
    have "adds_children (n_name (ed_node e)) (wk_engine wk) en'"
    proof (cases y)
      case TryNext
      with ex t ok2 show ?thesis by (auto simp: execute_entry_def intro: adds_children_queues)
    next
      case TryDone
      with ex t have "finish_round ev started ?r wk None = (en', RoundNext)" by (simp add: execute_entry_def)
      from finish_round_tokens [OF this ok2] e2 show ?thesis by simp
    next
      case (TryError er)
      with ex t have "finish_round ev started ?r wk (Some er) = (en', RoundNext)" by (simp add: execute_entry_def)
      from finish_round_tokens [OF this ok2] e2 show ?thesis by simp
    qed
    with q1 q2 adds_children_after show ?thesis by metis
  qed
qed

abbreviation engine_token_ok :: "engine \<Rightarrow> bool" where
  "engine_token_ok en \<equiv> token_ok (en_workflow en) (en_run en)"

lemma loop_round_tokens:
  assumes "loop_round ev en = Some (en', RoundNext)" and "no_requests ev" and "engine_token_ok en"
  shows "token_step (en_workflow en) (tokens (en_run en)) (tokens (en_run en')) \<and>
    en_workflow en' = en_workflow en \<and> engine_token_ok en'"
proof (cases "rs_nodeExecutionStack (en_run en)")
  case Nil
  with assms show ?thesis by (simp add: loop_round_def isExecutionStackNotEmpty_def)
next
  case (Cons e es)
  obtain stop en1 where s: "shouldStopExecuting (ev_timedOut ev (en_ticks en)) (count_call en) = (stop, en1)" by fastforce
  then have en1: "en_run en1 = en_run en" "en_workflow en1 = en_workflow en"
    by (auto simp: shouldStopExecuting_def count_call_def Let_def split: if_splits)
  let ?en = "en1\<lparr>en_run := (en_run en)\<lparr>rs_nodeExecutionStack := es\<rparr>, en_executionError := None\<rparr>"
  have "process_entry ev e ?en = Some (en', RoundNext)"
    using assms(1) Cons s en1(1)
    by (auto simp: loop_round_def isExecutionStackNotEmpty_def popExecutionStack_def split: if_splits)
  moreover have "engine_token_ok ?en" "main_data (ed_data e) \<noteq> None"
    using assms(3) Cons en1(2) by (auto simp: token_ok_def waiting_inv_def stack_inv_def has_main_def)
  ultimately have a: "adds_children (n_name (ed_node e)) ?en en'" by (rule process_entry_tokens [OF _ assms(2)])
  have "tokens (en_run en) = add_mset (n_name (ed_node e)) (tokens (en_run ?en))"
    using Cons by (simp add: tokens_def stack_tokens_def)
  with a en1(2) show ?thesis
    by (auto simp: adds_children_def token_step_def intro!: exI [of _ "n_name (ed_node e)"])
qed

text \<open>
  C3. Every round of an execution in the order v1, whatever its nodes answer but requests, is a step of the token
  game on the workflow: one token is taken and at most the tokens of the nodes after it are added. The
  conditions hold again after the round, so the simulation goes on.
\<close>

theorem rounds_refine_token_game:
  assumes "engine_token_ok en" and "no_requests ev" and "loop_round ev en = Some (en', RoundNext)"
  shows "token_step (en_workflow en) (tokens (en_run en)) (tokens (en_run en')) \<and>
    en_workflow en' = en_workflow en \<and> engine_token_ok en'"
  by (rule loop_round_tokens [OF assms(3,2,1)])

lemma new_engine_token_ok:
  assumes "w_executionOrder w = Some ''v1''" and "workflow_named w" and "prepare_run w (Some n) d pins trig extra = Inr st"
    and "getNode w nm = Some n" and "trig = None \<or> main_data (or_empty trig) \<noteq> None"
  shows "engine_token_ok (new_engine w k st)"
proof -
  have "engine_inv (new_engine w k st)" by (rule prepare_run_inv [OF assms(3,4)])
  then have "waiting_inv st" "stack_inv w st" by (simp_all add: engine_inv_def run_inv_def new_engine_def)
  moreover have "has_main st"
    using assms(3,5) by (auto simp: prepare_run_def createRunExecutionData_def buildExecutionData_def
        buildResultData_def no_options_def start_entry_def has_main_def main_data_def split: option.splits)
  ultimately show ?thesis using assms(1,2) by (simp add: token_ok_def new_engine_def)
qed

lemma no_requests_sample: "no_requests (sample_env throwing failing)"
  by (simp add: no_requests_def sample_env_def sample_answer_def Let_def)

lemma diamond_token_ok: "engine_token_ok diamond_start"
proof -
  have "workflow_named diamond_workflow" by (rule workflow_namedI) code_simp
  moreover have "w_executionOrder diamond_workflow = Some ''v1''" by code_simp
  moreover have "has_main (en_run diamond_start)" unfolding has_main_def by code_simp
  ultimately show ?thesis
    using diamond_start_inv by (simp add: token_ok_def engine_inv_def run_inv_def diamond_start_def new_engine_def)
qed

lemma diamond_first_round: "snd (the (loop_round (sample_env [] []) diamond_start)) = RoundNext \<and>
    loop_round (sample_env [] []) diamond_start \<noteq> None"
  by code_simp

theorem rounds_refine_token_game_witness:
  "\<exists>en'. loop_round (sample_env [] []) diamond_start = Some (en', RoundNext) \<and>
    token_step (en_workflow diamond_start) (tokens (en_run diamond_start)) (tokens (en_run en')) \<and>
    en_workflow en' = en_workflow diamond_start \<and> engine_token_ok en'"
proof -
  obtain en' where "loop_round (sample_env [] []) diamond_start = Some (en', RoundNext)"
    using diamond_first_round by fastforce
  with rounds_refine_token_game [OF diamond_token_ok no_requests_sample this] show ?thesis by blast
qed

subsection \<open>Without cycles the game ends\<close>

definition feeds :: "workflow \<Rightarrow> (string \<times> string) set" where
  "feeds w = {(c, p). c \<in># child_tokens w p}"

lemma finite_feeds: "finite (feeds w)"
proof (rule finite_subset)
  let ?ps = "fst ` set (w_connectionsBySourceNode w)"
  have none: "child_tokens w p = {#}" if "p \<notin> ?ps" for p
  proof -
    have "obj_get (w_connectionsBySourceNode w) p = None" using that by (simp add: map_of_eq_None_iff)
    then show ?thesis by (simp add: child_tokens_def main_links_def)
  qed
  show "feeds w \<subseteq> (\<Union>p \<in> ?ps. set_mset (child_tokens w p) \<times> {p})"
  proof
    fix x assume "x \<in> feeds w"
    then obtain c p where x: "x = (c, p)" "c \<in># child_tokens w p" by (auto simp: feeds_def)
    with none have "p \<in> ?ps" by fastforce
    with x show "x \<in> (\<Union>p \<in> ?ps. set_mset (child_tokens w p) \<times> {p})" by blast
  qed
qed auto

lemma token_step_less:
  assumes "token_step w M M'"
  shows "(M', M) \<in> mult (feeds w)"
proof -
  obtain nm where nm: "nm \<in># M" and sub: "M' \<subseteq># M - {#nm#} + child_tokens w nm"
    using assms by (auto simp: token_step_def)
  have "(M - {#nm#} + child_tokens w nm, M - {#nm#} + {#nm#}) \<in> mult (feeds w)"
    by (rule one_step_implies_mult) (simp_all add: feeds_def)
  then have less: "(M - {#nm#} + child_tokens w nm, M) \<in> mult (feeds w)" using nm by simp
  show ?thesis
  proof (cases "M' = M - {#nm#} + child_tokens w nm")
    case True
    with less show ?thesis by simp
  next
    case False
    then have "(M', M - {#nm#} + child_tokens w nm) \<in> mult (feeds w)"
      using sub by (intro subset_implies_mult) (simp add: subset_mset.less_le)
    then show ?thesis using less unfolding mult_def by (rule trancl_trans)
  qed
qed

definition whole_workflow :: "workflow \<Rightarrow> bool" where
  "whole_workflow w \<longleftrightarrow> (\<forall>nm n. getNode w nm = Some n \<longrightarrow> whole_tries n)"

lemma execute_entry_total:
  assumes "whole_tries (ed_node e)"
  shows "execute_entry ev started e r en \<noteq> None"
proof -
  obtain m where m: "fst (getRetryParams e) = of_nat m" using whole_budget [OF assms] by blast
  obtain wk x where "all_tries ev r (of_nat m) 0 None
      \<lparr>wk_engine = en, wk_entry = e, wk_output = None, wk_results = makeEngineResponse\<rparr> = Some (wk, x)"
    using all_tries_calls [of 0 m] by blast
  with m show ?thesis by (cases x) (simp_all add: execute_entry_def)
qed

lemma loop_round_total:
  assumes "stack_inv (en_workflow en) (en_run en)" and "whole_workflow (en_workflow en)"
  shows "loop_round ev en \<noteq> None"
proof (cases "rs_nodeExecutionStack (en_run en)")
  case Nil
  then show ?thesis by (simp add: loop_round_def isExecutionStackNotEmpty_def)
next
  case (Cons e es)
  have "whole_tries (ed_node e)" using assms Cons by (auto simp: stack_inv_def whole_workflow_def)
  then have "execute_entry ev started (e\<lparr>ed_data := d\<rparr>) r en' \<noteq> None" for started d r en'
    using execute_entry_total [of "e\<lparr>ed_data := d\<rparr>"] by simp
  then have entry: "process_entry ev e en' \<noteq> None" for en'
    by (auto simp: process_entry_def Let_def split: prod.split)
  obtain stop en1 where s: "shouldStopExecuting (ev_timedOut ev (en_ticks en)) (count_call en) = (stop, en1)" by fastforce
  then have "en_run en1 = en_run en" by (auto simp: shouldStopExecuting_def count_call_def Let_def split: if_splits)
  with s entry Cons show ?thesis
    by (simp add: loop_round_def isExecutionStackNotEmpty_def popExecutionStack_def)
qed

lemma rounds_end:
  assumes "acyclic (feeds w)" and "whole_workflow w" and "no_requests ev"
    and "engine_token_ok en" and "en_workflow en = w"
  shows "\<exists>k x. run_rounds k ev en = Some x"
  using assms(4,5)
proof (induction "tokens (en_run en)" arbitrary: en rule: wf_induct_rule [OF wf_mult [OF finite_acyclic_wf [OF finite_feeds assms(1)]]])
  case (1 en)
  obtain en' y where r: "loop_round ev en = Some (en', y)"
    using loop_round_total [of en ev] 1(2,3) assms(2) by (auto simp: token_ok_def)
  show ?case
  proof (cases y)
    case RoundNext
    note step = loop_round_tokens [OF r [unfolded RoundNext] assms(3) 1(2)]
    then have "(tokens (en_run en'), tokens (en_run en)) \<in> mult (feeds w)" using 1(3) token_step_less by blast
    with 1(1) step 1(3) obtain k x where "run_rounds k ev en' = Some x" by blast
    with r RoundNext have "run_rounds (Suc k) ev en = Some x" by simp
    then show ?thesis by blast
  next
    case RoundStop
    with r have "run_rounds 1 ev en = Some (en', None)" by simp
    then show ?thesis by blast
  next
    case (RoundThrow err)
    with r have "run_rounds 1 ev en = Some (en', Some err)" by simp
    then show ?thesis by blast
  qed
qed

text \<open>
  C2. An execution in the order v1 of a workflow without cycles of main connections, with whole numbers of tries,
  ends, whatever its nodes answer but requests: with enough rounds there is a result or an error.
\<close>

theorem executions_end:
  assumes "acyclic (feeds w)" and "whole_workflow w" and "no_requests ev"
    and "w_executionOrder w = Some ''v1''" and "workflow_named w" and "getNode w nm = Some n"
    and "trig = None \<or> main_data (or_empty trig) \<noteq> None"
  shows "\<exists>k. \<forall>j. run (k + j) ev issues init w (Some n) d pins trig extra \<noteq> Inr None"
proof -
  obtain st where st: "prepare_run w (Some n) d pins trig extra = Inr st" by (simp add: prepare_run_def)
  have "rs_waitTill st = None"
    using st by (auto simp: prepare_run_def createRunExecutionData_def buildExecutionData_def buildResultData_def no_options_def)
  then have wait: "handleWaitingState ((new_engine w 0 st)\<lparr>en_status := Running\<rparr>) = Inr ((new_engine w 0 st)\<lparr>en_status := Running\<rparr>)"
    by (simp add: handleWaitingState_def new_engine_def)
  let ?en = "(new_engine w 0 st)\<lparr>en_status := Running, en_lastExecutionTry := [], en_executionError := None\<rparr>"
  have "engine_token_ok ?en" "en_workflow ?en = w"
    using new_engine_token_ok [OF assms(4,5) st assms(6,7)] by (simp_all add: new_engine_def)
  with rounds_end [OF assms(1,2,3)] obtain k x where "run_rounds k ev ?en = Some x" by blast
  then have "run_rounds (k + j) ev ?en = Some x" for j by (rule run_rounds_mono) simp
  then have "run (k + j) ev issues init w (Some n) d pins trig extra \<noteq> Inr None" for j
    using st wait by (cases x) (auto simp: run_def processRunExecutionData_def Let_def bind_result_eq_Inr split: option.splits)
  then show ?thesis by blast
qed

text \<open>A rank that grows along the connections shows that there is no cycle.\<close>

definition ranked :: "(string \<Rightarrow> nat) \<Rightarrow> workflow \<Rightarrow> bool" where
  "ranked f w \<longleftrightarrow>
     list_all (\<lambda>(p, _). list_all (\<lambda>l. f p < f (c_node (snd l))) (main_links w p)) (w_connectionsBySourceNode w)"

lemma ranked_acyclic:
  assumes "ranked f w"
  shows "acyclic (feeds w)"
proof (rule acyclicI_order)
  fix c p
  assume "(c, p) \<in> feeds w"
  then obtain l where l: "l \<in> set (main_links w p)" "c = c_node (snd l)" by (auto simp: feeds_def child_tokens_def)
  then obtain entry where "obj_get (w_connectionsBySourceNode w) p = Some entry"
    by (cases "obj_get (w_connectionsBySourceNode w) p") (simp_all add: main_links_def)
  then have "(p, entry) \<in> set (w_connectionsBySourceNode w)" by (rule map_of_SomeD)
  with assms l show "f p < f c" by (auto simp: ranked_def list_all_iff)
qed

lemma whole_workflowI: "list_all (\<lambda>p. n_maxTries (snd p) = None) (w_nodes w) \<Longrightarrow> whole_workflow w"
  by (auto simp: whole_workflow_def whole_tries_def getNode_def or_number_def list_all_iff dest!: map_of_SomeD)

definition diamond_rank :: "string \<Rightarrow> nat" where
  "diamond_rank nm = (if nm = ''A'' then 0 else if nm = ''M'' then 2 else 1)"

lemma diamond_acyclic: "acyclic (feeds diamond_workflow)"
  by (rule ranked_acyclic [of diamond_rank]) code_simp

lemma diamond_parts:
  "whole_workflow diamond_workflow" "w_executionOrder diamond_workflow = Some ''v1''" "workflow_named diamond_workflow"
  "getNode diamond_workflow ''A'' = Some (placed_node 0 ''A'' 0 0)"
  by (rule whole_workflowI, code_simp, code_simp, rule workflow_namedI, code_simp, code_simp)

theorem executions_end_witness:
  "\<exists>k. \<forall>j. run (k + j) (sample_env [''C''] [''B'']) no_issues None diamond_workflow (Some (placed_node 0 ''A'' 0 0))
     None None None [] \<noteq> Inr None"
  by (rule executions_end [OF diamond_acyclic diamond_parts(1) no_requests_sample diamond_parts(2-4)]) simp

end
