(* ===== verification/EngineOutcomes.thy ===== *)
theory EngineOutcomes
  imports EngineTokens
begin

section \<open>How rounds and executions end\<close>

text \<open>
  Cancelled executions, nodes that fail, nodes that wait and are resumed, the order in which the nodes after
  a node run, and what is left when no node waits any more.
\<close>

subsection \<open>Cancelled executions\<close>

lemma cancelled_round:
  assumes "en_status en = Canceled"
  shows "\<exists>en'. loop_round ev en = Some (en', RoundStop) \<and> en_run en' = en_run en \<and> en_status en' = Canceled \<and>
    en_executionError en' = en_executionError en"
proof (cases "isExecutionStackNotEmpty (en_run en)")
  case False
  with assms show ?thesis by (simp add: loop_round_def)
next
  case True
  obtain stop en1 where s: "shouldStopExecuting (ev_timedOut ev (en_ticks en)) (count_call en) = (stop, en1)" by fastforce
  then have "stop" "en_run en1 = en_run en" "en_status en1 = Canceled" "en_executionError en1 = en_executionError en"
    using assms by (auto simp: shouldStopExecuting_def count_call_def Let_def split: if_splits)
  with s True show ?thesis by (simp add: loop_round_def)
qed

definition none_running :: "run_data \<Rightarrow> bool" where
  "none_running runData \<longleftrightarrow>
     list_all (\<lambda>p. list_all (\<lambda>t. td_executionStatus t \<noteq> Some Running) (snd p)) runData"

lemma cancelled_none_running: "none_running (rs_runData (updateTaskStatusesToCancelled st))"
  by (auto simp: none_running_def updateTaskStatusesToCancelled_def list_all_iff)

lemma cancel_names: "includes_string (ee_name manual_cancel) ''Cancelled''" "includes_string (ee_name timeout_cancel) ''Cancelled''"
  by code_simp+

text \<open>
  C8. A cancelled execution runs no further node: the loop ends at once with the tasks that ran as canceled, and the
  execution is reported as canceled, unless the last node had failed and was passed over: then its
  error decides.
\<close>

theorem cancelled_runs_no_node:
  "\<exists>en'. run_rounds (Suc k) ev (cancel en) = Some (en', None) \<and>
     en_run en' = updateTaskStatusesToCancelled (en_run en) \<and> none_running (rs_runData (en_run en')) \<and>
     \<not> rr_finished (end_execution en' None) \<and>
     rr_status (end_execution en' None) =
       (case en_executionError en of None \<Rightarrow> Canceled | Some err \<Rightarrow> end_status (Some err) (en_run en))"
proof -
  obtain en' where r: "loop_round ev (cancel en) = Some (en', RoundStop)" and run: "en_run en' = en_run (cancel en)"
    and st: "en_status en' = Canceled" and err: "en_executionError en' = en_executionError (cancel en)"
    using cancelled_round [of "cancel en" ev] by (auto simp: cancel_def)
  have "en_executionError en' = en_executionError en" using err by (simp add: cancel_def)
  with st have "\<not> rr_finished (end_execution en' None) \<and> rr_status (end_execution en' None) =
      (case en_executionError en of None \<Rightarrow> Canceled | Some err \<Rightarrow> end_status (Some err) (en_run en))"
    by (auto simp: end_execution_def processSuccessExecution_def final_error_def Let_def cancel_names
        end_status_def split: option.split)
  with r run show ?thesis using cancelled_none_running by (simp add: cancel_def)
qed

subsection \<open>Nodes that fail\<close>

definition stored_task :: "run_state \<Rightarrow> string \<Rightarrow> nat \<Rightarrow> task_data option" where
  \<comment> \<open>the task a run index leads to: that of the run, or the last one\<close>
  "stored_task st nm i =
     (case obj_get (rs_runData st) nm of
        None \<Rightarrow> None
      | Some tasks \<Rightarrow> if i < length tasks then Some (tasks ! i) else if tasks = [] then None else Some (last tasks))"

lemma upsert_stored:
  assumes "upsertTaskData nm i task st = Inr st'"
  shows "\<exists>t. stored_task st' nm (min i (length (or_empty (obj_get (rs_runData st) nm)))) = Some t \<and>
    (td_error task = None \<or> td_error t = td_error task) \<and>
    (td_executionStatus task = None \<or> td_executionStatus t = td_executionStatus task)"
proof -
  obtain tasks where t: "obj_get (rs_runData st) nm = Some tasks"
    and st': "st' = st\<lparr>rs_runData := obj_set nm
      (if i < length tasks then tasks[i := assign_task (tasks ! i) task] else tasks @ [task]) (rs_runData st)\<rparr>"
    using assms by (auto simp: upsertTaskData_def split: option.splits)
  show ?thesis
    using t unfolding st' by (auto simp: stored_task_def assign_task_def or_else_def min_def split: option.splits)
qed

lemma upsert_total: "obj_get (rs_runData st) nm \<noteq> None \<Longrightarrow> \<exists>st'. upsertTaskData nm i task st = Inr st'"
  by (auto simp: upsertTaskData_def)

lemma upsert_stack:
  "upsertTaskData nm i task st = Inr st' \<Longrightarrow>
    rs_nodeExecutionStack st' = rs_nodeExecutionStack st \<and> rs_waitingExecution st' = rs_waitingExecution st \<and>
    rs_waitTill st' = rs_waitTill st"
  by (auto simp: upsertTaskData_def split: option.splits)

lemma ensure_runs_there: "obj_get (rs_runData (ensure_runs nm st)) nm \<noteq> None"
  by (auto simp: ensure_runs_def map_has_def)

lemma ensure_runs_tasks: "or_empty (obj_get (rs_runData (ensure_runs nm st)) nm) = or_empty (obj_get (rs_runData st) nm)"
  by (auto simp: ensure_runs_def map_has_def or_empty_def split: option.split)

lemma ensure_runs_fields [simp]:
  "rs_nodeExecutionStack (ensure_runs nm st) = rs_nodeExecutionStack st"
  "rs_waitingExecution (ensure_runs nm st) = rs_waitingExecution st"
  "rs_waitTill (ensure_runs nm st) = rs_waitTill st" "rs_lastNodeExecuted (ensure_runs nm st) = rs_lastNodeExecuted st"
  by (simp_all add: ensure_runs_def)

definition task_index :: "run_state \<Rightarrow> string \<Rightarrow> nat \<Rightarrow> nat" where
  \<comment> \<open>where the task of a run is stored: at its index, or after the last one\<close>
  "task_index st nm r = min r (length (or_empty (obj_get (rs_runData st) nm)))"

text \<open>
  C7. A node that fails and does not continue ends the loop: its entry is on top of the stack again with the rest
  of the stack and the waiting entries as they were, its task holds the error, and the execution is not
  finished, has the error and the status of that error.
\<close>

theorem failed_node_stops:
  assumes "\<not> passes_on_error (ed_node (wk_entry wk))"
  shows "\<exists>en' t. finish_round ev started r wk (Some err) = (en', RoundStop) \<and>
    rs_nodeExecutionStack (en_run en') = wk_entry wk # rs_nodeExecutionStack (en_run (wk_engine wk)) \<and>
    rs_waitingExecution (en_run en') = rs_waitingExecution (en_run (wk_engine wk)) \<and>
    stored_task (en_run en') (n_name (ed_node (wk_entry wk)))
      (task_index (en_run (wk_engine wk)) (n_name (ed_node (wk_entry wk))) r) = Some t \<and>
    td_error t = Some err \<and> td_executionStatus t = Some Error \<and>
    rs_error (rr_run (end_execution en' None)) = Some err \<and> \<not> rr_finished (end_execution en' None) \<and>
    rr_status (end_execution en' None) = end_status (Some err) (en_run en')"
proof -
  let ?e = "wk_entry wk" and ?nm = "n_name (ed_node (wk_entry wk))"
  let ?en = "(wk_engine wk)\<lparr>en_run := ensure_runs ?nm (en_run (wk_engine wk)), en_executionError := Some err\<rparr>"
  obtain task where h: "handleNodeExecutionError ?e (createTaskData started ?e (en_run ?en)) err (wk_output wk) r (en_run ?en)
      = bind_result (upsertTaskData ?nm r task (en_run ?en)) (\<lambda>st. Inr (Inr (pushExecutionStack ?e st)))"
    and task: "td_error task = Some err" "td_executionStatus task = Some Error"
    using assms by (cases "n_rewireOutputLogTo (ed_node ?e)") (auto simp: handleNodeExecutionError_def Let_def)
  obtain st where st: "upsertTaskData ?nm r task (en_run ?en) = Inr st"
    using upsert_total [OF ensure_runs_there] by fastforce
  let ?fin = "set_run (pushExecutionStack ?e st) ?en"
  have "finish_round ev started r wk (Some err) = (?fin, RoundStop)"
    using h st by (simp add: finish_round_def Let_def)
  moreover obtain t where "stored_task st ?nm (task_index (en_run (wk_engine wk)) ?nm r) = Some t"
      "td_error t = Some err" "td_executionStatus t = Some Error"
    using upsert_stored [OF st] task by (auto simp: ensure_runs_tasks task_index_def)
  then have "stored_task (en_run ?fin) ?nm (task_index (en_run (wk_engine wk)) ?nm r) = Some t \<and>
      td_error t = Some err \<and> td_executionStatus t = Some Error"
    by (simp add: stored_task_def pushExecutionStack_def)
  moreover have "final_error ?fin = Some err" by (simp add: final_error_def)
  then have "rs_error (rr_run (end_execution ?fin None)) = Some err \<and> \<not> rr_finished (end_execution ?fin None) \<and>
      rr_status (end_execution ?fin None) = end_status (Some err) (en_run ?fin)"
    by (simp add: end_execution_def processSuccessExecution_def Let_def end_status_def)
  ultimately show ?thesis
    using upsert_stack [OF st] by (intro exI [of _ ?fin] exI [of _ t]) (auto simp: pushExecutionStack_def)
qed

definition failing_work :: work where
  "failing_work = \<lparr>wk_engine = diamond_start, wk_entry = start_entry (placed_node 0 ''A'' 0 0) None,
     wk_output = None, wk_results = makeEngineResponse\<rparr>"

lemma failing_work_stops: "\<not> passes_on_error (ed_node (wk_entry failing_work))"
  by code_simp

theorem failed_node_stops_witness:
  "\<exists>en' t. finish_round (sample_env [] []) empty_task 0 failing_work (Some broken) = (en', RoundStop) \<and>
    rs_nodeExecutionStack (en_run en') = wk_entry failing_work # rs_nodeExecutionStack (en_run diamond_start) \<and>
    stored_task (en_run en') ''A'' 0 = Some t \<and> td_error t = Some broken \<and>
    rr_status (end_execution en' None) = Error"
proof -
  have "n_name (ed_node (wk_entry failing_work)) = ''A''" "task_index (en_run diamond_start) ''A'' 0 = 0"
      "wk_engine failing_work = diamond_start"
    by (code_simp, simp add: task_index_def, simp add: failing_work_def)
  moreover have "end_status (Some broken) st = Error" for st by (simp add: end_status_def broken_def)
  ultimately show ?thesis
    using failed_node_stops [OF failing_work_stops, of "sample_env [] []" empty_task 0 broken] by auto
qed

subsection \<open>Nodes that wait\<close>

lemma disable_first_fields:
  "rs_runData (en_run (disable_first en)) = rs_runData (en_run en)"
  "rs_waitTill (en_run (disable_first en)) = rs_waitTill (en_run en)"
  "rs_lastNodeExecuted (en_run (disable_first en)) = rs_lastNodeExecuted (en_run en)"
  by (simp_all add: disable_first_def update_stack_node_def Let_def split: list.split)

definition switched_off :: "execute_data \<Rightarrow> execute_data" where
  "switched_off e = e\<lparr>ed_node := (ed_node e)\<lparr>n_disabled := Some True\<rparr>\<rparr>"

lemma disable_first_stack:
  assumes "rs_nodeExecutionStack (en_run en) = e # es" and "resume_error e = None"
  shows "hd (rs_nodeExecutionStack (en_run (disable_first en))) = switched_off e"
  using assms by (simp add: disable_first_def Let_def update_stack_node_def update_node_def switched_off_def)

lemma switched_off_passes:
  assumes "resume_error e = None"
  shows "runNode ev r results (switched_off e) en = (en, Inr (NodeData (handleDisabledNode (ed_data e)
    (case ed_metadata e of None \<Rightarrow> False | Some m \<Rightarrow> tm_forwardAllOutputs m = Some True))))"
proof -
  have "resume_error (switched_off e) = None" using assms by (simp add: resume_error_def switched_off_def)
  then show ?thesis by (simp add: runNode_def Let_def switched_off_def)
qed

lemma drop_after_upsert:
  assumes "upsertTaskData nm r task st = Inr st'" and "length (or_empty (obj_get (rs_runData st) nm)) \<le> r"
    and "rs_runData st1 = rs_runData st'" and "rs_lastNodeExecuted st1 = Some nm"
  shows "\<exists>st2. drop_last_task st1 = Inr st2 \<and> rs_nodeExecutionStack st2 = rs_nodeExecutionStack st1 \<and>
    rs_waitTill st2 = rs_waitTill st1 \<and>
    (\<forall>x. obj_get (rs_runData st2) x = (if x = nm then Some (or_empty (obj_get (rs_runData st) nm)) else obj_get (rs_runData st) x))"
proof -
  obtain tasks where t: "obj_get (rs_runData st) nm = Some tasks" using assms(1) by (auto simp: upsertTaskData_def split: option.splits)
  then have "rs_runData st' = obj_set nm (tasks @ [task]) (rs_runData st)"
    using assms(1,2) by (auto simp: upsertTaskData_def)
  with t assms(3,4) show ?thesis by (simp add: drop_last_task_def)
qed


text \<open>A node that waits, in the diamond workflow.\<close>

definition waiting_work :: work where
  "waiting_work = \<lparr>wk_engine = diamond_start\<lparr>en_run := (en_run diamond_start)\<lparr>rs_waitTill := Some 1000,
       rs_lastNodeExecuted := Some ''A''\<rparr>\<rparr>,
     wk_entry = start_entry (placed_node 0 ''A'' 0 0) None, wk_output = Some [Val [tagged_item ''x'']],
     wk_results = makeEngineResponse\<rparr>"

lemma waiting_work_parts:
  "rs_waitTill (en_run (wk_engine waiting_work)) = Some 1000"
  "normalizeNodeErrors (wk_output waiting_work) = Inr [Val [tagged_item ''x'']]"
  "rs_lastNodeExecuted (en_run (wk_engine waiting_work)) = Some (n_name (ed_node (wk_entry waiting_work)))"
  "length (or_empty (obj_get (rs_runData (en_run (wk_engine waiting_work))) (n_name (ed_node (wk_entry waiting_work))))) \<le> 0"
  "en_status (wk_engine waiting_work) \<noteq> Canceled" "resume_error (wk_entry waiting_work) = None"
  by code_simp+


subsection \<open>The order of the nodes after a node\<close>

definition above :: "rat \<times> rat \<Rightarrow> rat \<times> rat \<Rightarrow> bool" where
  \<comment> \<open>higher up, or as high and not further right\<close>
  "above p q \<longleftrightarrow> snd p < snd q \<or> (snd p = snd q \<and> fst p \<le> fst q)"

lemma by_position_less: "by_position a b < 0 \<longleftrightarrow> above (na_position b) (na_position a) \<and> na_position a \<noteq> na_position b"
  by (auto simp: by_position_def above_def prod_eq_iff)

lemma above_trans: "above p q \<Longrightarrow> above q r \<Longrightarrow> above p r"
  by (auto simp: above_def)

lemma above_total: "above p q \<or> above q p"
  by (auto simp: above_def)

abbreviation lowest_first :: "node_to_add list \<Rightarrow> bool" where
  "lowest_first \<equiv> sorted_wrt (\<lambda>a b. above (na_position b) (na_position a))"

lemma set_v8_insert: "set (v8_insert cmp x xs) = insert x (set xs)"
  using mset_v8_insert [of cmp x xs] by (metis set_mset_add_mset_insert set_mset_mset)

lemma v8_insert_sorted: "lowest_first xs \<Longrightarrow> lowest_first (v8_insert by_position x xs)"
proof (induction xs)
  case Nil
  then show ?case by simp
next
  case (Cons y ys)
  show ?case
  proof (cases "by_position y x < 0")
    case True
    with Cons show ?thesis by (auto simp: set_v8_insert by_position_less)
  next
    case False
    then have "above (na_position y) (na_position x)"
      using above_total [of "na_position x" "na_position y"] by (auto simp: by_position_less above_def)
    with Cons.prems False show ?thesis by (auto intro: above_trans)
  qed
qed

lemma v8_sort_sorted: "lowest_first (v8_sort by_position xs)"
  by (induction xs) (simp_all add: v8_sort_def v8_insert_sorted)

definition direct_entries ::
  "workflow \<Rightarrow> string \<Rightarrow> output_data \<Rightarrow> nat \<Rightarrow> node_to_add list \<Rightarrow> execute_data list" where
  "direct_entries w nm output r nodes =
     map (\<lambda>nd. direct_entry (the (getNode w (c_node (na_connection nd)))) (na_connection nd) (na_outputIndex nd) nm
       (Some output) r None None) nodes"

definition single_inputs :: "workflow \<Rightarrow> node_to_add list \<Rightarrow> bool" where
  "single_inputs w nodes \<longleftrightarrow>
     list_all (\<lambda>nd. length (or_empty (main_inputs w (c_node (na_connection nd)))) \<le> 1 \<and>
       getNode w (c_node (na_connection nd)) \<noteq> None) nodes"

lemma fold_direct:
  assumes "w_executionOrder w = Some ''v1''"
  shows "single_inputs w nodes \<Longrightarrow>
    fold_result (\<lambda>nd. addNodeToBeExecuted w (na_connection nd) (na_outputIndex nd) nm (Some output) r None None) nodes st
      = Inr (st\<lparr>rs_nodeExecutionStack := rev (direct_entries w nm output r nodes) @ rs_nodeExecutionStack st\<rparr>)"
proof (induction nodes arbitrary: st)
  case Nil
  then show ?case by (simp add: direct_entries_def)
next
  case (Cons nd nodes)
  then have "addNodeToBeExecuted w (na_connection nd) (na_outputIndex nd) nm (Some output) r None None st
      = Inr (pushExecutionStack (hd (direct_entries w nm output r [nd])) st)"
    using assms by (auto simp: addNodeToBeExecuted_def single_inputs_def direct_entries_def enqueue_def)
  with Cons show ?case by (simp add: single_inputs_def direct_entries_def pushExecutionStack_def)
qed


definition diamond_output :: output_data where
  "diamond_output = [Val [tagged_item ''x'']]"

definition diamond_children :: "node_to_add list" where
  "diamond_children =
     [\<lparr>na_position = (100, 100), na_connection = connection_to ''B'' Main 0, na_outputIndex = 0\<rparr>,
      \<lparr>na_position = (100, 0), na_connection = connection_to ''C'' Main 0, na_outputIndex = 0\<rparr>]"

lemma diamond_collect: "collect_nodes diamond_workflow diamond_output (main_links diamond_workflow ''A'') = Inr diamond_children"
  "single_inputs diamond_workflow diamond_children"
  by code_simp+


subsection \<open>No node is left waiting that could run\<close>

definition none_to_release :: "environment \<Rightarrow> workflow \<Rightarrow> run_state \<Rightarrow> bool" where
  "none_to_release ev w st \<longleftrightarrow>
     list_all (\<lambda>nm. check_waiting ev w (map_keys (rs_waitingExecution st)) nm st = Inr Skip)
       (map_keys (rs_waitingExecution st))"

lemma scan_waiting_result:
  "scan_waiting ev w names rest st = Inr st' \<Longrightarrow> names = map_keys (rs_waitingExecution st) \<Longrightarrow>
    rs_nodeExecutionStack st = [] \<Longrightarrow>
    (\<forall>nm \<in> set names - set rest. check_waiting ev w names nm st = Inr Skip) \<Longrightarrow>
    length (rs_nodeExecutionStack st') = 1 \<or> (rs_nodeExecutionStack st' = [] \<and> none_to_release ev w st')"
proof (induction ev w names rest st rule: scan_waiting.induct)
  case (1 ev w names st)
  then show ?case by (auto simp: none_to_release_def list_all_iff)
next
  case (2 ev w names nm rest st)
  obtain c where c: "check_waiting ev w names nm st = Inr c" using "2.prems"(1) by (auto split: sum.splits)
  show ?case
  proof (cases c)
    case Skip
    with c "2.prems" show ?thesis by (intro "2.IH"(1) [OF c Skip]) auto
  next
    case (Release i r)
    show ?thesis
    proof (cases r)
      case None
      have "rs_nodeExecutionStack (drop_waiting nm i st) = []" using "2.prems"(3) by simp
      with c Release None "2.prems"(1) "2.IH"(2) [OF c Release None] show ?thesis by simp
    next
      case (Some e)
      with c Release "2.prems" have "st' = drop_waiting nm i (enqueue_last e st)" by simp
      with "2.prems"(3) show ?thesis by (simp add: enqueue_last_def)
    qed
  qed
qed


definition half_merged :: run_state where
  "half_merged = (createRunExecutionData no_options)
     \<lparr>rs_waitingExecution := [(''M'', [(0, [(Main, [Val [tagged_item ''x''], Null])])])],
      rs_waitingExecutionSource := Some [(''M'', [(0, [(Main, [Val (handed_source ''B'' 0 0), Null])])])]\<rparr>"

definition released :: "run_state result \<Rightarrow> (string \<times> task_data_connections) list" where
  "released r = (case r of Inl _ \<Rightarrow> [] | Inr st \<Rightarrow> map (\<lambda>e. (n_name (ed_node e), ed_data e)) (rs_nodeExecutionStack st))"

lemma half_merged_released:
  "released (scheduleWaiting (sample_env [] []) diamond_workflow half_merged) = [(''M'', [(Main, [Val [tagged_item ''x''], Val []])])]"
  "rs_nodeExecutionStack half_merged = []"
  by code_simp+


text \<open>
  When the inputs of a node type are given by an expression, the length compared is that of its text: a merge
  node with two inputs is released with as many inputs as the expression has characters.
\<close>

definition expression_types :: node_types where
  "expression_types t v = Some ((plain_type t)\<lparr>nt_inputs := PortExpression ''={{ports()}}''\<rparr>)"

definition released_inputs :: "run_state result \<Rightarrow> nat option" where
  "released_inputs r =
     (case released r of (_, d) # _ \<Rightarrow> map_option length (main_data d) | [] \<Rightarrow> None)"

theorem padded_to_expression_length:
  "released_inputs (scheduleWaiting (sample_env [] []) diamond_workflow half_merged) = Some 2 \<and>
   released_inputs (scheduleWaiting (sample_env [] []) (diamond_workflow\<lparr>w_nodeTypes := expression_types\<rparr>) half_merged)
     = Some 12"
  by code_simp

text \<open>The earliest waiting run is chosen by the text of its number: run 10 comes before run 2.\<close>

theorem waiting_run_by_text:
  "first_run_index [(2, []), (10, [])] = Some 10"
  by code_simp

end
