(* ===== verification/JsonText.thy ===== *)
theory JsonText
  imports WorkflowTypes
begin

section \<open>JSON text\<close>

text \<open>
  \<^verbatim>\<open>JSON.stringify\<close> on JSON values, as the engine and the comparison of connections use it. How a number that is
  not whole is printed is a parameter. The text of a string determines the string, wherever it stands.
\<close>

definition hex_digit :: "nat \<Rightarrow> char" where
  "hex_digit k = char_of (if k < 10 then 48 + k else 87 + k)"

definition json_char :: "char \<Rightarrow> string" where
  "json_char c =
     (let k = of_char c :: nat in
      if k = 34 then [CHR 0x5C, CHR 0x22] else if k = 92 then [CHR 0x5C, CHR 0x5C]
      else if k = 8 then [CHR 0x5C, CHR ''b''] else if k = 12 then [CHR 0x5C, CHR ''f'']
      else if k = 10 then [CHR 0x5C, CHR ''n''] else if k = 13 then [CHR 0x5C, CHR ''r'']
      else if k = 9 then [CHR 0x5C, CHR ''t'']
      else if k < 32 then [CHR 0x5C, CHR ''u'', CHR ''0'', CHR ''0'', hex_digit (k div 16), hex_digit (k mod 16)]
      else [c])"

definition json_string :: "string \<Rightarrow> string" where
  "json_string s = [CHR 0x22] @ concat (map json_char s) @ [CHR 0x22]"

fun json_commas :: "string list \<Rightarrow> string" where
  "json_commas [] = []"
| "json_commas [s] = s"
| "json_commas (s # t # ss) = s @ '','' @ json_commas (t # ss)"

definition json_number :: "(rat \<Rightarrow> string) \<Rightarrow> js_number \<Rightarrow> string" where
  "json_number show_number n =
     (case n of
        Finite q \<Rightarrow>
          (case quotient_of q of (a, b) \<Rightarrow>
             if b \<noteq> 1 then show_number q else if a < 0 then ''-'' @ show_nat (nat (- a)) else show_nat (nat a))
      | _ \<Rightarrow> ''null'')"

text \<open>\<^verbatim>\<open>JSON.stringify\<close>; \<open>None\<close> is \<^verbatim>\<open>undefined\<close>.\<close>

fun json_stringify :: "(rat \<Rightarrow> string) \<Rightarrow> js \<Rightarrow> string option"
  and json_members :: "(rat \<Rightarrow> string) \<Rightarrow> (string \<times> js) list \<Rightarrow> string list"
  and json_elements :: "(rat \<Rightarrow> string) \<Rightarrow> js list \<Rightarrow> string list" where
  "json_stringify sn JUndefined = None"
| "json_stringify sn JNull = Some ''null''"
| "json_stringify sn (JBool b) = Some (if b then ''true'' else ''false'')"
| "json_stringify sn (JNum n) = Some (json_number sn n)"
| "json_stringify sn (JStr s) = Some (json_string s)"
| "json_stringify sn (JArr vs) = Some (''['' @ json_commas (json_elements sn vs) @ '']'')"
| "json_stringify sn (JObj kvs) = Some (''{'' @ json_commas (json_members sn kvs) @ ''}'')"
| "json_members sn [] = []"
| "json_members sn ((k, v) # kvs) =
     (case json_stringify sn v of
        None \<Rightarrow> json_members sn kvs
      | Some s \<Rightarrow> (json_string k @ '':'' @ s) # json_members sn kvs)"
| "json_elements sn [] = []"
| "json_elements sn (v # vs) = (case json_stringify sn v of None \<Rightarrow> ''null'' | Some s \<Rightarrow> s) # json_elements sn vs"

subsection \<open>Strings can be read back\<close>

definition unhex :: "char \<Rightarrow> nat" where
  "unhex c = (let k = of_char c :: nat in if k < 58 then k - 48 else k - 87)"

fun unescape :: "string \<Rightarrow> (char \<times> string) option" where
  \<comment> \<open>the first character of the text inside the quotes, and what follows it\<close>
  "unescape [] = None"
| "unescape (a # s) =
     (if of_char a = (34 :: nat) then None
      else if of_char a \<noteq> (92 :: nat) then Some (a, s)
      else case s of
             [] \<Rightarrow> None
           | b # t \<Rightarrow>
               if b = CHR ''b'' then Some (char_of (8 :: nat), t)
               else if b = CHR ''f'' then Some (char_of (12 :: nat), t)
               else if b = CHR ''n'' then Some (char_of (10 :: nat), t)
               else if b = CHR ''r'' then Some (char_of (13 :: nat), t)
               else if b = CHR ''t'' then Some (char_of (9 :: nat), t)
               else if b = CHR ''u''
               then (case t of
                       _ # _ # x # y # r \<Rightarrow> Some (char_of (16 * unhex x + unhex y), r)
                     | _ \<Rightarrow> None)
               else Some (b, t))"

lemma unhex_hex: "n < 16 \<Longrightarrow> unhex (hex_digit n) = n"
  by (auto simp: unhex_def hex_digit_def Let_def)

lemma unescape_char: "unescape (json_char c @ x) = Some (c, x)"
proof -
  have c: "char_of (of_char c :: nat) = c" by simp
  have "of_char c = (34 :: nat) \<Longrightarrow> c = char_of (34 :: nat)" "of_char c = (92 :: nat) \<Longrightarrow> c = char_of (92 :: nat)"
    and "of_char c = (8 :: nat) \<Longrightarrow> c = char_of (8 :: nat)" "of_char c = (12 :: nat) \<Longrightarrow> c = char_of (12 :: nat)"
    and "of_char c = (10 :: nat) \<Longrightarrow> c = char_of (10 :: nat)" "of_char c = (13 :: nat) \<Longrightarrow> c = char_of (13 :: nat)"
    and "of_char c = (9 :: nat) \<Longrightarrow> c = char_of (9 :: nat)"
    by (metis c)+
  moreover have "of_char c < (32 :: nat) \<Longrightarrow>
      unescape ([CHR 0x5C, CHR ''u'', CHR ''0'', CHR ''0'', hex_digit (of_char c div 16), hex_digit (of_char c mod 16)] @ x) = Some (c, x)"
    by (simp add: unhex_hex c)
  moreover have "CHR 0x5C = char_of (92 :: nat)" "CHR 0x22 = char_of (34 :: nat)"
    by (code_simp, code_simp)
  ultimately show ?thesis
    by (auto simp: json_char_def Let_def c)
qed

lemma unescape_quote: "unescape (CHR 0x22 # s) = None"
  by simp

lemma json_chars_inj:
  "concat (map json_char s) @ CHR 0x22 # x = concat (map json_char t) @ CHR 0x22 # y \<Longrightarrow> s = t \<and> x = y"
proof (induction s arbitrary: t)
  case Nil
  then show ?case
  proof (cases t)
    case (Cons d t')
    have "unescape (CHR 0x22 # x) = unescape (json_char d @ (concat (map json_char t') @ CHR 0x22 # y))"
      using Nil Cons by simp
    then show ?thesis unfolding unescape_char unescape_quote by simp
  qed simp
next
  case (Cons c s)
  have l: "unescape (concat (map json_char (c # s)) @ CHR 0x22 # x) = Some (c, concat (map json_char s) @ CHR 0x22 # x)"
    using unescape_char [of c "concat (map json_char s) @ CHR 0x22 # x"] by simp
  show ?case
  proof (cases t)
    case Nil
    then show ?thesis using l Cons.prems unescape_quote [of y] by simp
  next
    case (Cons d t')
    then have "unescape (concat (map json_char t) @ CHR 0x22 # y) = Some (d, concat (map json_char t') @ CHR 0x22 # y)"
      using unescape_char [of d "concat (map json_char t') @ CHR 0x22 # y"] by simp
    with l Cons.prems have "c = d" "concat (map json_char s) @ CHR 0x22 # x = concat (map json_char t') @ CHR 0x22 # y"
      by simp_all
    with Cons Cons.IH show ?thesis by blast
  qed
qed

lemma json_string_inj: "json_string s @ x = json_string t @ y \<longleftrightarrow> s = t \<and> x = y"
  using json_chars_inj [of s x t y] by (auto simp: json_string_def)

end
