(* ===== verification/PartialExecution.thy ===== *)
theory PartialExecution
  imports JsonText PartialGraph ExecutionStack Execution
begin

section \<open>Partial executions\<close>

text \<open>
  \<^verbatim>\<open>runPartialWorkflow2\<close> of \<^verbatim>\<open>workflow-execute.ts\<close> with what it needs besides the graph functions: \<^verbatim>\<open>isTool\<close> of
  \<^verbatim>\<open>node-helpers.ts\<close>, \<^verbatim>\<open>rewire-graph.ts\<close> and the choice of the trigger in
  \<^verbatim>\<open>find-trigger-for-partial-execution.ts\<close>. How a number that is not whole is printed is a parameter, as is
  \<^verbatim>\<open>localeCompare\<close>.
\<close>

subsection \<open>Tools\<close>

fun tool_output :: "port list \<Rightarrow> bool" where
  \<comment> \<open>an output given by its name decides at once\<close>
  "tool_output [] = False"
| "tool_output (PortName t # ps) = (t = AiTool)"
| "tool_output (PortConfig t d # ps) = (t = AiTool \<or> tool_output ps)"

definition isTool :: "node_type \<Rightarrow> js jsobj \<Rightarrow> bool" where
  "isTool t parameters =
     (if includes_string (nt_name t) ''vectorStore''
      then param_value parameters ''mode'' = JStr ''retrieve-as-tool''
      else case nt_outputs t of Ports ps \<Rightarrow> tool_output ps | PortExpression _ \<Rightarrow> False)"

subsection \<open>rewireGraph\<close>

record agent_request =
  ar_query :: js
  ar_toolName :: string

definition TOOL_EXECUTOR_NODE_NAME :: string where
  "TOOL_EXECUTOR_NODE_NAME = ''PartialExecutionToolExecutor''"

definition query_text :: "(rat \<Rightarrow> string) \<Rightarrow> agent_request option \<Rightarrow> string" where
  \<comment> \<open>\<^verbatim>\<open>JSON.stringify(agentRequest?.query ?? {})\<close>\<close>
  "query_text sn request =
     (case request of
        None \<Rightarrow> ''{}''
      | Some r \<Rightarrow> if ar_query r \<in> {JUndefined, JNull} then ''{}''
          else (case json_stringify sn (ar_query r) of None \<Rightarrow> ''{}'' | Some s \<Rightarrow> s))"

definition toolExecutor :: "(rat \<Rightarrow> string) \<Rightarrow> nat \<Rightarrow> node \<Rightarrow> node \<Rightarrow> agent_request option \<Rightarrow> node" where
  \<comment> \<open>a new object: the first argument is a reference that is not in use\<close>
  "toolExecutor sn ref tool rootNode request =
     (plain_node ref TOOL_EXECUTOR_NODE_NAME ''@n8n/n8n-nodes-langchain.toolExecutor'')
       \<lparr>n_id := n_id rootNode, n_typeVersion := 0, n_disabled := Some False,
        n_parameters :=
          [(''query'', JStr (query_text sn request)),
           (''toolName'', JStr (case request of None \<Rightarrow> [] | Some r \<Rightarrow> ar_toolName r)),
           (''node'', JStr (n_name tool))]\<rparr>"

definition update_graph_node :: "nat \<Rightarrow> (node \<Rightarrow> node) \<Rightarrow> directed_graph \<Rightarrow> directed_graph" where
  "update_graph_node ref f g =
     g\<lparr>g_nodes := map (\<lambda>(k, n). (k, update_node ref f n)) (g_nodes g),
       g_connections := map (\<lambda>(k, c). (k, c\<lparr>gc_from := update_node ref f (gc_from c), gc_to := update_node ref f (gc_to c)\<rparr>))
         (g_connections g)\<rparr>"

definition fresh_ref :: "directed_graph \<Rightarrow> nat" where
  "fresh_ref g = Suc (foldr (max \<circ> n_ref) (map_values (getNodes g)) 0)"

definition link_to :: "node \<Rightarrow> connection_type \<Rightarrow> node \<Rightarrow> conn_input" where
  "link_to to type from = \<lparr>ci_from = from, ci_to = to, ci_type = Some type, ci_outputIndex = None, ci_inputIndex = None\<rparr>"

definition rewireGraph ::
  "(rat \<Rightarrow> string) \<Rightarrow> node \<Rightarrow> directed_graph \<Rightarrow> agent_request option \<Rightarrow> directed_graph result" where
  "rewireGraph sn tool g request =
     bind_result (clone g) (\<lambda>modifiedGraph.
     bind_result (getChildren modifiedGraph tool) (\<lambda>children.
     if children = [] then Inr g
     else let rootNode = last children in
     bind_result (getDirectParentConnections modifiedGraph rootNode) (\<lambda>parents.
     let incoming = filter (\<lambda>c. gc_type c = Main) parents;
         executor = toolExecutor sn (fresh_ref modifiedGraph) tool rootNode request;
         rewire = update_node (n_ref tool) (\<lambda>n. n\<lparr>n_rewireOutputLogTo := Some AiTool\<rparr>);
         modifiedGraph = update_graph_node (n_ref tool) (\<lambda>n. n\<lparr>n_rewireOutputLogTo := Some AiTool\<rparr>)
           (addNode executor modifiedGraph)
     in bind_result (addConnection (link_to executor AiTool (rewire tool)) modifiedGraph) (\<lambda>modifiedGraph.
     bind_result (fold_result (\<lambda>c. addConnection (link_to executor (gc_type c) (rewire (gc_from c)))) incoming modifiedGraph)
       (\<lambda>modifiedGraph.
     bind_result (removeNode (rewire rootNode) False None modifiedGraph) (\<lambda>(modifiedGraph, _). Inr modifiedGraph))))))"

subsection \<open>The trigger\<close>

definition isTriggerNode :: "node_type \<Rightarrow> bool" where
  "isTriggerNode t \<longleftrightarrow> ''trigger'' \<in> set (nt_group t)"

fun filter_result :: "('a \<Rightarrow> bool result) \<Rightarrow> 'a list \<Rightarrow> 'a list result" where
  "filter_result p [] = Inr []"
| "filter_result p (x # xs) =
     bind_result (p x) (\<lambda>b. bind_result (filter_result p xs) (\<lambda>ys. Inr (if b then x # ys else ys)))"

definition existing_node :: "workflow \<Rightarrow> string \<Rightarrow> node result" where
  \<comment> \<open>\<^verbatim>\<open>workflow.getNode(name)\<close> with the assertion that follows it\<close>
  "existing_node w nm =
     (case getNode w nm of None \<Rightarrow> Inl (AssertionError ''The expression evaluated to a falsy value'') | Some n \<Rightarrow> Inr n)"

definition is_trigger :: "workflow \<Rightarrow> node \<Rightarrow> bool result" where
  "is_trigger w n = bind_result (required (node_type_of w n)) (\<lambda>t. Inr (isTriggerNode t))"

definition findAllParentTriggers :: "workflow \<Rightarrow> string \<Rightarrow> node list result" where
  "findAllParentTriggers w destinationNodeName =
     bind_result (map_result (existing_node w) (parentNodes w destinationNodeName (OfType Main)))
       (filter_result (is_trigger w))"

definition ends_with :: "string \<Rightarrow> string \<Rightarrow> bool" where
  "ends_with s suffix \<longleftrightarrow> length suffix \<le> length s \<and> drop (length s - length suffix) s = suffix"

definition is_webhook :: "node \<Rightarrow> bool" where
  "is_webhook n \<longleftrightarrow> ends_with (n_type n) ''webhook''"

definition webhooks_first :: "node \<Rightarrow> node \<Rightarrow> int" where
  \<comment> \<open>not an order: two webhooks are each before the other\<close>
  "webhooks_first a b = (if is_webhook a then -1 else if is_webhook b then 1 else 0)"

definition first_of :: "'a list \<Rightarrow> 'a option" where
  "first_of xs = (case xs of [] \<Rightarrow> None | x # _ \<Rightarrow> Some x)"

definition choose_trigger :: "workflow \<Rightarrow> run_data \<Rightarrow> node list \<Rightarrow> node option" where
  \<comment> \<open>among the enabled triggers before the destination\<close>
  "choose_trigger w runData triggers =
     (case find (\<lambda>n. map_has runData (n_name n)) triggers of
        Some n \<Rightarrow> Some n
      | None \<Rightarrow>
          (case v8_sort webhooks_first (filter (\<lambda>n. getPinDataOfNode w (n_name n) \<noteq> None) triggers) of
             n # _ \<Rightarrow> Some n
           | [] \<Rightarrow>
               (case filter is_webhook triggers of
                  n # _ \<Rightarrow> Some n
                | [] \<Rightarrow> first_of triggers)))"

definition findTriggerForPartialExecution :: "workflow \<Rightarrow> string \<Rightarrow> run_data \<Rightarrow> node option result" where
  "findTriggerForPartialExecution w destinationNodeName runData =
     (case getNode w destinationNodeName of
        None \<Rightarrow> Inr None
      | Some destination \<Rightarrow>
          bind_result (is_trigger w destination) (\<lambda>own.
          if own \<and> \<not> is_disabled destination then Inr (Some destination)
          else bind_result (findAllParentTriggers w destinationNodeName) (\<lambda>triggers.
            Inr (choose_trigger w runData (filter (\<lambda>n. \<not> is_disabled n) triggers)))))"

subsection \<open>runPartialWorkflow2\<close>

definition connect_a_trigger :: js_error where
  "connect_a_trigger = UserError ''Connect a trigger and make sure it's enabled to run this node''"

definition parent_with_data :: "workflow \<Rightarrow> string \<Rightarrow> run_data \<Rightarrow> node option" where
  \<comment> \<open>the closest enabled parent that has run data\<close>
  "parent_with_data w nm runData =
     first_of (List.map_filter (\<lambda>p. case getNode w p of
         None \<Rightarrow> None
       | Some n \<Rightarrow> if \<not> is_disabled n \<and> map_has runData p then Some n else None)
       (parentNodes w nm (OfType Main)))"

definition start_of_partial :: "workflow \<Rightarrow> string \<Rightarrow> run_data \<Rightarrow> node result" where
  "start_of_partial w nm runData =
     bind_result (findTriggerForPartialExecution w nm runData) (\<lambda>trigger.
       case trigger of
         Some n \<Rightarrow> Inr n
       | None \<Rightarrow>
           (case parent_with_data w nm runData of Some n \<Rightarrow> Inr n | None \<Rightarrow> Inl connect_a_trigger))"

definition toWorkflow :: "workflow \<Rightarrow> directed_graph \<Rightarrow> workflow result" where
  "toWorkflow w g =
     bind_result (toIConnections g) (\<lambda>conns.
       Inr (make_workflow (w_nodeTypes w) (map_values (getNodes g)) conns (w_pinData w) (w_executionOrder w)))"

definition run_as_tool ::
  "(rat \<Rightarrow> string) \<Rightarrow> workflow \<Rightarrow> directed_graph \<Rightarrow> node \<Rightarrow> destination_node \<Rightarrow> agent_request option \<Rightarrow>
    (workflow \<times> directed_graph \<times> node \<times> destination_node) result" where
  \<comment> \<open>a tool is run by a virtual agent that takes the place of its agent\<close>
  "run_as_tool sn w g destination destinationNode request =
     bind_result (required (node_type_of w destination)) (\<lambda>t.
     if \<not> isTool t (n_parameters destination) then Inr (w, g, destination, destinationNode)
     else bind_result (rewireGraph sn destination g request) (\<lambda>g.
       bind_result (toWorkflow w g) (\<lambda>w.
         case getNode w TOOL_EXECUTOR_NODE_NAME of
           None \<Rightarrow> Inl (OperationalError ''ToolExecutor can not be found'')
         | Some executor \<Rightarrow> Inr (w, g, executor, \<lparr>dn_nodeName = n_name executor, dn_mode = Inclusive\<rparr>))))"

definition partial_run_state ::
  "destination_node \<Rightarrow> destination_node \<Rightarrow> directed_graph \<Rightarrow> run_data \<Rightarrow> pin_data \<Rightarrow> recreated \<Rightarrow> run_state" where
  "partial_run_state destinationNode original g runData pinData stack =
     createRunExecutionData (no_options
       \<lparr>ro_destinationNode := Some destinationNode, ro_originalDestinationNode := Some original,
        ro_runNodeFilter := Some (map n_name (map_values (getNodes g))),
        ro_runData := Some runData, ro_pinData := Some pinData,
        ro_nodeExecutionStack := Some (nodeExecutionStack stack),
        ro_waitingExecution := Some (rc_waitingExecution stack),
        ro_waitingExecutionSource := Some (rc_waitingExecutionSource stack)\<rparr>)"

definition partial_stack ::
  "(string \<Rightarrow> string \<Rightarrow> int) \<Rightarrow> directed_graph \<Rightarrow> node \<Rightarrow> node \<Rightarrow> run_data \<Rightarrow> pin_data \<Rightarrow> string list \<Rightarrow>
    (run_data \<times> recreated) result" where
  \<comment> \<open>the steps 3 to 7: on the subgraph\<close>
  "partial_stack localeCompare g trigger destination runData pinData dirtyNodeNames =
     bind_result (cleanRunData runData g (getNodesByNames g dirtyNodeNames)) (\<lambda>runData.
     bind_result (findStartNodes g trigger destination runData pinData) (\<lambda>startNodes.
     bind_result (handleCycles g startNodes trigger) (\<lambda>startNodes.
     bind_result (cleanRunData runData g startNodes) (\<lambda>runData.
     bind_result (recreateNodeExecutionStack localeCompare g startNodes runData pinData) (\<lambda>stack.
       Inr (runData, stack))))))"

definition prepare_partial ::
  "(string \<Rightarrow> string \<Rightarrow> int) \<Rightarrow> (rat \<Rightarrow> string) \<Rightarrow> workflow \<Rightarrow> run_data \<Rightarrow> pin_data \<Rightarrow> string list \<Rightarrow> destination_node \<Rightarrow>
    agent_request option \<Rightarrow> (workflow \<times> nat \<times> run_state) result" where
  "prepare_partial localeCompare sn w runData pinData dirtyNodeNames destinationNode request =
     (case getNode w (dn_nodeName destinationNode) of
        None \<Rightarrow> Inl (AssertionError (''Could not find a node with the name '' @ dn_nodeName destinationNode @ '' in the workflow.''))
      | Some destination \<Rightarrow>
          bind_result (fromWorkflow (w_nodes w) (w_connectionsBySourceNode w)) (\<lambda>g.
          bind_result (run_as_tool sn w g destination destinationNode request) (\<lambda>(w, g, destination, dest).
          bind_result (start_of_partial w (dn_nodeName dest) runData) (\<lambda>trigger.
          bind_result (filterDisabledNodes g) (\<lambda>filteredGraph.
          if is_disabled destination then Inl (UserError ''Cannot execute a disabled node'')
          else bind_result (findSubgraph filteredGraph destination trigger) (\<lambda>g.
          bind_result (partial_stack localeCompare g trigger destination runData pinData dirtyNodeNames) (\<lambda>(runData, stack).
            Inr (w, getNextExecutionIndex runData, partial_run_state dest destinationNode g runData pinData stack))))))))"

definition runPartialWorkflow2 ::
  "nat \<Rightarrow> environment \<Rightarrow> parameter_issues \<Rightarrow> exec_error option \<Rightarrow> (string \<Rightarrow> string \<Rightarrow> int) \<Rightarrow> (rat \<Rightarrow> string) \<Rightarrow>
    workflow \<Rightarrow> run_data \<Rightarrow> pin_data \<Rightarrow> string list \<Rightarrow> destination_node \<Rightarrow> agent_request option \<Rightarrow> run_result option result"
where
  "runPartialWorkflow2 fuel ev issues init localeCompare sn w runData pinData dirtyNodeNames destinationNode request =
     bind_result (prepare_partial localeCompare sn w runData pinData dirtyNodeNames destinationNode request)
       (\<lambda>(w, executionIndex, st). processRunExecutionData fuel ev issues init (new_engine w executionIndex st))"

subsection \<open>Which node of an agent's workflow is replaced\<close>

text \<open>
  The node that \<^verbatim>\<open>rewireGraph\<close> replaces is the last one of those below the tool, which is the agent only if
  nothing comes after the agent: with a node behind it, that node is removed and the agent stays and is
  run before the tool.
\<close>

definition tool_node :: node where
  "tool_node = plain_node 2 ''Tool'' ''t''"

definition agent_graph :: "bool \<Rightarrow> directed_graph result" where
  \<comment> \<open>a trigger, an agent with a tool, and a node behind the agent or not\<close>
  "agent_graph behind =
     fromNodesAndConnections
       ([plain_node 0 ''Start'' ''t'', plain_node 1 ''Agent'' ''t'', tool_node] @
        (if behind then [plain_node 3 ''After'' ''t''] else []))
       ([(''Start'', [(Main, [Val [connection_to ''Agent'' Main 0]])]),
         (''Tool'', [(AiTool, [Val [connection_to ''Agent'' AiTool 0]])])] @
        (if behind then [(''Agent'', [(Main, [Val [connection_to ''After'' Main 0]])])] else []))"

definition rewired :: "bool \<Rightarrow> (string list \<times> (string \<times> string) list) option" where
  "rewired behind =
     (case bind_result (agent_graph behind) (\<lambda>g. rewireGraph (\<lambda>_. []) tool_node g None) of
        Inl _ \<Rightarrow> None
      | Inr g \<Rightarrow> Some (map fst (g_nodes g), map (\<lambda>(k, c). (n_name (gc_from c), n_name (gc_to c))) (g_connections g)))"

theorem rewireGraph_replaces_last:
  "rewired False =
     Some ([''Start'', ''Tool'', TOOL_EXECUTOR_NODE_NAME],
       [(''Tool'', TOOL_EXECUTOR_NODE_NAME), (''Start'', TOOL_EXECUTOR_NODE_NAME)]) \<and>
   rewired True =
     Some ([''Start'', ''Agent'', ''Tool'', TOOL_EXECUTOR_NODE_NAME],
       [(''Start'', ''Agent''), (''Tool'', ''Agent''), (''Tool'', TOOL_EXECUTOR_NODE_NAME),
        (''Agent'', TOOL_EXECUTOR_NODE_NAME)])"
  by code_simp

end
