(* ===== verification/PartialFacts.thy ===== *)
theory PartialFacts
  imports PartialExecution SubgraphFacts EngineRuns
begin

section \<open>What a partial execution starts with\<close>

text \<open>
  \<^verbatim>\<open>runPartialWorkflow2\<close> puts the graph functions and the engine together: the engine it prepares satisfies
  the invariant of the engine, so that all that holds of executions holds of partial ones, and it starts
  where the data ends.
\<close>

subsection \<open>The graph of a workflow\<close>

definition named_nodes :: "workflow \<Rightarrow> bool" where
  "named_nodes w \<longleftrightarrow> well_keyed (w_nodes w) \<and> list_all (\<lambda>(k, n). n_name n = k) (w_nodes w)"

lemma addConnection_keeps:
  "addConnection ci g = Inr h \<Longrightarrow> graph_wf g \<Longrightarrow> graph_wf h \<and> g_nodes h = g_nodes g"
  using addConnection_wf [of g ci h] by (auto simp: addConnection_Inr)

lemma add_one_connection_wf:
  "add_one_connection lookup from t i c g = Inr h \<Longrightarrow> graph_wf g \<Longrightarrow> graph_wf h \<and> g_nodes h = g_nodes g"
  unfolding add_one_connection_def bind_result_eq_Inr using addConnection_keeps by blast

lemma add_output_connections_wf:
  assumes "add_output_connections lookup from t outputs g = Inr h" and "graph_wf g"
  shows "graph_wf h \<and> g_nodes h = g_nodes g"
  using assms(1) unfolding add_output_connections_def
proof (rule fold_result_inv [where P = "\<lambda>h. graph_wf h \<and> g_nodes h = g_nodes g"])
  show "graph_wf g \<and> g_nodes g = g_nodes g" using assms(2) by simp
next
  fix x h h'
  assume h: "graph_wf h \<and> g_nodes h = g_nodes g"
    and step: "(\<lambda>(i, conns). fold_result (add_one_connection lookup from t i) (slot_list conns)) x h = Inr h'"
  obtain i conns where x: "x = (i, conns)" by fastforce
  from step have f: "fold_result (add_one_connection lookup from t i) (slot_list conns) h = Inr h'" by (simp add: x)
  show "graph_wf h' \<and> g_nodes h' = g_nodes g"
    by (rule fold_result_inv [OF f, where P = "\<lambda>h. graph_wf h \<and> g_nodes h = g_nodes g"])
      (use h add_one_connection_wf in fastforce)+
qed

lemma add_workflow_connections_wf:
  assumes "add_workflow_connections lookup conns g = Inr h" and "graph_wf g"
  shows "graph_wf h \<and> g_nodes h = g_nodes g"
  using assms(1) unfolding add_workflow_connections_def
proof (rule fold_result_inv [where P = "\<lambda>h. graph_wf h \<and> g_nodes h = g_nodes g"])
  show "graph_wf g \<and> g_nodes g = g_nodes g" using assms(2) by simp
next
  fix x h h'
  assume h: "graph_wf h \<and> g_nodes h = g_nodes g"
    and step: "(\<lambda>(nm, entry) h. bind_result (lookup_ok lookup nm) (\<lambda>from.
      fold_result (\<lambda>(t, outputs). add_output_connections lookup from t outputs) entry h)) x h = Inr h'"
  obtain nm entry where x: "x = (nm, entry)" by fastforce
  with step obtain src where f: "fold_result (\<lambda>(t, outputs). add_output_connections lookup src t outputs) entry h = Inr h'"
    by (auto simp: bind_result_eq_Inr)
  show "graph_wf h' \<and> g_nodes h' = g_nodes g"
    by (rule fold_result_inv [OF f, where P = "\<lambda>h. graph_wf h \<and> g_nodes h = g_nodes g"])
      (use h add_output_connections_wf in fastforce)+
qed

lemma fromWorkflow_wf:
  assumes "fromWorkflow (w_nodes w) conns = Inr g" and "named_nodes w"
  shows "graph_wf g" and "g_nodes g = w_nodes w"
proof -
  have "addNodes (map snd (w_nodes w)) empty_graph = empty_graph\<lparr>g_nodes := w_nodes w\<rparr>"
    using assms(2) by (subst addNodes_append) (auto simp: named_nodes_def well_keyed_def empty_graph_def)
  moreover have "graph_wf (empty_graph\<lparr>g_nodes := w_nodes w\<rparr>)"
    using assms(2) by (simp add: graph_wf_def named_nodes_def empty_graph_def well_keyed_def)
  ultimately show "graph_wf g" "g_nodes g = w_nodes w"
    using assms(1) add_workflow_connections_wf [of "obj_get (w_nodes w)" conns "empty_graph\<lparr>g_nodes := w_nodes w\<rparr>" g]
    by (simp_all add: fromWorkflow_def)
qed

subsection \<open>The recreated stack\<close>

lemma fold_start_in_graph:
  "fold_result (add_start_node lc g rd pd) starts st = Inr st' \<Longrightarrow> set starts \<subseteq> Collect (in_graph g)"
  by (induction starts arbitrary: st)
    (auto simp: bind_result_eq_Inr add_start_node_def getDirectParentConnections_def result_simps)

lemma recreate_in_graph:
  assumes "recreateNodeExecutionStack lc g starts rd pd = Inr st"
  shows "set starts \<subseteq> Collect (in_graph g)" and "\<forall>n \<in> set (map_values (g_nodes g)). \<not> is_disabled n"
proof -
  obtain u where "check_enabled g = Inr u"
    and f: "fold_result (add_start_node lc g rd pd) starts
      \<lparr>nodeExecutionStack = [], rc_waitingExecution = [], rc_waitingExecutionSource = []\<rparr> = Inr st"
    using assms by (auto simp: recreateNodeExecutionStack_def bind_result_eq_Inr)
  then have "check_enabled g = Inr ()" by simp
  then show "\<forall>n \<in> set (map_values (g_nodes g)). \<not> is_disabled n" by (simp only: check_enabled_ok)
  show "set starts \<subseteq> Collect (in_graph g)" by (rule fold_start_in_graph [OF f])
qed

lemma recreate_nodes:
  assumes "recreateNodeExecutionStack lc g starts rd pd = Inr st" and "e \<in> set (nodeExecutionStack st)"
  shows "ed_node e \<in> set starts"
proof -
  have "map ed_node (nodeExecutionStack st) = concat (map (\<lambda>n. replicate (entries_for lc g rd pd n) n) starts)"
    using recreate_entries [OF recreate_in_graph(2,1) [OF assms(1)], of lc rd pd] assms(1) by simp
  then have "ed_node e \<in> set (concat (map (\<lambda>n. replicate (entries_for lc g rd pd n) n) starts))"
    using assms(2) by (metis image_eqI set_map)
  then show ?thesis by auto
qed

subsection \<open>The waiting entries are in step\<close>

definition sources_ran :: "run_data \<Rightarrow> gconn \<Rightarrow> bool" where
  "sources_ran rd c \<longleftrightarrow> getIncomingDataFromAnyRun rd (n_name (gc_from c)) (gc_type c) (int (gc_outputIndex c)) \<noteq> None"

lemma array_index_Main [simp]: "array_index Main = None"
  by code_simp

lemma in_step_put_waiting:
  assumes "in_step m s"
  shows "in_step (put_waiting nm r Main i (Val x) m) (put_waiting nm r Main i (Val y) s)"
proof -
  let ?d = "or_empty (run_get m nm r)" and ?e = "or_empty (run_get s nm r)"
  let ?xs = "or_empty (obj_get ?d Main)" and ?ys = "or_empty (obj_get ?e Main)"
  have put: "put_waiting nm r Main i v m' = run_put nm r (obj_set Main (arr_set (or_empty (obj_get (or_empty (run_get m' nm r)) Main)) i v)
      (or_empty (run_get m' nm r))) m'" for v and m' :: "('a slot list jsobj) by_run jsobj"
    by (cases "obj_get m' nm") (simp_all add: put_waiting_def run_put_def run_get_def Let_def)
  have put': "put_waiting nm r Main i v m' = run_put nm r (obj_set Main (arr_set (or_empty (obj_get (or_empty (run_get m' nm r)) Main)) i v)
      (or_empty (run_get m' nm r))) m'" for v and m' :: "('b slot list jsobj) by_run jsobj"
    by (cases "obj_get m' nm") (simp_all add: put_waiting_def run_put_def run_get_def Let_def)
  have "entry_match (obj_set Main (arr_set ?xs i (Val x)) ?d) (obj_set Main (arr_set ?ys i (Val y)) ?e)"
  proof (cases "run_get m nm r")
    case None
    with in_step_get [OF assms, of nm r] have "run_get s nm r = None" by simp
    with None show ?thesis by (auto simp: entry_match_def obj_set_def)
  next
    case (Some d)
    then obtain e where e: "run_get s nm r = Some e" and m: "entry_match d e"
      using in_step_get [OF assms, of nm r] by (cases "run_get s nm r") auto
    then obtain xs ys where "d = [(Main, xs)]" "e = [(Main, ys)]" by (auto simp: entry_match_def)
    with Some e entry_match_set [OF m, of xs ys "Val x" "Val y" i] show ?thesis by simp
  qed
  then show ?thesis unfolding put put' by (rule in_step_put [OF assms])
qed

definition main_if_ran :: "run_data \<Rightarrow> gconn list \<Rightarrow> bool" where
  "main_if_ran rd cs \<longleftrightarrow> list_all (\<lambda>c. sources_ran rd c \<longrightarrow> gc_type c = Main) cs"

abbreviation rc_in_step :: "recreated \<Rightarrow> bool" where
  "rc_in_step st \<equiv> in_step (rc_waitingExecution st) (rc_waitingExecutionSource st)"

lemma waiting_connections_in_step:
  "main_if_ran rd cs \<Longrightarrow> rc_in_step st \<Longrightarrow> rc_in_step (foldl (\<lambda>st c. add_waiting_connection n r rd c st) st cs)"
proof (induction cs arbitrary: st)
  case Nil
  then show ?case by simp
next
  case (Cons c cs)
  have "rc_in_step (add_waiting_connection n r rd c st)"
  proof (cases "sources_ran rd c")
    case True
    with Cons.prems have "gc_type c = Main" by (simp add: main_if_ran_def)
    moreover obtain data j where "getIncomingDataFromAnyRun rd (n_name (gc_from c)) (gc_type c) (int (gc_outputIndex c)) = Some (data, j)"
      using True by (auto simp: sources_ran_def)
    ultimately show ?thesis
      using in_step_put_waiting [OF Cons.prems(2)]
      by (simp add: add_waiting_connection_def addWaitingExecution_def addWaitingExecutionSource_def)
  next
    case False
    then have "getIncomingDataFromAnyRun rd (n_name (gc_from c)) (gc_type c) (int (gc_outputIndex c)) = None"
      by (simp only: sources_ran_def not_not)
    with Cons.prems show ?thesis by (simp add: add_waiting_connection_def)
  qed
  with Cons show ?case by (simp add: main_if_ran_def)
qed

lemma add_group_in_step:
  "add_group n rd pd sg st = Inr st' \<Longrightarrow> main_if_ran rd (sg_connections sg) \<Longrightarrow> rc_in_step st \<Longrightarrow> rc_in_step st'"
  by (auto simp: add_group_def bind_result_eq_Inr Let_def waiting_connections_in_step split: if_splits)

lemma group_connections:
  assumes "sg \<in> set (getSourceDataGroups lc g n rd pd)" and "c \<in> set (sg_connections sg)"
  shows "c \<in> conns_of g \<and> gc_to c = n"
proof -
  let ?cmp = "sortByInputIndexThenByName lc" and ?D = "has_source_data rd pd"
  define ws where "ws = js_sort ?cmp (filter ?D (getConnections g (Some n)))"
  define wos where "wos = js_sort ?cmp (filter (\<lambda>c. \<not> ?D c \<and> gc_type c = Main) (getConnections g (Some n)))"
  have sg: "sg \<in> set (group_loop ws wos (min_input ws wos - 1) newGroup [])"
    using assms(1) by (auto simp: getSourceDataGroups_def Let_def ws_def wos_def split: if_splits)
  then have "c \<in># mset (all_connections (group_loop ws wos (min_input ws wos - 1) newGroup []))"
    using assms(2) by auto
  then have "c \<in> set ws \<union> set wos" unfolding group_loop_mset by (auto simp: newGroup_def)
  then have "c \<in> set (getConnections g (Some n))" by (auto simp: ws_def wos_def)
  then show ?thesis by (auto simp: getConnections_def conns_of_def)
qed

lemma add_start_node_in_step:
  assumes "add_start_node lc g rd pd n st = Inr st'" and "rc_in_step st"
    and "\<And>c. c \<in> conns_of g \<Longrightarrow> gc_to c = n \<Longrightarrow> gc_type c \<noteq> Main \<Longrightarrow> \<not> sources_ran rd c"
  shows "rc_in_step st'"
proof -
  obtain ps where "st' = st\<lparr>nodeExecutionStack := nodeExecutionStack st @ [stack_entry n [Val [empty_item]] None]\<rparr> \<or>
      fold_result (add_group n rd pd) (getSourceDataGroups lc g n rd pd) st = Inr st'"
    using assms(1) by (auto simp: add_start_node_def bind_result_eq_Inr split: if_splits)
  then show ?thesis
  proof
    assume f: "fold_result (add_group n rd pd) (getSourceDataGroups lc g n rd pd) st = Inr st'"
    have "main_if_ran rd (sg_connections sg)" if "sg \<in> set (getSourceDataGroups lc g n rd pd)" for sg
      using group_connections [OF that] assms(3) by (auto simp: main_if_ran_def list_all_iff)
    with add_group_in_step assms(2) show ?thesis
      by (intro fold_result_inv [OF f, where P = rc_in_step]) blast+
  qed (use assms(2) in simp)
qed

lemma recreate_in_step:
  assumes "recreateNodeExecutionStack lc g starts rd pd = Inr st"
    and "\<And>n c. n \<in> set starts \<Longrightarrow> c \<in> conns_of g \<Longrightarrow> gc_to c = n \<Longrightarrow> gc_type c \<noteq> Main \<Longrightarrow> \<not> sources_ran rd c"
  shows "rc_in_step st"
proof -
  have f: "fold_result (add_start_node lc g rd pd) starts
      \<lparr>nodeExecutionStack = [], rc_waitingExecution = [], rc_waitingExecutionSource = []\<rparr> = Inr st"
    using assms(1) by (auto simp: recreateNodeExecutionStack_def bind_result_eq_Inr)
  have step: "rc_in_step t'" if "n \<in> set starts" "rc_in_step t" "add_start_node lc g rd pd n t = Inr t'" for n t t'
    using add_start_node_in_step [OF that(3,2)] assms(2) [OF that(1)] by blast
  show ?thesis
  proof (rule fold_result_inv [OF f, where P = rc_in_step])
  qed (simp, rule step)
qed

subsection \<open>The engine of a partial execution\<close>

lemma getNodesByNames_in_graph:
  assumes "graph_wf g"
  shows "set (getNodesByNames g names) \<subseteq> Collect (in_graph g)"
proof -
  have "set (foldl (\<lambda>ns nm. case map_get (g_nodes g) nm of None \<Rightarrow> ns | Some n \<Rightarrow> set_add n ns) ns names) \<subseteq> Collect (in_graph g)"
    if "set ns \<subseteq> Collect (in_graph g)" for ns
    using that
  proof (induction names arbitrary: ns)
    case (Cons nm names)
    then show ?case using graph_wf_get(2) [OF assms]
      by (simp split: option.split)
  qed simp
  from this [of "[]"] show ?thesis by (simp add: getNodesByNames_def)
qed

definition restarts_at_the_end :: "directed_graph \<Rightarrow> run_data \<Rightarrow> run_data \<Rightarrow> execute_data list \<Rightarrow> bool" where
  \<comment> \<open>the entries are for enabled nodes of the graph, nothing at or below them has data, and the data that is left is old\<close>
  "restarts_at_the_end g old new stack \<longleftrightarrow>
     (\<forall>e \<in> set stack. in_graph g (ed_node e) \<and> \<not> is_disabled (ed_node e) \<and>
        (\<forall>m. (ed_node e, m) \<in> (succ_rel g)\<^sup>* \<longrightarrow> obj_get new (n_name m) = None)) \<and>
     (\<forall>nm tasks. obj_get new nm = Some tasks \<longrightarrow> obj_get old nm = Some tasks \<and> hasNode g nm)"

lemma no_data_no_source: "obj_get rd (n_name (gc_from c)) = None \<Longrightarrow> \<not> sources_ran rd c"
  by (simp add: sources_ran_def getIncomingDataFromAnyRun_def getRunIndexLength_def)

lemma partial_stack_ok:
  assumes "partial_stack lc g trigger destination runData pinData dirty = Inr (rd, stack)" and wf: "graph_wf g"
  shows "rc_in_step stack \<and> restarts_at_the_end g runData rd (nodeExecutionStack stack)"
proof -
  obtain rd1 starts1 starts where
    c1: "cleanRunData runData g (getNodesByNames g dirty) = Inr rd1"
    and c2: "cleanRunData rd1 g starts = Inr rd"
    and r: "recreateNodeExecutionStack lc g starts rd pinData = Inr stack"
    using assms(1) by (auto simp: partial_stack_def bind_result_eq_Inr)
  note inside = recreate_in_graph(1) [OF r] and enabled = recreate_in_graph(2) [OF r]
  have rd1: "obj_get rd1 k = (if hasNode g k \<and> k \<notin> (\<Union>n \<in> set (getNodesByNames g dirty). cleaned_by g n) then obj_get runData k else None)" for k
    using cleanRunData_ok [OF wf getNodesByNames_in_graph [OF wf], of runData dirty] c1 by simp
  have rd: "obj_get rd k = (if hasNode g k \<and> k \<notin> (\<Union>n \<in> set starts. cleaned_by g n) then obj_get rd1 k else None)" for k
    using cleanRunData_ok [OF wf inside, of rd1] c2 by simp
  have cleaned: "obj_get rd (n_name m) = None" if "n \<in> set starts" "(n, m) \<in> (succ_rel g)\<^sup>*" for n m
  proof -
    have "n_name m \<in> cleaned_by g n" using that(2) by (auto simp: cleaned_by_def)
    with that(1) rd show ?thesis by auto
  qed
  have sub: "obj_get rd (n_name (gc_from c)) = None"
    if "n \<in> set starts" "c \<in> conns_of g" "gc_to c = n" "gc_type c \<noteq> Main" for n c
  proof -
    have "n_name (gc_from c) \<in> sub_names g n" using that(2-4) by (auto simp: sub_names_def)
    then have "n_name (gc_from c) \<in> cleaned_by g n" by (auto simp: cleaned_by_def)
    with that(1) rd show ?thesis by auto
  qed
  have "rc_in_step stack" by (rule recreate_in_step [OF r]) (use sub no_data_no_source in blast)
  moreover have "in_graph g (ed_node e) \<and> \<not> is_disabled (ed_node e) \<and>
      (\<forall>m. (ed_node e, m) \<in> (succ_rel g)\<^sup>* \<longrightarrow> obj_get rd (n_name m) = None)" if "e \<in> set (nodeExecutionStack stack)" for e
  proof -
    have n: "ed_node e \<in> set starts" by (rule recreate_nodes [OF r that])
    with inside have i: "in_graph g (ed_node e)" by blast
    then have "ed_node e \<in> set (map_values (g_nodes g))" by (rule in_graph_in_nodes)
    with enabled i cleaned [OF n] show ?thesis by blast
  qed
  moreover have "obj_get runData nm = Some tasks \<and> hasNode g nm" if "obj_get rd nm = Some tasks" for nm tasks
    using that rd [of nm] rd1 [of nm] by (auto split: if_splits)
  ultimately show ?thesis unfolding restarts_at_the_end_def by blast
qed

lemma partial_run_state_fields:
  "rs_runData (partial_run_state d o' g rd pd stack) = rd"
  "rs_nodeExecutionStack (partial_run_state d o' g rd pd stack) = nodeExecutionStack stack"
  "rs_waitingExecution (partial_run_state d o' g rd pd stack) = rc_waitingExecution stack"
  "rs_waitingExecutionSource (partial_run_state d o' g rd pd stack) = Some (rc_waitingExecutionSource stack)"
  "rs_runNodeFilter (partial_run_state d o' g rd pd stack) = Some (map n_name (map_values (g_nodes g)))"
  "rs_destinationNode (partial_run_state d o' g rd pd stack) = Some d"
  by (simp_all add: partial_run_state_def createRunExecutionData_def buildExecutionData_def buildResultData_def
      no_options_def getNodes_def)

lemma indices_below_next: "indices_below (getNextExecutionIndex rd) rd"
  unfolding indices_below_def using next_index_fresh [of rd] by (fastforce dest: map_of_SomeD)

lemma prepared_ok:
  assumes "prepare_partial localeCompare sn w runData pinData dirty destinationNode request = Inr (w', k, st)"
    and "named_nodes w" and "fromWorkflow (w_nodes w) (w_connectionsBySourceNode w) = Inr g"
    and "\<forall>n. is_disabled n \<longrightarrow> (n, n) \<notin> (succ_rel g)\<^sup>+"
    and "getNode w (dn_nodeName destinationNode) = Some destination" and "node_type_of w destination = Some t"
    and "\<not> isTool t (n_parameters destination)"
  shows "\<exists>filtered sub. filterDisabledNodes g = Inr filtered \<and> part_of filtered destination sub \<and>
    rs_runNodeFilter st = Some (map n_name (map_values (g_nodes sub))) \<and>
    restarts_at_the_end sub runData (rs_runData st) (rs_nodeExecutionStack st) \<and>
    w' = w \<and> engine_inv (new_engine w k st)"
proof -
  have as_is: "run_as_tool sn w g destination destinationNode request = Inr (w, g, destination, destinationNode)"
    using assms(6,7) by (simp add: run_as_tool_def)
  obtain trigger filtered sub rd stack where
    f: "filterDisabledNodes g = Inr filtered" and on: "\<not> is_disabled destination"
    and s: "findSubgraph filtered destination trigger = Inr sub"
    and p: "partial_stack localeCompare sub trigger destination runData pinData dirty = Inr (rd, stack)"
    and out: "w' = w" "k = getNextExecutionIndex rd" "st = partial_run_state destinationNode destinationNode sub rd pinData stack"
    using assms(1,3,5) as_is by (auto simp: prepare_partial_def bind_result_eq_Inr split: if_splits)
  note wf = fromWorkflow_wf [OF assms(3,2)]
  obtain h where "filterDisabledNodes g = Inr h" "graph_wf h" "g_nodes h = filter (\<lambda>(k, n). \<not> is_disabled n) (g_nodes g)"
    using filterDisabledNodes_ok [OF wf(1)] assms(4) by blast
  with f have fwf: "graph_wf filtered" and fn: "g_nodes filtered = filter (\<lambda>(k, n). \<not> is_disabled n) (w_nodes w)"
    using wf(2) by simp_all
  have named: "map_of (w_nodes w) (n_name n) = Some n" if "n \<in> snd ` set (w_nodes w)" for n
    using that assms(2) by (auto simp: named_nodes_def well_keyed_def list_all_iff)
  have "destination \<in> snd ` set (w_nodes w)" using assms(5) by (force simp: getNode_def dest: map_of_SomeD)
  then have "destination \<in> set (map_values (g_nodes filtered))" using on by (force simp: fn)
  then have "in_graph filtered destination" by (rule graph_wf_nodes [OF fwf])
  from findSubgraph_ok [OF fwf this, of trigger] s have part: "part_of filtered destination sub" by auto
  then have swf: "graph_wf sub" by (simp add: part_of_def)
  note ok = partial_stack_ok [OF p swf]
  have "of_workflow w e" if "e \<in> set (nodeExecutionStack stack)" for e
  proof -
    have "in_graph sub (ed_node e)" using ok that by (simp add: restarts_at_the_end_def)
    then have "in_graph filtered (ed_node e)" using part by (simp add: part_of_def)
    then have "ed_node e \<in> set (map_values (g_nodes filtered))" by (rule in_graph_in_nodes)
    then have "ed_node e \<in> snd ` set (w_nodes w)" by (auto simp: fn)
    with named show ?thesis by (auto simp: of_workflow_def getNode_def)
  qed
  then have "engine_inv (new_engine w k st)"
    using ok indices_below_next [of rd]
    by (simp add: engine_inv_def new_engine_def run_inv_def waiting_inv_def stack_inv_iff out partial_run_state_fields)
  with f part ok show ?thesis by (auto simp: out partial_run_state_fields)
qed


text \<open>The node \<open>M\<close> of the diamond workflow, after \<open>A\<close> has run.\<close>

definition diamond_run :: run_data where
  "diamond_run = [(''A'', [ran [one_item ''x'']])]"

definition to_M :: destination_node where
  "to_M = \<lparr>dn_nodeName = ''M'', dn_mode = Inclusive\<rparr>"

definition prepared_M :: "(workflow \<times> nat \<times> run_state) result" where
  "prepared_M = prepare_partial (\<lambda>a b. 0) (\<lambda>_. []) diamond_workflow diamond_run [] [] to_M None"

definition prepared_stack :: "(workflow \<times> nat \<times> run_state) result \<Rightarrow> string list option" where
  "prepared_stack r = (case r of Inl _ \<Rightarrow> None
     | Inr (w, k, st) \<Rightarrow> Some (map (\<lambda>e. n_name (ed_node e)) (rs_nodeExecutionStack st)))"

lemma prepared_M_stack: "prepared_stack prepared_M = Some [''B'', ''C'']"
  by code_simp

lemma diamond_graph_parts:
  "case fromWorkflow (w_nodes diamond_workflow) (w_connectionsBySourceNode diamond_workflow) of
     Inl _ \<Rightarrow> False | Inr g \<Rightarrow> list_all (\<lambda>n. \<not> is_disabled n) (map_values (g_nodes g))"
  "named_nodes diamond_workflow"
  "getNode diamond_workflow (dn_nodeName to_M) = Some (placed_node 3 ''M'' 200 0)"
  "\<not> isTool (plain_type ''t'') (n_parameters (placed_node 3 ''M'' 200 0))"
  by code_simp+

lemma diamond_type: "node_type_of diamond_workflow (placed_node 3 ''M'' 200 0) = Some (plain_type ''t'')"
  by (simp add: node_type_of_def diamond_workflow_def make_workflow_def setSettings_def setPinData_def setConnections_def
      setNodes_def sample_types_def placed_node_def plain_node_def)

lemma diamond_graph: "\<exists>g. fromWorkflow (w_nodes diamond_workflow) (w_connectionsBySourceNode diamond_workflow) = Inr g \<and>
    (\<forall>n. is_disabled n \<longrightarrow> (n, n) \<notin> (succ_rel g)\<^sup>+)"
proof -
  obtain g where g: "fromWorkflow (w_nodes diamond_workflow) (w_connectionsBySourceNode diamond_workflow) = Inr g"
    and on: "list_all (\<lambda>n. \<not> is_disabled n) (map_values (g_nodes g))"
    using diamond_graph_parts(1) by (auto split: sum.splits)
  have "(n, n) \<notin> (succ_rel g)\<^sup>+" if n: "is_disabled n" for n
  proof
    assume "(n, n) \<in> (succ_rel g)\<^sup>+"
    then obtain m where "(n, m) \<in> succ_rel g" by (blast elim: tranclE converse_tranclE)
    then have "in_graph g n" using succ_rel_in_graph [OF fromWorkflow_wf(1) [OF g diamond_graph_parts(2)]] by blast
    then have "n \<in> set (map_values (g_nodes g))" by (rule in_graph_in_nodes)
    with on n show False by (auto simp: list_all_iff)
  qed
  with g show ?thesis by blast
qed


end
