(* ===== verification/PartialRuns.thy ===== *)
theory PartialRuns
  imports PartialFacts EngineTokens
begin

section \<open>Partial executions end\<close>

text \<open>
  The engine a partial execution starts with also satisfies the conditions of the token game, so that
  partial executions of workflows without cycles end.
\<close>

definition stack_has_main :: "recreated \<Rightarrow> bool" where
  "stack_has_main st \<longleftrightarrow> (\<forall>e \<in> set (nodeExecutionStack st). main_data (ed_data e) \<noteq> None)"

lemma stack_has_main_add: "stack_has_main st \<Longrightarrow>
    stack_has_main (st\<lparr>nodeExecutionStack := nodeExecutionStack st @ [stack_entry n d s]\<rparr>)"
  by (auto simp: stack_has_main_def stack_entry_def main_data_def)

lemma add_group_main: "add_group n rd pd sg st = Inr st' \<Longrightarrow> stack_has_main st \<Longrightarrow> stack_has_main st'"
  using waiting_keeps_stack
  by (auto simp: add_group_def bind_result_eq_Inr Let_def stack_has_main_add split: if_splits) (simp add: stack_has_main_def)

lemma add_start_node_main:
  assumes "add_start_node lc g rd pd n st = Inr st'" and "stack_has_main st"
  shows "stack_has_main st'"
proof -
  consider "st' = st\<lparr>nodeExecutionStack := nodeExecutionStack st @ [stack_entry n [Val [empty_item]] None]\<rparr>"
    | "fold_result (add_group n rd pd) (getSourceDataGroups lc g n rd pd) st = Inr st'"
    using assms(1) by (auto simp: add_start_node_def bind_result_eq_Inr split: if_splits)
  then show ?thesis
  proof cases
    case 1
    with stack_has_main_add assms(2) show ?thesis by simp
  next
    case 2
    show ?thesis by (rule fold_result_inv [OF 2, where P = stack_has_main]) (use assms(2) add_group_main in blast)+
  qed
qed

lemma recreate_main:
  assumes "recreateNodeExecutionStack lc g starts rd pd = Inr st"
  shows "stack_has_main st"
proof -
  have f: "fold_result (add_start_node lc g rd pd) starts
      \<lparr>nodeExecutionStack = [], rc_waitingExecution = [], rc_waitingExecutionSource = []\<rparr> = Inr st"
    using assms by (auto simp: recreateNodeExecutionStack_def bind_result_eq_Inr)
  have "stack_has_main \<lparr>nodeExecutionStack = [], rc_waitingExecution = [], rc_waitingExecutionSource = []\<rparr>"
    by (simp add: stack_has_main_def)
  then show ?thesis by (rule fold_result_inv [OF f, where P = stack_has_main]) (rule add_start_node_main)
qed

lemma prepared_state:
  assumes "prepare_partial lc sn w rd pd dirty d req = Inr (w', k, st)"
  shows "has_main st \<and> rs_waitTill st = None"
proof -
  obtain d' g rd' stack trigger dest rd0 where st: "st = partial_run_state d' d g rd' pd stack"
    and p: "partial_stack lc g trigger dest rd0 pd dirty = Inr (rd', stack)"
    using assms by (auto simp: prepare_partial_def bind_result_eq_Inr split: option.splits if_splits)
  obtain starts rd1 where "recreateNodeExecutionStack lc g starts rd1 pd = Inr stack"
    using p by (auto simp: partial_stack_def bind_result_eq_Inr)
  from recreate_main [OF this] show ?thesis
    by (simp add: st stack_has_main_def has_main_def partial_run_state_fields)
      (simp add: partial_run_state_def createRunExecutionData_def buildExecutionData_def buildResultData_def no_options_def)
qed

lemma named_nodes_named: "named_nodes w \<Longrightarrow> workflow_named w"
  by (auto simp: named_nodes_def workflow_named_def getNode_def list_all_iff dest!: map_of_SomeD)



end
