(* ===== verification/GraphExtraction.thy ===== *)
theory GraphExtraction
  imports ConnectionMaps
begin

section \<open>Cutting a selection out of the graph\<close>

text \<open>
  \<^verbatim>\<open>packages/workflow/src/graph/graph-utils.ts\<close>: the adjacency list of a connections object, the edges into
  and out of a selection, its roots and leaves, the search for a path, and the test whether the selection
  can be extracted: at most one node entered from outside, at most one left to the outside, and a path
  between them. Connection objects in a \<^verbatim>\<open>Set\<close> are compared by identity, and each is listed once, so such a
  set is the list of its connections.
\<close>

subsection \<open>Sets and adjacency lists\<close>

type_synonym adjacency = "(string, connection list) jsmap"

definition intersection :: "'a list \<Rightarrow> 'a list \<Rightarrow> 'a list" where
  "intersection a b = foldl (\<lambda>r x. if x \<in> set b then set_add x r else r) [] a"

definition set_union :: "'a list \<Rightarrow> 'a list \<Rightarrow> 'a list" where
  "set_union a b = foldl (\<lambda>r x. set_add x r) (foldl (\<lambda>r x. set_add x r) [] a) b"

definition difference :: "'a list \<Rightarrow> 'a list \<Rightarrow> 'a list" where
  "difference minuend subtrahend = foldl (\<lambda>r x. set_delete x r) (set_of_list minuend) subtrahend"

definition targets_of :: "adjacency \<Rightarrow> string \<Rightarrow> connection list" where
  \<comment> \<open>\<^verbatim>\<open>adjacencyList.get(n) ?? []\<close>\<close>
  "targets_of adj n = or_empty (map_get adj n)"

definition add_target :: "string \<Rightarrow> adjacency \<Rightarrow> connection \<Rightarrow> adjacency" where
  "add_target k adj v = map_set k (targets_of adj k @ [v]) adj"

definition add_slots :: "string \<Rightarrow> adjacency \<Rightarrow> node_inputs \<Rightarrow> adjacency" where
  "add_slots k adj slots = foldl (\<lambda>adj slot. foldl (add_target k) adj (slot_list slot)) adj slots"

definition buildAdjacencyList :: "connections \<Rightarrow> adjacency" where
  "buildAdjacencyList conns =
     foldl (\<lambda>adj (k, types). foldl (\<lambda>adj (ty, slots). add_slots k adj slots) adj types) [] conns"

definition getInputEdges :: "string list \<Rightarrow> adjacency \<Rightarrow> (string \<times> connection) list" where
  "getInputEdges graphIds adj =
     concat (map (\<lambda>(k, tos). if k \<in> set graphIds then []
                             else map (Pair k) (filter (\<lambda>to. c_node to \<in> set graphIds) tos)) adj)"

definition getOutputEdges :: "string list \<Rightarrow> adjacency \<Rightarrow> (string \<times> connection) list" where
  "getOutputEdges graphIds adj =
     concat (map (\<lambda>(k, tos). if k \<notin> set graphIds then []
                             else map (Pair k) (filter (\<lambda>to. c_node to \<notin> set graphIds) tos)) adj)"

subsection \<open>Roots, leaves and paths\<close>

definition other_mains :: "adjacency \<Rightarrow> string \<Rightarrow> string list" where
  "other_mains adj n =
     set_of_list (map c_node (filter (\<lambda>x. c_type x = Main \<and> c_node x \<noteq> n) (targets_of adj n)))"

definition getRootNodes :: "string list \<Rightarrow> adjacency \<Rightarrow> string list" where
  "getRootNodes graphIds adj =
     difference graphIds (foldl (\<lambda>inner n. set_union inner (other_mains adj n)) [] graphIds)"

definition getLeafNodes :: "string list \<Rightarrow> adjacency \<Rightarrow> string list" where
  "getLeafNodes graphIds adj =
     foldl (\<lambda>r n. if length (intersection (other_mains adj n) graphIds) = 0 then set_add n r else r) [] graphIds"

definition next_mains :: "adjacency \<Rightarrow> string \<Rightarrow> string list" where
  "next_mains adj n = set_of_list (map c_node (filter (\<lambda>x. c_type x = Main) (targets_of adj n)))"

lemma set_difference [simp]: "set (difference a b) = set a - set b"
proof -
  have "set (foldl (\<lambda>r x. set_delete x r) s b) = set s - set b" for s :: "'a list"
    by (induction b arbitrary: s) auto
  then show ?thesis by (simp add: difference_def)
qed

lemma distinct_difference [simp]: "distinct (difference a b)"
proof -
  have "distinct s \<Longrightarrow> distinct (foldl (\<lambda>r x. set_delete x r) s b)" for s :: "'a list"
    by (induction b arbitrary: s) auto
  then show ?thesis by (simp add: difference_def)
qed

lemma foldl_filter_add: "foldl (\<lambda>r x. if P x then set_add x r else r) s xs = foldl (\<lambda>r x. set_add x r) s (filter P xs)"
  by (induction xs arbitrary: s) auto

lemma set_intersection [simp]: "set (intersection a b) = set a \<inter> set b"
  by (auto simp: intersection_def foldl_filter_add)

lemma distinct_intersection [simp]: "distinct (intersection a b)"
  by (simp add: intersection_def foldl_filter_add)

lemma intersection_Nil [simp]: "intersection a [] = []"
  using set_intersection [of a "[]"] by (simp del: set_intersection)

lemma set_set_union [simp]: "set (set_union a b) = set a \<union> set b"
  by (simp add: set_union_def)

text \<open>The top of the stack \<^verbatim>\<open>paths\<close> is the head of the list.\<close>

definition open_names :: "adjacency \<Rightarrow> string list \<Rightarrow> string list \<Rightarrow> string set" where
  "open_names adj seen paths =
     (set paths \<union> {c_node c |c. c \<in> (\<Union>p \<in> set adj. set (snd p))}) - set seen"

lemma targets_entry: "c \<in> set (targets_of adj k) \<Longrightarrow> \<exists>tos. (k, tos) \<in> set adj \<and> c \<in> set tos"
  by (cases "map_of adj k") (auto simp: targets_of_def dest!: map_of_SomeD)

lemma targets_listed: "c \<in> set (targets_of adj n) \<Longrightarrow> c \<in> (\<Union>p \<in> set adj. set (snd p))"
  by (metis UN_I snd_conv targets_entry)

lemma next_mains_listed: "set (next_mains adj n) \<subseteq> {c_node c |c. c \<in> (\<Union>p \<in> set adj. set (snd p))}"
  using targets_listed by (auto simp: next_mains_def)

lemma finite_open_names [simp]: "finite (open_names adj seen paths)"
proof -
  have "{c_node c |c. c \<in> (\<Union>p \<in> set adj. set (snd p))} = c_node ` (\<Union>p \<in> set adj. set (snd p))" by auto
  then show ?thesis by (simp add: open_names_def)
qed

function has_path_loop :: "string \<Rightarrow> adjacency \<Rightarrow> string list \<Rightarrow> string list \<Rightarrow> bool" where
  "has_path_loop goal adj seen [] = False"
| "has_path_loop goal adj seen (x # paths) =
     (if x = goal then True
      else has_path_loop goal adj (set_add x seen)
             (rev (difference (next_mains adj x) (set_add x seen)) @ paths))"
  by pat_completeness auto

termination
proof (relation "measures
    [\<lambda>(goal, adj, seen, paths). card (open_names adj seen paths),
     \<lambda>(goal, adj, seen, paths). case paths of [] \<Rightarrow> 0 | x # _ \<Rightarrow> if x \<in> set seen then length paths else 0]")
  show "wf (measures
    [\<lambda>(goal, adj, seen, paths). card (open_names adj seen paths),
     \<lambda>(goal, adj, seen, paths). case paths of [] \<Rightarrow> 0 | x # _ \<Rightarrow> if x \<in> set seen then length paths else 0])"
    by simp
next
  fix goal x :: string and adj :: adjacency and seen paths :: "string list"
  assume "x \<noteq> goal"
  define new where "new = difference (next_mains adj x) (set_add x seen)"
  have new: "set new \<subseteq> {c_node c |c. c \<in> (\<Union>p \<in> set adj. set (snd p))} - set seen"
    using next_mains_listed [of adj x] by (auto simp: new_def)
  have sub: "open_names adj (set_add x seen) (rev new @ paths) \<subseteq> open_names adj seen (x # paths)"
    using new by (auto simp: open_names_def)
  show "((goal, adj, set_add x seen, rev (difference (next_mains adj x) (set_add x seen)) @ paths),
         goal, adj, seen, x # paths) \<in> measures
    [\<lambda>(goal, adj, seen, paths). card (open_names adj seen paths),
     \<lambda>(goal, adj, seen, paths). case paths of [] \<Rightarrow> 0 | x # _ \<Rightarrow> if x \<in> set seen then length paths else 0]"
  proof (cases "x \<in> set seen")
    case False
    have "x \<in> open_names adj seen (x # paths)" "x \<notin> open_names adj (set_add x seen) (rev new @ paths)"
      using False by (auto simp: open_names_def)
    then have "card (open_names adj (set_add x seen) (rev new @ paths)) < card (open_names adj seen (x # paths))"
      using sub by (intro psubset_card_mono) auto
    then show ?thesis by (simp add: new_def)
  next
    case True
    have le: "card (open_names adj (set_add x seen) (rev new @ paths)) \<le> card (open_names adj seen (x # paths))"
      using sub by (intro card_mono) auto
    have fresh: "y \<in> set new \<Longrightarrow> y \<notin> set seen" for y using new by auto
    have seen: "set_add x seen = seen" using True by (simp add: set_add_def)
    have pushed: "difference (next_mains adj x) seen = new" by (simp add: new_def seen)
    show ?thesis
    proof (cases "new" rule: rev_cases)
      case Nil
      with True le show ?thesis by (auto simp: seen pushed split: list.splits)
    next
      case (snoc ys y)
      with True le fresh [of y] show ?thesis by (auto simp: seen pushed)
    qed
  qed
qed

definition hasPath :: "string \<Rightarrow> string \<Rightarrow> adjacency \<Rightarrow> bool" where
  "hasPath start goal adj = has_path_loop goal adj [] [start]"

definition main_steps :: "adjacency \<Rightarrow> (string \<times> string) set" where
  "main_steps adj = {(a, b). b \<in> set (next_mains adj a)}"

lemma leaves_closed_part:
  assumes "(x, goal) \<in> R\<^sup>*" and "x \<in> S" and "goal \<notin> S" and "\<And>a b. a \<in> S \<Longrightarrow> (a, b) \<in> R \<Longrightarrow> b \<in> S \<union> T"
  shows "\<exists>t \<in> T. (t, goal) \<in> R\<^sup>*"
  using assms by (induction rule: converse_rtrancl_induct) blast+

lemma has_path_loop_iff:
  assumes "goal \<notin> set seen" and "\<And>a b. a \<in> set seen \<Longrightarrow> (a, b) \<in> main_steps adj \<Longrightarrow> b \<in> set seen \<union> set paths"
  shows "has_path_loop goal adj seen paths \<longleftrightarrow> (\<exists>y \<in> set paths. (y, goal) \<in> (main_steps adj)\<^sup>*)"
  using assms
proof (induction goal adj seen paths rule: has_path_loop.induct)
  case (1 goal adj seen)
  then show ?case by simp
next
  case (2 goal adj seen x paths)
  show ?case
  proof (cases "x = goal")
    case True
    then show ?thesis by auto
  next
    case False
    define new where "new = rev (difference (next_mains adj x) (set_add x seen))"
    have closed: "a \<in> set (set_add x seen) \<Longrightarrow> (a, b) \<in> main_steps adj \<Longrightarrow> b \<in> set (set_add x seen) \<union> set (new @ paths)" for a b
      using "2.prems"(2) by (force simp: new_def main_steps_def)
    have rest: "has_path_loop goal adj (set_add x seen) (new @ paths) \<longleftrightarrow>
        (\<exists>y \<in> set (new @ paths). (y, goal) \<in> (main_steps adj)\<^sup>*)"
      unfolding new_def using False "2.prems"(1) closed by (intro "2.IH") (auto simp: new_def)
    have "(x, goal) \<in> (main_steps adj)\<^sup>* \<Longrightarrow> \<exists>y \<in> set (new @ paths). (y, goal) \<in> (main_steps adj)\<^sup>*"
      using False "2.prems"(1) closed by (intro leaves_closed_part [of x goal _ "set (set_add x seen)"]) auto
    moreover have "y \<in> set new \<Longrightarrow> (x, y) \<in> main_steps adj" for y by (auto simp: new_def main_steps_def)
    ultimately show ?thesis
      using False rest by (auto simp: new_def intro: converse_rtrancl_into_rtrancl)
  qed
qed

lemma hasPath_iff: "hasPath start goal adj \<longleftrightarrow> (start, goal) \<in> (main_steps adj)\<^sup>*"
  unfolding hasPath_def by (subst has_path_loop_iff) auto

subsection \<open>The test of a selection\<close>

datatype extract_error =
    MultipleInputNodes "string list"
  | MultipleOutputNodes "string list"
  | InputEdgeToNonRootNode string
  | OutputEdgeFromNonLeafNode string
  | NoContinuousPath string string

type_synonym subgraph_ends = "string option \<times> string option"

definition first_value :: "'a list \<Rightarrow> 'a option" where
  \<comment> \<open>\<^verbatim>\<open>s.values().next().value\<close>\<close>
  "first_value s = (case s of [] \<Rightarrow> None | x # _ \<Rightarrow> Some x)"

definition end_errors :: "(string \<Rightarrow> extract_error) \<Rightarrow> (string list \<Rightarrow> extract_error) \<Rightarrow>
    string list \<Rightarrow> string list \<Rightarrow> extract_error list" where
  "end_errors stray many ends crossing =
     map stray (difference crossing ends) @
     (let both = intersection ends crossing in if length both > 1 then [many both] else [])"

definition tolerated :: "string list \<Rightarrow> string list \<Rightarrow> string list" where
  \<comment> \<open>a loop back to the only node entered (or left) leaves no root (or leaf)\<close>
  "tolerated ends crossing = (if length ends = 0 \<and> length crossing = 1 then crossing else ends)"

definition entered_nodes :: "string list \<Rightarrow> adjacency \<Rightarrow> string list" where
  "entered_nodes graphIds adj =
     set_of_list (map (\<lambda>x. c_node (snd x)) (filter (\<lambda>x. c_type (snd x) = Main) (getInputEdges graphIds adj)))"

definition left_nodes :: "string list \<Rightarrow> adjacency \<Rightarrow> string list" where
  "left_nodes graphIds adj =
     set_of_list (map fst (filter (\<lambda>x. c_type (snd x) = Main) (getOutputEdges graphIds adj)))"

definition nonblank :: "string option \<Rightarrow> bool" where
  "nonblank s \<longleftrightarrow> s \<noteq> None \<and> s \<noteq> Some []"

definition parseExtractableSubgraphSelection ::
  "string list \<Rightarrow> adjacency \<Rightarrow> extract_error list + subgraph_ends" where
  "parseExtractableSubgraphSelection graphIds adj =
     (let inputNodes = entered_nodes graphIds adj;
          rootNodes = tolerated (getRootNodes graphIds adj) inputNodes;
          inputErrors = end_errors InputEdgeToNonRootNode MultipleInputNodes rootNodes inputNodes;
          rootInputNodes = intersection rootNodes inputNodes;
          outputNodes = left_nodes graphIds adj;
          leafNodes = tolerated (getLeafNodes graphIds adj) outputNodes;
          outputErrors = end_errors OutputEdgeFromNonLeafNode MultipleOutputNodes leafNodes outputNodes;
          leafOutputNodes = intersection leafNodes outputNodes;
          start = first_value rootInputNodes;
          goal = first_value leafOutputNodes;
          pathErrors = (if nonblank start \<and> nonblank goal \<and> \<not> hasPath (the start) (the goal) adj
                        then [NoContinuousPath (the start) (the goal)] else []);
          errors = inputErrors @ outputErrors @ pathErrors
      in if length errors > 0 then Inl errors else Inr (start, goal))"

text \<open>
  What the test is for, without its order: the main connections that enter the selection all lead to one
  node \<open>s\<close>, which no other selected node precedes (unless every selected node is preceded by another).
\<close>

definition main_edge :: "adjacency \<Rightarrow> string \<Rightarrow> string \<Rightarrow> bool" where
  "main_edge adj a b \<longleftrightarrow> (\<exists>c \<in> set (targets_of adj a). c_type c = Main \<and> c_node c = b)"

definition entries :: "string set \<Rightarrow> (string \<Rightarrow> string \<Rightarrow> bool) \<Rightarrow> string set" where
  "entries S E = {b \<in> S. \<exists>a. a \<notin> S \<and> E a b}"

definition exits :: "string set \<Rightarrow> (string \<Rightarrow> string \<Rightarrow> bool) \<Rightarrow> string set" where
  "exits S E = {a \<in> S. \<exists>b. b \<notin> S \<and> E a b}"

definition roots :: "string set \<Rightarrow> (string \<Rightarrow> string \<Rightarrow> bool) \<Rightarrow> string set" where
  "roots S E = {b \<in> S. \<forall>a \<in> S. a \<noteq> b \<longrightarrow> \<not> E a b}"

definition leaves :: "string set \<Rightarrow> (string \<Rightarrow> string \<Rightarrow> bool) \<Rightarrow> string set" where
  "leaves S E = {a \<in> S. \<forall>b \<in> S. b \<noteq> a \<longrightarrow> \<not> E a b}"

definition single_end :: "string option \<Rightarrow> string set \<Rightarrow> string set \<Rightarrow> bool" where
  "single_end s crossing ends \<longleftrightarrow>
     (case s of None \<Rightarrow> crossing = {} | Some n \<Rightarrow> crossing = {n} \<and> (n \<in> ends \<or> ends = {}))"

lemma in_targets: "well_keyed adj \<Longrightarrow> (k, tos) \<in> set adj \<Longrightarrow> targets_of adj k = tos"
  by (simp add: targets_of_def well_keyed_get [symmetric])

lemma input_edges:
  "well_keyed adj \<Longrightarrow>
    (k, c) \<in> set (getInputEdges ids adj) \<longleftrightarrow> k \<notin> set ids \<and> c_node c \<in> set ids \<and> c \<in> set (targets_of adj k)"
  by (auto simp: getInputEdges_def in_targets split: if_splits dest!: targets_entry intro!: bexI)

lemma output_edges:
  "well_keyed adj \<Longrightarrow>
    (k, c) \<in> set (getOutputEdges ids adj) \<longleftrightarrow> k \<in> set ids \<and> c_node c \<notin> set ids \<and> c \<in> set (targets_of adj k)"
  by (auto simp: getOutputEdges_def in_targets split: if_splits dest!: targets_entry intro!: bexI)

lemma set_entered: "well_keyed adj \<Longrightarrow> set (entered_nodes ids adj) = entries (set ids) (main_edge adj)"
  by (auto simp: entered_nodes_def entries_def main_edge_def input_edges image_iff) blast+

lemma set_left: "well_keyed adj \<Longrightarrow> set (left_nodes ids adj) = exits (set ids) (main_edge adj)"
  by (auto simp: left_nodes_def exits_def main_edge_def output_edges image_iff) blast+

lemma set_other_mains: "set (other_mains adj a) = {b. b \<noteq> a \<and> main_edge adj a b}"
  by (auto simp: other_mains_def main_edge_def)

lemma set_roots: "set (getRootNodes ids adj) = roots (set ids) (main_edge adj)"
proof -
  have "set (foldl (\<lambda>inner n. set_union inner (other_mains adj n)) s xs) = set s \<union> (\<Union>n \<in> set xs. set (other_mains adj n))"
    for s xs by (induction xs arbitrary: s) auto
  then show ?thesis by (auto simp: getRootNodes_def roots_def set_other_mains)
qed

lemma set_leaves: "set (getLeafNodes ids adj) = leaves (set ids) (main_edge adj)"
  by (auto simp: getLeafNodes_def foldl_filter_add leaves_def set_other_mains set_eq_iff set_empty [symmetric]
      simp del: set_empty)

lemma main_rel_edges: "main_steps adj = {(a, b). main_edge adj a b}"
  by (auto simp: main_steps_def next_mains_def main_edge_def)

lemma first_single: "distinct xs \<Longrightarrow> set xs \<subseteq> {n} \<Longrightarrow> first_value xs = (if xs = [] then None else Some n)"
  by (cases xs) (auto simp: first_value_def)

lemma single_listed:
  assumes "distinct xs" and "set xs = {n}"
  shows "xs = [n]"
proof -
  have "length xs = 1" using distinct_card [OF assms(1)] assms(2) by simp
  with assms(2) show ?thesis by (cases xs) auto
qed

lemma end_errors_empty:
  assumes "distinct crossing"
  shows "end_errors f g (tolerated ends crossing) crossing = [] \<longleftrightarrow>
    single_end (first_value (intersection (tolerated ends crossing) crossing)) (set crossing) (set ends)"
proof -
  let ?t = "tolerated ends crossing"
  let ?both = "intersection ?t crossing"
  have "end_errors f g ?t crossing = [] \<longleftrightarrow> set crossing \<subseteq> set ?t \<and> length ?both \<le> 1"
    by (auto simp: end_errors_def Let_def set_empty [symmetric] simp del: set_empty)
  also have "\<dots> \<longleftrightarrow> single_end (first_value ?both) (set crossing) (set ends)"
  proof
    assume *: "set crossing \<subseteq> set ?t \<and> length ?both \<le> 1"
    then have both: "set ?both = set crossing" by auto
    then have "length crossing = length ?both"
      using assms by (metis distinct_card distinct_intersection)
    with * have "length crossing \<le> 1" by simp
    with * consider "crossing = []" | n where "crossing = [n]" "set ?both = {n}" "n \<in> set ?t"
      using both by (cases crossing) auto
    then show "single_end (first_value ?both) (set crossing) (set ends)"
    proof cases
      case 1
      then show ?thesis by (simp add: single_end_def first_value_def)
    next
      case 2
      then have "?both \<noteq> []" by (metis empty_set insert_not_empty)
      then have "first_value ?both = Some n"
        using first_single [OF distinct_intersection, of "?t" crossing n] 2(2) by simp
      with 2 show ?thesis by (auto simp: single_end_def tolerated_def split: if_splits)
    qed
  next
    assume *: "single_end (first_value ?both) (set crossing) (set ends)"
    show "set crossing \<subseteq> set ?t \<and> length ?both \<le> 1"
    proof (cases "first_value ?both")
      case None
      with * show ?thesis by (simp add: single_end_def)
    next
      case (Some n)
      with * have c: "crossing = [n]" "n \<in> set ends \<or> ends = []"
        using single_listed [OF assms] by (simp_all add: single_end_def)
      then have "set ?both \<subseteq> {n}" by auto
      then have "length ?both \<le> 1"
        using distinct_card [OF distinct_intersection [of ?t crossing]] card_mono [of "{n}" "set ?both"] by simp
      with c show ?thesis by (auto simp: tolerated_def)
    qed
  qed
  finally show ?thesis .
qed

lemma parse_iff:
  assumes "well_keyed adj"
  shows "parseExtractableSubgraphSelection ids adj = Inr (start, goal) \<longleftrightarrow>
     single_end start (entries (set ids) (main_edge adj)) (roots (set ids) (main_edge adj)) \<and>
     single_end goal (exits (set ids) (main_edge adj)) (leaves (set ids) (main_edge adj)) \<and>
     (nonblank start \<and> nonblank goal \<longrightarrow> (the start, the goal) \<in> {(a, b). main_edge adj a b}\<^sup>*)"
proof -
  let ?in = "entered_nodes ids adj" and ?out = "left_nodes ids adj"
  let ?s = "first_value (intersection (tolerated (getRootNodes ids adj) ?in) ?in)"
  let ?g = "first_value (intersection (tolerated (getLeafNodes ids adj) ?out) ?out)"
  have d: "distinct ?in" "distinct ?out" by (simp_all add: entered_nodes_def left_nodes_def)
  have unique: "single_end s C E \<Longrightarrow> single_end s' C E' \<Longrightarrow> s = s'" for s s' C E E'
    by (auto simp: single_end_def split: option.splits)
  have "single_end s (set crossing) (set ends) \<Longrightarrow>
      first_value (intersection (tolerated ends crossing) crossing) = s" if "distinct crossing" for s crossing ends
  proof -
    assume s: "single_end s (set crossing) (set ends)"
    show ?thesis
    proof (cases s)
      case None
      with s show ?thesis by (simp add: single_end_def first_value_def)
    next
      case (Some n)
      with s have c: "crossing = [n]" "n \<in> set ends \<or> ends = []"
        using single_listed [OF that] by (simp_all add: single_end_def)
      then have "set (intersection (tolerated ends crossing) crossing) = {n}" by (auto simp: tolerated_def)
      then show ?thesis
        using first_single [OF distinct_intersection] Some by (metis empty_set insert_not_empty subset_refl)
    qed
  qed
  then have start: "single_end s (set ?in) (set (getRootNodes ids adj)) \<Longrightarrow> ?s = s"
    and goal: "single_end s (set ?out) (set (getLeafNodes ids adj)) \<Longrightarrow> ?g = s" for s
    using d by blast+
  show ?thesis
    using start [of start] goal [of goal] end_errors_empty [OF d(1), of InputEdgeToNonRootNode MultipleInputNodes "getRootNodes ids adj"]
      end_errors_empty [OF d(2), of OutputEdgeFromNonLeafNode MultipleOutputNodes "getLeafNodes ids adj"]
    unfolding parseExtractableSubgraphSelection_def Let_def hasPath_iff main_rel_edges
      set_entered [OF assms] set_left [OF assms] set_roots set_leaves
    by (auto simp: append_eq_conv_conj)
qed

lemma targets_map_set: "targets_of (map_set k v adj) n = (if n = k then v else targets_of adj n)"
  by (simp add: targets_of_def map_get_set)

lemma targets_foldl_add:
  "targets_of (foldl (add_target k) adj cs) n = (if n = k then targets_of adj k @ cs else targets_of adj n)"
  by (induction cs arbitrary: adj) (auto simp: add_target_def targets_map_set)

lemma targets_add_slots:
  "targets_of (add_slots k adj slots) n =
     (if n = k then targets_of adj k @ concat (map slot_list slots) else targets_of adj n)"
  by (induction slots arbitrary: adj) (auto simp: add_slots_def targets_foldl_add)

definition listed_targets :: "node_connections \<Rightarrow> connection list" where
  "listed_targets types = concat (map (\<lambda>q. concat (map slot_list (snd q))) types)"

lemma targets_add_types:
  "targets_of (foldl (\<lambda>adj (ty, slots). add_slots k adj slots) adj types) n =
     (if n = k then targets_of adj k @ listed_targets types else targets_of adj n)"
  by (induction types arbitrary: adj) (auto simp: targets_add_slots listed_targets_def)

lemma targets_build_from:
  "well_keyed conns \<Longrightarrow>
    targets_of (foldl (\<lambda>adj (k, types). foldl (\<lambda>adj (ty, slots). add_slots k adj slots) adj types) adj conns) n =
      targets_of adj n @ (case map_of conns n of None \<Rightarrow> [] | Some types \<Rightarrow> listed_targets types)"
proof (induction conns arbitrary: adj)
  case Nil
  then show ?case by simp
next
  case (Cons p conns)
  moreover have "map_of conns (fst p) = None"
    using Cons.prems by (auto simp: well_keyed_def map_of_eq_None_iff)
  ultimately show ?case
    by (cases p) (auto simp: targets_add_types well_keyed_def split: option.splits)
qed

lemma targets_build:
  "well_keyed conns \<Longrightarrow>
    targets_of (buildAdjacencyList conns) n =
      (case map_of conns n of None \<Rightarrow> [] | Some types \<Rightarrow> listed_targets types)"
  unfolding buildAdjacencyList_def by (subst targets_build_from) (simp_all add: targets_of_def)

lemma well_keyed_build [simp]: "well_keyed (buildAdjacencyList conns)"
  unfolding buildAdjacencyList_def add_slots_def add_target_def
  by (auto intro!: foldl_keeps [of well_keyed] split: prod.splits)

text \<open>A connection in the connections object, of whatever type.\<close>

definition any_link :: "connections \<Rightarrow> string \<Rightarrow> connection \<Rightarrow> bool" where
  "any_link conns a c \<longleftrightarrow> (\<exists>t i. has_link conns a t i c)"

lemma in_listed_targets:
  "well_keyed types \<Longrightarrow> c \<in> set (listed_targets types) \<longleftrightarrow>
    (\<exists>t slots i. obj_get types t = Some slots \<and> i < length slots \<and> c \<in> set (slot_list (slots ! i)))"
proof -
  assume wk: "well_keyed types"
  have "c \<in> set (listed_targets types) \<longleftrightarrow> (\<exists>t slots. (t, slots) \<in> set types \<and> (\<exists>sl \<in> set slots. c \<in> set (slot_list sl)))"
    by (force simp: listed_targets_def)
  also have "\<dots> \<longleftrightarrow> (\<exists>t slots. obj_get types t = Some slots \<and> (\<exists>i < length slots. c \<in> set (slot_list (slots ! i))))"
    by (simp add: well_keyed_get [OF wk] Bex_def in_set_conv_nth) blast
  finally show ?thesis by blast
qed

lemma in_build:
  assumes "well_keyed_connections conns"
  shows "c \<in> set (targets_of (buildAdjacencyList conns) a) \<longleftrightarrow> any_link conns a c"
proof -
  have wk: "well_keyed conns" "\<And>types. map_of conns a = Some types \<Longrightarrow> well_keyed types"
    using assms by (auto simp: well_keyed_connections_def list_all_iff dest!: map_of_SomeD)
  show ?thesis
  proof (cases "map_of conns a")
    case None
    then show ?thesis using wk by (simp add: targets_build any_link_def has_link_def)
  next
    case (Some types)
    then have "any_link conns a c \<longleftrightarrow>
        (\<exists>t slots i. obj_get types t = Some slots \<and> i < length slots \<and> c \<in> set (slot_list (slots ! i)))"
      unfolding any_link_def has_link_def by (simp) blast
    with Some show ?thesis using wk by (simp add: targets_build in_listed_targets)
  qed
qed

definition main_link :: "connections \<Rightarrow> string \<Rightarrow> string \<Rightarrow> bool" where
  "main_link conns a b \<longleftrightarrow> (\<exists>c. any_link conns a c \<and> c_type c = Main \<and> c_node c = b)"

lemma main_edge_build: "well_keyed_connections conns \<Longrightarrow> main_edge (buildAdjacencyList conns) = main_link conns"
  by (auto simp: fun_eq_iff main_edge_def main_link_def Bex_def in_build)

lemma extractable_iff:
  "well_keyed_connections conns \<Longrightarrow>
    parseExtractableSubgraphSelection ids (buildAdjacencyList conns) = Inr (start, goal) \<longleftrightarrow>
     single_end start (entries (set ids) (main_link conns)) (roots (set ids) (main_link conns)) \<and>
     single_end goal (exits (set ids) (main_link conns)) (leaves (set ids) (main_link conns)) \<and>
     (nonblank start \<and> nonblank goal \<longrightarrow> (the start, the goal) \<in> {(a, b). main_link conns a b}\<^sup>*)"
  by (simp add: parse_iff main_edge_build)

text \<open>
  C22. A selection can be extracted exactly if the main connections from outside all enter at one root of it, those to
  the outside all leave from one leaf of it, and the leaf can be reached from the root; a selection without roots
  (or leaves) may be entered (or left) at any one node. The ends returned are that root and that leaf.
\<close>

theorem parseExtractableSubgraphSelection_spec:
  "well_keyed_connections conns \<Longrightarrow>
    parseExtractableSubgraphSelection ids (buildAdjacencyList conns) = Inr (start, goal) \<longleftrightarrow>
     single_end start (entries (set ids) (main_link conns)) (roots (set ids) (main_link conns)) \<and>
     single_end goal (exits (set ids) (main_link conns)) (leaves (set ids) (main_link conns)) \<and>
     (nonblank start \<and> nonblank goal \<longrightarrow> (the start, the goal) \<in> {(a, b). main_link conns a b}\<^sup>*)"
  by (rule extractable_iff)

definition chain_connections :: connections where
  \<comment> \<open>a to b to c to d, each a main connection\<close>
  "chain_connections =
     map (\<lambda>(a, b). (a, [(Main, [Val [\<lparr>c_node = b, c_type = Main, c_index = 0\<rparr>]])]))
       [(''a'', ''b''), (''b'', ''c''), (''c'', ''d'')]"

lemma chain_middle:
  "parseExtractableSubgraphSelection [''c'', ''b''] (buildAdjacencyList chain_connections) = Inr (Some ''b'', Some ''c'')"
  by code_simp

lemma chain_ends:
  "parseExtractableSubgraphSelection [''a'', ''d''] (buildAdjacencyList chain_connections) =
     Inl [NoContinuousPath ''d'' ''a'']"
  by code_simp

theorem parseExtractableSubgraphSelection_spec_witness:
  "entries {''c'', ''b''} (main_link chain_connections) = {''b''} \<and>
   exits {''c'', ''b''} (main_link chain_connections) = {''c''}"
proof -
  have "well_keyed_connections chain_connections"
    by (simp add: well_keyed_connections_def chain_connections_def well_keyed_def)
  from iffD1 [OF parseExtractableSubgraphSelection_spec [OF this] chain_middle]
  show ?thesis by (simp add: single_end_def)
qed

end
