(* ===== verification/NodeGrouping.thy ===== *)
theory NodeGrouping
  imports GraphExtraction WorkflowModel Traversal
begin

section \<open>Groups of nodes\<close>

text \<open>
  \<^verbatim>\<open>packages/workflow/src/node-grouping-validation.ts\<close>: which selections of nodes may become a group or be
  extracted into a workflow of their own, the validation of all groups of a workflow, and the removal of the
  groups that violate a rule. Groups are compared by identity in the source; here a group is identified by
  its position among the groups, so that groups with equal fields stay apart. An empty string is falsy.
\<close>

subsection \<open>Descriptions\<close>

definition GROUP_DESCRIPTION_MAX_LENGTH :: nat where "GROUP_DESCRIPTION_MAX_LENGTH = 145"

definition normalizeGroupDescription :: "js \<Rightarrow> string option" where
  "normalizeGroupDescription description =
     (case description of
        JStr s \<Rightarrow> let capped = take GROUP_DESCRIPTION_MAX_LENGTH s
                  in if length capped > 0 then Some capped else None
      | _ \<Rightarrow> None)"

lemma normalizeGroupDescription_idem:
  "normalizeGroupDescription d = Some s \<Longrightarrow> normalizeGroupDescription (JStr s) = Some s"
  by (auto simp: normalizeGroupDescription_def Let_def split: js.splits if_splits)

subsection \<open>Connected selections\<close>

type_synonym neighbours = "(string, string list) jsmap"

definition add_neighbour :: "string \<Rightarrow> string \<Rightarrow> neighbours \<Rightarrow> neighbours" where
  \<comment> \<open>\<^verbatim>\<open>m.get(a)?.add(b)\<close>\<close>
  "add_neighbour a b m = (case map_get m a of None \<Rightarrow> m | Some s \<Rightarrow> map_set a (set_add b s) m)"

definition add_neighbours :: "string list \<Rightarrow> string \<Rightarrow> connection list \<Rightarrow> neighbours \<Rightarrow> neighbours" where
  "add_neighbours nodeNames source cs m =
     (if source \<notin> set nodeNames then m
      else foldl (\<lambda>m c. if c_node c \<notin> set nodeNames \<or> c_node c = source then m
                        else add_neighbour (c_node c) source (add_neighbour source (c_node c) m)) m cs)"

definition neighboursByNodeName :: "string list \<Rightarrow> adjacency \<Rightarrow> neighbours" where
  "neighboursByNodeName nodeNames adj =
     foldl (\<lambda>m (source, cs). add_neighbours nodeNames source cs m) (foldl (\<lambda>m n. map_set n [] m) [] nodeNames) adj"

definition neighbours_of :: "neighbours \<Rightarrow> string \<Rightarrow> string list" where
  "neighbours_of m n = or_empty (map_get m n)"

definition visit_neighbour :: "string list \<times> string list \<Rightarrow> string \<Rightarrow> string list \<times> string list" where
  "visit_neighbour vq n = (case vq of (visited, queue) \<Rightarrow>
     if n \<in> set visited then (visited, queue) else (set_add n visited, queue @ [n]))"

lemma visit_neighbours:
  "\<exists>new. foldl visit_neighbour (visited, queue) ns = (visited @ new, queue @ new) \<and> distinct new \<and>
     set new = set ns - set visited"
proof (induction ns arbitrary: visited queue)
  case Nil
  then show ?case by simp
next
  case (Cons n ns)
  show ?case
  proof (cases "n \<in> set visited")
    case True
    with Cons [of visited queue] show ?thesis by (auto simp: visit_neighbour_def)
  next
    case False
    obtain new where "foldl visit_neighbour (visited @ [n], queue @ [n]) ns = ((visited @ [n]) @ new, (queue @ [n]) @ new)"
      "distinct new" "set new = set ns - set (visited @ [n])"
      using Cons [of "visited @ [n]" "queue @ [n]"] by blast
    moreover have "set (n # new) = set (n # ns) - set visited" "distinct (n # new)"
      using calculation(2,3) False by auto
    moreover have "foldl visit_neighbour (visited, queue) (n # ns) =
        foldl visit_neighbour (visited @ [n], queue @ [n]) ns"
      using False by (simp add: visit_neighbour_def set_add_def)
    ultimately show ?thesis by (metis append.assoc append_Cons append_Nil)
  qed
qed

definition not_visited :: "neighbours \<Rightarrow> string list \<Rightarrow> string set" where
  "not_visited m visited = (\<Union>p \<in> set m. set (snd p)) - set visited"

lemma neighbours_listed: "set (neighbours_of m n) \<subseteq> (\<Union>p \<in> set m. set (snd p))"
  by (cases "map_of m n") (auto simp: neighbours_of_def dest!: map_of_SomeD)

function connect_rounds :: "neighbours \<Rightarrow> string list \<Rightarrow> string list \<Rightarrow> string list" where
  "connect_rounds m [] visited = visited"
| "connect_rounds m (current # queue) visited =
     (if current = [] then connect_rounds m queue visited
      else let (visited', queue') = foldl visit_neighbour (visited, queue) (neighbours_of m current)
           in connect_rounds m queue' visited')"
  by pat_completeness auto

termination
proof (relation "measure (\<lambda>(m, queue, visited). length queue + card (not_visited m visited))")
  fix m :: neighbours and current and queue visited :: "string list" and x visited' queue'
  assume x: "x = foldl visit_neighbour (visited, queue) (neighbours_of m current)" "(visited', queue') = x"
  obtain new where new: "visited' = visited @ new" "queue' = queue @ new" "distinct new"
      "set new = set (neighbours_of m current) - set visited"
    using visit_neighbours [of visited queue "neighbours_of m current"] x by auto
  have sub: "set new \<subseteq> not_visited m visited" using new(4) neighbours_listed [of m current] unfolding not_visited_def by blast
  have "not_visited m visited' = not_visited m visited - set new" by (auto simp: not_visited_def new)
  moreover have "finite (not_visited m visited)" by (simp add: not_visited_def)
  ultimately have "card (not_visited m visited') + length new = card (not_visited m visited)"
    using sub distinct_card [OF new(3)] card_mono [of "not_visited m visited" "set new"]
    by (simp add: card_Diff_subset)
  with new(2) show "((m, queue', visited'), m, current # queue, visited) \<in>
      measure (\<lambda>(m, queue, visited). length queue + card (not_visited m visited))"
    by simp
qed auto

definition findDisconnectedSelectionError :: "string list \<Rightarrow> adjacency \<Rightarrow> extract_error option" where
  "findDisconnectedSelectionError nodeNames adj =
     (if length nodeNames \<le> 1 then None
      else case first_value nodeNames of
        None \<Rightarrow> None
      | Some firstNodeName \<Rightarrow>
          if firstNodeName = [] then None
          else let visited = connect_rounds (neighboursByNodeName nodeNames adj) [firstNodeName] [firstNodeName]
               in if length visited = length nodeNames then None
                  else case find (\<lambda>n. n \<notin> set visited) nodeNames of
                         None \<Rightarrow> None
                       | Some n \<Rightarrow> if n = [] then None else Some (NoContinuousPath firstNodeName n))"

subsection \<open>Selections\<close>

datatype selection_failure =
    TriggerSelected "string list"
  | InvalidSubgraph "extract_error list"
  | MultipleInputBranches string
  | MultipleOutputBranches string
  | NodeAlreadyGrouped "string list"
  | NonMainBoundary string string connection_type

type_synonym get_node_type = "node \<Rightarrow> node_type option"
type_synonym selection_result = "selection_failure + (node list \<times> subgraph_ends)"

record workflow_group =
  g_id :: string
  g_name :: string
  g_nodeIds :: "string list"
  g_description :: "string option"

definition selected_trigger :: "get_node_type \<Rightarrow> node \<Rightarrow> bool" where
  "selected_trigger getNodeType n =
     (case getNodeType n of None \<Rightarrow> False | Some t \<Rightarrow> ''trigger'' \<in> set (nt_group t))"

definition validateNodeSelectionSubgraph ::
  "node list \<Rightarrow> connections \<Rightarrow> get_node_type \<Rightarrow> selection_result" where
  "validateNodeSelectionSubgraph nodes conns getNodeType =
     (let triggers = filter (selected_trigger getNodeType) nodes
      in if length triggers > 0 then Inl (TriggerSelected (map n_name triggers))
         else let adj = buildAdjacencyList conns;
                  selectedNodeNames = set_of_list (map n_name nodes)
              in case parseExtractableSubgraphSelection selectedNodeNames adj of
                   Inl errors \<Rightarrow> Inl (InvalidSubgraph errors)
                 | Inr selection \<Rightarrow>
                     (case findDisconnectedSelectionError selectedNodeNames adj of
                        Some e \<Rightarrow> Inl (InvalidSubgraph [e])
                      | None \<Rightarrow> Inr (nodes, selection)))"

definition isMainIo :: "port \<Rightarrow> bool" where
  "isMainIo io \<longleftrightarrow> port_type io = Main"

definition single_main :: "ports \<Rightarrow> bool" where
  "single_main ios = (case ios of PortExpression _ \<Rightarrow> True | Ports ps \<Rightarrow> length (filter isMainIo ps) \<le> 1)"

definition hasSingleMainIO ::
  "string \<Rightarrow> (node_type \<Rightarrow> ports) \<Rightarrow> (string, node) jsmap \<Rightarrow> get_node_type \<Rightarrow>
     (node \<Rightarrow> node_type \<Rightarrow> port list option) \<Rightarrow> bool" where
  \<comment> \<open>the direction is the pair of \<open>declared\<close> ports and the optional callback \<open>getPorts\<close>\<close>
  "hasSingleMainIO nodeName declared nodesByName getNodeType getPorts =
     (case map_get nodesByName nodeName of
        None \<Rightarrow> True
      | Some n \<Rightarrow> (case getNodeType n of
          None \<Rightarrow> True
        | Some t \<Rightarrow> single_main (case getPorts n t of Some ps \<Rightarrow> Ports ps | None \<Rightarrow> declared t)))"

definition validateNodeSelectionForExtraction ::
  "node list \<Rightarrow> connections \<Rightarrow> get_node_type \<Rightarrow> (node \<Rightarrow> node_type \<Rightarrow> port list option) \<Rightarrow>
     (node \<Rightarrow> node_type \<Rightarrow> port list option) \<Rightarrow> selection_result" where
  "validateNodeSelectionForExtraction nodes conns getNodeType getNodeInputs getNodeOutputs =
     (case validateNodeSelectionSubgraph nodes conns getNodeType of
        Inl e \<Rightarrow> Inl e
      | Inr (sub, start, goal) \<Rightarrow>
          let nodesByName = foldl (\<lambda>m n. map_set (n_name n) n m) [] nodes
          in if nonblank start \<and> \<not> hasSingleMainIO (the start) nt_inputs nodesByName getNodeType getNodeInputs
             then Inl (MultipleInputBranches (the start))
             else if nonblank goal \<and> \<not> hasSingleMainIO (the goal) nt_outputs nodesByName getNodeType getNodeOutputs
             then Inl (MultipleOutputBranches (the goal))
             else Inr (sub, start, goal))"

definition typed_links :: "connections \<Rightarrow> (string \<times> connection_type \<times> connection) list" where
  \<comment> \<open>the order of the three nested loops\<close>
  "typed_links conns =
     concat (map (\<lambda>(source, types).
       concat (map (\<lambda>(ty, slots). map (\<lambda>c. (source, ty, c)) (concat (map slot_list slots))) types)) conns)"

definition crosses :: "string list \<Rightarrow> string \<times> connection_type \<times> connection \<Rightarrow> bool" where
  "crosses nodeNames l = (case l of (source, ty, c) \<Rightarrow>
     ty \<noteq> Main \<and> (source \<in> set nodeNames) \<noteq> (c_node c \<in> set nodeNames))"

definition findNonMainBoundaryConnection ::
  "string list \<Rightarrow> connections \<Rightarrow> (string \<times> string \<times> connection_type) option" where
  "findNonMainBoundaryConnection nodeNames conns =
     map_option (\<lambda>(source, ty, c). (source, c_node c, ty)) (find (crosses nodeNames) (typed_links conns))"

definition findAlreadyGroupedNodeIds :: "string list \<Rightarrow> workflow_group list \<Rightarrow> string list" where
  "findAlreadyGroupedNodeIds selectionNodeIds existing =
     (let grouped = set_of_list (concat (map g_nodeIds existing)) in filter (\<lambda>i. i \<in> set grouped) selectionNodeIds)"

definition STICKY_NODE_TYPE :: string where "STICKY_NODE_TYPE = ''n8n-nodes-base.stickyNote''"

definition validateNodeSelectionForGrouping ::
  "node list \<Rightarrow> connections \<Rightarrow> get_node_type \<Rightarrow> workflow_group list \<Rightarrow> selection_result" where
  "validateNodeSelectionForGrouping nodes conns getNodeType existing =
     (let grouped = findAlreadyGroupedNodeIds (map n_id nodes) existing
      in if length grouped > 0 then Inl (NodeAlreadyGrouped grouped)
         else let connectable = filter (\<lambda>n. n_type n \<noteq> STICKY_NODE_TYPE) nodes
              in if length connectable = 0 then Inr (nodes, None, None)
                 else case validateNodeSelectionSubgraph connectable conns getNodeType of
                        Inl e \<Rightarrow> Inl e
                      | Inr (sub, ends) \<Rightarrow>
                          (case findNonMainBoundaryConnection (set_of_list (map n_name sub)) conns of
                             Some (source, target, ty) \<Rightarrow> Inl (NonMainBoundary source target ty)
                           | None \<Rightarrow> Inr (nodes, ends)))"

subsection \<open>Connected selections are found\<close>

definition near :: "neighbours \<Rightarrow> string \<Rightarrow> string set" where
  "near m a = set (neighbours_of m a)"

lemma map_has_set [simp]: "map_has (map_set k v m) x \<longleftrightarrow> x = k \<or> map_has m x"
  by (simp add: map_has_def map_get_set)

lemma near_set: "near (map_set k v m) x = (if x = k then set v else near m x)"
  by (simp add: near_def neighbours_of_def map_get_set)

lemma map_has_add [simp]: "map_has (add_neighbour a b m) x = map_has m x"
  by (auto simp: add_neighbour_def map_has_def map_get_set split: option.splits)

lemma near_add: "map_has m a \<Longrightarrow> near (add_neighbour a b m) x = near m x \<union> (if x = a then {b} else {})"
  by (auto simp: add_neighbour_def map_has_def near_def neighbours_of_def map_get_set split: option.splits)

definition links_in :: "string set \<Rightarrow> string \<Rightarrow> connection list \<Rightarrow> (string \<times> string) set" where
  "links_in S source cs = {(source, c_node c) |c. c \<in> set cs \<and> source \<in> S \<and> c_node c \<in> S \<and> c_node c \<noteq> source}"

lemma add_neighbours_near:
  assumes "\<And>x. x \<in> set names \<Longrightarrow> map_has m x"
  shows "near (add_neighbours names source cs m) x = near m x \<union> (links_in (set names) source cs \<union> (links_in (set names) source cs)\<inverse>) `` {x}"
    and "map_has (add_neighbours names source cs m) y = map_has m y"
proof -
  let ?f = "\<lambda>m c. if c_node c \<notin> set names \<or> c_node c = source then m
                   else add_neighbour (c_node c) source (add_neighbour source (c_node c) m)"
  have keys: "map_has (foldl ?f m cs) y = map_has m y" for y m
    by (induction cs arbitrary: m) auto
  then show "map_has (add_neighbours names source cs m) y = map_has m y" by (simp add: add_neighbours_def)
  have "near (foldl ?f m cs) x = near m x \<union> (links_in (set names) source cs \<union> (links_in (set names) source cs)\<inverse>) `` {x}"
    if "source \<in> set names" using assms
  proof (induction cs arbitrary: m)
    case Nil
    then show ?case by (simp add: links_in_def)
  next
    case (Cons c cs)
    have "near (?f m c) x = near m x \<union> (links_in (set names) source [c] \<union> (links_in (set names) source [c])\<inverse>) `` {x}"
      using that Cons.prems by (auto simp: near_add links_in_def)
    moreover have "near (foldl ?f (?f m c) cs) x =
        near (?f m c) x \<union> (links_in (set names) source cs \<union> (links_in (set names) source cs)\<inverse>) `` {x}"
      using Cons.prems by (intro Cons.IH) auto
    moreover have "links_in (set names) source (c # cs) = links_in (set names) source [c] \<union> links_in (set names) source cs"
      by (auto simp: links_in_def)
    ultimately show ?case by auto
  qed
  then show "near (add_neighbours names source cs m) x =
      near m x \<union> (links_in (set names) source cs \<union> (links_in (set names) source cs)\<inverse>) `` {x}"
    by (cases "source \<in> set names") (auto simp: add_neighbours_def links_in_def)
qed

definition links_within :: "string set \<Rightarrow> adjacency \<Rightarrow> (string \<times> string) set" where
  "links_within S adj = (\<Union>p \<in> set adj. links_in S (fst p) (snd p))"

lemma near_names:
  "near (neighboursByNodeName names adj) x = (links_within (set names) adj \<union> (links_within (set names) adj)\<inverse>) `` {x}"
proof -
  let ?m = "foldl (\<lambda>m n. map_set n [] m) ([] :: neighbours) names"
  have keys: "map_has (foldl (\<lambda>m n. map_set n [] m) m xs) y \<longleftrightarrow> y \<in> set xs \<or> map_has m y" for m :: neighbours and xs y
    by (induction xs arbitrary: m) auto
  have has: "y \<in> set names \<Longrightarrow> map_has ?m y" for y by (simp add: keys)
  have "near m y = {} \<Longrightarrow> near (foldl (\<lambda>m n. map_set n [] m) m xs) y = {}" for m xs y
    by (induction xs arbitrary: m) (auto simp: near_set)
  then have empty: "near ?m x = {}" by (simp add: near_def neighbours_of_def)
  have "near (foldl (\<lambda>m (source, cs). add_neighbours names source cs m) m es) x =
      near m x \<union> (links_within (set names) es \<union> (links_within (set names) es)\<inverse>) `` {x}"
    if "\<And>y. y \<in> set names \<Longrightarrow> map_has m y" for m es using that
  proof (induction es arbitrary: m)
    case Nil
    then show ?case by (simp add: links_within_def)
  next
    case (Cons p es)
    obtain s cs where p: "p = (s, cs)" by force
    show ?case
      using Cons.prems by (simp add: p Cons.IH add_neighbours_near) (auto simp: links_within_def p)
  qed
  from this [OF has] empty show ?thesis by (simp add: neighboursByNodeName_def)
qed

lemma connect_rounds_reach:
  assumes "distinct visited" and "set queue \<subseteq> set visited"
    and "\<And>a b. a \<in> set visited \<Longrightarrow> a \<notin> set queue \<Longrightarrow> b \<in> near m a \<Longrightarrow> b \<in> set visited"
    and "[] \<notin> set visited" and "\<And>a. [] \<notin> near m a"
  shows "distinct (connect_rounds m queue visited) \<and>
    set (connect_rounds m queue visited) = {(a, b). b \<in> near m a}\<^sup>* `` set visited"
  using assms
proof (induction m queue visited rule: connect_rounds.induct)
  case (1 m visited)
  have "{(a, b). b \<in> near m a}\<^sup>* `` set visited \<subseteq> set visited"
    using 1 by (intro closed_reach) auto
  with 1 show ?case by auto
next
  case (2 m current queue visited)
  have cur: "current \<noteq> []" "current \<in> set visited" using 2 by auto
  obtain new where new: "foldl visit_neighbour (visited, queue) (neighbours_of m current) = (visited @ new, queue @ new)"
      "distinct new" "set new = near m current - set visited"
    using visit_neighbours [of visited queue "neighbours_of m current"] by (auto simp: near_def)
  have step: "connect_rounds m (current # queue) visited = connect_rounds m (queue @ new) (visited @ new)"
    using cur by (simp add: new)
  have "distinct (connect_rounds m (queue @ new) (visited @ new)) \<and>
      set (connect_rounds m (queue @ new) (visited @ new)) = {(a, b). b \<in> near m a}\<^sup>* `` set (visited @ new)"
    using 2(2)[OF cur(1) new(1)[symmetric] refl] 2(3-) new cur by (auto simp: new)
  moreover have "{(a, b). b \<in> near m a}\<^sup>* `` set (visited @ new) = {(a, b). b \<in> near m a}\<^sup>* `` set visited"
    using new(3) cur(2) by (auto intro: converse_rtrancl_into_rtrancl)
  ultimately show ?case by (simp only: step)
qed

text \<open>A selection is connected when the connections among its nodes, taken in both directions, join them.\<close>

definition connected_by :: "(string \<times> string) set \<Rightarrow> string set \<Rightarrow> bool" where
  "connected_by E S \<longleftrightarrow> (\<forall>a \<in> S. \<forall>b \<in> S. (a, b) \<in> (E \<union> E\<inverse>)\<^sup>*)"

lemma sym_reach: "(a, b) \<in> (E \<union> E\<inverse>)\<^sup>* \<Longrightarrow> (b, a) \<in> (E \<union> E\<inverse>)\<^sup>*"
  by (meson symD sym_Un_converse sym_rtrancl)

lemma connected_by_first:
  assumes "n \<in> S"
  shows "connected_by E S \<longleftrightarrow> (\<forall>b \<in> S. (n, b) \<in> (E \<union> E\<inverse>)\<^sup>*)"
  using assms sym_reach rtrancl_trans unfolding connected_by_def by metis

lemma findDisconnected_iff:
  assumes "distinct names" and "[] \<notin> set names"
  shows "findDisconnectedSelectionError names adj = None \<longleftrightarrow> connected_by (links_within (set names) adj) (set names)"
proof (cases names)
  case Nil
  then show ?thesis by (simp add: findDisconnectedSelectionError_def connected_by_def)
next
  case (Cons n ns)
  show ?thesis
  proof (cases "ns = []")
    case True
    with Cons show ?thesis by (simp add: findDisconnectedSelectionError_def connected_by_def)
  next
    case False
    let ?E = "links_within (set names) adj" and ?m = "neighboursByNodeName names adj"
    define visited where "visited = connect_rounds ?m [n] [n]"
    have E: "?E \<subseteq> set names \<times> set names" by (auto simp: links_within_def links_in_def)
    have rel: "{(a, b). b \<in> near ?m a} = ?E \<union> ?E\<inverse>" by (auto simp: near_names)
    have "[] \<notin> near ?m a" for a using E assms(2) by (auto simp: near_names)
    then have v: "distinct visited" "set visited = (?E \<union> ?E\<inverse>)\<^sup>* `` {n}"
      using connect_rounds_reach [of "[n]" "[n]" ?m] assms Cons rel by (auto simp: visited_def)
    have sub: "set visited \<subseteq> set names"
      unfolding v(2) using E Cons by (intro closed_reach [of "{n}" "set names" "?E \<union> ?E\<inverse>", simplified]) auto
    have "length visited = length names \<longleftrightarrow> set visited = set names"
      using sub distinct_card [OF v(1)] distinct_card [OF assms(1)] card_subset_eq [of "set names" "set visited"] by auto
    then have "length visited = length names \<longleftrightarrow> connected_by ?E (set names)"
      using sub v(2) connected_by_first [of n "set names"] Cons by auto
    moreover have "findDisconnectedSelectionError names adj = None \<longleftrightarrow> length visited = length names"
    proof -
      have "length visited \<noteq> length names \<Longrightarrow> find (\<lambda>n. n \<notin> set visited) names \<noteq> None"
        using sub \<open>length visited = length names \<longleftrightarrow> set visited = set names\<close> by (auto simp: find_None_iff)
      moreover have "find (\<lambda>n. n \<notin> set visited) names = Some k \<Longrightarrow> k \<noteq> []" for k
        using assms(2) by (metis find_Some_iff nth_mem)
      moreover have "length names > 1" "first_value names = Some n" "n \<noteq> []"
        using Cons False assms(2) by (auto simp: first_value_def)
      moreover from this have "findDisconnectedSelectionError names adj =
          (if length visited = length names then None
           else case find (\<lambda>n. n \<notin> set visited) names of
                  None \<Rightarrow> None | Some k \<Rightarrow> if k = [] then None else Some (NoContinuousPath n k))"
        unfolding findDisconnectedSelectionError_def Let_def by (simp add: visited_def del: connect_rounds.simps)
      ultimately show ?thesis by (auto split: option.splits)
    qed
    ultimately show ?thesis by simp
  qed
qed

subsection \<open>What makes a selection a group\<close>

text \<open>The connections of any type between two nodes of a selection, and those of other types across its boundary.\<close>

definition inner_links :: "connections \<Rightarrow> string set \<Rightarrow> (string \<times> string) set" where
  "inner_links conns S = {(a, b). a \<in> S \<and> b \<in> S \<and> (\<exists>c. any_link conns a c \<and> c_node c = b)}"

definition split_link :: "connections \<Rightarrow> string set \<Rightarrow> bool" where
  "split_link conns S \<longleftrightarrow> (\<exists>a t i c. has_link conns a t i c \<and> t \<noteq> Main \<and> (a \<in> S) \<noteq> (c_node c \<in> S))"

definition extractable :: "connections \<Rightarrow> string set \<Rightarrow> subgraph_ends \<Rightarrow> bool" where
  "extractable conns S e \<longleftrightarrow>
     single_end (fst e) (entries S (main_link conns)) (roots S (main_link conns)) \<and>
     single_end (snd e) (exits S (main_link conns)) (leaves S (main_link conns)) \<and>
     (nonblank (fst e) \<and> nonblank (snd e) \<longrightarrow>
        (the (fst e), the (snd e)) \<in> {(a, b). main_link conns a b}\<^sup>*)"

lemma connected_by_loops: "E - Id = F - Id \<Longrightarrow> connected_by E S = connected_by F S"
proof -
  have "(E \<union> E\<inverse>)\<^sup>* = ((E - Id) \<union> (E - Id)\<inverse>)\<^sup>*" for E :: "(string \<times> string) set"
  proof -
    have "(E \<union> E\<inverse>) - Id = (E - Id) \<union> (E - Id)\<inverse>" by auto
    then show ?thesis by (metis rtrancl_r_diff_Id)
  qed
  then show "E - Id = F - Id \<Longrightarrow> connected_by E S = connected_by F S"
    unfolding connected_by_def by metis
qed

lemma links_within_build:
  assumes "well_keyed_connections conns"
  shows "connected_by (links_within S (buildAdjacencyList conns)) S = connected_by (inner_links conns S) S"
proof (rule connected_by_loops)
  let ?adj = "buildAdjacencyList conns"
  have "(a, b) \<in> links_within S ?adj \<longleftrightarrow>
      (\<exists>c \<in> set (targets_of ?adj a). a \<in> S \<and> b \<in> S \<and> b \<noteq> a \<and> c_node c = b)" for a b
  proof -
    have "(a, b) \<in> links_within S ?adj \<longleftrightarrow>
        (\<exists>p \<in> set ?adj. a = fst p \<and> (\<exists>c \<in> set (snd p). a \<in> S \<and> b \<in> S \<and> b \<noteq> a \<and> c_node c = b))"
      by (auto simp: links_within_def links_in_def)
    also have "\<dots> \<longleftrightarrow> (\<exists>tos. (a, tos) \<in> set ?adj \<and> (\<exists>c \<in> set tos. a \<in> S \<and> b \<in> S \<and> b \<noteq> a \<and> c_node c = b))"
      by (metis fst_conv prod.collapse snd_conv)
    also have "\<dots> \<longleftrightarrow> (\<exists>c \<in> set (targets_of ?adj a). a \<in> S \<and> b \<in> S \<and> b \<noteq> a \<and> c_node c = b)"
      using in_targets [OF well_keyed_build] targets_entry by metis
    finally show ?thesis .
  qed
  then show "links_within S ?adj - Id = inner_links conns S - Id"
    by (auto simp: inner_links_def in_build [OF assms] Bex_def)
qed

lemma in_typed_links:
  assumes "well_keyed_connections conns"
  shows "(a, t, c) \<in> set (typed_links conns) \<longleftrightarrow> (\<exists>i. has_link conns a t i c)"
proof -
  have wk: "well_keyed conns" "\<And>types. map_of conns a = Some types \<Longrightarrow> well_keyed types"
    using assms by (auto simp: well_keyed_connections_def list_all_iff dest!: map_of_SomeD)
  have "(a, t, c) \<in> set (typed_links conns) \<longleftrightarrow>
      (\<exists>p \<in> set conns. \<exists>q \<in> set (snd p). a = fst p \<and> t = fst q \<and> (\<exists>sl \<in> set (snd q). c \<in> set (slot_list sl)))"
    by (auto simp: typed_links_def case_prod_unfold image_iff)
  also have "\<dots> \<longleftrightarrow>
      (\<exists>types slots. (a, types) \<in> set conns \<and> (t, slots) \<in> set types \<and> (\<exists>sl \<in> set slots. c \<in> set (slot_list sl)))"
    by (rule iffI) (force, force)
  also have "\<dots> \<longleftrightarrow> (\<exists>types slots. map_of conns a = Some types \<and> map_of types t = Some slots \<and>
      (\<exists>sl \<in> set slots. c \<in> set (slot_list sl)))"
    using wk well_keyed_get by metis
  also have "\<dots> \<longleftrightarrow> (\<exists>i. has_link conns a t i c)"
  proof -
    have "(\<exists>sl \<in> set slots. c \<in> set (slot_list sl)) \<longleftrightarrow> (\<exists>i < length slots. c \<in> set (slot_list (slots ! i)))"
      for slots :: node_inputs by (metis in_set_conv_nth)
    then show ?thesis unfolding has_link_def by metis
  qed
  finally show ?thesis .
qed

lemma boundary_iff:
  "well_keyed_connections conns \<Longrightarrow>
    findNonMainBoundaryConnection names conns = None \<longleftrightarrow> \<not> split_link conns (set names)"
  by (auto simp: findNonMainBoundaryConnection_def find_None_iff crosses_def split_link_def in_typed_links)

lemma subgraph_iff:
  assumes "well_keyed_connections conns" and "\<And>n. n \<in> set nodes \<Longrightarrow> n_name n \<noteq> []"
  shows "validateNodeSelectionSubgraph nodes conns getNodeType = Inr (sub, e) \<longleftrightarrow>
    sub = nodes \<and> (\<forall>n \<in> set nodes. \<not> selected_trigger getNodeType n) \<and>
    extractable conns (n_name ` set nodes) e \<and>
    connected_by (inner_links conns (n_name ` set nodes)) (n_name ` set nodes)"
proof -
  let ?names = "set_of_list (map n_name nodes)" and ?adj = "buildAdjacencyList conns"
  have "[] \<notin> set ?names" using assms(2) by force
  then have "findDisconnectedSelectionError ?names ?adj = None \<longleftrightarrow>
      connected_by (inner_links conns (n_name ` set nodes)) (n_name ` set nodes)"
    using findDisconnected_iff [of ?names ?adj] links_within_build [OF assms(1), of "n_name ` set nodes"] by simp
  moreover have "parseExtractableSubgraphSelection ?names ?adj = Inr e \<longleftrightarrow> extractable conns (n_name ` set nodes) e"
    using extractable_iff [OF assms(1), of ?names "fst e" "snd e"] by (simp add: extractable_def)
  moreover have "length (filter (selected_trigger getNodeType) nodes) > 0 \<longleftrightarrow> (\<exists>n \<in> set nodes. selected_trigger getNodeType n)"
    by (auto simp: filter_empty_conv)
  ultimately show ?thesis
    unfolding validateNodeSelectionSubgraph_def Let_def by (auto split: sum.splits option.splits if_splits)
qed

definition groupable :: "connections \<Rightarrow> get_node_type \<Rightarrow> node set \<Rightarrow> bool" where
  "groupable conns getNodeType N \<longleftrightarrow>
     (let C = {n \<in> N. n_type n \<noteq> STICKY_NODE_TYPE}; S = n_name ` C
      in C = {} \<or> (\<forall>n \<in> C. \<not> selected_trigger getNodeType n) \<and> (\<exists>e. extractable conns S e) \<and>
         connected_by (inner_links conns S) S \<and> \<not> split_link conns S)"

lemma grouping_iff:
  assumes "well_keyed_connections conns" and "\<And>n. n \<in> set nodes \<Longrightarrow> n_name n \<noteq> []"
  shows "(\<exists>r. validateNodeSelectionForGrouping nodes conns getNodeType existing = Inr r) \<longleftrightarrow>
    (\<forall>n \<in> set nodes. \<forall>g \<in> set existing. n_id n \<notin> set (g_nodeIds g)) \<and> groupable conns getNodeType (set nodes)"
proof -
  let ?c = "filter (\<lambda>n. n_type n \<noteq> STICKY_NODE_TYPE) nodes" and ?g = "findAlreadyGroupedNodeIds (map n_id nodes) existing"
  define rest where "rest = (case validateNodeSelectionSubgraph ?c conns getNodeType of
        Inl e \<Rightarrow> Inl e
      | Inr (sub, ends) \<Rightarrow>
          (case findNonMainBoundaryConnection (set_of_list (map n_name sub)) conns of
             Some (source, target, ty) \<Rightarrow> Inl (NonMainBoundary source target ty)
           | None \<Rightarrow> Inr (nodes, ends)))"
  have eq: "validateNodeSelectionForGrouping nodes conns getNodeType existing =
      (if ?g \<noteq> [] then Inl (NodeAlreadyGrouped ?g) else if ?c = [] then Inr (nodes, None, None) else rest)"
    by (simp add: validateNodeSelectionForGrouping_def Let_def rest_def)
  have grouped: "?g = [] \<longleftrightarrow> (\<forall>n \<in> set nodes. \<forall>g \<in> set existing. n_id n \<notin> set (g_nodeIds g))"
    by (auto simp: findAlreadyGroupedNodeIds_def filter_empty_conv)
  have "(\<exists>r. rest = Inr r) \<longleftrightarrow>
      (\<exists>e. validateNodeSelectionSubgraph ?c conns getNodeType = Inr (?c, e)) \<and> \<not> split_link conns (n_name ` set ?c)"
  proof (cases "validateNodeSelectionSubgraph ?c conns getNodeType")
    case (Inl e)
    then show ?thesis by (simp add: rest_def)
  next
    case (Inr p)
    obtain sub e where p: "p = (sub, e)" by (cases p)
    then have "sub = ?c" using Inr subgraph_iff [OF assms(1), of ?c getNodeType sub e] assms(2) by auto
    then show ?thesis
      using boundary_iff [OF assms(1), of "set_of_list (map n_name ?c)"] Inr p
      by (auto simp: rest_def split: option.splits prod.splits)
  qed
  moreover have "(\<exists>e. validateNodeSelectionSubgraph ?c conns getNodeType = Inr (?c, e)) \<longleftrightarrow>
      (\<forall>n \<in> set ?c. \<not> selected_trigger getNodeType n) \<and> (\<exists>e. extractable conns (n_name ` set ?c) e) \<and>
      connected_by (inner_links conns (n_name ` set ?c)) (n_name ` set ?c)"
    using subgraph_iff [OF assms(1), of ?c getNodeType ?c] assms(2) by auto
  moreover have "set ?c = {n \<in> set nodes. n_type n \<noteq> STICKY_NODE_TYPE}" by simp
  moreover have "?c = [] \<longleftrightarrow> set ?c = {}" by (rule set_empty [symmetric])
  ultimately have "(?c = [] \<or> (\<exists>r. rest = Inr r)) \<longleftrightarrow> groupable conns getNodeType (set nodes)"
    unfolding groupable_def Let_def by (metis (no_types, lifting))
  then show ?thesis unfolding eq grouped [symmetric] by auto
qed

end
