(* ===== verification/WorkflowGroups.thy ===== *)
theory WorkflowGroups
  imports NodeGrouping
begin

section \<open>The groups of a workflow\<close>

text \<open>
  \<^verbatim>\<open>validateWorkflowGroups\<close> and \<^verbatim>\<open>dropInvalidWorkflowGroups\<close> of
  \<^verbatim>\<open>packages/workflow/src/node-grouping-validation.ts\<close>. The validation collects violations in order: first the
  basic rules of every group, then the rules of the graph for the groups without a basic violation. A
  valid workflow is one with no violations.
\<close>

subsection \<open>Violations\<close>

record violation =
  v_groupId :: string
  v_groupName :: string
  v_code :: string
  v_message :: string

record group_violation = violation +
  v_group :: nat

definition stripWorkflowGroupIdentity :: "group_violation \<Rightarrow> violation" where
  "stripWorkflowGroupIdentity v = violation.truncate v"

fun join_with :: "string \<Rightarrow> string list \<Rightarrow> string" where
  \<comment> \<open>\<^verbatim>\<open>xs.join(separator)\<close>\<close>
  "join_with sep [] = []"
| "join_with sep [x] = x"
| "join_with sep (x # xs) = x @ sep @ join_with sep xs"

definition in_quotes :: "string \<Rightarrow> string" where
  "in_quotes s = [CHR 0x22] @ s @ [CHR 0x22]"

definition node_label :: "(string, node) jsmap \<Rightarrow> string \<Rightarrow> string" where
  "node_label nodeById nodeId =
     (case map_get nodeById nodeId of
        Some n \<Rightarrow> if n_name n \<noteq> [] then n_name n else nodeId
      | None \<Rightarrow> nodeId)"

definition groupRuleViolationMessage ::
  "workflow_group \<Rightarrow> selection_failure \<Rightarrow> (string \<Rightarrow> string) \<Rightarrow> string" where
  "groupRuleViolationMessage g failure label =
     ''Node group '' @ in_quotes (g_name g) @ '' '' @
     (case failure of
        TriggerSelected triggers \<Rightarrow> ''cannot contain trigger nodes: '' @ join_with '', '' triggers @ ''.''
      | InvalidSubgraph _ \<Rightarrow> ''must form a single connected subgraph with a single entry and exit.''
      | NodeAlreadyGrouped ids \<Rightarrow>
          ''contains nodes that already belong to another group: '' @ join_with '', '' (map label ids) @ ''.''
      | NonMainBoundary source target ty \<Rightarrow>
          ''cannot cross the '' @ in_quotes ty @ '' connection between '' @ in_quotes source @ '' and '' @ in_quotes target @ ''.''
      | MultipleInputBranches n \<Rightarrow> ''has multiple input branches at node '' @ in_quotes n @ ''.''
      | MultipleOutputBranches n \<Rightarrow> ''has multiple output branches at node '' @ in_quotes n @ ''.'')"

definition failure_code :: "selection_failure \<Rightarrow> string" where
  \<comment> \<open>\<^verbatim>\<open>result.reason\<close>\<close>
  "failure_code failure =
     (case failure of
        TriggerSelected _ \<Rightarrow> ''trigger-selected''
      | InvalidSubgraph _ \<Rightarrow> ''invalid-subgraph''
      | MultipleInputBranches _ \<Rightarrow> ''multiple-input-branches''
      | MultipleOutputBranches _ \<Rightarrow> ''multiple-output-branches''
      | NodeAlreadyGrouped _ \<Rightarrow> ''node-already-grouped''
      | NonMainBoundary _ _ _ \<Rightarrow> ''non-main-boundary'')"

subsection \<open>The basic rules\<close>

record basic_check =
  bc_violations :: "group_violation list"
  bc_marked :: "nat list"
  bc_ids :: "string list"
  bc_names :: "string list"
  bc_owner :: "(string, string) jsmap"

definition make_violation :: "nat \<Rightarrow> workflow_group \<Rightarrow> string \<Rightarrow> string \<Rightarrow> group_violation" where
  "make_violation i g code message =
     \<lparr>v_groupId = g_id g, v_groupName = g_name g, v_code = code, v_message = message, v_group = i\<rparr>"

definition addBasicViolation :: "nat \<Rightarrow> workflow_group \<Rightarrow> string \<Rightarrow> string \<Rightarrow> basic_check \<Rightarrow> basic_check" where
  "addBasicViolation i g code message st =
     st\<lparr>bc_violations := bc_violations st @ [make_violation i g code message],
        bc_marked := set_add i (bc_marked st)\<rparr>"

definition owned :: "(string, string) jsmap \<Rightarrow> string \<Rightarrow> bool" where
  \<comment> \<open>\<^verbatim>\<open>if (existingGroup)\<close>: an owner with an empty name does not count\<close>
  "owned owner nodeId \<longleftrightarrow> nonblank (map_get owner nodeId)"

definition check_member ::
  "(string, node) jsmap \<Rightarrow> nat \<Rightarrow> workflow_group \<Rightarrow> basic_check \<Rightarrow> string \<Rightarrow> basic_check" where
  "check_member nodeById i g st nodeId =
     (if \<not> map_has nodeById nodeId
      then addBasicViolation i g ''unknown-node-id''
             (''Group '' @ in_quotes (g_name g) @ '' references node ID '' @ in_quotes nodeId @
              '' that does not exist in the workflow.'') st
      else if owned (bc_owner st) nodeId
      then addBasicViolation i g ''node-in-multiple-groups''
             (''Node '' @ in_quotes (node_label nodeById nodeId) @ '' belongs to multiple groups: '' @
              in_quotes (the (map_get (bc_owner st) nodeId)) @ '' and '' @ in_quotes (g_name g) @ ''.'') st
      else st\<lparr>bc_owner := map_set nodeId (g_name g) (bc_owner st)\<rparr>)"

definition check_id :: "nat \<Rightarrow> workflow_group \<Rightarrow> basic_check \<Rightarrow> basic_check" where
  "check_id i g st =
     (let st = (if g_id g \<in> set (bc_ids st)
                then addBasicViolation i g ''duplicate-group-id'' (''Duplicate node group ID '' @ in_quotes (g_id g) @ ''.'') st
                else st)
      in st\<lparr>bc_ids := set_add (g_id g) (bc_ids st)\<rparr>)"

definition check_name :: "nat \<Rightarrow> workflow_group \<Rightarrow> basic_check \<Rightarrow> basic_check" where
  "check_name i g st =
     (let st = (if g_name g \<in> set (bc_names st)
                then addBasicViolation i g ''duplicate-group-name''
                       (''Duplicate node group name '' @ in_quotes (g_name g) @ ''.'') st
                else st)
      in st\<lparr>bc_names := set_add (g_name g) (bc_names st)\<rparr>)"

definition check_empty :: "nat \<Rightarrow> workflow_group \<Rightarrow> basic_check \<Rightarrow> basic_check" where
  "check_empty i g st =
     (if length (g_nodeIds g) = 0
      then addBasicViolation i g ''empty-group'' (''Group '' @ in_quotes (g_name g) @ '' has no members.'') st
      else st)"

definition check_group :: "(string, node) jsmap \<Rightarrow> basic_check \<Rightarrow> nat \<times> workflow_group \<Rightarrow> basic_check" where
  "check_group nodeById st ig = (case ig of (i, g) \<Rightarrow>
     foldl (check_member nodeById i g) (check_empty i g (check_name i g (check_id i g st))) (g_nodeIds g))"

definition basic_checks :: "(string, node) jsmap \<Rightarrow> workflow_group list \<Rightarrow> basic_check" where
  "basic_checks nodeById groups =
     foldl (check_group nodeById)
       \<lparr>bc_violations = [], bc_marked = [], bc_ids = [], bc_names = [], bc_owner = []\<rparr> (enumerate 0 groups)"

subsection \<open>All rules\<close>

definition nodes_by_id :: "node list \<Rightarrow> (string, node) jsmap" where
  "nodes_by_id nodes = foldl (\<lambda>m n. map_set (n_id n) n m) [] (filter (\<lambda>n. n_id n \<noteq> []) nodes)"

definition group_nodes :: "(string, node) jsmap \<Rightarrow> workflow_group \<Rightarrow> node list" where
  "group_nodes nodeById g =
     concat (map (\<lambda>i. case map_get nodeById i of None \<Rightarrow> [] | Some n \<Rightarrow> [n]) (g_nodeIds g))"

definition check_graph_rules ::
  "(string, node) jsmap \<Rightarrow> connections \<Rightarrow> get_node_type \<Rightarrow> workflow_group list \<Rightarrow> nat list \<Rightarrow>
     nat \<times> workflow_group \<Rightarrow> group_violation list" where
  "check_graph_rules nodeById conns getNodeType groups marked ig = (case ig of (i, g) \<Rightarrow>
     if i \<in> set marked then []
     else case validateNodeSelectionForGrouping (group_nodes nodeById g) conns getNodeType
                 (filter (\<lambda>other. g_id other \<noteq> g_id g) groups) of
            Inr _ \<Rightarrow> []
          | Inl failure \<Rightarrow>
              [make_violation i g (failure_code failure) (groupRuleViolationMessage g failure (node_label nodeById))])"

definition validateWorkflowGroupsWithGroupIdentity ::
  "node list \<Rightarrow> connections option \<Rightarrow> workflow_group list option \<Rightarrow> get_node_type option \<Rightarrow> group_violation list" where
  "validateWorkflowGroupsWithGroupIdentity nodes conns nodeGroups getNodeType =
     (case nodeGroups of
        None \<Rightarrow> []
      | Some groups \<Rightarrow>
          if length groups = 0 then []
          else let nodeById = nodes_by_id nodes; st = basic_checks nodeById groups
               in bc_violations st @
                  (case getNodeType of
                     None \<Rightarrow> []
                   | Some gnt \<Rightarrow>
                       concat (map (check_graph_rules nodeById (or_empty conns) gnt groups (bc_marked st))
                                (enumerate 0 groups))))"

definition makeGetNodeTypeForGrouping :: "node_types \<Rightarrow> get_node_type" where
  \<comment> \<open>a type that is not known is \<open>None\<close>, whether the lookup throws or not\<close>
  "makeGetNodeTypeForGrouping types n = types (n_type n) (n_typeVersion n)"

definition validateWorkflowGroups ::
  "node list \<Rightarrow> connections option \<Rightarrow> workflow_group list option \<Rightarrow> get_node_type option \<Rightarrow> violation list" where
  "validateWorkflowGroups nodes conns nodeGroups getNodeType =
     map stripWorkflowGroupIdentity (validateWorkflowGroupsWithGroupIdentity nodes conns nodeGroups getNodeType)"

definition dropInvalidWorkflowGroups ::
  "node list \<Rightarrow> connections option \<Rightarrow> workflow_group list option \<Rightarrow> get_node_type option \<Rightarrow> (violation \<Rightarrow> bool) \<Rightarrow>
     violation list \<times> workflow_group list option" where
  \<comment> \<open>with the groups that stay\<close>
  "dropInvalidWorkflowGroups nodes conns nodeGroups getNodeType shouldDrop =
     (if length (or_empty nodeGroups) = 0 then ([], nodeGroups)
      else let violations = validateWorkflowGroupsWithGroupIdentity nodes conns nodeGroups getNodeType
           in if length violations = 0 then ([], nodeGroups)
              else let dropped = filter (\<lambda>v. shouldDrop (stripWorkflowGroupIdentity v)) violations
                   in if length dropped = 0 then ([], nodeGroups)
                      else let droppedGroups = set_of_list (map v_group dropped)
                           in (map stripWorkflowGroupIdentity dropped,
                               Some (map snd (filter (\<lambda>(i, g). i \<notin> set droppedGroups)
                                       (enumerate 0 (or_empty nodeGroups))))))"

subsection \<open>Violations and marks\<close>

lemma addBasic_simps [simp]:
  "bc_violations (addBasicViolation i g c m st) = bc_violations st @ [make_violation i g c m]"
  "bc_marked (addBasicViolation i g c m st) = set_add i (bc_marked st)"
  "bc_ids (addBasicViolation i g c m st) = bc_ids st"
  "bc_names (addBasicViolation i g c m st) = bc_names st"
  "bc_owner (addBasicViolation i g c m st) = bc_owner st"
  by (simp_all add: addBasicViolation_def)

lemma v_group_make [simp]: "v_group (make_violation i g c m) = i"
  by (simp add: make_violation_def)

definition marks_ok :: "basic_check \<Rightarrow> bool" where
  "marks_ok st \<longleftrightarrow> set (bc_marked st) = v_group ` set (bc_violations st)"

lemma marks_ok_member: "marks_ok st \<Longrightarrow> marks_ok (check_member nb i g st x)"
  by (auto simp: marks_ok_def check_member_def)

lemma marks_ok_heads: "marks_ok st \<Longrightarrow> marks_ok (check_empty i g (check_name i g (check_id i g st)))"
  by (auto simp: marks_ok_def check_empty_def check_name_def check_id_def Let_def)

lemma marks_ok_group: "marks_ok st \<Longrightarrow> marks_ok (check_group nb st ig)"
  by (cases ig) (simp add: check_group_def, intro foldl_keeps [of marks_ok] marks_ok_heads marks_ok_member)

lemma marks_ok_checks: "marks_ok (basic_checks nb groups)"
  unfolding basic_checks_def by (rule foldl_keeps [of marks_ok]) (simp add: marks_ok_def, rule marks_ok_group)

subsection \<open>What the basic rules ask for\<close>

definition quiet_check :: "basic_check \<Rightarrow> bool" where
  "quiet_check st \<longleftrightarrow> bc_violations st = []"

lemma owned_set: "owned (map_set k v m) x \<longleftrightarrow> (if x = k then v \<noteq> [] else owned m x)"
  by (simp add: owned_def nonblank_def map_get_set)

lemma quiet_member:
  "quiet_check (check_member nb i g st x) \<longleftrightarrow> quiet_check st \<and> map_has nb x \<and> \<not> owned (bc_owner st) x"
  by (auto simp: quiet_check_def check_member_def)

lemma quiet_member_state:
  "quiet_check (check_member nb i g st x) \<Longrightarrow>
    check_member nb i g st x = st\<lparr>bc_owner := map_set x (g_name g) (bc_owner st)\<rparr>"
  by (auto simp: quiet_check_def check_member_def split: if_splits)

lemma loud_members: "\<not> quiet_check st \<Longrightarrow> \<not> quiet_check (foldl (check_member nb i g) st xs)"
  by (rule foldl_keeps [of "\<lambda>st. \<not> quiet_check st"]) (auto simp: quiet_member)

lemma quiet_members:
  assumes "g_name g \<noteq> []"
  shows "quiet_check (foldl (check_member nb i g) st xs) \<longleftrightarrow>
      quiet_check st \<and> (\<forall>x \<in> set xs. map_has nb x \<and> \<not> owned (bc_owner st) x) \<and> distinct xs"
    and "quiet_check (foldl (check_member nb i g) st xs) \<Longrightarrow>
      owned (bc_owner (foldl (check_member nb i g) st xs)) y \<longleftrightarrow> owned (bc_owner st) y \<or> y \<in> set xs"
    and "quiet_check (foldl (check_member nb i g) st xs) \<Longrightarrow>
      bc_ids (foldl (check_member nb i g) st xs) = bc_ids st \<and> bc_names (foldl (check_member nb i g) st xs) = bc_names st"
proof -
  have "(quiet_check (foldl (check_member nb i g) st xs) \<longleftrightarrow>
      quiet_check st \<and> (\<forall>x \<in> set xs. map_has nb x \<and> \<not> owned (bc_owner st) x) \<and> distinct xs) \<and>
     (quiet_check (foldl (check_member nb i g) st xs) \<longrightarrow>
      (owned (bc_owner (foldl (check_member nb i g) st xs)) y \<longleftrightarrow> owned (bc_owner st) y \<or> y \<in> set xs) \<and>
      bc_ids (foldl (check_member nb i g) st xs) = bc_ids st \<and> bc_names (foldl (check_member nb i g) st xs) = bc_names st)"
  proof (induction xs arbitrary: st)
    case Nil
    then show ?case by simp
  next
    case (Cons x xs)
    show ?case
    proof (cases "quiet_check (check_member nb i g st x)")
      case False
      then show ?thesis by (auto simp: loud_members quiet_member)
    next
      case True
      define st' where "st' = check_member nb i g st x"
      have own: "owned (bc_owner st') z \<longleftrightarrow> z = x \<or> owned (bc_owner st) z" for z
        using quiet_member_state [OF True] assms by (simp add: st'_def owned_set)
      have same: "bc_ids st' = bc_ids st" "bc_names st' = bc_names st"
        using quiet_member_state [OF True] by (simp_all add: st'_def)
      have q: "quiet_check st'" "quiet_check st" "map_has nb x" "\<not> owned (bc_owner st) x"
        using True by (simp_all add: st'_def quiet_member)
      show ?thesis
        using Cons [of st'] q own same unfolding foldl_Cons st'_def [symmetric] by auto
    qed
  qed
  then show "quiet_check (foldl (check_member nb i g) st xs) \<longleftrightarrow>
      quiet_check st \<and> (\<forall>x \<in> set xs. map_has nb x \<and> \<not> owned (bc_owner st) x) \<and> distinct xs"
    and "quiet_check (foldl (check_member nb i g) st xs) \<Longrightarrow>
      owned (bc_owner (foldl (check_member nb i g) st xs)) y \<longleftrightarrow> owned (bc_owner st) y \<or> y \<in> set xs"
    and "quiet_check (foldl (check_member nb i g) st xs) \<Longrightarrow>
      bc_ids (foldl (check_member nb i g) st xs) = bc_ids st \<and> bc_names (foldl (check_member nb i g) st xs) = bc_names st"
    by blast+
qed

definition heads_checked :: "nat \<Rightarrow> workflow_group \<Rightarrow> basic_check \<Rightarrow> basic_check" where
  "heads_checked i g st = check_empty i g (check_name i g (check_id i g st))"

lemma quiet_heads:
  "quiet_check (heads_checked i g st) \<longleftrightarrow>
    quiet_check st \<and> g_id g \<notin> set (bc_ids st) \<and> g_name g \<notin> set (bc_names st) \<and> g_nodeIds g \<noteq> []"
  "set (bc_ids (heads_checked i g st)) = insert (g_id g) (set (bc_ids st))"
  "set (bc_names (heads_checked i g st)) = insert (g_name g) (set (bc_names st))"
  "bc_owner (heads_checked i g st) = bc_owner st"
  by (auto simp: heads_checked_def check_empty_def check_name_def check_id_def Let_def quiet_check_def)

lemma check_group_heads: "check_group nb st (i, g) = foldl (check_member nb i g) (heads_checked i g st) (g_nodeIds g)"
  by (simp add: check_group_def heads_checked_def)

lemma loud_group: "\<not> quiet_check st \<Longrightarrow> \<not> quiet_check (check_group nb st (i, g))"
  by (simp add: check_group_heads loud_members quiet_heads)

lemma loud_groups: "\<not> quiet_check st \<Longrightarrow> \<not> quiet_check (foldl (check_group nb) st igs)"
  by (rule foldl_keeps [of "\<lambda>st. \<not> quiet_check st"])
    (auto simp: loud_group)

lemma quiet_groups:
  assumes "\<forall>g \<in> snd ` set igs. g_name g \<noteq> []"
  shows "quiet_check (foldl (check_group nb) st igs) \<longleftrightarrow>
     quiet_check st \<and>
     distinct (map (g_id \<circ> snd) igs) \<and> (\<forall>g \<in> snd ` set igs. g_id g \<notin> set (bc_ids st)) \<and>
     distinct (map (g_name \<circ> snd) igs) \<and> (\<forall>g \<in> snd ` set igs. g_name g \<notin> set (bc_names st)) \<and>
     (\<forall>g \<in> snd ` set igs. g_nodeIds g \<noteq> []) \<and>
     distinct (concat (map (g_nodeIds \<circ> snd) igs)) \<and>
     (\<forall>x \<in> set (concat (map (g_nodeIds \<circ> snd) igs)). map_has nb x \<and> \<not> owned (bc_owner st) x)"
  using assms
proof (induction igs arbitrary: st)
  case Nil
  then show ?case by simp
next
  case (Cons ig igs)
  obtain i g where ig: "ig = (i, g)" by force
  have nm: "g_name g \<noteq> []" using Cons.prems ig by auto
  let ?st = "check_group nb st (i, g)"
  have q: "quiet_check ?st \<longleftrightarrow> quiet_check st \<and> g_id g \<notin> set (bc_ids st) \<and> g_name g \<notin> set (bc_names st) \<and>
      g_nodeIds g \<noteq> [] \<and> (\<forall>x \<in> set (g_nodeIds g). map_has nb x \<and> \<not> owned (bc_owner st) x) \<and> distinct (g_nodeIds g)"
    unfolding check_group_heads quiet_members(1) [OF nm] quiet_heads by blast
  show ?case
  proof (cases "quiet_check ?st")
    case False
    have "\<not> quiet_check (foldl (check_group nb) st (ig # igs))" using loud_groups [OF False] by (simp add: ig)
    with False show ?thesis unfolding q by (auto simp: ig)
  next
    case True
    have st: "owned (bc_owner ?st) y \<longleftrightarrow> owned (bc_owner st) y \<or> y \<in> set (g_nodeIds g)"
        "set (bc_ids ?st) = insert (g_id g) (set (bc_ids st))"
        "set (bc_names ?st) = insert (g_name g) (set (bc_names st))" for y
      using quiet_members(2,3) [OF nm True [unfolded check_group_heads]]
      unfolding check_group_heads by (auto simp: quiet_heads)
    have "\<forall>g \<in> snd ` set igs. g_name g \<noteq> []" using Cons.prems by simp
    note rest = Cons.IH [of ?st, OF this]
    have eq: "quiet_check (foldl (check_group nb) st (ig # igs)) = quiet_check (foldl (check_group nb) ?st igs)"
      by (simp add: ig)
    show ?thesis
      unfolding eq rest using True [unfolded q] True by (auto simp: ig st comp_def) (force simp: image_iff)+
  qed
qed

lemma map_snd_enumerate [simp]: "map snd (enumerate k xs) = xs"
  by (simp add: enumerate_eq_zip)

lemma map_comp_enumerate [simp]: "map (f \<circ> snd) (enumerate k xs) = map f xs"
  by (simp add: map_map [symmetric] del: map_map)

lemma snd_enumerate [simp]: "snd ` set (enumerate k xs) = set xs"
  by (simp flip: set_map)

lemma in_enumerateD: "(i, x) \<in> set (enumerate k xs) \<Longrightarrow> x \<in> set xs"
  by (metis image_eqI snd_conv snd_enumerate)

lemma quiet_basic_checks:
  assumes "\<forall>g \<in> set groups. g_name g \<noteq> []"
  shows "quiet_check (basic_checks nb groups) \<longleftrightarrow>
     distinct (map g_id groups) \<and> distinct (map g_name groups) \<and> (\<forall>g \<in> set groups. g_nodeIds g \<noteq> []) \<and>
     distinct (concat (map g_nodeIds groups)) \<and> (\<forall>x \<in> set (concat (map g_nodeIds groups)). map_has nb x)"
proof -
  let ?st = "\<lparr>bc_violations = [], bc_marked = [], bc_ids = [], bc_names = [], bc_owner = []\<rparr>"
  have "\<forall>g \<in> snd ` set (enumerate 0 groups). g_name g \<noteq> []" using assms by simp
  note q = quiet_groups [OF this, of nb ?st]
  have "\<not> owned [] x" for x by (simp add: owned_def nonblank_def)
  then show ?thesis unfolding basic_checks_def q by (simp add: quiet_check_def)
qed

subsection \<open>Validity\<close>

lemma validate_Some:
  "validateWorkflowGroupsWithGroupIdentity nodes conns (Some groups) gnt =
     (let st = basic_checks (nodes_by_id nodes) groups
      in bc_violations st @
         (case gnt of
            None \<Rightarrow> []
          | Some gnt \<Rightarrow>
              concat (map (check_graph_rules (nodes_by_id nodes) (or_empty conns) gnt groups (bc_marked st))
                       (enumerate 0 groups))))"
  by (cases "groups = []")
    (simp_all add: validateWorkflowGroupsWithGroupIdentity_def Let_def basic_checks_def split: option.splits)

lemma quiet_unmarked: "quiet_check (basic_checks nb groups) \<Longrightarrow> bc_marked (basic_checks nb groups) = []"
  using marks_ok_checks [of nb groups] by (simp add: marks_ok_def quiet_check_def)

definition passes :: "(string, node) jsmap \<Rightarrow> connections \<Rightarrow> get_node_type \<Rightarrow> workflow_group list \<Rightarrow> workflow_group \<Rightarrow> bool" where
  "passes nb conns gnt groups g \<longleftrightarrow>
     (\<exists>r. validateNodeSelectionForGrouping (group_nodes nb g) conns gnt (filter (\<lambda>other. g_id other \<noteq> g_id g) groups) = Inr r)"

lemma graph_rules_quiet:
  "check_graph_rules nb conns gnt groups marked (i, g) = [] \<longleftrightarrow> i \<in> set marked \<or> passes nb conns gnt groups g"
  by (auto simp: check_graph_rules_def passes_def split: sum.splits)

lemma validate_quiet:
  "validateWorkflowGroupsWithGroupIdentity nodes conns (Some groups) gnt = [] \<longleftrightarrow>
     quiet_check (basic_checks (nodes_by_id nodes) groups) \<and>
     (\<forall>t. gnt = Some t \<longrightarrow> (\<forall>g \<in> set groups. passes (nodes_by_id nodes) (or_empty conns) t groups g))"
proof (cases "quiet_check (basic_checks (nodes_by_id nodes) groups)")
  case True
  have "concat (map (check_graph_rules nb c t groups []) (enumerate 0 groups)) = [] \<longleftrightarrow>
      (\<forall>ig \<in> set (enumerate 0 groups). passes nb c t groups (snd ig))" for nb c t
    by (auto simp: concat_eq_Nil_conv graph_rules_quiet)
  also have "\<dots> nb c t \<longleftrightarrow> (\<forall>g \<in> snd ` set (enumerate 0 groups). passes nb c t groups g)" for nb c t
    by (auto simp del: snd_enumerate)
  finally show ?thesis
    using True quiet_unmarked [OF True] by (auto simp: validate_Some Let_def quiet_check_def split: option.splits)
next
  case False
  then show ?thesis by (simp add: validate_Some Let_def quiet_check_def)
qed

text \<open>
  The groups of a workflow as they should be: ids and names are unique, no group is empty, the members are nodes,
  no node is in a group twice or in two groups, and every group obeys the rules of the graph.
\<close>

definition members :: "node list \<Rightarrow> workflow_group \<Rightarrow> node set" where
  "members nodes g = {n \<in> set nodes. n_id n \<noteq> [] \<and> n_id n \<in> set (g_nodeIds g)}"

definition groups_ok :: "node list \<Rightarrow> connections \<Rightarrow> get_node_type \<Rightarrow> workflow_group list \<Rightarrow> bool" where
  "groups_ok nodes conns gnt groups \<longleftrightarrow>
     distinct (map g_id groups) \<and> distinct (map g_name groups) \<and> (\<forall>g \<in> set groups. g_nodeIds g \<noteq> []) \<and>
     (\<forall>g \<in> set groups. \<forall>i \<in> set (g_nodeIds g). i \<noteq> [] \<and> i \<in> n_id ` set nodes) \<and>
     distinct (concat (map g_nodeIds groups)) \<and>
     (\<forall>g \<in> set groups. groupable conns gnt (members nodes g))"

lemma nodes_by_id_get:
  assumes "distinct (map n_id nodes)"
  shows "map_get (nodes_by_id nodes) i = Some n \<longleftrightarrow> n \<in> set nodes \<and> n_id n = i \<and> i \<noteq> []"
proof -
  have "distinct (map n_id (filter (\<lambda>n. n_id n \<noteq> []) nodes))" using assms by (simp add: distinct_map_filter)
  from keyed_by_field [OF this, of "\<lambda>n. n" i n] show ?thesis by (auto simp: nodes_by_id_def)
qed

lemma set_group_nodes:
  assumes "distinct (map n_id nodes)"
  shows "set (group_nodes (nodes_by_id nodes) g) = members nodes g"
proof -
  have "n \<in> set (group_nodes (nodes_by_id nodes) g) \<longleftrightarrow>
      (\<exists>i \<in> set (g_nodeIds g). map_get (nodes_by_id nodes) i = Some n)" for n
    by (auto simp: group_nodes_def split: option.splits) (metis option.distinct(1) option.inject empty_iff list.set singletonD)
  then show ?thesis by (auto simp: members_def nodes_by_id_get [OF assms])
qed

lemma nodes_by_id_has:
  "distinct (map n_id nodes) \<Longrightarrow> map_has (nodes_by_id nodes) i \<longleftrightarrow> i \<noteq> [] \<and> i \<in> n_id ` set nodes"
  using nodes_by_id_get [of nodes i] by (auto simp: map_has_def)

lemma distinct_concat_apart:
  "distinct (concat (map f xs)) \<Longrightarrow> a \<in> set xs \<Longrightarrow> b \<in> set xs \<Longrightarrow> a \<noteq> b \<Longrightarrow> x \<in> set (f a) \<Longrightarrow> x \<notin> set (f b)"
  by (induction xs) auto

lemma passes_iff:
  assumes "well_keyed_connections conns" and "\<forall>n \<in> set nodes. n_name n \<noteq> []" and "distinct (map n_id nodes)"
    and "distinct (concat (map g_nodeIds groups))" and "g \<in> set groups"
  shows "passes (nodes_by_id nodes) conns gnt groups g \<longleftrightarrow> groupable conns gnt (members nodes g)"
proof -
  let ?N = "group_nodes (nodes_by_id nodes) g"
  have N: "set ?N = members nodes g" by (rule set_group_nodes [OF assms(3)])
  have "n \<in> set ?N \<Longrightarrow> n_name n \<noteq> []" for n using N assms(2) by (auto simp: members_def)
  note grouping_iff [OF assms(1) this, of ?N gnt "filter (\<lambda>other. g_id other \<noteq> g_id g) groups"]
  moreover have "n_id n \<notin> set (g_nodeIds h)"
    if "n \<in> set ?N" "h \<in> set (filter (\<lambda>other. g_id other \<noteq> g_id g) groups)" for n h
    using that distinct_concat_apart [OF assms(4) assms(5), of h "n_id n"] by (auto simp: N members_def)
  ultimately show ?thesis unfolding passes_def N by blast
qed

lemma validate_iff:
  assumes "well_keyed_connections conns" and "\<forall>n \<in> set nodes. n_name n \<noteq> []" and "distinct (map n_id nodes)"
    and "\<forall>g \<in> set groups. g_name g \<noteq> []"
  shows "validateWorkflowGroups nodes (Some conns) (Some groups) (Some gnt) = [] \<longleftrightarrow> groups_ok nodes conns gnt groups"
proof -
  let ?q = "quiet_check (basic_checks (nodes_by_id nodes) groups)"
  have q: "?q \<longleftrightarrow> distinct (map g_id groups) \<and> distinct (map g_name groups) \<and> (\<forall>g \<in> set groups. g_nodeIds g \<noteq> []) \<and>
     distinct (concat (map g_nodeIds groups)) \<and>
     (\<forall>g \<in> set groups. \<forall>i \<in> set (g_nodeIds g). i \<noteq> [] \<and> i \<in> n_id ` set nodes)"
    unfolding quiet_basic_checks [OF assms(4)] nodes_by_id_has [OF assms(3)] by auto
  have "?q \<Longrightarrow> g \<in> set groups \<Longrightarrow>
      passes (nodes_by_id nodes) conns gnt groups g \<longleftrightarrow> groupable conns gnt (members nodes g)" for g
    using q passes_iff [OF assms(1-3)] by blast
  then show ?thesis
    unfolding validateWorkflowGroups_def map_is_Nil_conv validate_quiet groups_ok_def using q by auto
qed

subsection \<open>Dropping groups leaves a valid workflow\<close>

text \<open>A run of the basic checks over the groups that stay knows less than the run over all groups.\<close>

definition knows_less :: "basic_check \<Rightarrow> basic_check \<Rightarrow> bool" where
  "knows_less st' st \<longleftrightarrow>
     quiet_check st' \<and> set (bc_ids st') \<subseteq> set (bc_ids st) \<and> set (bc_names st') \<subseteq> set (bc_names st) \<and>
     (\<forall>x. owned (bc_owner st') x \<longrightarrow> owned (bc_owner st) x)"

lemma marks_grow_member: "set (bc_marked st) \<subseteq> set (bc_marked (check_member nb i g st x))"
  by (auto simp: check_member_def)

lemma marks_grow_members: "set (bc_marked st) \<subseteq> set (bc_marked (foldl (check_member nb i g) st xs))"
  using marks_grow_member by (induction xs arbitrary: st) (auto, blast)

lemma marks_grow_heads: "set (bc_marked st) \<subseteq> set (bc_marked (heads_checked i g st))"
  by (auto simp: heads_checked_def check_empty_def check_name_def check_id_def Let_def)

lemma marks_grow_groups: "set (bc_marked st) \<subseteq> set (bc_marked (foldl (check_group nb) st igs))"
proof (induction igs arbitrary: st)
  case Nil
  then show ?case by simp
next
  case (Cons ig igs)
  obtain i g where ig: "ig = (i, g)" by force
  have "set (bc_marked st) \<subseteq> set (bc_marked (check_group nb st ig))"
    using marks_grow_heads marks_grow_members unfolding ig check_group_heads by blast
  then show ?case using Cons [of "check_group nb st ig"] by auto
qed

lemma unmarked_member:
  assumes "i \<notin> set (bc_marked (check_member nb i g st x))"
  shows "map_has nb x" "\<not> owned (bc_owner st) x"
    "check_member nb i g st x = st\<lparr>bc_owner := map_set x (g_name g) (bc_owner st)\<rparr>"
  using assms by (auto simp: check_member_def split: if_splits)

lemma knows_less_members:
  assumes "i \<notin> set (bc_marked (foldl (check_member nb i g) st xs))" and "knows_less st' st"
  shows "knows_less (foldl (check_member nb j g) st' xs) (foldl (check_member nb i g) st xs)"
  using assms
proof (induction xs arbitrary: st st')
  case Nil
  then show ?case by simp
next
  case (Cons x xs)
  have un: "i \<notin> set (bc_marked (check_member nb i g st x))"
    using Cons.prems(1) marks_grow_members [of "check_member nb i g st x" nb i g xs] by auto
  note full = unmarked_member [OF un]
  have "quiet_check (check_member nb j g st' x)"
    using Cons.prems(2) full by (auto simp: quiet_member knows_less_def)
  note part = quiet_member_state [OF this] this
  have "knows_less (check_member nb j g st' x) (check_member nb i g st x)"
    using Cons.prems(2) part unfolding full(3) by (auto simp: knows_less_def owned_set)
  then show ?case using Cons by simp
qed

lemma owned_grows:
  "owned (bc_owner st) x \<Longrightarrow> owned (bc_owner (foldl (check_member nb i g) st xs)) x"
  by (rule foldl_keeps [of "\<lambda>st. owned (bc_owner st) x"]) (auto simp: check_member_def owned_set)

lemma names_grow:
  "bc_ids (foldl (check_member nb i g) st xs) = bc_ids st" "bc_names (foldl (check_member nb i g) st xs) = bc_names st"
  by (induction xs arbitrary: st) (auto simp: check_member_def)

lemma knows_less_skip:
  assumes "knows_less st' st"
  shows "knows_less st' (check_group nb st (i, g))"
  using assms owned_grows [of "heads_checked i g st"]
  unfolding check_group_heads by (auto simp: knows_less_def names_grow quiet_heads)

lemma unmarked_heads:
  assumes "i \<notin> set (bc_marked (heads_checked i g st))"
  shows "g_id g \<notin> set (bc_ids st)" "g_name g \<notin> set (bc_names st)" "g_nodeIds g \<noteq> []"
  using assms by (auto simp: heads_checked_def check_empty_def check_name_def check_id_def Let_def split: if_splits)

lemma knows_less_group:
  assumes "i \<notin> set (bc_marked (check_group nb st (i, g)))" and "knows_less st' st"
  shows "knows_less (check_group nb st' (j, g)) (check_group nb st (i, g))"
proof -
  have "i \<notin> set (bc_marked (heads_checked i g st))"
    using assms(1) marks_grow_members unfolding check_group_heads by blast
  then have "knows_less (heads_checked j g st') (heads_checked i g st)"
    using assms(2) unmarked_heads [of i g st] by (auto simp: knows_less_def quiet_heads)
  then show ?thesis
    using assms(1) unfolding check_group_heads by (rule knows_less_members [rotated])
qed

lemma knows_less_groups:
  assumes "\<forall>ig \<in> set igs. fst ig \<notin> D \<longrightarrow> fst ig \<notin> set (bc_marked (foldl (check_group nb) st igs))"
    and "knows_less st' st" and "map snd jgs = map snd (filter (\<lambda>ig. fst ig \<notin> D) igs)"
  shows "knows_less (foldl (check_group nb) st' jgs) (foldl (check_group nb) st igs)"
  using assms
proof (induction igs arbitrary: st st' jgs)
  case Nil
  then show ?case by simp
next
  case (Cons ig igs)
  obtain i g where ig: "ig = (i, g)" by force
  let ?st = "check_group nb st (i, g)"
  have later: "\<forall>ig \<in> set igs. fst ig \<notin> D \<longrightarrow> fst ig \<notin> set (bc_marked (foldl (check_group nb) ?st igs))"
    using Cons.prems(1) ig by simp
  show ?case
  proof (cases "i \<in> D")
    case True
    then show ?thesis
      using Cons.IH [OF later knows_less_skip [OF Cons.prems(2)]] Cons.prems(3) by (simp add: ig)
  next
    case False
    then obtain j jgs' where jgs: "jgs = (j, g) # jgs'" "map snd jgs' = map snd (filter (\<lambda>ig. fst ig \<notin> D) igs)"
      using Cons.prems(3) by (auto simp: ig Cons_eq_map_conv map_eq_Cons_conv)
    have "i \<notin> set (bc_marked ?st)"
      using Cons.prems(1) False marks_grow_groups [of ?st nb igs] by (auto simp: ig)
    then show ?thesis
      using Cons.IH [OF later knows_less_group [OF _ Cons.prems(2)] jgs(2)] by (simp add: ig jgs(1))
  qed
qed

lemma passes_fewer:
  assumes "passes nb conns gnt groups g" and "set groups' \<subseteq> set groups"
  shows "passes nb conns gnt groups' g"
proof -
  have "findAlreadyGroupedNodeIds is ex = [] \<Longrightarrow> set ex' \<subseteq> set ex \<Longrightarrow> findAlreadyGroupedNodeIds is ex' = []" for "is" ex ex'
    by (auto simp: findAlreadyGroupedNodeIds_def filter_empty_conv)
  moreover have "set (filter P groups') \<subseteq> set (filter P groups)" for P using assms(2) by auto
  ultimately show ?thesis
    using assms(1) unfolding passes_def validateNodeSelectionForGrouping_def Let_def
    by (auto split: if_splits)
qed

lemma drop_leaves_valid:
  "validateWorkflowGroupsWithGroupIdentity nodes conns
     (snd (dropInvalidWorkflowGroups nodes conns nodeGroups gnt (\<lambda>_. True))) gnt = []"
proof (cases nodeGroups)
  case None
  then show ?thesis by (simp add: dropInvalidWorkflowGroups_def validateWorkflowGroupsWithGroupIdentity_def)
next
  case (Some groups)
  let ?nb = "nodes_by_id nodes"
  let ?vs = "validateWorkflowGroupsWithGroupIdentity nodes conns nodeGroups gnt"
  define D where "D = v_group ` set ?vs"
  define stay where "stay = map snd (filter (\<lambda>ig. fst ig \<notin> D) (enumerate 0 groups))"
  have kept: "snd (dropInvalidWorkflowGroups nodes conns nodeGroups gnt (\<lambda>_. True)) =
      (if ?vs = [] then nodeGroups else Some stay)"
  proof (cases "groups = []")
    case True
    then show ?thesis
      by (simp add: dropInvalidWorkflowGroups_def Some validateWorkflowGroupsWithGroupIdentity_def)
  next
    case False
    then show ?thesis
      by (simp add: dropInvalidWorkflowGroups_def Let_def Some stay_def D_def case_prod_unfold)
  qed
  have all: "?vs = bc_violations (basic_checks ?nb groups) @
      (case gnt of None \<Rightarrow> []
       | Some t \<Rightarrow> concat (map (check_graph_rules ?nb (or_empty conns) t groups (bc_marked (basic_checks ?nb groups))) (enumerate 0 groups)))"
    unfolding Some validate_Some Let_def by simp
  then have marked: "set (bc_marked (basic_checks ?nb groups)) \<subseteq> D"
    using marks_ok_checks [of ?nb groups] unfolding D_def marks_ok_def by auto
  have "knows_less (basic_checks ?nb stay) (basic_checks ?nb groups)"
    unfolding basic_checks_def
  proof (rule knows_less_groups [of _ D])
    show "\<forall>ig \<in> set (enumerate 0 groups). fst ig \<notin> D \<longrightarrow> fst ig \<notin> set (bc_marked (foldl (check_group ?nb)
        \<lparr>bc_violations = [], bc_marked = [], bc_ids = [], bc_names = [], bc_owner = []\<rparr> (enumerate 0 groups)))"
      using marked unfolding basic_checks_def by blast
  qed (simp_all add: knows_less_def quiet_check_def stay_def)
  then have quiet: "quiet_check (basic_checks ?nb stay)" by (simp add: knows_less_def)
  moreover have "passes ?nb (or_empty conns) t stay g" if t: "gnt = Some t" and g: "g \<in> set stay" for t g
  proof -
    obtain i where i: "(i, g) \<in> set (enumerate 0 groups)" "i \<notin> D" using g by (auto simp: stay_def)
    have "check_graph_rules ?nb (or_empty conns) t groups (bc_marked (basic_checks ?nb groups)) (i, g) = []"
    proof (rule ccontr)
      assume "check_graph_rules ?nb (or_empty conns) t groups (bc_marked (basic_checks ?nb groups)) (i, g) \<noteq> []"
      then obtain v where v: "v \<in> set (check_graph_rules ?nb (or_empty conns) t groups (bc_marked (basic_checks ?nb groups)) (i, g))"
        by (meson last_in_set)
      then have "v_group v = i" by (auto simp: check_graph_rules_def split: if_splits sum.splits)
      moreover have "v \<in> set ?vs" using v i(1) t all by auto
      ultimately show False using i(2) by (auto simp: D_def)
    qed
    then have "passes ?nb (or_empty conns) t groups g" using marked i(2) by (auto simp: graph_rules_quiet)
    moreover have "set stay \<subseteq> set groups" by (auto simp: stay_def dest: in_enumerateD)
    ultimately show ?thesis by (rule passes_fewer)
  qed
  ultimately have "validateWorkflowGroupsWithGroupIdentity nodes conns (Some stay) gnt = []"
    by (simp add: validate_quiet)
  then show ?thesis unfolding kept by simp
qed

subsection \<open>The properties\<close>


definition chain_nodes :: "node list" where
  "chain_nodes = map (\<lambda>(r, nm). plain_node r nm ''n8n-nodes-base.set'') [(0, ''a''), (1, ''b''), (2, ''c''), (3, ''d'')]"

definition sample_group :: "string \<Rightarrow> string \<Rightarrow> string list \<Rightarrow> workflow_group" where
  "sample_group i nm ids = \<lparr>g_id = i, g_name = nm, g_nodeIds = ids, g_description = None\<rparr>"

definition sample_groups :: "workflow_group list" where
  "sample_groups = [sample_group ''1'' ''first'' [''a'', ''b''], sample_group ''2'' ''rest'' [''d'', ''c'']]"

definition plain_node_type :: get_node_type where
  "plain_node_type n = Some (plain_type (n_type n))"

lemma chain_groups_valid:
  "validateWorkflowGroups chain_nodes (Some chain_connections) (Some sample_groups) (Some plain_node_type) = []"
  by code_simp


text \<open>
  C18. After the groups with violations are dropped the groups that stay have none, whatever the nodes, the
  connections and the groups are; the violations returned are those of the validation, and no group is added.
\<close>

theorem dropInvalidWorkflowGroups_leaves_valid:
  "validateWorkflowGroups nodes conns (snd (dropInvalidWorkflowGroups nodes conns nodeGroups gnt (\<lambda>_. True))) gnt = [] \<and>
   fst (dropInvalidWorkflowGroups nodes conns nodeGroups gnt (\<lambda>_. True)) = validateWorkflowGroups nodes conns nodeGroups gnt \<and>
   set (or_empty (snd (dropInvalidWorkflowGroups nodes conns nodeGroups gnt (\<lambda>_. True)))) \<subseteq> set (or_empty nodeGroups)"
proof (intro conjI)
  show "validateWorkflowGroups nodes conns (snd (dropInvalidWorkflowGroups nodes conns nodeGroups gnt (\<lambda>_. True))) gnt = []"
    using drop_leaves_valid by (simp add: validateWorkflowGroups_def)
  show "fst (dropInvalidWorkflowGroups nodes conns nodeGroups gnt (\<lambda>_. True)) = validateWorkflowGroups nodes conns nodeGroups gnt"
  proof (cases "or_empty nodeGroups = []")
    case True
    then show ?thesis
      by (cases nodeGroups) (auto simp: dropInvalidWorkflowGroups_def validateWorkflowGroups_def
          validateWorkflowGroupsWithGroupIdentity_def)
  next
    case False
    then show ?thesis by (simp add: dropInvalidWorkflowGroups_def validateWorkflowGroups_def Let_def)
  qed
  have "set (map snd (filter P (enumerate 0 xs))) \<subseteq> set xs" for P and xs :: "workflow_group list"
    by (auto dest: in_enumerateD)
  then show "set (or_empty (snd (dropInvalidWorkflowGroups nodes conns nodeGroups gnt (\<lambda>_. True)))) \<subseteq> set (or_empty nodeGroups)"
    by (simp add: dropInvalidWorkflowGroups_def Let_def del: set_map)
qed

text \<open>
  Two limits of the basic rules: a group without a name does not count as the owner of its nodes, and a node
  listed twice in one group is reported as a node of two groups.
\<close>

lemma unnamed_group_shares:
  "validateWorkflowGroups chain_nodes None
     (Some [sample_group ''1'' [] [''a''], sample_group ''2'' ''other'' [''a'']]) None = []"
  by code_simp

lemma twice_in_one_group:
  "map v_code (validateWorkflowGroups chain_nodes None (Some [sample_group ''1'' ''g'' [''a'', ''a'']]) None) =
     [''node-in-multiple-groups'']"
  by code_simp

end
