(* ===== verification/ConnectionDiff.thy ===== *)
theory ConnectionDiff
  imports JsonText ConnectionMaps "HOL-Library.Multiset"
begin

section \<open>Comparing connections\<close>

text \<open>
  \<^verbatim>\<open>packages/workflow/src/connections-diff.ts\<close>: which connections were added and which removed between two
  connections objects, slot by slot. The connections of a slot are grouped by their JSON text. A connection
  object lists its fields in the order node, type, index. What is proved: in every slot the added and the removed
  connections are the differences of the slots as multisets, in both directions, with their positions.
\<close>

subsection \<open>The code\<close>

record connection_entry =
  ce_sourceIndex :: nat
  ce_value :: "nat \<times> connection"

type_synonym connection_diff = "connection_entry list jsobj jsobj"

definition connection_json :: "connection \<Rightarrow> js" where
  "connection_json c =
     JObj [(''node'', JStr (c_node c)), (''type'', JStr (c_type c)), (''index'', JNum (Finite (of_nat (c_index c))))]"

definition connection_text :: "connection \<Rightarrow> string" where
  \<comment> \<open>the index is whole, so the format of other numbers does not matter\<close>
  "connection_text c = (case json_stringify (\<lambda>_. []) (connection_json c) of None \<Rightarrow> [] | Some s \<Rightarrow> s)"

definition add_by_value ::
  "(string, (nat \<times> connection) list) jsmap \<Rightarrow> nat \<times> connection \<Rightarrow> (string, (nat \<times> connection) list) jsmap" where
  "add_by_value byValue ic =
     (let key = connection_text (snd ic)
      in case map_get byValue key of
           Some entries \<Rightarrow> map_set key (entries @ [ic]) byValue
         | None \<Rightarrow> map_set key [ic] byValue)"

definition groupByValue :: "connection list \<Rightarrow> (string, (nat \<times> connection) list) jsmap" where
  "groupByValue connections = foldl add_by_value [] (enumerate 0 connections)"

definition surplus ::
  "(string, (nat \<times> connection) list) jsmap \<Rightarrow> (string, (nat \<times> connection) list) jsmap \<Rightarrow> (nat \<times> connection) list" where
  \<comment> \<open>for every key of the first map, its entries beyond the number the second one has\<close>
  "surplus ours theirs = concat (map (\<lambda>(key, entries). drop (length (or_empty (map_get theirs key))) entries) ours)"

definition push_entry :: "string \<Rightarrow> string \<Rightarrow> nat \<Rightarrow> connection_diff \<Rightarrow> nat \<times> connection \<Rightarrow> connection_diff" where
  "push_entry nodeName inputName sourceIndex d v =
     (let forNode = or_empty (obj_get d nodeName);
          entries = or_empty (obj_get forNode inputName)
      in obj_set nodeName (obj_set inputName (entries @ [\<lparr>ce_sourceIndex = sourceIndex, ce_value = v\<rparr>]) forNode) d)"

definition compare_slot ::
  "string \<Rightarrow> string \<Rightarrow> node_inputs \<Rightarrow> node_inputs \<Rightarrow> connection_diff \<times> connection_diff \<Rightarrow> nat \<Rightarrow>
     connection_diff \<times> connection_diff" where
  "compare_slot nodeName inputName prevInputs nextInputs ds i =
     (let prevMap = groupByValue (slot_list (arr_get prevInputs i));
          nextMap = groupByValue (slot_list (arr_get nextInputs i))
      in (foldl (push_entry nodeName inputName i) (fst ds) (surplus nextMap prevMap),
          foldl (push_entry nodeName inputName i) (snd ds) (surplus prevMap nextMap)))"

definition compare_input ::
  "string \<Rightarrow> node_connections \<Rightarrow> node_connections \<Rightarrow> connection_diff \<times> connection_diff \<Rightarrow> string \<Rightarrow>
     connection_diff \<times> connection_diff" where
  "compare_input nodeName prevNode nextNode ds inputName =
     (let prevInputs = or_empty (obj_get prevNode inputName);
          nextInputs = or_empty (obj_get nextNode inputName)
      in foldl (compare_slot nodeName inputName prevInputs nextInputs) ds
           [0..<max (length prevInputs) (length nextInputs)])"

definition compare_node ::
  "connections \<Rightarrow> connections \<Rightarrow> connection_diff \<times> connection_diff \<Rightarrow> string \<Rightarrow> connection_diff \<times> connection_diff" where
  "compare_node prev next ds nodeName =
     (let prevNode = or_empty (obj_get prev nodeName);
          nextNode = or_empty (obj_get next nodeName)
      in foldl (compare_input nodeName prevNode nextNode) ds
           (set_of_list (map_keys prevNode @ map_keys nextNode)))"

definition compareConnections :: "connections \<Rightarrow> connections \<Rightarrow> connection_diff \<times> connection_diff" where
  \<comment> \<open>\<^verbatim>\<open>{ added, removed }\<close>\<close>
  "compareConnections prev next =
     foldl (compare_node prev next) ([], []) (set_of_list (map_keys prev @ map_keys next))"

subsection \<open>Grouping by value\<close>

lemma show_nat_brace: "show_nat i @ ''}'' = show_nat j @ ''}'' \<longleftrightarrow> i = j"
  by simp

lemma connection_text_eq:
  "connection_text c = ''{'' @ json_string ''node'' @ '':'' @ json_string (c_node c) @ '','' @ json_string ''type'' @ '':'' @
     json_string (c_type c) @ '','' @ json_string ''index'' @ '':'' @ show_nat (c_index c) @ ''}''"
  by (simp add: connection_text_def connection_json_def json_number_def)

lemma connection_text_inj [simp]: "connection_text c = connection_text d \<longleftrightarrow> c = d"
proof
  assume "connection_text c = connection_text d"
  then have "c_node c = c_node d \<and> c_type c = c_type d \<and> c_index c = c_index d"
    unfolding connection_text_eq by (simp add: json_string_inj)
  then show "c = d" by simp
qed simp

definition at_key :: "string \<Rightarrow> (nat \<times> connection) list \<Rightarrow> (nat \<times> connection) list" where
  "at_key k ics = filter (\<lambda>ic. connection_text (snd ic) = k) ics"

lemma group_get:
  "map_get (foldl add_by_value m ics) k =
     (if at_key k ics = [] then map_get m k else Some (or_empty (map_get m k) @ at_key k ics))"
proof (induction ics arbitrary: m)
  case Nil
  then show ?case by (simp add: at_key_def)
next
  case (Cons ic ics)
  have "map_get (add_by_value m ic) k =
      (if connection_text (snd ic) = k then Some (or_empty (map_get m k) @ [ic]) else map_get m k)"
    by (auto simp: add_by_value_def Let_def map_get_set split: option.splits)
  then show ?case using Cons [of "add_by_value m ic"] by (auto simp: at_key_def)
qed

lemma group_keyed: "well_keyed m \<Longrightarrow> well_keyed (foldl add_by_value m ics)"
  by (induction ics arbitrary: m) (auto simp: add_by_value_def Let_def split: option.splits)

lemma groupByValue_get: "or_empty (map_get (groupByValue cs) k) = at_key k (enumerate 0 cs)"
  by (simp add: groupByValue_def group_get)

lemma groupByValue_entries:
  "(k, es) \<in> set (groupByValue cs) \<longleftrightarrow> es = at_key k (enumerate 0 cs) \<and> es \<noteq> []"
proof -
  have "(k, es) \<in> set (groupByValue cs) \<longleftrightarrow> map_get (groupByValue cs) k = Some es"
    using well_keyed_get [OF group_keyed [OF well_keyed_Nil]] by (simp add: groupByValue_def)
  then show ?thesis by (auto simp: groupByValue_def group_get)
qed

lemma count_at_key: "length (at_key (connection_text c) (enumerate k cs)) = count (mset cs) c"
proof (induction cs arbitrary: k)
  case Nil
  then show ?case by (simp add: at_key_def)
next
  case (Cons d cs)
  then show ?case using Cons [of "Suc k"] by (auto simp: at_key_def)
qed

lemma count_concat_keyed:
  assumes "well_keyed m" and "\<And>k es v. (k, es) \<in> set m \<Longrightarrow> v \<in> set (f k es) \<Longrightarrow> connection_text (snd v) = k"
  shows "count (mset (map snd (concat (map (\<lambda>(k, es). f k es) m)))) c =
    (case map_get m (connection_text c) of None \<Rightarrow> 0 | Some es \<Rightarrow> length (f (connection_text c) es))"
  using assms
proof (induction m)
  case Nil
  then show ?case by simp
next
  case (Cons p m)
  obtain k es where p: "p = (k, es)" by force
  have wk: "well_keyed m" "map_get m k = None"
    using Cons.prems(1) by (auto simp: well_keyed_def p map_of_eq_None_iff)
  have rest: "count (mset (map snd (concat (map (\<lambda>(k, es). f k es) m)))) c =
      (case map_get m (connection_text c) of None \<Rightarrow> 0 | Some es \<Rightarrow> length (f (connection_text c) es))"
    by (rule Cons.IH [OF wk(1)]) (use Cons.prems(2) in auto)
  have all: "v \<in> set (f k es) \<Longrightarrow> connection_text (snd v) = k" for v using Cons.prems(2) [of k es v] by (simp add: p)
  show ?case
  proof (cases "connection_text c = k")
    case True
    then have "v \<in> set (f k es) \<Longrightarrow> snd v = c" for v using all by (metis connection_text_inj)
    then have "map snd (f k es) = replicate (length (f k es)) c" 
      using replicate_length_same [of "map snd (f k es)" c] by auto
    then show ?thesis using True rest wk(2) by (simp add: p count_replicate_mset [symmetric])
  next
    case False
    then have "c \<notin> snd ` set (f k es)" using all by auto
    then have "count (mset (map snd (f k es))) c = 0" by (simp add: count_eq_zero_iff)
    then show ?thesis using False rest by (simp add: p)
  qed
qed

lemma surplus_mset:
  "mset (map snd (surplus (groupByValue ours) (groupByValue theirs))) = mset ours - mset theirs"
proof (rule multiset_eqI)
  fix c
  let ?f = "\<lambda>k es. drop (length (or_empty (map_get (groupByValue theirs) k))) es"
  have "(k, es) \<in> set (groupByValue ours) \<Longrightarrow> v \<in> set (?f k es) \<Longrightarrow> connection_text (snd v) = k" for k es v
    by (auto simp: groupByValue_entries at_key_def dest!: in_set_dropD)
  moreover have none: "at_key (connection_text c) (enumerate 0 ours) = [] \<Longrightarrow> count (mset ours) c \<le> n" for n
    by (metis count_at_key list.size(3) zero_le)
  ultimately have "count (mset (map snd (surplus (groupByValue ours) (groupByValue theirs)))) c =
    (case map_get (groupByValue ours) (connection_text c) of
       None \<Rightarrow> 0 | Some es \<Rightarrow> length (?f (connection_text c) es))"
    unfolding surplus_def using group_keyed [OF well_keyed_Nil]
    by (intro count_concat_keyed) (auto simp: groupByValue_def)
  also have "\<dots> = count (mset ours) c - count (mset theirs) c"
    using none
    by (auto simp: groupByValue_get count_at_key groupByValue_def [of ours] group_get)
  finally show "count (mset (map snd (surplus (groupByValue ours) (groupByValue theirs)))) c =
    count (mset ours - mset theirs) c" by simp
qed

lemma surplus_positions:
  "(j, c) \<in> set (surplus (groupByValue ours) m) \<Longrightarrow> j < length ours \<and> ours ! j = c"
  by (auto simp: surplus_def groupByValue_entries at_key_def in_set_enumerate_eq dest!: in_set_dropD)

subsection \<open>All slots\<close>

definition recorded_entries :: "connection_diff \<Rightarrow> string \<Rightarrow> string \<Rightarrow> connection_entry list" where
  "recorded_entries d nm inp = or_empty (obj_get (or_empty (obj_get d nm)) inp)"

definition values_at :: "connection_diff \<Rightarrow> string \<Rightarrow> string \<Rightarrow> nat \<Rightarrow> (nat \<times> connection) list" where
  "values_at d nm inp i = map ce_value (filter (\<lambda>e. ce_sourceIndex e = i) (recorded_entries d nm inp))"

definition connections_at :: "connections \<Rightarrow> string \<Rightarrow> string \<Rightarrow> nat \<Rightarrow> connection list" where
  "connections_at conns nm inp i =
     slot_list (arr_get (or_empty (obj_get (or_empty (obj_get conns nm)) inp)) i)"

lemma values_push:
  "values_at (push_entry nm inp i d v) nm' inp' i' =
     values_at d nm' inp' i' @ (if (nm', inp', i') = (nm, inp, i) then [v] else [])"
  by (auto simp: values_at_def recorded_entries_def push_entry_def Let_def)

lemma values_pushes:
  "values_at (foldl (push_entry nm inp i) d vs) nm' inp' i' =
     values_at d nm' inp' i' @ (if (nm', inp', i') = (nm, inp, i) then vs else [])"
  by (induction vs arbitrary: d) (auto simp: values_push)

text \<open>A loop in which each element adds to one place only.\<close>

lemma foldl_places:
  assumes "distinct xs" and "\<And>d x. x \<in> set xs \<Longrightarrow> V (step d x) = V d @ (if x = k then new else [])"
  shows "V (foldl step d xs) = V d @ (if k \<in> set xs then new else [])"
  using assms
proof (induction xs arbitrary: d)
  case Nil
  then show ?case by simp
next
  case (Cons x xs)
  then have "V (foldl step (step d x) xs) = V (step d x) @ (if k \<in> set xs then new else [])" by simp
  with Cons.prems show ?case by auto
qed

definition slot_surplus :: "bool \<Rightarrow> connections \<Rightarrow> connections \<Rightarrow> string \<Rightarrow> string \<Rightarrow> nat \<Rightarrow> (nat \<times> connection) list" where
  "slot_surplus b prev next nm inp i =
     (let p = groupByValue (connections_at prev nm inp i); n = groupByValue (connections_at next nm inp i)
      in if b then surplus n p else surplus p n)"

definition pick_side :: "bool \<Rightarrow> 'a \<times> 'a \<Rightarrow> 'a" where
  "pick_side b p = (if b then fst p else snd p)"

lemma groupByValue_Nil [simp]: "groupByValue [] = []"
  by (simp add: groupByValue_def)

lemma surplus_Nil [simp]: "surplus [] m = []"
  by (simp add: surplus_def)

lemma slot_values:
  "values_at (pick_side b (compare_slot nm inp (or_empty (obj_get (or_empty (obj_get prev nm)) inp))
       (or_empty (obj_get (or_empty (obj_get next nm)) inp)) ds i)) nm' inp' i' =
     values_at (pick_side b ds) nm' inp' i' @
     (if nm' = nm \<and> inp' = inp \<and> i' = i then slot_surplus b prev next nm' inp' i' else [])"
  by (auto simp: compare_slot_def Let_def pick_side_def values_pushes slot_surplus_def connections_at_def)

lemma empty_slot: "length xs \<le> i \<Longrightarrow> slot_list (arr_get xs i) = []"
  by (simp add: arr_get_def)

lemma input_values:
  "values_at (pick_side b (compare_input nm (or_empty (obj_get prev nm)) (or_empty (obj_get next nm)) ds inp)) nm' inp' i' =
     values_at (pick_side b ds) nm' inp' i' @
     (if nm' = nm \<and> inp' = inp then slot_surplus b prev next nm' inp' i' else [])"
proof -
  let ?p = "or_empty (obj_get (or_empty (obj_get prev nm)) inp)" and ?n = "or_empty (obj_get (or_empty (obj_get next nm)) inp)"
  let ?new = "if nm' = nm \<and> inp' = inp then slot_surplus b prev next nm' inp' i' else []"
  have "values_at (pick_side b (foldl (compare_slot nm inp ?p ?n) ds [0..<max (length ?p) (length ?n)])) nm' inp' i' =
      values_at (pick_side b ds) nm' inp' i' @ (if i' \<in> set [0..<max (length ?p) (length ?n)] then ?new else [])"
    by (rule foldl_places) (auto simp: slot_values)
  moreover have "i' \<notin> set [0..<max (length ?p) (length ?n)] \<Longrightarrow> ?new = []"
    by (auto simp: slot_surplus_def connections_at_def empty_slot)
  ultimately show ?thesis unfolding compare_input_def Let_def by (auto split: if_splits)
qed

lemma not_key: "k \<notin> fst ` set m \<Longrightarrow> or_empty (map_of m k) = []"
  by (metis map_of_eq_None_iff or_empty_simps(1))

lemma node_values:
  "values_at (pick_side b (compare_node prev next ds nm)) nm' inp' i' =
     values_at (pick_side b ds) nm' inp' i' @ (if nm' = nm then slot_surplus b prev next nm' inp' i' else [])"
proof -
  let ?p = "or_empty (obj_get prev nm)" and ?n = "or_empty (obj_get next nm)"
  let ?new = "if nm' = nm then slot_surplus b prev next nm' inp' i' else []"
  have "values_at (pick_side b (foldl (compare_input nm ?p ?n) ds (set_of_list (map_keys ?p @ map_keys ?n)))) nm' inp' i' =
      values_at (pick_side b ds) nm' inp' i' @ (if inp' \<in> set (set_of_list (map_keys ?p @ map_keys ?n)) then ?new else [])"
    by (rule foldl_places) (auto simp: input_values)
  moreover have "inp' \<notin> set (set_of_list (map_keys ?p @ map_keys ?n)) \<Longrightarrow> ?new = []"
    by (auto simp: slot_surplus_def connections_at_def not_key)
  ultimately show ?thesis unfolding compare_node_def Let_def by (auto split: if_splits)
qed

lemma compare_values:
  "values_at (pick_side b (compareConnections prev next)) nm inp i = slot_surplus b prev next nm inp i"
proof -
  let ?names = "set_of_list (map_keys prev @ map_keys next)"
  have "values_at (pick_side b (foldl (compare_node prev next) ([], []) ?names)) nm inp i =
      values_at (pick_side b ([], [])) nm inp i @ (if nm \<in> set ?names then slot_surplus b prev next nm inp i else [])"
    by (rule foldl_places) (auto simp: node_values)
  moreover have "values_at (pick_side b ([], [])) nm inp i = []"
    by (simp add: pick_side_def values_at_def recorded_entries_def)
  moreover have "nm \<notin> set ?names \<Longrightarrow> slot_surplus b prev next nm inp i = []"
    by (auto simp: slot_surplus_def connections_at_def not_key)
  ultimately show ?thesis unfolding compareConnections_def by auto
qed

text \<open>
  C23. In every slot the added connections are those the new slot has more often than the old one, and the removed
  ones those the old slot has more often, counted with their multiplicity; each comes with its position in
  the slot it is from.
\<close>

theorem compareConnections_spec:
  "mset (map snd (values_at (fst (compareConnections prev next)) nm inp i)) =
     mset (connections_at next nm inp i) - mset (connections_at prev nm inp i) \<and>
   mset (map snd (values_at (snd (compareConnections prev next)) nm inp i)) =
     mset (connections_at prev nm inp i) - mset (connections_at next nm inp i) \<and>
   set (values_at (fst (compareConnections prev next)) nm inp i) \<subseteq> set (enumerate 0 (connections_at next nm inp i)) \<and>
   set (values_at (snd (compareConnections prev next)) nm inp i) \<subseteq> set (enumerate 0 (connections_at prev nm inp i))"
  using compare_values [of True prev "next" nm inp i] compare_values [of False prev "next" nm inp i]
    surplus_mset surplus_positions
  by (auto simp: pick_side_def slot_surplus_def Let_def in_set_enumerate_eq)

lemma surplus_empty: "surplus (groupByValue ours) (groupByValue theirs) = [] \<longleftrightarrow> mset ours \<subseteq># mset theirs"
  by (metis Diff_eq_empty_iff_mset surplus_mset mset_zero_iff map_is_Nil_conv)

text \<open>Nothing is kept for a node without an entry.\<close>

definition grounded :: "connection_diff \<Rightarrow> bool" where
  "grounded d \<longleftrightarrow> (\<forall>nm \<in> fst ` set d. \<exists>inp. recorded_entries d nm inp \<noteq> [])"

lemma grounded_push: "grounded d \<Longrightarrow> grounded (push_entry nm inp i d v)"
proof -
  assume g: "grounded d"
  have keys: "fst ` set (push_entry nm inp i d v) = insert nm (fst ` set d)" by (simp add: push_entry_def Let_def)
  have es: "recorded_entries (push_entry nm inp i d v) nm' inp' =
      recorded_entries d nm' inp' @ (if nm' = nm \<and> inp' = inp then [\<lparr>ce_sourceIndex = i, ce_value = v\<rparr>] else [])" for nm' inp'
    by (auto simp: recorded_entries_def push_entry_def Let_def)
  show ?thesis using g unfolding grounded_def keys es by auto
qed

lemma grounded_slot:
  "grounded (fst ds) \<and> grounded (snd ds) \<Longrightarrow>
    grounded (fst (compare_slot nm inp p n ds i)) \<and> grounded (snd (compare_slot nm inp p n ds i))"
  by (auto simp: compare_slot_def Let_def intro!: foldl_keeps [of grounded] grounded_push)

lemma grounded_compare: "grounded (pick_side b (compareConnections prev next))"
proof -
  let ?G = "\<lambda>ds. grounded (fst ds) \<and> grounded (snd ds)"
  have inputs: "?G ds \<Longrightarrow> ?G (compare_input nm p n ds inp)" for ds nm p n inp
    unfolding compare_input_def Let_def by (rule foldl_keeps [of ?G]) (simp_all add: grounded_slot)
  have nodes: "?G ds \<Longrightarrow> ?G (compare_node prev next ds nm)" for ds nm
    unfolding compare_node_def Let_def by (rule foldl_keeps [of ?G]) (simp_all add: inputs)
  have "?G (compareConnections prev next)"
    unfolding compareConnections_def by (rule foldl_keeps [of ?G]) (simp add: grounded_def, simp add: nodes)
  then show ?thesis by (simp add: pick_side_def)
qed

lemma compare_empty:
  "pick_side b (compareConnections prev next) = [] \<longleftrightarrow>
     (\<forall>nm inp i. slot_surplus b prev next nm inp i = [])"
proof -
  let ?d = "pick_side b (compareConnections prev next)"
  have "?d = [] \<longleftrightarrow> (\<forall>nm inp. recorded_entries ?d nm inp = [])"
  proof
    assume none: "\<forall>nm inp. recorded_entries ?d nm inp = []"
    show "?d = []"
    proof (rule ccontr)
      assume "?d \<noteq> []"
      then obtain nm where "nm \<in> fst ` set ?d" by (metis image_eqI list.set_sel(1))
      then show False using grounded_compare none unfolding grounded_def by blast
    qed
  qed (simp add: recorded_entries_def)
  also have "\<dots> \<longleftrightarrow> (\<forall>nm inp i. values_at ?d nm inp i = [])"
    by (auto simp: values_at_def filter_empty_conv) (metis list.set_sel(1))
  finally show ?thesis by (simp add: compare_values)
qed

lemma none_removed:
  "snd (compareConnections prev next) = [] \<longleftrightarrow>
     (\<forall>nm inp i. mset (connections_at prev nm inp i) \<subseteq># mset (connections_at next nm inp i))"
  using compare_empty [of False prev "next"] by (simp add: pick_side_def slot_surplus_def Let_def surplus_empty)

lemma none_added:
  "fst (compareConnections prev next) = [] \<longleftrightarrow>
     (\<forall>nm inp i. mset (connections_at next nm inp i) \<subseteq># mset (connections_at prev nm inp i))"
  using compare_empty [of True prev "next"] by (simp add: pick_side_def slot_surplus_def Let_def surplus_empty)

end
