(* ===== verification/WorkflowDiff.thy ===== *)
theory WorkflowDiff
  imports ConnectionDiff NodeGrouping Sorting "HOL-Library.Sublist"
begin

section \<open>Comparing and merging versions of a workflow\<close>

text \<open>
  \<^verbatim>\<open>packages/workflow/src/workflow-diff.ts\<close>: the comparison of the nodes of two versions, the test whether a version
  only adds to the one before it, and the grouping of a history, which removes the versions that are merged into
  a later one. A node is the JavaScript object it is in the source. \<^verbatim>\<open>isEqual\<close> and \<^verbatim>\<open>pick\<close> are functions of the
  library lodash and hence parameters. Versions that are \<^verbatim>\<open>===\<close> are equal records: \<open>dw_ref\<close> is their identity.
\<close>

subsection \<open>Nodes\<close>

type_synonym js_node = "js jsobj"

definition own_value :: "js jsobj \<Rightarrow> string \<Rightarrow> js" where
  "own_value n k = (case obj_get n k of None \<Rightarrow> JUndefined | Some v \<Rightarrow> v)"

datatype NodeDiffStatus = Eq | Modified | Added | Deleted

type_synonym workflow_diff = "(js, NodeDiffStatus \<times> js_node) jsmap"

definition propsToCompare :: "string list" where
  "propsToCompare =
     [''name'', ''type'', ''typeVersion'', ''webhookId'', ''credentials'', ''parameters'', ''disabled'', ''notes'',
      ''notesInFlow'', ''onError'', ''continueOnFail'', ''retryOnFail'', ''maxTries'', ''waitBetweenTries'',
      ''alwaysOutputData'', ''executeOnce'']"

record lodash =
  lo_isEqual :: "js jsobj \<Rightarrow> js jsobj \<Rightarrow> bool"
  lo_pick :: "js_node option \<Rightarrow> string list \<Rightarrow> js jsobj"
  lo_isEqualConnections :: "connections \<Rightarrow> connections \<Rightarrow> bool"

definition compareNodes :: "lodash \<Rightarrow> js_node option \<Rightarrow> js_node option \<Rightarrow> bool" where
  "compareNodes lo base target =
     lo_isEqual lo (lo_pick lo base propsToCompare) (lo_pick lo target propsToCompare)"

definition nodes_by_js_id :: "js_node list \<Rightarrow> (js, js_node) jsmap" where
  "nodes_by_js_id nodes = foldl (\<lambda>acc n. map_set (own_value n ''id'') n acc) [] nodes"

definition compareWorkflowsNodes ::
  "js_node list \<Rightarrow> js_node list \<Rightarrow> (js_node option \<Rightarrow> js_node option \<Rightarrow> bool) \<Rightarrow> workflow_diff" where
  "compareWorkflowsNodes base target nodesEqual =
     (let baseNodes = nodes_by_js_id base;
          targetNodes = nodes_by_js_id target;
          diff = foldl (\<lambda>diff (i, n).
            map_set i
              (if \<not> map_has targetNodes i then (Deleted, n)
               else if \<not> nodesEqual (map_get baseNodes i) (map_get targetNodes i) then (Modified, n)
               else (Eq, n)) diff) [] baseNodes
      in foldl (\<lambda>diff (i, n). if \<not> map_has baseNodes i then map_set i (Added, n) diff else diff) diff targetNodes)"

subsection \<open>Versions\<close>

record diffable_workflow =
  dw_ref :: nat
  dw_nodes :: "js_node list"
  dw_connections :: connections
  dw_createdAt :: int
  dw_authors :: "string option"
  dw_nodeGroups :: "workflow_group list option"

record change_set =
  cs_nodes :: workflow_diff
  cs_added :: connection_diff
  cs_removed :: connection_diff

definition WorkflowChangeSet :: "lodash \<Rightarrow> diffable_workflow \<Rightarrow> diffable_workflow \<Rightarrow> change_set" where
  "WorkflowChangeSet lo source to =
     (if source = to
      then \<lparr>cs_nodes = foldl (\<lambda>m n. map_set (own_value n ''id'') (Eq, n) m) [] (dw_nodes source),
            cs_added = [], cs_removed = []\<rparr>
      else \<lparr>cs_nodes = compareWorkflowsNodes (dw_nodes source) (dw_nodes to) (compareNodes lo),
            cs_added = fst (compareConnections (dw_connections source) (dw_connections to)),
            cs_removed = snd (compareConnections (dw_connections source) (dw_connections to))\<rparr>)"

subsection \<open>Text and parameters that only grow\<close>

text \<open>The loop over \<open>s\<close>, of which \<open>i\<close> characters are behind; \<open>marker\<close> of those of \<open>substr\<close> were found.\<close>

fun parts_loop :: "string \<Rightarrow> nat \<Rightarrow> string \<Rightarrow> nat \<Rightarrow> nat \<Rightarrow> bool" where
  "parts_loop substr diffSize [] i marker = (marker \<ge> length substr)"
| "parts_loop substr diffSize (c # s) i marker =
     (let marker = (if marker < length substr \<and> substr ! marker = c then Suc marker else marker)
      in if int i - int marker > int diffSize then False
         else parts_loop substr diffSize s (Suc i) marker)"

definition stringContainsParts :: "string \<Rightarrow> string \<Rightarrow> bool" where
  "stringContainsParts s substr =
     (if length substr > length s then False
      else parts_loop substr (length s - length substr) s 0 0)"

datatype js_type = TUndefined | TObject | TBoolean | TNumber | TString

fun js_typeof :: "js \<Rightarrow> js_type" where
  "js_typeof JUndefined = TUndefined"
| "js_typeof JNull = TObject"
| "js_typeof (JBool _) = TBoolean"
| "js_typeof (JNum _) = TNumber"
| "js_typeof (JStr _) = TString"
| "js_typeof (JArr _) = TObject"
| "js_typeof (JObj _) = TObject"

fun same_primitive :: "js \<Rightarrow> js \<Rightarrow> bool" where
  \<comment> \<open>\<^verbatim>\<open>===\<close> where one side is not an object: \<open>NaN\<close> is not itself\<close>
  "same_primitive JUndefined JUndefined = True"
| "same_primitive JNull JNull = True"
| "same_primitive (JBool a) (JBool b) = (a = b)"
| "same_primitive (JNum a) (JNum b) = (a = b \<and> a \<noteq> NaN)"
| "same_primitive (JStr a) (JStr b) = (a = b)"
| "same_primitive _ _ = False"

text \<open>The own enumerable members of an object or array, and any own property, of which an array has its length too.\<close>

fun js_members :: "js \<Rightarrow> (string \<times> js) list" where
  "js_members (JObj kvs) = kvs"
| "js_members (JArr vs) = map (\<lambda>(i, v). (show_nat i, v)) (enumerate 0 vs)"
| "js_members _ = []"

definition own_property :: "js \<Rightarrow> string \<Rightarrow> js option" where
  "own_property v k =
     (case v of
        JArr vs \<Rightarrow> if k = ''length'' then Some (JNum (Finite (of_nat (length vs)))) else map_of (js_members v) k
      | _ \<Rightarrow> map_of (js_members v) k)"

definition member_value :: "js \<Rightarrow> string \<Rightarrow> js" where
  "member_value v k = (case own_property v k of None \<Rightarrow> JUndefined | Some w \<Rightarrow> w)"

fun parametersAreSuperset :: "js \<Rightarrow> js \<Rightarrow> bool"
  and superset_elements :: "js list \<Rightarrow> js list \<Rightarrow> bool"
  and superset_members :: "(string \<times> js) list \<Rightarrow> js \<Rightarrow> bool" where
  "parametersAreSuperset (JStr s) nxt = (case nxt of JStr t \<Rightarrow> stringContainsParts t s | _ \<Rightarrow> False)"
| "parametersAreSuperset (JArr xs) nxt =
     (case nxt of JArr ys \<Rightarrow> length xs = length ys \<and> superset_elements xs ys | _ \<Rightarrow> False)"
| "parametersAreSuperset (JObj kvs) nxt =
     (if js_typeof nxt \<noteq> TObject \<or> nxt = JNull then False
      else if length kvs \<noteq> length (js_members nxt) then False
      else if \<not> list_all (\<lambda>(k, v). own_property nxt k \<noteq> None) kvs then False
      else superset_members kvs nxt)"
| "parametersAreSuperset prev nxt = (js_typeof prev = js_typeof nxt \<and> same_primitive prev nxt)"
| "superset_elements [] ys = True"
| "superset_elements (x # xs) ys =
     (case ys of [] \<Rightarrow> parametersAreSuperset x JUndefined \<and> superset_elements xs []
      | y # ys \<Rightarrow> parametersAreSuperset x y \<and> superset_elements xs ys)"
| "superset_members [] nxt = True"
| "superset_members ((k, v) # kvs) nxt =
     (parametersAreSuperset v (member_value nxt k) \<and> superset_members kvs nxt)"

definition without_parameters :: "js_node \<Rightarrow> js_node" where
  \<comment> \<open>\<^verbatim>\<open>{ ...rest, parameters: {} }\<close>\<close>
  "without_parameters n = obj_set ''parameters'' (JObj []) (obj_delete ''parameters'' n)"

definition nodeIsSuperset :: "lodash \<Rightarrow> js_node \<Rightarrow> js_node \<Rightarrow> bool" where
  "nodeIsSuperset lo prevNode nextNode =
     (if \<not> compareNodes lo (Some (without_parameters prevNode)) (Some (without_parameters nextNode)) then False
      else parametersAreSuperset (own_value prevNode ''parameters'') (own_value nextNode ''parameters''))"

subsection \<open>Rules\<close>

definition nodeGroupChangesAreAdditive :: "diffable_workflow \<Rightarrow> diffable_workflow \<Rightarrow> bool" where
  "nodeGroupChangesAreAdditive prev nxt =
     (let nextGroupsById = foldl (\<lambda>m g. map_set (g_id g) g m) [] (or_empty (dw_nodeGroups nxt))
      in list_all (\<lambda>g. case map_get nextGroupsById (g_id g) of
             None \<Rightarrow> False
           | Some h \<Rightarrow> g_name h = g_name g \<and> g_description h = g_description g \<and>
               list_all (\<lambda>i. i \<in> set (g_nodeIds h)) (g_nodeIds g))
           (or_empty (dw_nodeGroups prev)))"

definition invariant_broken :: js_error where
  "invariant_broken = UnexpectedError ''invariant broken - no next node''"

fun all_additive :: "lodash \<Rightarrow> js_node list \<Rightarrow> (NodeDiffStatus \<times> js_node) list \<Rightarrow> bool result" where
  "all_additive lo nextNodes [] = Inr True"
| "all_additive lo nextNodes ((status, n) # ds) =
     (if status = Deleted then Inr False
      else if status = Added then all_additive lo nextNodes ds
      else case find (\<lambda>x. own_value x ''id'' = own_value n ''id'') nextNodes of
             None \<Rightarrow> Inl invariant_broken
           | Some m \<Rightarrow> if status = Modified \<and> \<not> nodeIsSuperset lo n m then Inr False
                       else all_additive lo nextNodes ds)"

definition mergeAdditiveChanges ::
  "lodash \<Rightarrow> diffable_workflow \<Rightarrow> diffable_workflow \<Rightarrow> change_set \<Rightarrow> nat option \<Rightarrow> bool result" where
  "mergeAdditiveChanges lo prev nxt diff metaData =
     bind_result (all_additive lo (dw_nodes nxt) (map_values (cs_nodes diff))) (\<lambda>b.
       Inr (b \<and> length (map_keys (cs_removed diff)) = 0 \<and> nodeGroupChangesAreAdditive prev nxt))"

type_synonym diff_rule =
  "diffable_workflow \<Rightarrow> diffable_workflow \<Rightarrow> change_set \<Rightarrow> nat option \<Rightarrow> bool result"

definition makeSkipTimeDifference :: "int \<Rightarrow> diff_rule" where
  "makeSkipTimeDifference timeDiffMs prev nxt wcs metaData =
     Inr (\<bar>dw_createdAt nxt - dw_createdAt prev\<bar> > timeDiffMs)"

definition makeMergeShortTimeSpan :: "int \<Rightarrow> diffable_workflow \<Rightarrow> diffable_workflow \<Rightarrow> bool" where
  "makeMergeShortTimeSpan timeDiffMs prev nxt = (\<bar>dw_createdAt nxt - dw_createdAt prev\<bar> < timeDiffMs)"

definition larger_first :: "int \<times> int \<Rightarrow> int \<times> int \<Rightarrow> int" where
  "larger_first a b = fst b - fst a"

definition makeMergeDependingOnSizeRule :: "(int, int) jsmap \<Rightarrow> diff_rule" where
  "makeMergeDependingOnSizeRule mapping prev nxt wcs metaData =
     (case metaData of
        None \<Rightarrow> Inr False
      | Some score \<Rightarrow>
          (case find (\<lambda>(least, time). int score > least) (js_sort larger_first mapping) of
             None \<Rightarrow> Inr False
           | Some (least, time) \<Rightarrow> Inr (makeMergeShortTimeSpan time prev nxt)))"

definition skipDifferentUsers :: diff_rule where
  "skipDifferentUsers prev nxt wcs metaData = Inr (dw_authors nxt \<noteq> dw_authors prev)"

subsection \<open>The size of a workflow\<close>

fun determineNodeSize :: "js \<Rightarrow> nat" where
  "determineNodeSize (JStr s) = (if s = [] then 1 else length s)"
| "determineNodeSize (JArr vs) = foldl (+) 1 (map determineNodeSize vs)"
| "determineNodeSize (JObj kvs) = foldl (+) 1 (map (\<lambda>kv. determineNodeSize (snd kv)) kvs)"
| "determineNodeSize _ = 1"

definition determineNodeParametersSize :: "diffable_workflow \<Rightarrow> nat" where
  "determineNodeParametersSize w =
     foldl (\<lambda>acc x. acc + determineNodeSize (own_value x ''parameters'')) 0 (dw_nodes w)"

subsection \<open>Grouping a history\<close>

fun first_true :: "bool result list \<Rightarrow> bool result" where
  \<comment> \<open>a loop over rules that stops at the first one that holds\<close>
  "first_true [] = Inr False"
| "first_true (r # rs) = bind_result r (\<lambda>b. if b then Inr True else first_true rs)"

definition should_merge ::
  "lodash \<Rightarrow> diff_rule list \<Rightarrow> diff_rule list \<Rightarrow> nat option \<Rightarrow> diffable_workflow \<Rightarrow> diffable_workflow \<Rightarrow> bool result" where
  "should_merge lo rules skipRules metaData a b =
     (let wcs = WorkflowChangeSet lo a b
      in bind_result (first_true (map (\<lambda>r. r a b wcs metaData) skipRules)) (\<lambda>skip.
           if skip then Inr False else first_true (map (\<lambda>r. r a b wcs metaData) rules)))"

fun diff_loop ::
  "lodash \<Rightarrow> diff_rule list \<Rightarrow> diff_rule list \<Rightarrow> nat option \<Rightarrow> nat \<Rightarrow>
     diffable_workflow list \<Rightarrow> diffable_workflow list \<Rightarrow> (diffable_workflow list \<times> diffable_workflow list) result" where
  "diff_loop lo rules skipRules metaData 0 remaining removed = Inr (removed, remaining)"
| "diff_loop lo rules skipRules metaData (Suc i) remaining removed =
     bind_result (should_merge lo rules skipRules metaData (remaining ! i) (remaining ! Suc i)) (\<lambda>merge.
       if merge
       then diff_loop lo rules skipRules metaData i (take i remaining @ drop (Suc i) remaining)
              (removed @ [remaining ! i])
       else diff_loop lo rules skipRules metaData i remaining removed)"

definition size_score :: "diffable_workflow list \<Rightarrow> bool \<Rightarrow> nat option" where
  "size_score workflows wanted =
     (if wanted
      then Some (max (determineNodeParametersSize (workflows ! (length workflows div 2)))
                     (determineNodeParametersSize (workflows ! (length workflows - 1))))
      else None)"

definition groupWorkflows ::
  "lodash \<Rightarrow> diffable_workflow list \<Rightarrow> diff_rule list \<Rightarrow> diff_rule list \<Rightarrow> bool \<Rightarrow>
     (diffable_workflow list \<times> diffable_workflow list) result" where
  \<comment> \<open>\<^verbatim>\<open>{ removed, remaining }\<close>\<close>
  "groupWorkflows lo workflows rules skipRules wantsSizeScore =
     (if length workflows = 0 then Inr ([], [])
      else if length workflows = 1 then Inr ([], workflows)
      else diff_loop lo rules skipRules (size_score workflows wantsSizeScore) (length workflows - 1) workflows [])"

subsection \<open>Changes between two versions\<close>

definition hasNonPositionalChanges ::
  "lodash \<Rightarrow> js_node list \<Rightarrow> js_node list \<Rightarrow> connections \<Rightarrow> connections \<Rightarrow> bool" where
  "hasNonPositionalChanges lo oldNodes newNodes oldConnections newConnections =
     (if list_ex (\<lambda>d. fst d \<noteq> Eq) (map_values (compareWorkflowsNodes oldNodes newNodes (compareNodes lo))) then True
      else \<not> lo_isEqualConnections lo oldConnections newConnections)"

record credential_node =
  cn_id :: string
  cn_credentials :: "string slot jsobj option"  \<comment> \<open>the id of each credential, by credential type\<close>

definition credential_id :: "string slot jsobj \<Rightarrow> string \<Rightarrow> string slot" where
  \<comment> \<open>\<^verbatim>\<open>creds[credType]?.id\<close>\<close>
  "credential_id creds t = (case obj_get creds t of None \<Rightarrow> Undefined | Some i \<Rightarrow> i)"

definition credentials_changed :: "string slot jsobj \<Rightarrow> string slot jsobj \<Rightarrow> bool" where
  "credentials_changed oldCreds newCreds =
     (if list_ex (\<lambda>t. obj_get newCreds t = None \<or> credential_id oldCreds t \<noteq> credential_id newCreds t)
           (map_keys oldCreds)
      then True
      else list_ex (\<lambda>t. obj_get oldCreds t = None) (map_keys newCreds))"

definition hasCredentialChanges :: "credential_node list \<Rightarrow> credential_node list \<Rightarrow> bool" where
  "hasCredentialChanges oldNodes newNodes =
     (let newNodesMap = foldl (\<lambda>m n. map_set (cn_id n) n m) [] newNodes
      in list_ex (\<lambda>n. case map_get newNodesMap (cn_id n) of
             None \<Rightarrow> False
           | Some m \<Rightarrow> credentials_changed (or_empty (cn_credentials n)) (or_empty (cn_credentials m))) oldNodes)"

subsection \<open>Nothing is lost from a text\<close>

lemma subseq_length_le: "length ys < length xs \<Longrightarrow> \<not> subseq xs ys"
  by (rule not_subseq_length)

lemma parts_loop_iff:
  assumes "i + length s = n" and "k = length substr" and "k \<le> n" and "m \<le> k"
  shows "parts_loop substr (n - k) s i m \<longleftrightarrow> subseq (drop m substr) s"
  using assms
proof (induction s arbitrary: i m)
  case Nil
  then show ?case by (auto dest!: list_emb_length)
next
  case (Cons c s)
  define m' where "m' = (if m < length substr \<and> substr ! m = c then Suc m else m)"
  have m': "m' \<le> k" using Cons.prems by (auto simp: m'_def)
  have sub: "subseq (drop m substr) (c # s) \<longleftrightarrow> subseq (drop m' substr) s"
  proof (cases "m < length substr")
    case True
    then have d: "drop m substr = substr ! m # drop (Suc m) substr" by (simp add: Cons_nth_drop_Suc)
    show ?thesis using True by (auto simp: m'_def d)
  next
    case False
    then show ?thesis by (simp add: m'_def)
  qed
  have "int i - int m' > int (n - k) \<Longrightarrow> \<not> subseq (drop m' substr) s"
    using Cons.prems m' by (intro subseq_length_le) auto
  then show ?case using Cons.IH [of "Suc i" m'] Cons.prems m' by (auto simp: sub m'_def [symmetric] Let_def)
qed

lemma stringContainsParts_iff: "stringContainsParts s substr \<longleftrightarrow> subseq substr s"
  using parts_loop_iff [of 0 s "length s" "length substr" substr 0] subseq_length_le
  by (auto simp: stringContainsParts_def)

text \<open>
  \<^verbatim>\<open>stringContainsParts\<close>, which gives up as soon as too few characters are left, holds exactly if the second
  text is a subsequence of the first.
\<close>

theorem stringContainsParts_spec: "stringContainsParts s substr \<longleftrightarrow> subseq substr s"
  by (rule stringContainsParts_iff)

lemma contains_parts_examples:
  \<comment> \<open>the comment of the function expects the second one not to be contained\<close>
  "stringContainsParts ''abcde'' ''abde''" "stringContainsParts ''abcde'' ''abcd''" "\<not> stringContainsParts ''abcde'' ''abced''"
  by code_simp+

subsection \<open>Supersets of parameters\<close>

text \<open>Parameters without \<^verbatim>\<open>NaN\<close>, with distinct keys and without a key that arrays have as well.\<close>

fun clean_js :: "js \<Rightarrow> bool" where
  "clean_js (JNum n) = (n \<noteq> NaN)"
| "clean_js (JArr vs) = list_all clean_js vs"
| "clean_js (JObj kvs) = (well_keyed kvs \<and> ''length'' \<notin> fst ` set kvs \<and> list_all (\<lambda>kv. clean_js (snd kv)) kvs)"
| "clean_js _ = True"

definition is_js_object :: "js \<Rightarrow> bool" where
  "is_js_object v \<longleftrightarrow> js_typeof v = TObject \<and> v \<noteq> JNull"

lemma is_js_object_simps [simp]:
  "is_js_object (JArr vs)" "is_js_object (JObj kvs)" "\<not> is_js_object JNull" "\<not> is_js_object JUndefined"
  "\<not> is_js_object (JBool b)" "\<not> is_js_object (JNum n)" "\<not> is_js_object (JStr s)"
  by (simp_all add: is_js_object_def)

lemma superset_elements_iff:
  "length xs = length ys \<Longrightarrow>
    superset_elements xs ys \<longleftrightarrow> (\<forall>i < length xs. parametersAreSuperset (xs ! i) (ys ! i))"
proof (induction xs arbitrary: ys)
  case Nil
  then show ?case by simp
next
  case (Cons x xs)
  then obtain y ys' where ys: "ys = y # ys'" "length xs = length ys'" by (cases ys) auto
  with Cons.IH [OF ys(2)] show ?case by (auto simp: nth_Cons' less_Suc_eq_0_disj)
qed

lemma superset_members_iff:
  "superset_members kvs w \<longleftrightarrow> (\<forall>(k, v) \<in> set kvs. parametersAreSuperset v (member_value w k))"
  by (induction kvs) auto

lemma array_member: "map_of (js_members (JArr vs)) k = Some v \<longleftrightarrow> (\<exists>i < length vs. k = show_nat i \<and> v = vs ! i)"
proof -
  have "distinct (map fst (js_members (JArr vs)))"
    by (simp add: comp_def case_prod_unfold distinct_map inj_on_def in_set_enumerate_eq) (auto simp: in_set_enumerate_eq)
  then have "map_of (js_members (JArr vs)) k = Some v \<longleftrightarrow> (k, v) \<in> set (js_members (JArr vs))"
    by (rule map_of_eq_Some_iff)
  also have "\<dots> \<longleftrightarrow> (\<exists>i < length vs. k = show_nat i \<and> v = vs ! i)"
  proof -
    have "set (enumerate 0 vs) = (\<lambda>i. (i, vs ! i)) ` {..<length vs}" by (auto simp: in_set_enumerate_eq image_iff)
    then show ?thesis by auto
  qed
  finally show ?thesis .
qed

lemma array_keyed: "well_keyed (js_members (JArr vs))"
  by (simp add: well_keyed_def comp_def case_prod_unfold distinct_map inj_on_def) (auto simp: in_set_enumerate_eq)

lemma digits_not_length: "show_nat i \<noteq> ''length''"
proof
  assume "show_nat i = ''length''"
  then have "is_digit (CHR ''l'')" using show_nat_digits [of "CHR ''l''" i] by simp
  then show False by (simp add: is_digit_def)
qed

text \<open>Between objects and arrays the superset test compares members, whatever the shapes are.\<close>

lemma superset_objects:
  assumes "is_js_object a" and "clean_js a"
  shows "parametersAreSuperset a b \<longleftrightarrow>
    is_js_object b \<and> (\<forall>vs. a = JArr vs \<longrightarrow> (\<exists>ws. b = JArr ws)) \<and> length (js_members a) = length (js_members b) \<and>
    (\<forall>k v. map_of (js_members a) k = Some v \<longrightarrow>
       (\<exists>w. map_of (js_members b) k = Some w \<and> parametersAreSuperset v w))"
proof (cases a)
  case (JArr xs)
  show ?thesis
  proof (cases b)
    case (JArr ys)
    show ?thesis
    proof (cases "length xs = length ys")
      case True
      have "(\<forall>k v. map_of (js_members (JArr xs)) k = Some v \<longrightarrow>
          (\<exists>w. map_of (js_members (JArr ys)) k = Some w \<and> parametersAreSuperset v w)) \<longleftrightarrow>
        (\<forall>i < length xs. parametersAreSuperset (xs ! i) (ys ! i))"
        unfolding array_member using True by (metis show_nat_inj)
      then show ?thesis
        using True \<open>a = JArr xs\<close> JArr superset_elements_iff [OF True] by simp
    next
      case False
      then show ?thesis using \<open>a = JArr xs\<close> JArr by simp
    qed
  qed (use JArr in auto)
next
  case (JObj kvs)
  have own: "k \<noteq> ''length'' \<Longrightarrow> own_property b k = map_of (js_members b) k" for k
    by (auto simp: own_property_def split: js.splits)
  have clean: "well_keyed kvs" "(k, v) \<in> set kvs \<Longrightarrow> k \<noteq> ''length''" for k v
    using assms(2) JObj by (simp, force)
  have element: "own_property b (fst p) \<noteq> None \<and> parametersAreSuperset (snd p) (member_value b (fst p)) \<longleftrightarrow>
      (\<exists>w. map_of (js_members b) (fst p) = Some w \<and> parametersAreSuperset (snd p) w)" if "p \<in> set kvs" for p
    using own [OF clean(2) [of "fst p" "snd p"]] that by (auto simp: member_value_def)
  have "list_all (\<lambda>(k, v). own_property b k \<noteq> None) kvs \<and> superset_members kvs b \<longleftrightarrow>
      (\<forall>p \<in> set kvs. own_property b (fst p) \<noteq> None \<and> parametersAreSuperset (snd p) (member_value b (fst p)))"
    by (auto simp: list_all_iff superset_members_iff case_prod_unfold)
  also have "\<dots> \<longleftrightarrow> (\<forall>p \<in> set kvs. \<exists>w. map_of (js_members b) (fst p) = Some w \<and> parametersAreSuperset (snd p) w)"
    by (rule ball_cong [OF refl element])
  also have "\<dots> \<longleftrightarrow> (\<forall>k v. map_of kvs k = Some v \<longrightarrow> (\<exists>w. map_of (js_members b) k = Some w \<and> parametersAreSuperset v w))"
    using well_keyed_get [OF clean(1)] by auto
  finally show ?thesis using JObj by (auto simp: is_js_object_def)
qed (use assms(1) in auto)

lemma superset_refl: "clean_js a \<Longrightarrow> parametersAreSuperset a a"
proof (induction a)
  case (JStr s)
  then show ?case by (simp add: stringContainsParts_iff)
next
  case (JArr vs)
  then show ?case by (auto simp: superset_elements_iff list_all_iff)
next
  case (JObj kvs)
  have "map_of kvs k = Some v \<Longrightarrow> parametersAreSuperset v v" for k v
    using JObj by (auto simp: list_all_iff snds.simps dest!: map_of_SomeD)
  then show ?case using JObj.prems superset_objects [of "JObj kvs" "JObj kvs"] by auto
qed auto

lemma clean_member: "clean_js d \<Longrightarrow> map_of (js_members d) k = Some v \<Longrightarrow> clean_js v"
  by (cases d) (auto simp: array_member list_all_iff simp del: js_members.simps(2) dest!: map_of_SomeD)

lemma superset_trans_objects:
  assumes "is_js_object a" "clean_js a" "clean_js b" "parametersAreSuperset a b" "parametersAreSuperset b c"
    and step: "\<And>k v w u. map_of (js_members a) k = Some v \<Longrightarrow> clean_js v \<Longrightarrow> clean_js w \<Longrightarrow>
      parametersAreSuperset v w \<Longrightarrow> parametersAreSuperset w u \<Longrightarrow> parametersAreSuperset v u"
  shows "parametersAreSuperset a c"
proof -
  note ab = assms(4) [unfolded superset_objects [OF assms(1,2)]]
  then have b: "is_js_object b" by blast
  note bc = assms(5) [unfolded superset_objects [OF b assms(3)]]
  have "\<exists>u. map_of (js_members c) k = Some u \<and> parametersAreSuperset v u" if k: "map_of (js_members a) k = Some v" for k v
  proof -
    obtain w where w: "map_of (js_members b) k = Some w" "parametersAreSuperset v w" using ab k by blast
    obtain u where u: "map_of (js_members c) k = Some u" "parametersAreSuperset w u" using bc w(1) by blast
    show ?thesis
      using step [OF k clean_member [OF assms(2) k] clean_member [OF assms(3) w(1)] w(2) u(2)] u(1) by blast
  qed
  then show ?thesis unfolding superset_objects [OF assms(1,2)] using ab bc by auto
qed

lemma superset_trans:
  "clean_js a \<Longrightarrow> clean_js b \<Longrightarrow> parametersAreSuperset a b \<Longrightarrow> parametersAreSuperset b c \<Longrightarrow> parametersAreSuperset a c"
proof (induction a arbitrary: b c)
  case (JStr s)
  then show ?case
    by (auto simp: stringContainsParts_iff split: js.splits intro: subseq_order.order_trans)
next
  case (JArr xs)
  show ?case
  proof (rule superset_trans_objects [OF is_js_object_simps(1) JArr.prems])
    fix k v w u
    assume "map_of (js_members (JArr xs)) k = Some v"
    then have "v \<in> set xs" unfolding array_member by auto
    then show "clean_js v \<Longrightarrow> clean_js w \<Longrightarrow> parametersAreSuperset v w \<Longrightarrow> parametersAreSuperset w u \<Longrightarrow> parametersAreSuperset v u"
      by (rule JArr.IH)
  qed
next
  case (JObj kvs)
  show ?case
  proof (rule superset_trans_objects [OF is_js_object_simps(2) JObj.prems])
    fix k v w u
    assume "map_of (js_members (JObj kvs)) k = Some v"
    then have "(k, v) \<in> set kvs" by (simp add: map_of_SomeD)
    then show "clean_js v \<Longrightarrow> clean_js w \<Longrightarrow> parametersAreSuperset v w \<Longrightarrow> parametersAreSuperset w u \<Longrightarrow> parametersAreSuperset v u"
      by (rule JObj.IH) (simp add: snds.simps)
  qed
next
  case (JBool x)
  then show ?case by (cases b; cases c) auto
next
  case (JNum x)
  then show ?case by (cases b; cases c) auto
next
  case JUndefined
  then show ?case by (cases b; cases c) auto
next
  case JNull
  then show ?case by (cases b; cases c) auto
qed

end
