(* ===== verification/WorkflowHistory.thy ===== *)
theory WorkflowHistory
  imports WorkflowDiff
begin

section \<open>What merging versions keeps\<close>

text \<open>
  The properties of \<^verbatim>\<open>workflow-diff.ts\<close> as a whole: a version that only adds is not smaller, merging an additive
  version loses nothing, and the grouping of a history cuts it into runs, each of which is merged into its
  newest version.
\<close>

subsection \<open>Sizes\<close>

lemma foldl_plus: "foldl (+) k xs = k + sum_list (xs :: nat list)"
  by (induction xs arbitrary: k) auto

lemma size_object:
  "is_js_object v \<Longrightarrow> determineNodeSize v = 1 + sum_list (map (\<lambda>m. determineNodeSize (snd m)) (js_members v))"
proof (cases v)
  case (JArr vs)
  have "map (\<lambda>m. determineNodeSize (snd m)) (enumerate 0 vs) = map determineNodeSize (map snd (enumerate 0 vs))"
    by (simp only: map_map comp_def)
  also have "map snd (enumerate 0 vs) = vs" by (simp add: enumerate_eq_zip)
  finally have "map (\<lambda>m. determineNodeSize (snd m)) (enumerate 0 vs) = map determineNodeSize vs" .
  then show ?thesis using JArr by (simp add: foldl_plus case_prod_unfold comp_def)
qed (auto simp: foldl_plus)

lemma sum_by_key:
  fixes f :: "'v \<Rightarrow> nat"
  assumes "well_keyed m"
  shows "sum_list (map (\<lambda>p. f (snd p)) m) = (\<Sum>k \<in> fst ` set m. f (the (map_of m k)))"
proof -
  have "map (\<lambda>p. f (snd p)) m = map (\<lambda>k. f (the (map_of m k))) (map fst m)"
    using assms by (auto simp: well_keyed_def)
  then show ?thesis
    using assms by (simp only: sum_list_distinct_conv_sum_set well_keyed_def set_map)
qed

lemma sum_by_key_le:
  fixes f :: "'v \<Rightarrow> nat"
  assumes "well_keyed m" "well_keyed n"
    and "\<And>k v. map_of m k = Some v \<Longrightarrow> \<exists>w. map_of n k = Some w \<and> f v \<le> f w"
  shows "sum_list (map (\<lambda>p. f (snd p)) m) \<le> sum_list (map (\<lambda>p. f (snd p)) n)"
proof -
  have in_m: "k \<in> fst ` set m \<longleftrightarrow> (\<exists>v. map_of m k = Some v)" for k
    by (metis domD domI dom_map_of_conv_image_fst)
  have in_n: "k \<in> fst ` set n \<longleftrightarrow> (\<exists>v. map_of n k = Some v)" for k
    by (metis domD domI dom_map_of_conv_image_fst)
  have "(\<Sum>k \<in> fst ` set m. f (the (map_of m k))) \<le> (\<Sum>k \<in> fst ` set m. f (the (map_of n k)))"
  proof (rule sum_mono)
    fix k
    assume "k \<in> fst ` set m"
    then obtain v where "map_of m k = Some v" using in_m by blast
    with assms(3) [OF this] show "f (the (map_of m k)) \<le> f (the (map_of n k))" by auto
  qed
  also have "\<dots> \<le> (\<Sum>k \<in> fst ` set n. f (the (map_of n k)))"
  proof (rule sum_mono2)
    show "fst ` set m \<subseteq> fst ` set n"
    proof
      fix k
      assume "k \<in> fst ` set m"
      then obtain v where "map_of m k = Some v" using in_m by blast
      with assms(3) [OF this] show "k \<in> fst ` set n" using in_n by blast
    qed
  qed simp_all
  finally show ?thesis using sum_by_key [OF assms(1), of f] sum_by_key [OF assms(2), of f] by simp
qed

lemma clean_keyed: "clean_js v \<Longrightarrow> well_keyed (js_members v)"
  by (cases v) (auto simp: array_keyed simp del: js_members.simps(2))

lemma size_positive: "1 \<le> determineNodeSize v"
  by (cases v) (auto simp: foldl_plus Suc_le_eq)

lemma superset_size:
  "clean_js a \<Longrightarrow> clean_js b \<Longrightarrow> parametersAreSuperset a b \<Longrightarrow> determineNodeSize a \<le> determineNodeSize b"
proof (induction a arbitrary: b)
  case (JStr s)
  then show ?case
    by (auto simp: stringContainsParts_iff Suc_le_eq split: js.splits dest: list_emb_length)
next
  case (JArr xs)
  note ab = JArr.prems(3) [unfolded superset_objects [OF is_js_object_simps(1) JArr.prems(1)]]
  have "\<exists>w. map_of (js_members b) k = Some w \<and> determineNodeSize v \<le> determineNodeSize w"
    if k: "map_of (js_members (JArr xs)) k = Some v" for k v
  proof -
    obtain w where w: "map_of (js_members b) k = Some w" "parametersAreSuperset v w" using ab k by blast
    moreover have "v \<in> set xs" using k unfolding array_member by auto
    ultimately show ?thesis
      using JArr.IH clean_member [OF JArr.prems(1) k] clean_member [OF JArr.prems(2) w(1)] by blast
  qed
  then show ?case
    using sum_by_key_le [OF clean_keyed [OF JArr.prems(1)] clean_keyed [OF JArr.prems(2)], of determineNodeSize] ab
    unfolding size_object [OF is_js_object_simps(1)] by (simp add: size_object del: js_members.simps)
next
  case (JObj kvs)
  note ab = JObj.prems(3) [unfolded superset_objects [OF is_js_object_simps(2) JObj.prems(1)]]
  have "\<exists>w. map_of (js_members b) k = Some w \<and> determineNodeSize v \<le> determineNodeSize w"
    if k: "map_of (js_members (JObj kvs)) k = Some v" for k v
  proof -
    obtain w where w: "map_of (js_members b) k = Some w" "parametersAreSuperset v w" using ab k by blast
    moreover have "(k, v) \<in> set kvs" using k by (simp add: map_of_SomeD)
    moreover have "v \<in> Basic_BNFs.snds (k, v)" by (simp add: snds.simps)
    ultimately show ?thesis
      using JObj.IH clean_member [OF JObj.prems(1) k] clean_member [OF JObj.prems(2) w(1)] by blast
  qed
  then show ?case
    using sum_by_key_le [OF clean_keyed [OF JObj.prems(1)] clean_keyed [OF JObj.prems(2)], of determineNodeSize] ab
    unfolding size_object [OF is_js_object_simps(2)] by (simp add: size_object del: js_members.simps)
qed (use size_positive in auto)

subsection \<open>Merging keeps everything\<close>

definition node_status ::
  "(js, js_node) jsmap \<Rightarrow> (js, js_node) jsmap \<Rightarrow> (js_node option \<Rightarrow> js_node option \<Rightarrow> bool) \<Rightarrow> js \<Rightarrow> NodeDiffStatus" where
  "node_status base target eq i =
     (if map_get target i = None then Deleted
      else if \<not> eq (map_get base i) (map_get target i) then Modified else Eq)"

lemma compare_nodes_get:
  assumes "well_keyed base"
  shows "map_get (foldl (\<lambda>diff (i, n). if \<not> map_has base i then map_set i (Added, n) diff else diff)
      (foldl (\<lambda>diff (i, n). map_set i
          (if \<not> map_has target i then (Deleted, n)
           else if \<not> eq (map_get base i) (map_get target i) then (Modified, n) else (Eq, n)) diff) [] base) target) k =
    Some v \<Longrightarrow> map_get base k = Some n \<Longrightarrow> v = (node_status base target eq k, n)"
proof -
  let ?h = "\<lambda>i n. (if \<not> map_has target i then (Deleted, n)
           else if \<not> eq (map_get base i) (map_get target i) then (Modified, n) else (Eq, n))"
  assume k: "map_get (foldl (\<lambda>diff (i, n). if \<not> map_has base i then map_set i (Added, n) diff else diff)
      (foldl (\<lambda>diff (i, n). map_set i (?h i n) diff) [] base) target) k = Some v" and n: "map_get base k = Some n"
  have skip: "map_get (foldl (\<lambda>diff (i, n). if \<not> map_has base i then map_set i (Added, n) diff else diff) m ts) k = map_get m k"
    for m ts using n by (induction ts arbitrary: m) (auto simp: map_get_set map_has_def)
  have "foldl (\<lambda>diff (i, n). map_set i (?h i n) diff) [] base =
      foldl (\<lambda>m x. map_set (fst x) (?h (fst x) (snd x)) m) [] base"
    by (simp add: case_prod_unfold)
  then obtain x where x: "x \<in> set base" "fst x = k" "v = ?h (fst x) (snd x)"
    using k keyed_by_field [of fst base "\<lambda>x. ?h (fst x) (snd x)" k v] assms
    unfolding skip by (auto simp: well_keyed_def)
  then have "snd x = n"
    using n well_keyed_get [OF assms, of k "snd x"] by (metis option.inject prod.collapse)
  then show "v = (node_status base target eq k, n)"
    using x by (auto simp: node_status_def map_has_def)
qed

lemma compare_nodes_has:
  assumes "map_get base k = Some n"
  shows "\<exists>v. map_get (foldl (\<lambda>diff (i, n). if \<not> map_has base i then map_set i (Added, n) diff else diff)
      (foldl (\<lambda>diff (i, n). map_set i (h i n) diff) [] base) target) k = Some v"
proof -
  have grow: "map_get m k \<noteq> None \<Longrightarrow>
      map_get (foldl (\<lambda>diff (i, n). if \<not> map_has base i then map_set i (Added, n) diff else diff) m ts) k \<noteq> None" for m ts
    by (induction ts arbitrary: m) (auto simp: map_get_set)
  have "map_get m k \<noteq> None \<or> k \<in> fst ` set b \<Longrightarrow> map_get (foldl (\<lambda>diff (i, n). map_set i (h i n) diff) m b) k \<noteq> None" for m b
  proof (induction b arbitrary: m)
    case Nil
    then show ?case by simp
  next
    case (Cons p b)
    obtain i n where p: "p = (i, n)" by force
    have "map_get (map_set i (h i n) m) k \<noteq> None \<or> k \<in> fst ` set b"
      using Cons.prems by (auto simp: p map_get_set)
    then show ?case using Cons.IH by (simp add: p)
  qed
  moreover have "k \<in> fst ` set base" using assms by (metis domI dom_map_of_conv_image_fst)
  ultimately show ?thesis using grow by blast
qed

lemma compareWorkflowsNodes_base:
  assumes "distinct (map (\<lambda>n. own_value n ''id'') base)" and "distinct (map (\<lambda>n. own_value n ''id'') target)" and "n \<in> set base"
  shows "\<exists>st. (st, n) \<in> set (map_values (compareWorkflowsNodes base target eq)) \<and>
    (st = Deleted \<and> (\<forall>m \<in> set target. own_value m ''id'' \<noteq> own_value n ''id'') \<or>
     (\<exists>m \<in> set target. own_value m ''id'' = own_value n ''id'' \<and> (st = Modified \<or> st = Eq \<and> eq (Some n) (Some m))))"
proof -
  let ?i = "own_value n ''id''" and ?b = "nodes_by_js_id base" and ?t = "nodes_by_js_id target"
  have b: "map_get ?b ?i = Some n"
    using keyed_by_field [OF assms(1), of "\<lambda>n. n" ?i n] assms(3) by (auto simp: nodes_by_js_id_def)
  have t: "map_get ?t ?i = Some m \<longleftrightarrow> m \<in> set target \<and> own_value m ''id'' = ?i" for m
    using keyed_by_field [OF assms(2), of "\<lambda>n. n" ?i m] by (auto simp: nodes_by_js_id_def)
  have wk: "well_keyed ?b" by (simp add: nodes_by_js_id_def keyed_by_field_keyed)
  have "\<exists>v. map_get (compareWorkflowsNodes base target eq) ?i = Some v"
    unfolding compareWorkflowsNodes_def Let_def by (rule compare_nodes_has [OF b])
  then obtain v where v: "map_get (compareWorkflowsNodes base target eq) ?i = Some v" ..
  then have "v = (node_status ?b ?t eq ?i, n)"
    using compare_nodes_get [OF wk _ b] by (simp add: compareWorkflowsNodes_def Let_def)
  then have "(node_status ?b ?t eq ?i, n) \<in> set (map_values (compareWorkflowsNodes base target eq))"
    using map_of_SomeD [OF v] by force
  moreover have "node_status ?b ?t eq ?i = Deleted \<and> (\<forall>m \<in> set target. own_value m ''id'' \<noteq> ?i) \<or>
     (\<exists>m \<in> set target. own_value m ''id'' = ?i \<and>
        (node_status ?b ?t eq ?i = Modified \<or> node_status ?b ?t eq ?i = Eq \<and> eq (Some n) (Some m)))"
    using t b by (cases "map_get ?t ?i") (auto simp: node_status_def)
  ultimately show ?thesis by blast
qed

lemma all_additive_True:
  "all_additive lo nodes ds = Inr True \<Longrightarrow> (st, n) \<in> set ds \<Longrightarrow>
    st \<noteq> Deleted \<and> (st = Modified \<longrightarrow>
      (\<exists>m. find (\<lambda>x. own_value x ''id'' = own_value n ''id'') nodes = Some m \<and> nodeIsSuperset lo n m))"
  by (induction lo nodes ds rule: all_additive.induct) (auto split: if_splits option.splits)

text \<open>What the later version has of the earlier one.\<close>

definition keeps_nodes :: "lodash \<Rightarrow> js_node list \<Rightarrow> js_node list \<Rightarrow> bool" where
  "keeps_nodes lo old new \<longleftrightarrow>
     (\<forall>n \<in> set old. \<exists>m \<in> set new. own_value m ''id'' = own_value n ''id'' \<and>
        (n = m \<or> compareNodes lo (Some n) (Some m) \<or> nodeIsSuperset lo n m))"

definition keeps_connections :: "connections \<Rightarrow> connections \<Rightarrow> bool" where
  "keeps_connections old new \<longleftrightarrow>
     (\<forall>nm inp i. mset (connections_at old nm inp i) \<subseteq># mset (connections_at new nm inp i))"

definition keeps_groups :: "workflow_group list \<Rightarrow> workflow_group list \<Rightarrow> bool" where
  "keeps_groups old new \<longleftrightarrow>
     (\<forall>g \<in> set old. \<exists>h \<in> set new. g_id h = g_id g \<and> g_name h = g_name g \<and> g_description h = g_description g \<and>
        set (g_nodeIds g) \<subseteq> set (g_nodeIds h))"

lemma find_by_id:
  assumes "distinct (map f xs)" and "find (\<lambda>x. f x = k) xs = Some m" and "m' \<in> set xs" and "f m' = k"
  shows "m = m'"
proof -
  have "m \<in> set xs" "f m = k" using assms(2) by (auto simp: find_Some_iff)
  with assms(1,3,4) show ?thesis by (metis distinct_map inj_onD)
qed

lemma additive_groups:
  assumes "nodeGroupChangesAreAdditive prev nxt"
  shows "keeps_groups (or_empty (dw_nodeGroups prev)) (or_empty (dw_nodeGroups nxt))"
proof -
  let ?m = "foldl (\<lambda>m g. map_set (g_id g) g m) [] (or_empty (dw_nodeGroups nxt))"
  have "map_get (foldl (\<lambda>m g. map_set (g_id g) g m) m gs) i = Some h \<Longrightarrow>
      (h \<in> set gs \<and> g_id h = i) \<or> map_get m i = Some h" for m gs i h
  proof (induction gs arbitrary: m)
    case Nil
    then show ?case by simp
  next
    case (Cons a gs)
    from Cons.IH [of "map_set (g_id a) a m"] Cons.prems show ?case by (auto simp: map_get_set split: if_splits)
  qed
  from this [of "[]"] have get: "map_get ?m i = Some h \<Longrightarrow> h \<in> set (or_empty (dw_nodeGroups nxt)) \<and> g_id h = i" for i h
    by simp
  show ?thesis
    unfolding keeps_groups_def
  proof
    fix g
    assume "g \<in> set (or_empty (dw_nodeGroups prev))"
    with assms obtain h where h: "map_get ?m (g_id g) = Some h" "g_name h = g_name g" "g_description h = g_description g"
        "list_all (\<lambda>i. i \<in> set (g_nodeIds h)) (g_nodeIds g)"
      by (fastforce simp: nodeGroupChangesAreAdditive_def Let_def list_all_iff split: option.splits)
    with get [OF h(1)]
    show "\<exists>h \<in> set (or_empty (dw_nodeGroups nxt)). g_id h = g_id g \<and> g_name h = g_name g \<and>
        g_description h = g_description g \<and> set (g_nodeIds g) \<subseteq> set (g_nodeIds h)"
      by (auto simp: list_all_iff)
  qed
qed

lemma merge_keeps:
  assumes merged: "mergeAdditiveChanges lo prev nxt (WorkflowChangeSet lo prev nxt) metaData = Inr True"
    and ids: "distinct (map (\<lambda>n. own_value n ''id'') (dw_nodes prev))" "distinct (map (\<lambda>n. own_value n ''id'') (dw_nodes nxt))"
  shows "keeps_nodes lo (dw_nodes prev) (dw_nodes nxt)"
    and "keeps_connections (dw_connections prev) (dw_connections nxt)"
    and "keeps_groups (or_empty (dw_nodeGroups prev)) (or_empty (dw_nodeGroups nxt))"
proof -
  let ?cs = "WorkflowChangeSet lo prev nxt"
  have all: "all_additive lo (dw_nodes nxt) (map_values (cs_nodes ?cs)) = Inr True"
    and removed: "cs_removed ?cs = []" and groups: "nodeGroupChangesAreAdditive prev nxt"
    using merged by (auto simp: mergeAdditiveChanges_def bind_result_eq_Inr)
  show "keeps_groups (or_empty (dw_nodeGroups prev)) (or_empty (dw_nodeGroups nxt))"
    by (rule additive_groups [OF groups])
  show "keeps_connections (dw_connections prev) (dw_connections nxt)"
  proof (cases "prev = nxt")
    case True
    then show ?thesis by (simp add: keeps_connections_def)
  next
    case False
    then have "snd (compareConnections (dw_connections prev) (dw_connections nxt)) = []"
      using removed by (simp add: WorkflowChangeSet_def)
    then show ?thesis unfolding none_removed keeps_connections_def .
  qed
  show "keeps_nodes lo (dw_nodes prev) (dw_nodes nxt)"
  proof (cases "prev = nxt")
    case True
    then show ?thesis by (auto simp: keeps_nodes_def)
  next
    case False
    then have nodes: "cs_nodes ?cs = compareWorkflowsNodes (dw_nodes prev) (dw_nodes nxt) (compareNodes lo)"
      by (simp add: WorkflowChangeSet_def)
    show ?thesis
      unfolding keeps_nodes_def
    proof
      fix n
      assume n: "n \<in> set (dw_nodes prev)"
      obtain st where st: "(st, n) \<in> set (map_values (cs_nodes ?cs))"
        "st = Deleted \<and> (\<forall>m \<in> set (dw_nodes nxt). own_value m ''id'' \<noteq> own_value n ''id'') \<or>
         (\<exists>m \<in> set (dw_nodes nxt). own_value m ''id'' = own_value n ''id'' \<and>
            (st = Modified \<or> st = Eq \<and> compareNodes lo (Some n) (Some m)))"
        using compareWorkflowsNodes_base [OF ids n, of "compareNodes lo"] unfolding nodes by blast
      have step: "st \<noteq> Deleted" "st = Modified \<Longrightarrow>
          \<exists>m. find (\<lambda>x. own_value x ''id'' = own_value n ''id'') (dw_nodes nxt) = Some m \<and> nodeIsSuperset lo n m"
        using all_additive_True [OF all st(1)] by blast+
      then obtain m where m: "m \<in> set (dw_nodes nxt)" "own_value m ''id'' = own_value n ''id''"
          "st = Modified \<or> compareNodes lo (Some n) (Some m)"
        using st(2) by blast
      have "nodeIsSuperset lo n m" if "st = Modified"
        using step(2) [OF that] find_by_id [OF ids(2) _ m(1,2)] by blast
      with m show "\<exists>m \<in> set (dw_nodes nxt). own_value m ''id'' = own_value n ''id'' \<and>
          (n = m \<or> compareNodes lo (Some n) (Some m) \<or> nodeIsSuperset lo n m)" by blast
    qed
  qed
qed

subsection \<open>Grouping a history\<close>

text \<open>The versions of a run are merged into its last one.\<close>

definition run_ok :: "('w \<Rightarrow> 'w \<Rightarrow> bool) \<Rightarrow> 'w list \<Rightarrow> bool" where
  "run_ok merges s \<longleftrightarrow> s \<noteq> [] \<and> (\<forall>x \<in> set (butlast s). merges x (last s))"

fun apart :: "('w \<Rightarrow> 'w \<Rightarrow> bool) \<Rightarrow> 'w list \<Rightarrow> bool" where
  \<comment> \<open>no version is merged into the next one\<close>
  "apart merges (x # y # xs) = (\<not> merges x y \<and> apart merges (y # xs))"
| "apart merges _ = True"

definition grouped :: "('w \<Rightarrow> 'w \<Rightarrow> bool) \<Rightarrow> 'w list \<Rightarrow> 'w list \<Rightarrow> 'w list \<Rightarrow> bool" where
  "grouped merges versions removed remaining \<longleftrightarrow>
     (\<exists>runs. versions = concat runs \<and> remaining = map last runs \<and> removed = rev (concat (map butlast runs)) \<and>
        (\<forall>s \<in> set runs. run_ok merges s) \<and> apart merges (map last runs))"

lemma diff_loop_groups:
  assumes total: "\<And>a b. a \<in> set (xs @ concat runs) \<Longrightarrow> b \<in> set (xs @ concat runs) \<Longrightarrow>
      \<exists>m. should_merge lo rules skipRules metaData a b = Inr m"
    and runs: "runs \<noteq> []" "\<forall>s \<in> set runs. run_ok (\<lambda>a b. should_merge lo rules skipRules metaData a b = Inr True) s"
      "apart (\<lambda>a b. should_merge lo rules skipRules metaData a b = Inr True) (map last runs)"
  shows "\<exists>removed remaining.
    diff_loop lo rules skipRules metaData (length xs) (xs @ map last runs) (rev (concat (map butlast runs))) = Inr (removed, remaining) \<and>
    grouped (\<lambda>a b. should_merge lo rules skipRules metaData a b = Inr True) (xs @ concat runs) removed remaining"
  using assms
proof (induction xs arbitrary: runs rule: rev_induct)
  case Nil
  then show ?case by (auto simp: grouped_def)
next
  case (snoc y xs)
  obtain s rest where rs: "runs = s # rest" using snoc.prems(2) by (cases runs) auto
  have s: "s \<noteq> []" using snoc.prems(3) rs by (auto simp: run_ok_def)
  have at: "(xs @ y # map last runs) ! length xs = y" "(xs @ y # map last runs) ! Suc (length xs) = last s"
    by (simp_all add: rs nth_append)
  have "last s \<in> set (concat runs)" using s rs by simp
  then obtain b where b: "should_merge lo rules skipRules metaData y (last s) = Inr b"
    using snoc.prems(1) [of y "last s"] by auto
  show ?case
  proof (cases b)
    case True
    have "\<exists>removed remaining.
        diff_loop lo rules skipRules metaData (length xs) (xs @ map last ((y # s) # rest)) (rev (concat (map butlast ((y # s) # rest)))) = Inr (removed, remaining) \<and>
        grouped (\<lambda>a b. should_merge lo rules skipRules metaData a b = Inr True) (xs @ concat ((y # s) # rest)) removed remaining"
      using snoc.prems s b True by (intro snoc.IH) (auto simp: rs run_ok_def)
    moreover have "rev (concat (map butlast ((y # s) # rest))) = rev (concat (map butlast runs)) @ [y]"
      using s by (simp add: rs)
    ultimately show ?thesis using b True at s by (simp add: rs)
  next
    case False
    have "\<exists>removed remaining.
        diff_loop lo rules skipRules metaData (length xs) (xs @ map last ([y] # runs)) (rev (concat (map butlast ([y] # runs)))) = Inr (removed, remaining) \<and>
        grouped (\<lambda>a b. should_merge lo rules skipRules metaData a b = Inr True) (xs @ concat ([y] # runs)) removed remaining"
      using snoc.prems b False by (intro snoc.IH) (auto simp: rs run_ok_def)
    then show ?thesis using b False at by simp
  qed
qed

lemma groupWorkflows_grouped:
  assumes "\<And>a b. a \<in> set workflows \<Longrightarrow> b \<in> set workflows \<Longrightarrow>
      \<exists>m. should_merge lo rules skipRules (size_score workflows wanted) a b = Inr m"
  shows "\<exists>removed remaining. groupWorkflows lo workflows rules skipRules wanted = Inr (removed, remaining) \<and>
    grouped (\<lambda>a b. should_merge lo rules skipRules (size_score workflows wanted) a b = Inr True) workflows removed remaining"
proof (cases workflows rule: rev_cases)
  case Nil
  have "grouped M [] [] []" for M :: "diffable_workflow \<Rightarrow> diffable_workflow \<Rightarrow> bool"
    unfolding grouped_def by (intro exI [of _ "[]"]) simp
  with Nil show ?thesis by (simp add: groupWorkflows_def)
next
  case (snoc xs x)
  show ?thesis
  proof (cases "xs = []")
    case True
    have "grouped M [x] [] [x]" for M
      unfolding grouped_def by (intro exI [of _ "[[x]]"]) (simp add: run_ok_def)
    with True snoc show ?thesis by (simp add: groupWorkflows_def)
  next
    case False
    then show ?thesis
      using diff_loop_groups [of xs "[[x]]" lo rules skipRules "size_score workflows wanted"] assms snoc
      by (simp add: groupWorkflows_def run_ok_def)
  qed
qed

subsection \<open>The rules do not throw\<close>

lemma all_additive_total:
  assumes "\<forall>(st, n) \<in> set ds. st \<in> {Deleted, Added} \<or> (\<exists>x \<in> set nodes. own_value x ''id'' = own_value n ''id'')"
  shows "\<exists>b. all_additive lo nodes ds = Inr b"
  using assms
proof (induction ds)
  case Nil
  then show ?case by simp blast
next
  case (Cons d ds)
  obtain st n where d: "d = (st, n)" by force
  obtain b where b: "all_additive lo nodes ds = Inr b" using Cons by auto
  have "st \<noteq> Deleted \<Longrightarrow> st \<noteq> Added \<Longrightarrow> find (\<lambda>x. own_value x ''id'' = own_value n ''id'') nodes \<noteq> None"
    using Cons.prems by (auto simp: d find_None_iff)
  then show ?case using b by (auto simp: d split: option.splits) blast+
qed

definition later_entry :: "js_node list \<Rightarrow> NodeDiffStatus \<times> js_node \<Rightarrow> bool" where
  "later_entry nodes v \<longleftrightarrow>
     fst v \<in> {Deleted, Added} \<or> (\<exists>x \<in> set nodes. own_value x ''id'' = own_value (snd v) ''id'')"

definition found_later :: "js_node list \<Rightarrow> (js, NodeDiffStatus \<times> js_node) jsmap \<Rightarrow> bool" where
  "found_later nodes m \<longleftrightarrow> (\<forall>v \<in> set (map_values m). later_entry nodes v)"

lemma found_later_set: "found_later nodes m \<Longrightarrow> later_entry nodes v \<Longrightarrow> found_later nodes (map_set k v m)"
  using set_values_set [of k v m] unfolding found_later_def by blast

lemma found_later_fold:
  "found_later nodes m \<Longrightarrow> (\<And>p. p \<in> set es \<Longrightarrow> P p \<Longrightarrow> later_entry nodes (h p)) \<Longrightarrow>
    found_later nodes (foldl (\<lambda>diff p. if P p then map_set (k p) (h p) diff else diff) m es)"
  by (induction es arbitrary: m) (simp_all add: found_later_set)

lemma found_later_fold_all:
  "found_later nodes m \<Longrightarrow> (\<And>p. p \<in> set es \<Longrightarrow> later_entry nodes (h p)) \<Longrightarrow>
    found_later nodes (foldl (\<lambda>diff p. map_set (k p) (h p) diff) m es)"
  using found_later_fold [of nodes m es "\<lambda>_. True" h k] by simp

lemma keyed_entries:
  assumes "(k, n) \<in> set (nodes_by_js_id nodes)"
  shows "n \<in> set nodes \<and> own_value n ''id'' = k"
proof -
  have step: "map_of (foldl (\<lambda>acc n. map_set (own_value n ''id'') n acc) m nodes) k = Some n \<Longrightarrow>
      (n \<in> set nodes \<and> own_value n ''id'' = k) \<or> map_of m k = Some n" for m
  proof (induction nodes arbitrary: m)
    case Nil
    then show ?case by simp
  next
    case (Cons a nodes)
    from Cons.IH [of "map_set (own_value a ''id'') a m"] Cons.prems show ?case
      by (auto simp: map_get_set split: if_splits)
  qed
  have "well_keyed (nodes_by_js_id nodes)" by (simp add: nodes_by_js_id_def keyed_by_field_keyed)
  then have "map_of (nodes_by_js_id nodes) k = Some n" using assms by (simp add: well_keyed_get)
  with step [of "[]"] show ?thesis by (simp add: nodes_by_js_id_def)
qed

lemma found_later_compare: "found_later target (compareWorkflowsNodes base target eq)"
proof -
  let ?b = "nodes_by_js_id base" and ?t = "nodes_by_js_id target"
  have has: "map_has ?t i \<Longrightarrow> \<exists>x \<in> set target. own_value x ''id'' = i" for i
    using keyed_entries [of i _ target] by (auto simp: map_has_def dest!: map_of_SomeD)
  let ?h = "\<lambda>p. if \<not> map_has ?t (fst p) then (Deleted, snd p)
           else if \<not> eq (map_get ?b (fst p)) (map_get ?t (fst p)) then (Modified, snd p) else (Eq, snd p)"
  have h: "later_entry target (?h p)" if "p \<in> set ?b" for p
    using keyed_entries [of "fst p" "snd p" base] that has [of "fst p"] by (auto simp: later_entry_def)
  have base: "found_later target (foldl (\<lambda>diff p. map_set (fst p) (?h p) diff) [] ?b)"
    by (rule found_later_fold_all [where k = fst and h = ?h]) (simp add: found_later_def, rule h)
  show ?thesis
    unfolding compareWorkflowsNodes_def Let_def case_prod_unfold
    by (rule found_later_fold [where P = "\<lambda>p. \<not> map_has ?b (fst p)" and k = fst and h = "\<lambda>p. (Added, snd p)"])
      (rule base, simp add: later_entry_def)
qed

lemma mergeAdditiveChanges_total:
  "\<exists>b. mergeAdditiveChanges lo prev nxt (WorkflowChangeSet lo prev nxt) metaData = Inr b"
proof -
  have "found_later (dw_nodes nxt) (cs_nodes (WorkflowChangeSet lo prev nxt))"
  proof (cases "prev = nxt")
    case True
    have "found_later (dw_nodes nxt)
        (foldl (\<lambda>diff n. map_set (own_value n ''id'') (Eq, n) diff) [] (dw_nodes nxt))"
      by (rule found_later_fold_all) (auto simp: found_later_def later_entry_def)
    then show ?thesis using True by (simp add: WorkflowChangeSet_def)
  next
    case False
    then show ?thesis by (simp add: WorkflowChangeSet_def found_later_compare)
  qed
  then obtain b where "all_additive lo (dw_nodes nxt) (map_values (cs_nodes (WorkflowChangeSet lo prev nxt))) = Inr b"
    using all_additive_total [of "map_values (cs_nodes (WorkflowChangeSet lo prev nxt))"]
    by (fastforce simp: found_later_def later_entry_def)
  then show ?thesis by (simp add: mergeAdditiveChanges_def)
qed

text \<open>The rules of the file.\<close>

definition merge_rules :: "lodash \<Rightarrow> diff_rule set" where
  "merge_rules lo = insert (mergeAdditiveChanges lo) (range makeMergeDependingOnSizeRule)"

definition skip_rules :: "diff_rule set" where
  "skip_rules = insert skipDifferentUsers (range makeSkipTimeDifference)"

lemma first_true_total: "(\<And>r. r \<in> set rs \<Longrightarrow> \<exists>b. r = Inr b) \<Longrightarrow> \<exists>b. first_true rs = Inr b"
proof (induction rs)
  case Nil
  then show ?case by simp blast
next
  case (Cons r rs)
  then obtain b c where "r = Inr b" "first_true rs = Inr c" by fastforce
  then show ?case by simp blast
qed

lemma should_merge_total:
  assumes "set rules \<subseteq> merge_rules lo" and "set skipRules \<subseteq> skip_rules"
  shows "\<exists>m. should_merge lo rules skipRules metaData a b = Inr m"
proof -
  let ?w = "WorkflowChangeSet lo a b"
  have "\<exists>x. r a b ?w metaData = Inr x" if "r \<in> skip_rules" for r
    using that by (auto simp: skip_rules_def skipDifferentUsers_def makeSkipTimeDifference_def)
  then have "r \<in> set (map (\<lambda>r. r a b ?w metaData) skipRules) \<Longrightarrow> \<exists>x. r = Inr x" for r using assms(2) by auto
  then obtain s where s: "first_true (map (\<lambda>r. r a b ?w metaData) skipRules) = Inr s"
    using first_true_total by blast
  have "\<exists>x. r a b ?w metaData = Inr x" if "r \<in> merge_rules lo" for r
    using that mergeAdditiveChanges_total
    by (auto simp: merge_rules_def makeMergeDependingOnSizeRule_def split: option.splits)
  then have "r \<in> set (map (\<lambda>r. r a b ?w metaData) rules) \<Longrightarrow> \<exists>x. r = Inr x" for r using assms(1) by auto
  then obtain m where "first_true (map (\<lambda>r. r a b ?w metaData) rules) = Inr m"
    using first_true_total by blast
  with s show ?thesis by (auto simp: should_merge_def Let_def)
qed

subsection \<open>The properties\<close>

text \<open>
  A node's size is at least one, and it does not shrink from parameters to a superset of them.
\<close>

theorem determineNodeSize_bounds:
  assumes "clean_js a" and "clean_js b" and "parametersAreSuperset a b"
  shows "1 \<le> determineNodeSize a \<and> determineNodeSize a \<le> determineNodeSize b"
  using size_positive superset_size [OF assms] by blast

definition short_text :: js where
  "short_text = JObj [(''text'', JStr ''ab''), (''list'', JArr [JNull, JStr []])]"

definition long_text :: js where
  "long_text = JObj [(''list'', JArr [JNull, JStr ''c'']), (''text'', JStr ''xaybz'')]"

theorem determineNodeSize_bounds_witness: "1 \<le> determineNodeSize short_text \<and> determineNodeSize short_text \<le> determineNodeSize long_text"
proof (rule determineNodeSize_bounds)
  show "clean_js short_text" "clean_js long_text" by code_simp+
  show "parametersAreSuperset short_text long_text" by code_simp
qed


definition sample_lodash :: lodash where
  "sample_lodash =
     \<lparr>lo_isEqual = (=), lo_pick = (\<lambda>n ks. filter (\<lambda>kv. fst kv \<in> set ks) (or_empty n)), lo_isEqualConnections = (=)\<rparr>"

definition sample_js_node :: "string \<Rightarrow> js \<Rightarrow> js_node" where
  "sample_js_node i p = [(''id'', JStr i), (''name'', JStr i), (''parameters'', p)]"

definition first_version :: diffable_workflow where
  "first_version = \<lparr>dw_ref = 0, dw_nodes = [sample_js_node ''a'' short_text], dw_connections = [], dw_createdAt = 0,
     dw_authors = None, dw_nodeGroups = None\<rparr>"

definition second_version :: diffable_workflow where
  "second_version = \<lparr>dw_ref = 1, dw_nodes = [sample_js_node ''a'' long_text, sample_js_node ''b'' JNull],
     dw_connections = [(''a'', [(Main, [Val [\<lparr>c_node = ''b'', c_type = Main, c_index = 0\<rparr>]])])], dw_createdAt = 5,
     dw_authors = None, dw_nodeGroups = None\<rparr>"

lemma versions_merge:
  "mergeAdditiveChanges sample_lodash first_version second_version
     (WorkflowChangeSet sample_lodash first_version second_version) None = Inr True"
  by code_simp


text \<open>
  C21. With the rules of the file the grouping of a history ends without an error and cuts the history into runs: each
  version but the last of a run is merged into that last one, these last ones remain in order, no remaining
  version would be merged into the next one, and the removed versions are returned latest first.
\<close>

theorem groupWorkflows_spec:
  assumes "set rules \<subseteq> merge_rules lo" and "set skipRules \<subseteq> skip_rules"
  shows "\<exists>removed remaining. groupWorkflows lo workflows rules skipRules wanted = Inr (removed, remaining) \<and>
    grouped (\<lambda>a b. should_merge lo rules skipRules (size_score workflows wanted) a b = Inr True) workflows removed remaining"
  using should_merge_total [OF assms] by (rule groupWorkflows_grouped)

theorem groupWorkflows_spec_witness:
  "\<exists>removed remaining.
     groupWorkflows sample_lodash [first_version, second_version] [mergeAdditiveChanges sample_lodash] [skipDifferentUsers] True =
       Inr (removed, remaining)"
proof -
  have "set [mergeAdditiveChanges sample_lodash] \<subseteq> merge_rules sample_lodash" "set [skipDifferentUsers] \<subseteq> skip_rules"
    by (simp_all add: merge_rules_def skip_rules_def)
  from groupWorkflows_spec [OF this, of "[first_version, second_version]" True] show ?thesis by blast
qed

lemma history_grouped:
  "groupWorkflows sample_lodash [first_version, second_version] [mergeAdditiveChanges sample_lodash] [skipDifferentUsers] True =
     Inr ([first_version], [second_version])"
  by code_simp

text \<open>An empty array counts as a superset of an empty object.\<close>

lemma empty_array_for_object: "parametersAreSuperset (JObj []) (JArr [])"
  by simp

end
