(* ===== verification/JsStrings.thy ===== *)
theory JsStrings
  imports Prelude "HOL-Library.Sublist"
begin

section \<open>Characters and trimming of texts\<close>

text \<open>
  What the parsers use of the strings of the language: blanks, \<^verbatim>\<open>toLowerCase\<close> and \<^verbatim>\<open>trim\<close>, for the characters of
  a \<open>char\<close>, which are the code units below 256.
\<close>

abbreviation backslash :: char where "backslash \<equiv> CHR 0x5C"

definition is_space :: "char \<Rightarrow> bool" where
  \<comment> \<open>\<^verbatim>\<open>\s\<close>, which is also what \<^verbatim>\<open>trim\<close> removes\<close>
  "is_space c \<longleftrightarrow> of_char c \<in> {9, 10, 11, 12, 13, 32, 160 :: nat}"

definition js_lower :: "char \<Rightarrow> char" where
  \<comment> \<open>\<^verbatim>\<open>toLowerCase\<close>\<close>
  "js_lower c =
     (let k = of_char c :: nat in
      if (65 \<le> k \<and> k \<le> 90) \<or> (192 \<le> k \<and> k \<le> 222 \<and> k \<noteq> 215) then char_of (k + 32) else c)"

definition trim :: "string \<Rightarrow> string" where
  "trim s = rev (dropWhile is_space (rev (dropWhile is_space s)))"

subsection \<open>Trimming\<close>

lemma trim_enclosed: "list_all is_space cur \<Longrightarrow> \<not> is_space q \<Longrightarrow> trim (cur @ q # s @ [q]) = q # s @ [q]"
  by (induction cur) (simp_all add: trim_def)

lemma trim_empty: "trim s = [] \<longleftrightarrow> list_all is_space s"
proof -
  let ?d = "dropWhile is_space s"
  have "trim s = [] \<longleftrightarrow> (\<forall>c \<in> set ?d. is_space c)"
    by (simp only: trim_def rev_is_Nil_conv dropWhile_eq_Nil_conv set_rev)
  also have "\<dots> \<longleftrightarrow> ?d = []" using hd_dropWhile [of is_space s] by (cases ?d) (auto dest: set_dropWhileD)
  finally show ?thesis by (simp only: dropWhile_eq_Nil_conv list_all_iff)
qed

lemma trim_split: "\<exists>a b. s = a @ trim s @ b \<and> list_all is_space a"
proof -
  let ?d = "dropWhile is_space s"
  have "?d = trim s @ rev (takeWhile is_space (rev ?d))"
    unfolding trim_def by (metis rev_append rev_rev_ident takeWhile_dropWhile_id)
  moreover have "s = takeWhile is_space s @ ?d" by simp
  moreover have "list_all is_space (takeWhile is_space s)" by (auto simp: list_all_iff dest: set_takeWhileD)
  ultimately show ?thesis by (metis append.assoc)
qed

lemma dropWhile_Cons_iff: "dropWhile P s = c # r \<longleftrightarrow> (\<exists>b. s = b @ c # r \<and> list_all P b \<and> \<not> P c)"
proof
  assume d: "dropWhile P s = c # r"
  then show "\<exists>b. s = b @ c # r \<and> list_all P b \<and> \<not> P c"
    using takeWhile_dropWhile_id [of P s] set_takeWhileD hd_dropWhile [of P s]
    by (intro exI [of _ "takeWhile P s"]) (auto simp: list_all_iff dest: set_takeWhileD)
next
  assume "\<exists>b. s = b @ c # r \<and> list_all P b \<and> \<not> P c"
  then show "dropWhile P s = c # r" by (auto simp: list_all_iff)
qed

end
