(* ===== verification/WorkflowChecksum.thy ===== *)
theory WorkflowChecksum
  imports JsonText Sorting JsStrings
begin

section \<open>The checksum of a workflow\<close>

text \<open>
  \<^verbatim>\<open>packages/workflow/src/workflow-checksum.ts\<close>: the fields of a workflow that are compared are put into an object,
  the keys of all its objects are sorted, and the text of the result is hashed. A snapshot is an object; the digest
  of \<^verbatim>\<open>WebCrypto\<close> and the hash of \<^verbatim>\<open>jssha\<close> are parameters, both taken of the text itself. The lemmas show that sorting
  identifies exactly the values that differ in the order of their keys.
\<close>

subsection \<open>Sorting the keys\<close>

text \<open>
  The members are normalised before the loop over the sorted keys looks them up; JSON values have no objects but
  plain ones.
\<close>

definition sorted_members :: "js jsobj \<Rightarrow> js jsobj" where
  "sorted_members kvs =
     foldl (\<lambda>sortedObject key. case obj_get kvs key of None \<Rightarrow> sortedObject | Some v \<Rightarrow> obj_set key v sortedObject)
       [] (sort_strings (map fst kvs))"

fun sortObjectKeys :: "js \<Rightarrow> js" where
  "sortObjectKeys (JArr vs) = JArr (map sortObjectKeys vs)"
| "sortObjectKeys (JObj kvs) = JObj (sorted_members (map (\<lambda>(k, v). (k, sortObjectKeys v)) kvs))"
| "sortObjectKeys v = v"

subsection \<open>The checksum\<close>

definition WORKFLOW_CHECKSUM_FIELDS :: "string list" where
  "WORKFLOW_CHECKSUM_FIELDS =
     [''name'', ''description'', ''nodes'', ''connections'', ''settings'', ''meta'', ''pinData'', ''isArchived'',
      ''activeVersionId'', ''nodeGroups'']"

definition checksum_payload :: "js jsobj \<Rightarrow> js jsobj" where
  "checksum_payload workflow =
     foldl (\<lambda>payload field.
         case obj_get workflow field of
           None \<Rightarrow> payload
         | Some v \<Rightarrow> if v = JUndefined then payload else obj_set field v payload)
       [] WORKFLOW_CHECKSUM_FIELDS"

definition hex_byte :: "nat \<Rightarrow> string" where
  \<comment> \<open>\<^verbatim>\<open>b.toString(16).padStart(2, '0')\<close>\<close>
  "hex_byte b =
     (let s = (if b < 16 then [hex_digit b] else [hex_digit (b div 16), hex_digit (b mod 16)]) in
      replicate (2 - length s) (CHR ''0'') @ s)"

definition arrayBufferToHex :: "nat list \<Rightarrow> string" where
  "arrayBufferToHex bytes = foldl (\<lambda>hexString b. hexString @ hex_byte b) [] bytes"

definition calculateWorkflowChecksum ::
  "(rat \<Rightarrow> string) \<Rightarrow> (string \<Rightarrow> nat list) option \<Rightarrow> (string \<Rightarrow> string) \<Rightarrow> js jsobj \<Rightarrow> string" where
  "calculateWorkflowChecksum show_number subtle jsSHA workflow =
     (let normalizedPayload = sortObjectKeys (JObj (checksum_payload workflow));
          serializedPayload = (case json_stringify show_number normalizedPayload of None \<Rightarrow> [] | Some s \<Rightarrow> s) in
      case subtle of
        Some digest \<Rightarrow> arrayBufferToHex (digest serializedPayload)
      | None \<Rightarrow> map js_lower (jsSHA serializedPayload))"

subsection \<open>The order of strings\<close>

lemma string_le_refl: "string_le s s"
  by (induction s) auto

lemma string_le_total: "string_le s t \<or> string_le t s"
proof (induction s t rule: string_le.induct)
  case (3 c s d t)
  then show ?case using linorder_less_linear [of "of_char c :: nat" "of_char d"] by auto
qed auto

lemma string_le_antisym: "string_le s t \<Longrightarrow> string_le t s \<Longrightarrow> s = t"
proof (induction s t rule: string_le.induct)
  case (3 c s d t)
  then show ?case by (auto split: if_splits)
qed (auto elim: string_le.elims)

lemma string_le_trans: "string_le s t \<Longrightarrow> string_le t u \<Longrightarrow> string_le s u"
proof (induction s t arbitrary: u rule: string_le.induct)
  case (3 c s d t)
  then show ?case by (cases u) (auto split: if_splits)
qed auto

lemma string_cmp_le: "string_cmp s t \<le> 0 \<longleftrightarrow> string_le s t"
  by (auto simp: string_cmp_def string_le_refl)

lemma sort_strings_sorted: "sorted_wrt string_le (sort_strings xs)"
proof -
  have "sorted_wrt (\<lambda>x y. string_cmp x y \<le> 0) (sort_strings xs)"
    unfolding sort_strings_def
    by (rule js_sort_sorted) (use string_le_total string_le_trans in \<open>auto simp: string_cmp_le\<close>)
  then show ?thesis by (simp add: string_cmp_le)
qed

lemma sorted_strings_unique:
  "sorted_wrt string_le xs \<Longrightarrow> sorted_wrt string_le ys \<Longrightarrow> mset xs = mset ys \<Longrightarrow> xs = ys"
proof (induction xs arbitrary: ys)
  case (Cons x xs)
  then obtain y zs where y: "ys = y # zs" by (cases ys) auto
  have "x \<in> set ys" "y \<in> set (x # xs)"
    using Cons.prems(3) y by (metis list.set_intros(1) mset_eq_setD)+
  then have "string_le x y" "string_le y x"
    using Cons.prems(1,2) y string_le_refl by auto
  then have "x = y" by (rule string_le_antisym)
  with Cons y show ?case by simp
qed simp

lemma sort_strings_cong: "mset xs = mset ys \<Longrightarrow> sort_strings xs = sort_strings ys"
  by (rule sorted_strings_unique) (simp_all add: sort_strings_sorted, simp add: sort_strings_def)

lemma distinct_sort_strings [simp]: "distinct (sort_strings xs) = distinct xs"
  by (metis mset_eq_imp_distinct_iff mset_js_sort sort_strings_def)

subsection \<open>Values that differ in the order of their keys\<close>

fun js_keyed :: "js \<Rightarrow> bool" where
  \<comment> \<open>no object has a key twice\<close>
  "js_keyed (JArr vs) = list_all js_keyed vs"
| "js_keyed (JObj kvs) = (distinct (map fst kvs) \<and> list_all (\<lambda>(k, v). js_keyed v) kvs)"
| "js_keyed v = True"

inductive same_up_to_order :: "js \<Rightarrow> js \<Rightarrow> bool" where
  same_refl: "same_up_to_order v v"
| same_array: "list_all2 same_up_to_order vs ws \<Longrightarrow> same_up_to_order (JArr vs) (JArr ws)"
| same_object: "fst ` set kvs = fst ` set lvs \<Longrightarrow>
    (\<forall>k v w. map_of kvs k = Some v \<longrightarrow> map_of lvs k = Some w \<longrightarrow> same_up_to_order v w) \<Longrightarrow>
    same_up_to_order (JObj kvs) (JObj lvs)"

lemma map_of_normalised:
  "map_of (map (\<lambda>(k, v). (k, sortObjectKeys v)) kvs) k = map_option sortObjectKeys (map_of kvs k)"
  by (induction kvs) auto

lemma sorted_members_get_aux:
  "map_of (foldl (\<lambda>so key. case map_of m key of None \<Rightarrow> so | Some v \<Rightarrow> obj_set key v so) ob ks) k =
    (if k \<in> set ks \<and> map_of m k \<noteq> None then map_of m k else map_of ob k)"
  by (induction ks arbitrary: ob) (auto split: option.splits)

lemma sorted_members_get: "map_of (sorted_members m) k = map_of m k"
proof (cases "map_of m k")
  case (Some v)
  then have "k \<in> fst ` set m" by (metis map_of_eq_None_iff option.distinct(1))
  with Some show ?thesis by (simp add: sorted_members_def sorted_members_get_aux)
qed (simp add: sorted_members_def sorted_members_get_aux)

lemma sorted_members_cong:
  assumes "mset (map fst m) = mset (map fst m')" and "\<And>k. map_of m k = map_of m' k"
  shows "sorted_members m = sorted_members m'"
  by (simp add: sorted_members_def sort_strings_cong [OF assms(1)] assms(2))

lemma keys_normalised: "map fst (map (\<lambda>(k, v). (k, sortObjectKeys v)) kvs) = map fst kvs"
  by (induction kvs) auto

lemma same_sorted: "same_up_to_order u v \<Longrightarrow> js_keyed u \<Longrightarrow> js_keyed v \<Longrightarrow> sortObjectKeys u = sortObjectKeys v"
proof (induction rule: same_up_to_order.induct)
  case (same_array vs ws)
  then have "list_all2 (\<lambda>v w. sortObjectKeys v = sortObjectKeys w) vs ws"
    by (auto simp: list_all2_conv_all_nth list_all_length)
  then show ?case by (auto simp: list_all2_conv_all_nth intro: nth_equalityI)
next
  case (same_object kvs lvs)
  have keys: "mset (map fst kvs) = mset (map fst lvs)"
    using same_object by (intro set_eq_iff_mset_eq_distinct [THEN iffD1]) auto
  have "map_option sortObjectKeys (map_of kvs k) = map_option sortObjectKeys (map_of lvs k)" for k
  proof (cases "map_of kvs k")
    case None
    then have "map_of lvs k = None" using same_object(1) by (simp add: map_of_eq_None_iff)
    with None show ?thesis by simp
  next
    case (Some v)
    then have "k \<in> fst ` set lvs" using same_object(1) by (metis map_of_eq_None_iff option.distinct(1))
    then obtain w where w: "map_of lvs k = Some w" by (metis map_of_eq_None_iff not_Some_eq)
    have "js_keyed v" "js_keyed w"
      using same_object.prems Some w by (auto simp: list_all_iff dest!: map_of_SomeD)
    with same_object.IH Some w show ?thesis by simp
  qed
  then have "sorted_members (map (\<lambda>(k, v). (k, sortObjectKeys v)) kvs) = sorted_members (map (\<lambda>(k, v). (k, sortObjectKeys v)) lvs)"
    using keys by (intro sorted_members_cong) (simp_all only: keys_normalised map_of_normalised)
  then show ?case by simp
qed simp

lemma sorted_same: "js_keyed u \<Longrightarrow> js_keyed v \<Longrightarrow> sortObjectKeys u = sortObjectKeys v \<Longrightarrow> same_up_to_order u v"
proof (induction u arbitrary: v)
  case (JArr vs)
  from JArr.prems(3) obtain ws where v: "v = JArr ws" by (cases v) auto
  have "list_all2 same_up_to_order vs ws"
  proof (rule list_all2_all_nthI)
    show l: "length vs = length ws" using JArr.prems(3) v by (auto dest: map_eq_imp_length_eq)
    fix i assume i: "i < length vs"
    then have "sortObjectKeys (vs ! i) = sortObjectKeys (ws ! i)"
      using JArr.prems(3) v l by (metis js.inject(4) nth_map sortObjectKeys.simps(1))
    with i l JArr v show "same_up_to_order (vs ! i) (ws ! i)" by (auto simp: list_all_length)
  qed
  then show ?case unfolding v by (rule same_array)
next
  case (JObj kvs)
  from JObj.prems(3) obtain lvs where v: "v = JObj lvs" by (cases v) auto
  have s: "map_option sortObjectKeys (map_of kvs k) = map_option sortObjectKeys (map_of lvs k)" for k
    using JObj.prems(3) v by (metis js.inject(5) map_of_normalised sortObjectKeys.simps(2) sorted_members_get)
  have "k \<in> fst ` set kvs \<longleftrightarrow> k \<in> fst ` set lvs" for k
    using s [of k] by (metis map_of_eq_None_iff map_option_is_None)
  moreover have "same_up_to_order x y" if "map_of kvs k = Some x" "map_of lvs k = Some y" for k x y
  proof -
    have "(k, x) \<in> set kvs" "(k, y) \<in> set lvs" using that by (auto dest: map_of_SomeD)
    moreover have "sortObjectKeys x = sortObjectKeys y" using s [of k] that by simp
    ultimately show ?thesis using JObj v by (auto simp: list_all_iff) fastforce
  qed
  ultimately show ?case unfolding v by (intro same_object) blast+
qed (case_tac v; simp add: same_refl)+

text \<open>
  C28. Two values have the same normal form exactly if they differ at most in the order of the keys of their objects.
\<close>

theorem sortObjectKeys_identifies:
  "js_keyed u \<Longrightarrow> js_keyed v \<Longrightarrow> sortObjectKeys u = sortObjectKeys v \<longleftrightarrow> same_up_to_order u v"
  using same_sorted sorted_same by blast

theorem sortObjectKeys_identifies_witness:
  "same_up_to_order (JObj [(''b'', JArr [JObj [(''y'', JNull), (''x'', JNull)]]), (''a'', JBool True)])
     (JObj [(''a'', JBool True), (''b'', JArr [JObj [(''x'', JNull), (''y'', JNull)]])])"
  by (rule sortObjectKeys_identifies [THEN iffD1]) (code_simp, code_simp, code_simp)

lemma sorted_members_keyed: "distinct (map fst (sorted_members m))"
proof -
  have "well_keyed (foldl (\<lambda>so key. case map_of m key of None \<Rightarrow> so | Some v \<Rightarrow> obj_set key v so) ob ks)"
    if "well_keyed ob" for ob ks
    using that by (rule foldl_keeps) (simp split: option.splits)
  then show ?thesis by (simp add: sorted_members_def well_keyed_def [symmetric])
qed

lemma sorted_members_mem: "(k, v) \<in> set (sorted_members m) \<Longrightarrow> map_of m k = Some v"
  using sorted_members_keyed [of m] by (metis map_of_is_SomeI sorted_members_get)

lemma sortObjectKeys_keyed: "js_keyed (sortObjectKeys u)"
proof (induction u)
  case (JObj kvs)
  have "js_keyed v" if "(k, v) \<in> set (sorted_members (map (\<lambda>(k, v). (k, sortObjectKeys v)) kvs))" for k v
  proof -
    have "map_option sortObjectKeys (map_of kvs k) = Some v"
      using sorted_members_mem [OF that] by (simp only: map_of_normalised)
    then obtain w where "map_of kvs k = Some w" "v = sortObjectKeys w" by auto
    with JObj show ?thesis by (auto dest!: map_of_SomeD)
  qed
  then show ?case by (auto simp: sorted_members_keyed list_all_iff)
qed (simp_all add: list_all_iff)

text \<open>Sorting twice is sorting once.\<close>

lemma sortObjectKeys_same: "js_keyed u \<Longrightarrow> same_up_to_order (sortObjectKeys u) u"
proof (induction u)
  case (JArr vs)
  then have "list_all2 same_up_to_order (map sortObjectKeys vs) vs" by (auto simp: list_all2_conv_all_nth list_all_length)
  then show ?case by (simp add: same_array)
next
  case (JObj kvs)
  let ?m = "sorted_members (map (\<lambda>(k, v). (k, sortObjectKeys v)) kvs)"
  have g: "map_of ?m k = map_option sortObjectKeys (map_of kvs k)" for k
    by (simp add: sorted_members_get map_of_normalised)
  have "fst ` set ?m = fst ` set kvs" using g by (auto simp: set_eq_iff) (metis (no_types, lifting) map_of_eq_None_iff map_option_is_None image_eqI fst_conv)+
  moreover have "same_up_to_order x y" if "map_of ?m k = Some x" "map_of kvs k = Some y" for k x y
    using that g [of k] JObj by (auto simp: list_all_iff dest!: map_of_SomeD)
  ultimately show ?case by (auto intro: same_object)
qed (auto intro: same_refl)

lemma sortObjectKeys_idem: "js_keyed u \<Longrightarrow> sortObjectKeys (sortObjectKeys u) = sortObjectKeys u"
  by (rule same_sorted [OF sortObjectKeys_same]) (simp_all add: sortObjectKeys_keyed)

subsection \<open>What the checksum depends on\<close>

lemma payload_get_aux:
  "map_of (foldl (\<lambda>payload field.
       case map_of w field of None \<Rightarrow> payload | Some v \<Rightarrow> if v = JUndefined then payload else obj_set field v payload) ob fs) k =
    (if k \<in> set fs \<and> map_of w k \<noteq> None \<and> map_of w k \<noteq> Some JUndefined then map_of w k else map_of ob k)"
  by (induction fs arbitrary: ob) (auto split: option.splits)

lemma payload_get:
  "map_of (checksum_payload w) k =
    (if k \<in> set WORKFLOW_CHECKSUM_FIELDS \<and> map_of w k \<noteq> Some JUndefined then map_of w k else None)"
  unfolding checksum_payload_def payload_get_aux by (cases "map_of w k") auto

lemma payload_keyed: "well_keyed (checksum_payload w)"
  unfolding checksum_payload_def by (rule foldl_keeps) (simp_all split: option.splits)

text \<open>
  The fields of two snapshots that enter the checksum are the same up to the order of keys.
\<close>

definition same_fields :: "js jsobj \<Rightarrow> js jsobj \<Rightarrow> bool" where
  "same_fields w w' \<longleftrightarrow>
     list_all (\<lambda>f. case (map_of (checksum_payload w) f, map_of (checksum_payload w') f) of
         (None, None) \<Rightarrow> True
       | (Some v, Some v') \<Rightarrow> js_keyed v \<and> js_keyed v' \<and> sortObjectKeys v = sortObjectKeys v'
       | _ \<Rightarrow> False) WORKFLOW_CHECKSUM_FIELDS"

lemma same_fields_payload:
  assumes "same_fields w w'"
  shows "sortObjectKeys (JObj (checksum_payload w)) = sortObjectKeys (JObj (checksum_payload w'))"
proof -
  let ?p = "checksum_payload w" and ?q = "checksum_payload w'"
  have g: "map_option sortObjectKeys (map_of ?p k) = map_option sortObjectKeys (map_of ?q k)" for k
  proof (cases "k \<in> set WORKFLOW_CHECKSUM_FIELDS")
    case True
    then have "case (map_of ?p k, map_of ?q k) of
        (None, None) \<Rightarrow> True
      | (Some v, Some v') \<Rightarrow> js_keyed v \<and> js_keyed v' \<and> sortObjectKeys v = sortObjectKeys v'
      | _ \<Rightarrow> False"
      using assms by (simp only: same_fields_def list_all_iff)
    then show ?thesis by (cases "map_of ?p k"; cases "map_of ?q k") simp_all
  qed (simp add: payload_get)
  have "fst ` set ?p = fst ` set ?q"
    using g by (auto simp: set_eq_iff) (metis (no_types, lifting) map_of_eq_None_iff map_option_is_None image_eqI fst_conv)+
  then have "mset (map fst ?p) = mset (map fst ?q)"
    using payload_keyed by (intro set_eq_iff_mset_eq_distinct [THEN iffD1]) (auto simp: well_keyed_def)
  then have "sorted_members (map (\<lambda>(k, v). (k, sortObjectKeys v)) ?p) = sorted_members (map (\<lambda>(k, v). (k, sortObjectKeys v)) ?q)"
    using g by (intro sorted_members_cong) (simp_all only: keys_normalised map_of_normalised)
  then show ?thesis by simp
qed

lemma checksum_same: "same_fields w w' \<Longrightarrow> calculateWorkflowChecksum sn su sha w = calculateWorkflowChecksum sn su sha w'"
  by (simp only: calculateWorkflowChecksum_def same_fields_payload)

text \<open>The fields that are not listed do not matter, for example the identifier.\<close>

lemma checksum_other_fields:
  assumes "f \<notin> set WORKFLOW_CHECKSUM_FIELDS"
  shows "calculateWorkflowChecksum sn su sha (obj_set f v w) = calculateWorkflowChecksum sn su sha w"
proof -
  have "checksum_payload (obj_set f v w) = checksum_payload w"
    unfolding checksum_payload_def by (rule foldl_cong) (use assms in auto)
  then show ?thesis by (simp add: calculateWorkflowChecksum_def)
qed

subsection \<open>Hexadecimal text\<close>

lemma hex_byte_eq: "b < 256 \<Longrightarrow> hex_byte b = [hex_digit (b div 16), hex_digit (b mod 16)]"
proof -
  have "hex_digit 0 = CHR ''0''" by code_simp
  then show ?thesis by (auto simp: hex_byte_def Let_def)
qed

lemma hex_foldl: "foldl (\<lambda>s b. s @ hex_byte b) acc bs = acc @ concat (map hex_byte bs)"
  by (induction bs arbitrary: acc) auto

lemma hex_byte_inj:
  assumes "b < 256" and "c < 256" and "hex_byte b = hex_byte c"
  shows "b = c"
proof -
  have "unhex (hex_digit (b div 16)) = unhex (hex_digit (c div 16))" "unhex (hex_digit (b mod 16)) = unhex (hex_digit (c mod 16))"
    using assms by (simp_all add: hex_byte_eq)
  then have "b div 16 = c div 16" "b mod 16 = c mod 16" using assms by (simp_all add: unhex_hex)
  then show ?thesis by (metis div_mult_mod_eq)
qed

text \<open>Different digests give different checksums.\<close>

lemma arrayBufferToHex_inj:
  "list_all (\<lambda>b. b < 256) bs \<Longrightarrow> list_all (\<lambda>b. b < 256) cs \<Longrightarrow> arrayBufferToHex bs = arrayBufferToHex cs \<Longrightarrow> bs = cs"
  unfolding arrayBufferToHex_def hex_foldl
proof (induction bs arbitrary: cs)
  case Nil
  then show ?case by (cases cs) (auto simp: hex_byte_eq)
next
  case (Cons b bs)
  then obtain c ds where c: "cs = c # ds" by (cases cs) (auto simp: hex_byte_eq)
  have l: "length (hex_byte b) = length (hex_byte c)" using Cons.prems c by (simp add: hex_byte_eq)
  then have "hex_byte b = hex_byte c" "concat (map hex_byte bs) = concat (map hex_byte ds)"
    using Cons.prems(3) c by simp_all
  with Cons c show ?case by (auto dest: hex_byte_inj)
qed

end
