(* ===== verification/ConcurrencyQueue.thy ===== *)
theory ConcurrencyQueue
  imports Prelude "HOL-Library.Multiset"
begin

section \<open>The queue of throttled executions\<close>

text \<open>
  \<^verbatim>\<open>packages/cli/src/concurrency/concurrency-queue.ts\<close>: a counter of free slots and the executions that wait for
  one. What \<^verbatim>\<open>enqueue\<close> returns is a promise that is resolved at once or, with the event that releases the execution,
  later: the operations return the events (the check of the capacity is emitted with a delay that merges several),
  and \<open>True\<close> or \<open>False\<close> for the promise of \<^verbatim>\<open>enqueue\<close>. The queue with the executions it let through is a state machine; its lemmas show how many run, in which order they are let through,
  and that an execution taken out of the queue lets the next one through although no slot is free.
\<close>

subsection \<open>The operations\<close>

record concurrency_queue =
  cq_capacity :: int
  cq_queue :: "string list"

datatype queue_event =
    ConcurrencyCheck int
  | ExecutionThrottled string
  | ExecutionReleased string

definition new_queue :: "int \<Rightarrow> concurrency_queue" where
  "new_queue capacity = \<lparr>cq_capacity = capacity, cq_queue = []\<rparr>"

definition enqueue_execution :: "string \<Rightarrow> concurrency_queue \<Rightarrow> concurrency_queue \<times> queue_event list \<times> bool" where
  \<comment> \<open>\<^verbatim>\<open>enqueue\<close>\<close>
  "enqueue_execution executionId q =
     (let q1 = q\<lparr>cq_capacity := cq_capacity q - 1\<rparr>; check = ConcurrencyCheck (cq_capacity q1) in
      if cq_capacity q1 < 0
      then (q1\<lparr>cq_queue := cq_queue q1 @ [executionId]\<rparr>, [check, ExecutionThrottled executionId], False)
      else (q1, [check], True))"

definition resolveNext :: "concurrency_queue \<Rightarrow> concurrency_queue \<times> queue_event list" where
  "resolveNext q =
     (case cq_queue q of
        [] \<Rightarrow> (q, [])
      | executionId # items \<Rightarrow> (q\<lparr>cq_queue := items\<rparr>, [ExecutionReleased executionId]))"

definition dequeue :: "concurrency_queue \<Rightarrow> concurrency_queue \<times> queue_event list" where
  "dequeue q = resolveNext (q\<lparr>cq_capacity := cq_capacity q + 1\<rparr>)"

definition remove_queued :: "string \<Rightarrow> concurrency_queue \<Rightarrow> concurrency_queue \<times> queue_event list" where
  \<comment> \<open>\<^verbatim>\<open>remove\<close>: the first entry of the execution is spliced out\<close>
  "remove_queued executionId q =
     (if executionId \<in> set (cq_queue q)
      then resolveNext (q\<lparr>cq_queue := remove1 executionId (cq_queue q), cq_capacity := cq_capacity q + 1\<rparr>)
      else (q, []))"

definition getAll :: "concurrency_queue \<Rightarrow> string list" where
  "getAll q = set_of_list (cq_queue q)"

definition queue_has :: "string \<Rightarrow> concurrency_queue \<Rightarrow> bool" where
  "queue_has executionId q \<longleftrightarrow> executionId \<in> set (cq_queue q)"

fun released_ids :: "queue_event list \<Rightarrow> string list" where
  "released_ids [] = []"
| "released_ids (ExecutionReleased executionId # es) = executionId # released_ids es"
| "released_ids (e # es) = released_ids es"

subsection \<open>The queue and the executions it let through\<close>

text \<open>
  Executions arrive, those let through finish and give their slot back, and those that wait are withdrawn. Arrivals
  and executions let through are recorded in order.
\<close>

record throttling =
  th_queue :: concurrency_queue
  th_running :: "string list"
  th_arrived :: "string list"
  th_started :: "string list"

definition start_throttling :: "int \<Rightarrow> throttling" where
  "start_throttling limit = \<lparr>th_queue = new_queue limit, th_running = [], th_arrived = [], th_started = []\<rparr>"

definition let_through :: "string list \<Rightarrow> throttling \<Rightarrow> throttling" where
  "let_through ids s = s\<lparr>th_running := th_running s @ ids, th_started := th_started s @ ids\<rparr>"

datatype throttle_action = Arrive string | Finish string | Withdraw string

inductive throttle_step :: "throttle_action \<Rightarrow> throttling \<Rightarrow> throttling \<Rightarrow> bool" where
  arrive: "enqueue_execution i (th_queue s) = (q, es, ok) \<Longrightarrow>
    throttle_step (Arrive i) s
      (let_through (if ok then [i] else []) (s\<lparr>th_queue := q, th_arrived := th_arrived s @ [i]\<rparr>))"
| finish: "i \<in> set (th_running s) \<Longrightarrow> dequeue (th_queue s) = (q, es) \<Longrightarrow>
    throttle_step (Finish i) s
      (let_through (released_ids es) (s\<lparr>th_queue := q, th_running := remove1 i (th_running s)\<rparr>))"
| withdraw: "i \<in> set (cq_queue (th_queue s)) \<Longrightarrow> remove_queued i (th_queue s) = (q, es) \<Longrightarrow>
    throttle_step (Withdraw i) s (let_through (released_ids es) (s\<lparr>th_queue := q\<rparr>))"

inductive throttle_run :: "int \<Rightarrow> throttle_action list \<Rightarrow> throttling \<Rightarrow> bool" for limit where
  none: "throttle_run limit [] (start_throttling limit)"
| more: "throttle_run limit as s \<Longrightarrow> throttle_step a s t \<Longrightarrow> throttle_run limit (as @ [a]) t"

inductive_cases throttle_stepE: "throttle_step a s t"

fun withdraws :: "throttle_action \<Rightarrow> bool" where
  "withdraws (Withdraw i) = True"
| "withdraws a = False"

abbreviation waiting_ids :: "throttling \<Rightarrow> string list" where
  "waiting_ids s \<equiv> cq_queue (th_queue s)"

text \<open>
  What holds of a queue and the number of executions it let through that still run, after a number of withdrawals.
\<close>

definition slot_inv :: "int \<Rightarrow> nat \<Rightarrow> concurrency_queue \<Rightarrow> nat \<Rightarrow> bool" where
  "slot_inv limit w q n \<longleftrightarrow>
     cq_capacity q = limit - int n - int (length (cq_queue q)) \<and>
     (cq_queue q \<noteq> [] \<longrightarrow> limit \<le> int n) \<and> int n \<le> limit + int w"

lemma slot_inv_new: "0 \<le> limit \<Longrightarrow> slot_inv limit 0 (new_queue limit) 0"
  by (simp add: slot_inv_def new_queue_def)

lemma slot_inv_enqueue:
  "enqueue_execution i q = (q', es, ok) \<Longrightarrow> slot_inv limit w q n \<Longrightarrow> slot_inv limit w q' (n + (if ok then 1 else 0))"
  by (auto simp: enqueue_execution_def Let_def slot_inv_def split: if_splits)

lemma slot_inv_dequeue:
  "dequeue q = (q', es) \<Longrightarrow> slot_inv limit w q (Suc n) \<Longrightarrow> slot_inv limit w q' (n + length (released_ids es))"
  by (auto simp: dequeue_def resolveNext_def slot_inv_def split: list.splits)

lemma length_remove1_mem: "i \<in> set xs \<Longrightarrow> length xs = Suc (length (remove1 i xs))"
  by (metis One_nat_def Suc_pred length_pos_if_in_set length_remove1)

lemma slot_inv_remove:
  "remove_queued i q = (q', es) \<Longrightarrow> slot_inv limit w q n \<Longrightarrow> slot_inv limit (Suc w) q' (n + length (released_ids es))"
  using length_remove1_mem [of i "cq_queue q"]
  by (auto simp: remove_queued_def resolveNext_def slot_inv_def split: list.splits if_splits)

definition throttle_inv :: "int \<Rightarrow> nat \<Rightarrow> throttling \<Rightarrow> bool" where
  "throttle_inv limit w s \<longleftrightarrow> slot_inv limit w (th_queue s) (length (th_running s))"

lemma throttle_step_inv:
  assumes "throttle_step a s t" and "throttle_inv limit w s"
  shows "throttle_inv limit (w + (if withdraws a then 1 else 0)) t"
  using assms(1)
proof cases
  case (arrive i q es ok)
  then show ?thesis using assms(2) slot_inv_enqueue [of i "th_queue s"]
    by (fastforce simp: throttle_inv_def let_through_def)
next
  case (finish i q es)
  then show ?thesis using assms(2) length_remove1_mem [of i "th_running s"] slot_inv_dequeue [of "th_queue s"]
    by (fastforce simp: throttle_inv_def let_through_def)
next
  case (withdraw i q es)
  then show ?thesis using assms(2) slot_inv_remove [of i "th_queue s"]
    by (fastforce simp: throttle_inv_def let_through_def)
qed

lemma throttle_run_inv:
  "throttle_run limit as s \<Longrightarrow> 0 \<le> limit \<Longrightarrow> throttle_inv limit (length (filter withdraws as)) s"
proof (induction rule: throttle_run.induct)
  case none
  then show ?case by (simp add: throttle_inv_def start_throttling_def slot_inv_new)
next
  case (more as s a t)
  then show ?case using throttle_step_inv [OF more.hyps(2)] by fastforce
qed

text \<open>
  C25. At any time the free slots are the limit less the executions that run and those that wait; while some wait no
  slot is free; and no more than the limit run, except for one more for every execution taken out of the queue.
\<close>

theorem throttle_limit:
  assumes "throttle_run limit as s" and "0 \<le> limit"
  shows "cq_capacity (th_queue s) = limit - int (length (th_running s)) - int (length (waiting_ids s)) \<and>
    (waiting_ids s = [] \<or> limit \<le> int (length (th_running s))) \<and>
    int (length (th_running s)) \<le> limit + int (length (filter withdraws as))"
  using throttle_run_inv [OF assms] by (auto simp: throttle_inv_def slot_inv_def)

text \<open>With a limit of one, three arrivals and the second taken out of the queue, two executions run.\<close>

definition withdrawn_state :: throttling where
  "withdrawn_state =
     \<lparr>th_queue = \<lparr>cq_capacity = -1, cq_queue = []\<rparr>, th_running = [''A'', ''C''],
      th_arrived = [''A'', ''B'', ''C''], th_started = [''A'', ''C'']\<rparr>"

lemma throttle_arrive:
  "throttle_run limit as s \<Longrightarrow>
    throttle_run limit (as @ [Arrive i])
      (case enqueue_execution i (th_queue s) of (q, es, ok) \<Rightarrow>
         let_through (if ok then [i] else []) (s\<lparr>th_queue := q, th_arrived := th_arrived s @ [i]\<rparr>))"
proof (cases "enqueue_execution i (th_queue s)")
  case (fields q es ok)
  assume r: "throttle_run limit as s"
  show ?thesis using throttle_run.more [OF r throttle_step.arrive [OF fields]] fields by simp
qed

lemma throttle_withdraw:
  "throttle_run limit as s \<Longrightarrow> i \<in> set (waiting_ids s) \<Longrightarrow>
    throttle_run limit (as @ [Withdraw i])
      (case remove_queued i (th_queue s) of (q, es) \<Rightarrow> let_through (released_ids es) (s\<lparr>th_queue := q\<rparr>))"
proof (cases "remove_queued i (th_queue s)")
  case (Pair q es)
  assume r: "throttle_run limit as s" and i: "i \<in> set (waiting_ids s)"
  show ?thesis using throttle_run.more [OF r throttle_step.withdraw [OF i Pair]] Pair by simp
qed

lemmas throttle_ops = start_throttling_def new_queue_def enqueue_execution_def Let_def let_through_def remove_queued_def resolveNext_def

definition arrived_state :: throttling where
  "arrived_state =
     \<lparr>th_queue = \<lparr>cq_capacity = -2, cq_queue = [''B'', ''C'']\<rparr>, th_running = [''A''],
      th_arrived = [''A'', ''B'', ''C''], th_started = [''A'']\<rparr>"

lemma arrived_run: "throttle_run 1 [Arrive ''A'', Arrive ''B'', Arrive ''C''] arrived_state"
proof -
  let ?s = "\<lambda>c q a. \<lparr>th_queue = \<lparr>cq_capacity = c, cq_queue = q\<rparr>, th_running = [''A''], th_arrived = a, th_started = [''A'']\<rparr>"
  have "throttle_run 1 [Arrive ''A''] (?s 0 [] [''A''])"
    using throttle_arrive [OF throttle_run.none [of 1], of "''A''"] by (simp add: throttle_ops)
  then have "throttle_run 1 [Arrive ''A'', Arrive ''B''] (?s (-1) [''B''] [''A'', ''B''])"
    by (drule_tac i = "''B''" in throttle_arrive) (simp add: throttle_ops)
  then show ?thesis
    by (drule_tac i = "''C''" in throttle_arrive) (simp add: throttle_ops arrived_state_def)
qed

lemma withdrawn_over_limit:
  "throttle_run 1 [Arrive ''A'', Arrive ''B'', Arrive ''C'', Withdraw ''B''] withdrawn_state"
  using throttle_withdraw [OF arrived_run, of "''B''"]
  by (simp add: throttle_ops withdrawn_state_def arrived_state_def)

theorem throttle_limit_witness:
  "cq_capacity (th_queue withdrawn_state) = 1 - int (length (th_running withdrawn_state)) - int (length (waiting_ids withdrawn_state)) \<and>
    (waiting_ids withdrawn_state = [] \<or> 1 \<le> int (length (th_running withdrawn_state))) \<and>
    int (length (th_running withdrawn_state)) \<le>
      1 + int (length (filter withdraws [Arrive ''A'', Arrive ''B'', Arrive ''C'', Withdraw ''B'']))"
  by (rule throttle_limit [OF withdrawn_over_limit]) simp

subsection \<open>The order in which executions are let through\<close>

fun finishes :: "throttle_action \<Rightarrow> bool" where
  "finishes (Finish i) = True"
| "finishes a = False"

lemma throttle_run_count:
  "throttle_run limit as s \<Longrightarrow> length (th_started s) = length (th_running s) + length (filter finishes as)"
proof (induction rule: throttle_run.induct)
  case (more as s a t)
  from more.hyps(2) show ?case
  proof cases
    case (finish i q es)
    then show ?thesis using more.IH length_remove1_mem [of i "th_running s"] by (simp add: let_through_def)
  qed (use more.IH in \<open>simp_all add: let_through_def\<close>)
qed (simp add: start_throttling_def)

lemma throttle_run_order:
  "throttle_run limit as s \<Longrightarrow> 0 \<le> limit \<Longrightarrow> list_all (\<lambda>a. \<not> withdraws a) as \<Longrightarrow>
    th_started s @ waiting_ids s = th_arrived s"
proof (induction rule: throttle_run.induct)
  case (more as s a t)
  then have e: "th_started s @ waiting_ids s = th_arrived s" by (simp add: list_all_iff)
  from more.hyps(2) show ?case
  proof cases
    case (arrive i q es ok)
    have "waiting_ids s = [] \<or> \<not> ok"
      using throttle_run_inv [OF more.hyps(1) more.prems(1)] arrive
      by (cases "waiting_ids s") (auto simp: throttle_inv_def slot_inv_def enqueue_execution_def Let_def split: if_splits)
    then show ?thesis using e arrive by (auto simp: enqueue_execution_def Let_def let_through_def split: if_splits)
  next
    case (finish i q es)
    then show ?thesis using e by (auto simp: dequeue_def resolveNext_def let_through_def split: list.splits)
  next
    case (withdraw i q es)
    then show ?thesis using more.prems by simp
  qed
qed (simp add: start_throttling_def new_queue_def)

text \<open>
  C24. As long as no execution is taken out of the queue, the executions let through are the first that arrived, in
  order, and there are as many as the limit and the finished executions allow.
\<close>

theorem throttle_fifo:
  assumes "throttle_run limit as s" and "0 \<le> limit" and "list_all (\<lambda>a. \<not> withdraws a) as"
  shows "th_started s = take (nat limit + length (filter finishes as)) (th_arrived s)"
proof -
  have o: "th_started s @ waiting_ids s = th_arrived s" by (rule throttle_run_order [OF assms])
  have c: "length (th_started s) = length (th_running s) + length (filter finishes as)"
    by (rule throttle_run_count [OF assms(1)])
  have w: "filter withdraws as = []" using assms(3) by (auto simp: filter_empty_conv list_all_iff)
  have i: "waiting_ids s = [] \<or> limit = int (length (th_running s))" "int (length (th_running s)) \<le> limit"
    using throttle_run_inv [OF assms(1,2)] w by (auto simp: throttle_inv_def slot_inv_def)
  show ?thesis
  proof (cases "waiting_ids s = []")
    case True
    then show ?thesis using o c i(2) by simp
  next
    case False
    then have "nat limit = length (th_running s)" using i(1) by simp
    then show ?thesis unfolding o [symmetric] using c by simp
  qed
qed

theorem throttle_fifo_witness:
  "th_started arrived_state =
    take (nat 1 + length (filter finishes [Arrive ''A'', Arrive ''B'', Arrive ''C''])) (th_arrived arrived_state)"
  by (rule throttle_fifo [OF arrived_run]) simp_all

end
