(* ===== verification/ConcurrencyControl.thy ===== *)
theory ConcurrencyControl
  imports ConcurrencyQueue
begin

section \<open>Concurrency control and reservations\<close>

text \<open>
  \<^verbatim>\<open>packages/cli/src/concurrency/concurrency-control.service.ts\<close>, \<^verbatim>\<open>concurrency-capacity-reservation.ts\<close> and
  \<^verbatim>\<open>evaluation.ee/evaluation-concurrency.helper.ts\<close>: a queue for production executions and one for evaluations, each
  only if it has a positive limit; the one for evaluations may be made at its first use. Configuration, environment
  and license are arguments. Logging and telemetry are left out, except for the rule that decides what is reported.
  \<^verbatim>\<open>throttle\<close> returns \<open>True\<close> if the execution may go on at once; the events of \<^verbatim>\<open>release\<close>, \<^verbatim>\<open>remove\<close> and \<^verbatim>\<open>removeAll\<close>
  name the executions let through.
\<close>

subsection \<open>Limits\<close>

record evaluation_license =
  el_env_set :: bool
  el_quota :: "int option"
  el_planName :: string

definition EVALUATION_TIER_DEFAULTS :: "(string \<times> int) list" where
  "EVALUATION_TIER_DEFAULTS = [(''Community'', 1), (''Pro'', 1), (''Business'', 3), (''Enterprise'', 5)]"

definition readLicenseQuota :: "evaluation_license \<Rightarrow> int option" where
  "readLicenseQuota license =
     (case el_quota license of None \<Rightarrow> None | Some raw \<Rightarrow> if raw = 0 then None else Some raw)"

definition resolveEvaluationConcurrencyLimit :: "int \<Rightarrow> evaluation_license \<Rightarrow> int" where
  "resolveEvaluationConcurrencyLimit evaluationLimit license =
     (if el_env_set license then evaluationLimit
      else case readLicenseQuota license of
             Some fromLicense \<Rightarrow> fromLicense
           | None \<Rightarrow> (case map_of EVALUATION_TIER_DEFAULTS (el_planName license) of Some l \<Rightarrow> l | None \<Rightarrow> 1))"

datatype limit_source = FromEnv | FromLicense | FromTier

definition getEvaluationConcurrencyLimitSource :: "evaluation_license \<Rightarrow> limit_source" where
  "getEvaluationConcurrencyLimitSource license =
     (if el_env_set license then FromEnv else if readLicenseQuota license \<noteq> None then FromLicense else FromTier)"

definition normaliseLimit :: "int \<Rightarrow> int result" where
  "normaliseLimit limit =
     (if limit = 0 then Inl (UserError ''Concurrency limit set to invalid value'')
      else Inr (if limit < -1 then -1 else limit))"

subsection \<open>The service\<close>

datatype WorkflowExecuteMode =
    ModeCli | ModeError | ModeIntegrated | ModeInternal | ModeManual | ModeRetry | ModeTrigger | ModeWebhook
  | ModeEvaluation | ModeChat | ModeAgent

datatype queue_type = Production | Evaluation

record control_config =
  cfg_queueMode :: bool
  cfg_productionLimit :: int
  cfg_evaluationLimit :: int
  cfg_license :: evaluation_license

record control =
  cc_isEnabled :: bool
  cc_limits :: "(queue_type, int) jsmap"
  cc_queues :: "(queue_type, concurrency_queue) jsmap"
  cc_evalQueueResolved :: bool

text \<open>In the mode with workers the constructor leaves the queues undefined, which no enabled operation sees.\<close>

definition new_control :: "control_config \<Rightarrow> control result" where
  "new_control cfg =
     bind_result (normaliseLimit (cfg_productionLimit cfg)) (\<lambda>normalisedProduction.
     bind_result (normaliseLimit (cfg_evaluationLimit cfg)) (\<lambda>normalisedEvaluation.
       let limits = [(Production, normalisedProduction), (Evaluation, normalisedEvaluation)] in
       if cfg_queueMode cfg
       then Inr \<lparr>cc_isEnabled = False, cc_limits = limits, cc_queues = [], cc_evalQueueResolved = False\<rparr>
       else
         let queues = (if 0 < normalisedProduction then map_set Production (new_queue normalisedProduction) [] else []);
             queues' = (if 0 < normalisedEvaluation then map_set Evaluation (new_queue normalisedEvaluation) queues else queues)
         in Inr \<lparr>cc_isEnabled = (queues' \<noteq> []), cc_limits = limits, cc_queues = queues',
                 cc_evalQueueResolved = (0 < normalisedEvaluation)\<rparr>))"

text \<open>A limit of zero, for which this throws, cannot be resolved once the service was made.\<close>

definition ensureEvalQueueResolved :: "control_config \<Rightarrow> control \<Rightarrow> control result" where
  "ensureEvalQueueResolved cfg c =
     (if cc_evalQueueResolved c then Inr c
      else
        let c1 = c\<lparr>cc_evalQueueResolved := True\<rparr> in
        if cfg_queueMode cfg then Inr c1
        else bind_result (normaliseLimit (resolveEvaluationConcurrencyLimit (cfg_evaluationLimit cfg) (cfg_license cfg)))
               (\<lambda>normalised.
                  let c2 = c1\<lparr>cc_limits := map_set Evaluation normalised (cc_limits c1)\<rparr> in
                  Inr (if 0 < normalised
                       then c2\<lparr>cc_queues := map_set Evaluation (new_queue normalised) (cc_queues c2), cc_isEnabled := True\<rparr>
                       else c2)))"

definition getQueue :: "WorkflowExecuteMode \<Rightarrow> queue_type option result" where
  \<comment> \<open>which of the queues; it may still be missing\<close>
  "getQueue mode =
     (if mode \<in> {ModeError, ModeIntegrated, ModeCli, ModeInternal, ModeManual, ModeRetry} then Inr None
      else if mode \<in> {ModeWebhook, ModeTrigger, ModeChat} then Inr (Some Production)
      else if mode = ModeEvaluation then Inr (Some Evaluation)
      else Inl (UnexpectedError ''Unknown execution mode''))"

definition queue_of :: "WorkflowExecuteMode \<Rightarrow> control \<Rightarrow> (queue_type \<times> concurrency_queue) option result" where
  \<comment> \<open>\<^verbatim>\<open>getQueue\<close>; \<open>None\<close> is \<^verbatim>\<open>undefined\<close>, and then \<^verbatim>\<open>isUnlimited\<close>\<close>
  "queue_of mode c =
     bind_result (getQueue mode) (\<lambda>ty.
       Inr (case ty of None \<Rightarrow> None | Some ty \<Rightarrow> map_option (Pair ty) (map_get (cc_queues c) ty)))"

text \<open>What \<^verbatim>\<open>throttle\<close>, \<^verbatim>\<open>release\<close> and \<^verbatim>\<open>remove\<close> have in common.\<close>

definition with_queue ::
  "control_config \<Rightarrow> WorkflowExecuteMode \<Rightarrow> (concurrency_queue \<Rightarrow> concurrency_queue \<times> 'a) \<Rightarrow> 'a \<Rightarrow> control \<Rightarrow>
    (control \<times> 'a) result" where
  "with_queue cfg mode operation nothing c =
     bind_result (if mode = ModeEvaluation then ensureEvalQueueResolved cfg c else Inr c) (\<lambda>c.
       if \<not> cc_isEnabled c then Inr (c, nothing)
       else bind_result (queue_of mode c) (\<lambda>q.
         case q of
           None \<Rightarrow> Inr (c, nothing)
         | Some (ty, queue) \<Rightarrow>
             (case operation queue of (queue', x) \<Rightarrow> Inr (c\<lparr>cc_queues := map_set ty queue' (cc_queues c)\<rparr>, x))))"

definition throttle ::
  "control_config \<Rightarrow> WorkflowExecuteMode \<Rightarrow> string \<Rightarrow> control \<Rightarrow> (control \<times> queue_event list \<times> bool) result" where
  "throttle cfg mode executionId = with_queue cfg mode (enqueue_execution executionId) ([], True)"

definition release :: "control_config \<Rightarrow> WorkflowExecuteMode \<Rightarrow> control \<Rightarrow> (control \<times> queue_event list) result" where
  "release cfg mode = with_queue cfg mode dequeue []"

definition remove_execution ::
  "control_config \<Rightarrow> WorkflowExecuteMode \<Rightarrow> string \<Rightarrow> control \<Rightarrow> (control \<times> queue_event list) result" where
  "remove_execution cfg mode executionId = with_queue cfg mode (remove_queued executionId) []"

definition control_has :: "string \<Rightarrow> control \<Rightarrow> bool" where
  "control_has executionId c \<longleftrightarrow> cc_isEnabled c \<and> list_ex (queue_has executionId) (map_values (cc_queues c))"

fun remove_ids :: "string list \<Rightarrow> concurrency_queue \<Rightarrow> concurrency_queue \<times> queue_event list" where
  "remove_ids [] q = (q, [])"
| "remove_ids (i # is) q =
     (case remove_queued i q of (q1, es) \<Rightarrow> case remove_ids is q1 of (q2, fs) \<Rightarrow> (q2, es @ fs))"

text \<open>\<^verbatim>\<open>removeAll\<close> also returns the executions it cancels in the database.\<close>

definition removeAll :: "string list \<Rightarrow> control \<Rightarrow> control \<times> queue_event list \<times> string list" where
  "removeAll executionIdsToCancel c =
     (if \<not> cc_isEnabled c then (c, [], [])
      else
        let removed = map (\<lambda>(ty, q). (ty, remove_ids (getAll q) q)) (cc_queues c) in
        (c\<lparr>cc_queues := map (\<lambda>(ty, q, es). (ty, q)) removed\<rparr>, concat (map (\<lambda>(ty, q, es). es) removed),
         executionIdsToCancel))"

definition disable :: "control \<Rightarrow> control" where
  "disable c = c\<lparr>cc_isEnabled := False\<rparr>"

definition CLOUD_TEMP_PRODUCTION_LIMIT :: int where "CLOUD_TEMP_PRODUCTION_LIMIT = 999"

definition limitsToReport :: "int list" where
  "limitsToReport = map (\<lambda>t. CLOUD_TEMP_PRODUCTION_LIMIT - t) [5, 10, 20, 50, 100, 200]"

definition shouldReport :: "bool \<Rightarrow> int \<Rightarrow> bool" where
  "shouldReport cloud capacity \<longleftrightarrow> cloud \<and> capacity \<in> set limitsToReport"

subsection \<open>Reservations\<close>

type_synonym reservation = "(WorkflowExecuteMode \<times> string) option"

text \<open>\<^verbatim>\<open>reserve\<close> up to the call of \<^verbatim>\<open>throttle\<close>; the reservation is acquired when its promise is resolved.\<close>

definition reserve_begin ::
  "control_config \<Rightarrow> WorkflowExecuteMode \<Rightarrow> string \<Rightarrow> reservation \<Rightarrow> control \<Rightarrow> (control \<times> queue_event list \<times> bool) result" where
  "reserve_begin cfg mode executionId acquiredReservation c =
     bind_result (assert_ok (acquiredReservation = None) ''Capacity already reserved'') (\<lambda>_.
       throttle cfg mode executionId c)"

definition reserve_end :: "WorkflowExecuteMode \<Rightarrow> string \<Rightarrow> reservation" where
  "reserve_end mode executionId = Some (mode, executionId)"

definition reservation_release ::
  "control_config \<Rightarrow> reservation \<Rightarrow> control \<Rightarrow> (control \<times> queue_event list \<times> reservation) result" where
  "reservation_release cfg acquiredReservation c =
     (case acquiredReservation of
        None \<Rightarrow> Inr (c, [], None)
      | Some (mode, _) \<Rightarrow> bind_result (release cfg mode c) (\<lambda>(c', es). Inr (c', es, None)))"

subsection \<open>What the service does\<close>

text \<open>Every mode but one is known.\<close>

lemma getQueue_knows: "(\<exists>e. getQueue mode = Inl e) \<longleftrightarrow> mode = ModeAgent"
  by (cases mode) (simp_all add: getQueue_def)

lemma throttle_agent_fails:
  "cc_isEnabled c \<Longrightarrow> throttle cfg ModeAgent i c = Inl (UnexpectedError ''Unknown execution mode'')"
  by (simp add: throttle_def with_queue_def queue_of_def getQueue_def)

lemma disabled_lets_through:
  "\<not> cc_isEnabled c \<Longrightarrow> mode \<noteq> ModeEvaluation \<Longrightarrow> throttle cfg mode i c = Inr (c, [], True)"
  "\<not> cc_isEnabled c \<Longrightarrow> mode \<noteq> ModeEvaluation \<Longrightarrow> release cfg mode c = Inr (c, [])"
  by (simp_all add: throttle_def release_def with_queue_def)

lemma disabled_removes_nothing: "removeAll ids (disable c) = (disable c, [], [])"
  by (simp add: removeAll_def disable_def)

text \<open>The modes of production share a queue; the other operations leave it alone.\<close>

definition production_mode :: "WorkflowExecuteMode \<Rightarrow> bool" where
  "production_mode mode \<longleftrightarrow> mode \<in> {ModeWebhook, ModeTrigger, ModeChat}"

definition production_queue :: "control \<Rightarrow> concurrency_queue option" where
  "production_queue c = (if cc_isEnabled c then map_get (cc_queues c) Production else None)"

lemma getQueue_production:
  "production_mode mode \<Longrightarrow> getQueue mode = Inr (Some Production)"
  "\<not> production_mode mode \<Longrightarrow> getQueue mode \<noteq> Inr (Some Production)"
  by (auto simp: getQueue_def production_mode_def)

lemma with_queue_production:
  assumes "production_mode mode" and "production_queue c = Some q" and "operation q = (q', x)"
  shows "\<exists>c'. with_queue cfg mode operation nothing c = Inr (c', x) \<and> production_queue c' = Some q'"
  using assms
  by (auto simp: with_queue_def queue_of_def getQueue_production production_queue_def production_mode_def map_get_set
      split: if_splits)

lemma ensureEvalQueueResolved_production:
  "ensureEvalQueueResolved cfg c = Inr c' \<Longrightarrow> production_queue c = Some q \<Longrightarrow> production_queue c' = Some q"
  by (auto simp: ensureEvalQueueResolved_def Let_def bind_result_eq_Inr production_queue_def map_get_set split: if_splits)

lemma with_queue_other:
  assumes w: "with_queue cfg mode operation nothing c = Inr (c', x)" and m: "\<not> production_mode mode"
    and q: "production_queue c = Some q"
  shows "production_queue c' = Some q"
proof -
  obtain c1 where c1: "(if mode = ModeEvaluation then ensureEvalQueueResolved cfg c else Inr c) = Inr c1"
    using w by (auto simp: with_queue_def bind_result_eq_Inr)
  then have p: "production_queue c1 = Some q"
    using q ensureEvalQueueResolved_production by (auto split: if_splits)
  have e: "cc_isEnabled c1" "map_get (cc_queues c1) Production = Some q"
    using p by (auto simp: production_queue_def split: if_splits)
  have r: "bind_result (queue_of mode c1) (\<lambda>q. case q of None \<Rightarrow> Inr (c1, nothing)
      | Some (ty, queue) \<Rightarrow> (case operation queue of (queue', x) \<Rightarrow>
          Inr (c1\<lparr>cc_queues := map_set ty queue' (cc_queues c1)\<rparr>, x))) = Inr (c', x)"
    using w c1 e(1) by (simp add: with_queue_def)
  then obtain ty where ty: "getQueue mode = Inr ty" by (auto simp: queue_of_def bind_result_eq_Inr)
  then consider "ty = None" | "ty = Some Evaluation" using getQueue_production(2) [OF m] by (cases ty; cases "the ty") auto
  then show ?thesis
  proof cases
    case 1
    then show ?thesis using r ty p by (simp add: queue_of_def)
  next
    case 2
    show ?thesis
    proof (cases "map_get (cc_queues c1) Evaluation")
      case None
      then show ?thesis using r ty p 2 by (simp add: queue_of_def)
    next
      case (Some ev)
      obtain ev' y where "operation ev = (ev', y)" by (cases "operation ev")
      with Some have "c' = c1\<lparr>cc_queues := map_set Evaluation ev' (cc_queues c1)\<rparr>" using r ty 2 by (simp add: queue_of_def)
      then show ?thesis using e by (simp add: production_queue_def map_get_set)
    qed
  qed
qed

lemma with_queue_unlimited:
  "\<not> production_mode mode \<Longrightarrow> mode \<noteq> ModeEvaluation \<Longrightarrow> with_queue cfg mode operation nothing c = Inr (c', x) \<Longrightarrow>
    c' = c \<and> x = nothing"
  by (auto simp: with_queue_def queue_of_def getQueue_def production_mode_def split: if_splits)

lemma new_control_production:
  "new_control cfg = Inr c \<Longrightarrow> \<not> cfg_queueMode cfg \<Longrightarrow> 0 < cfg_productionLimit cfg \<Longrightarrow>
    production_queue c = Some (new_queue (cfg_productionLimit cfg))"
  by (auto simp: new_control_def bind_result_eq_Inr normaliseLimit_def Let_def production_queue_def map_get_set split: if_splits)

text \<open>Throttling the first evaluation switches the service on again after it was disabled.\<close>

lemma evaluation_enables_again:
  assumes "\<not> cfg_queueMode cfg" and "\<not> cc_evalQueueResolved c"
    and "0 < resolveEvaluationConcurrencyLimit (cfg_evaluationLimit cfg) (cfg_license cfg)"
  shows "\<exists>c' es. release cfg ModeEvaluation (disable c) = Inr (c', es) \<and> cc_isEnabled c'"
  using assms
  by (auto simp: release_def with_queue_def ensureEvalQueueResolved_def disable_def Let_def normaliseLimit_def queue_of_def
      getQueue_def map_get_set update_conv' split: prod.splits)

text \<open>After a first use the queue of the evaluations is not made again.\<close>

lemma ensureEvalQueueResolved_resolved:
  "ensureEvalQueueResolved cfg c = Inr c' \<Longrightarrow> cc_evalQueueResolved c'"
  by (auto simp: ensureEvalQueueResolved_def Let_def bind_result_eq_Inr split: if_splits)

lemma ensureEvalQueueResolved_once:
  "ensureEvalQueueResolved cfg c = Inr c' \<Longrightarrow> ensureEvalQueueResolved cfg c' = Inr c'"
  using ensureEvalQueueResolved_resolved [of cfg c c'] by (simp add: ensureEvalQueueResolved_def [of cfg c'])

text \<open>Every second execution of a queue that is emptied is let through.\<close>

fun every_other :: "'a list \<Rightarrow> 'a list" where
  "every_other (x # y # xs) = y # every_other xs"
| "every_other xs = []"

lemma remove_ids_absent: "set is \<inter> set (cq_queue q) = {} \<Longrightarrow> remove_ids is q = (q, [])"
  by (induction "is") (auto simp: remove_queued_def)

lemma remove_ids_all:
  "distinct (cq_queue q) \<Longrightarrow>
    remove_ids (cq_queue q) q =
      (\<lparr>cq_capacity = cq_capacity q + int ((length (cq_queue q) + 1) div 2), cq_queue = []\<rparr>,
       map ExecutionReleased (every_other (cq_queue q)))"
proof (induction "cq_queue q" arbitrary: q rule: every_other.induct)
  case (1 x y xs)
  let ?r = "\<lparr>cq_capacity = cq_capacity q + 1, cq_queue = xs\<rparr>"
  have q: "cq_queue q = x # y # xs" using 1(2) by simp
  have d: "distinct (x # y # xs)" using 1(3) q by simp
  have "remove_queued x q = (?r, [ExecutionReleased y])"
    using q by (simp add: remove_queued_def resolveNext_def concurrency_queue.defs)
  moreover have "remove_queued y ?r = (?r, [])" using d by (simp add: remove_queued_def)
  moreover have "remove_ids xs ?r =
      (\<lparr>cq_capacity = cq_capacity q + 1 + int ((length xs + 1) div 2), cq_queue = []\<rparr>, map ExecutionReleased (every_other xs))"
    using 1(1) [of ?r] d by simp
  ultimately show ?case by (simp add: q)
next
  case "2_1"
  then show ?case by (cases q) simp
next
  case "2_2"
  then obtain x where "cq_queue q = [x]" by metis
  then show ?case by (cases q) (simp add: remove_queued_def resolveNext_def)
qed

text \<open>
  Emptying the queues lets every second of the waiting executions through, although the slots of the running ones
  are not free, and then nothing waits.
\<close>

theorem removeAll_lets_through:
  assumes "cc_isEnabled c" and "list_all (\<lambda>(ty, q). distinct (cq_queue q)) (cc_queues c)"
  shows "released_ids (fst (snd (removeAll ids c))) = concat (map (\<lambda>(ty, q). every_other (cq_queue q)) (cc_queues c)) \<and>
    map (\<lambda>(ty, q). (ty, cq_queue q)) (cc_queues (fst (removeAll ids c))) = map (\<lambda>(ty, q). (ty, [])) (cc_queues c)"
proof -
  have r: "released_ids (es @ fs) = released_ids es @ released_ids fs" for es fs by (induction es rule: released_ids.induct) simp_all
  have m: "released_ids (map ExecutionReleased is) = is" for "is" by (induction "is") simp_all
  have "released_ids (concat (map (\<lambda>(ty, q, es). es) (map (\<lambda>(ty, q). (ty, remove_ids (getAll q) q)) qs))) =
      concat (map (\<lambda>(ty, q). every_other (cq_queue q)) qs) \<and>
    map (\<lambda>(ty, q). (ty, cq_queue q)) (map (\<lambda>(ty, q, es). (ty, q)) (map (\<lambda>(ty, q). (ty, remove_ids (getAll q) q)) qs)) =
      map (\<lambda>(ty, q). (ty, [])) qs"
    if "list_all (\<lambda>(ty, q). distinct (cq_queue q)) qs" for qs :: "(queue_type \<times> concurrency_queue) list"
    using that by (induction qs) (auto simp: remove_ids_all getAll_def r m simp del: map_map)
  from this [OF assms(2)] show ?thesis using assms(1) by (simp add: removeAll_def Let_def del: map_map)
qed

text \<open>For example with two executions that wait for one slot.\<close>

definition waiting_control :: control where
  "waiting_control =
     \<lparr>cc_isEnabled = True, cc_limits = [(Production, 1), (Evaluation, -1)],
      cc_queues = [(Production, \<lparr>cq_capacity = -2, cq_queue = [''B'', ''C'']\<rparr>)], cc_evalQueueResolved = False\<rparr>"

theorem removeAll_lets_through_witness: "released_ids (fst (snd (removeAll [] waiting_control))) = [''C'']"
  using removeAll_lets_through [of waiting_control "[]"] by (simp add: waiting_control_def)

end
