(* ===== verification/ActiveExecutions.thy ===== *)
theory ActiveExecutions
  imports ConcurrencyControl WorkflowTypes
begin

section \<open>Active executions\<close>

text \<open>
  \<^verbatim>\<open>packages/cli/src/active-executions.ts\<close>: the executions of the process, each with a reservation of capacity that is
  given back once, when its promise has settled or it could not be added. \<^verbatim>\<open>add\<close> is cut where it awaits: up to the
  call of \<^verbatim>\<open>throttle\<close>, the moment capacity is granted, and the update of the database, whose outcome is an argument.
  The executions are kept in a heap, so that a resumed execution can replace an entry while the promise of the old one
  has not been handled. The abstraction to the slots of the queue of production shows that no slot is lost or given
  back twice. Data, response promises, streaming and the waiting loop of the shutdown are left out.
\<close>

subsection \<open>The state\<close>

datatype deferred = Unsettled | Resolved | Rejected

record active_execution =
  ae_id :: string
  ae_mode :: WorkflowExecuteMode
  ae_status :: ExecutionStatus
  ae_postExecutePromise :: deferred
  ae_hasWorkflowExecution :: bool
  ae_reservation :: reservation
  ae_handled :: bool

text \<open>
  An execution that is being added waits in the queue, was taken out of it for good, or has what it needs.
\<close>

datatype add_phase = Queued | Abandoned | Granted

record pending_add =
  pa_id :: string
  pa_mode :: WorkflowExecuteMode
  pa_phase :: add_phase
  pa_reservation :: reservation

record active_state =
  as_control :: control
  as_pending :: "pending_add list"
  as_objects :: "active_execution list"
  as_active :: "(string, nat) jsmap"
  as_responseModes :: "(string, string) jsmap"

definition initial_state :: "control \<Rightarrow> active_state" where
  "initial_state c = \<lparr>as_control = c, as_pending = [], as_objects = [], as_active = [], as_responseModes = []\<rparr>"

subsection \<open>Adding an execution\<close>

text \<open>The promise of the first waiting call for an execution is resolved, or never will be.\<close>

fun change_queued :: "(pending_add \<Rightarrow> pending_add) \<Rightarrow> string \<Rightarrow> pending_add list \<Rightarrow> pending_add list" where
  "change_queued f i [] = []"
| "change_queued f i (p # ps) = (if pa_phase p = Queued \<and> pa_id p = i then f p # ps else p # change_queued f i ps)"

definition grant :: "pending_add \<Rightarrow> pending_add" where
  "grant p = p\<lparr>pa_phase := Granted, pa_reservation := reserve_end (pa_mode p) (pa_id p)\<rparr>"

definition abandon :: "pending_add \<Rightarrow> pending_add" where
  "abandon p = p\<lparr>pa_phase := Abandoned\<rparr>"

definition grant_all :: "queue_event list \<Rightarrow> pending_add list \<Rightarrow> pending_add list" where
  "grant_all es ps = foldl (\<lambda>ps i. change_queued grant i ps) ps (released_ids es)"

definition add_begin :: "control_config \<Rightarrow> string \<Rightarrow> WorkflowExecuteMode \<Rightarrow> active_state \<Rightarrow> active_state result" where
  "add_begin cfg executionId mode s =
     (if mode = ModeEvaluation
      then Inr (s\<lparr>as_pending := as_pending s @ [\<lparr>pa_id = executionId, pa_mode = mode, pa_phase = Granted, pa_reservation = None\<rparr>]\<rparr>)
      else bind_result (reserve_begin cfg mode executionId None (as_control s)) (\<lambda>(c, es, ok).
        Inr (s\<lparr>as_control := c,
          as_pending := as_pending s @
            [\<lparr>pa_id = executionId, pa_mode = mode, pa_phase = (if ok then Granted else Queued),
              pa_reservation = (if ok then reserve_end mode executionId else None)\<rparr>]\<rparr>)))"

definition register :: "pending_add \<Rightarrow> active_state \<Rightarrow> active_state" where
  "register p s =
     s\<lparr>as_objects := as_objects s @
         [\<lparr>ae_id = pa_id p, ae_mode = pa_mode p, ae_status = Running, ae_postExecutePromise = Unsettled,
           ae_hasWorkflowExecution = False, ae_reservation = pa_reservation p, ae_handled = False\<rparr>],
       as_active := map_set (pa_id p) (length (as_objects s)) (as_active s)\<rparr>"

text \<open>\<^verbatim>\<open>release\<close> lets the next execution of the queue go on.\<close>

definition release_capacity :: "control_config \<Rightarrow> reservation \<Rightarrow> active_state \<Rightarrow> active_state result" where
  "release_capacity cfg r s =
     bind_result (reservation_release cfg r (as_control s)) (\<lambda>(c, es, _).
       Inr (s\<lparr>as_control := c, as_pending := grant_all es (as_pending s)\<rparr>))"

definition remove_nth :: "nat \<Rightarrow> 'a list \<Rightarrow> 'a list" where
  "remove_nth k xs = take k xs @ drop (Suc k) xs"

definition add_end :: "control_config \<Rightarrow> nat \<Rightarrow> bool \<Rightarrow> active_state \<Rightarrow> active_state result" where
  \<comment> \<open>the database was updated, or an error is thrown after the reservation has been released\<close>
  "add_end cfg k ok s =
     (let p = as_pending s ! k; s1 = s\<lparr>as_pending := remove_nth k (as_pending s)\<rparr> in
      if ok then Inr (register p s1) else release_capacity cfg (pa_reservation p) s1)"

subsection \<open>Ending an execution\<close>

definition has_execution :: "string \<Rightarrow> active_state \<Rightarrow> bool" where
  "has_execution executionId s \<longleftrightarrow> map_get (as_active s) executionId \<noteq> None"

definition change_object :: "nat \<Rightarrow> (active_execution \<Rightarrow> active_execution) \<Rightarrow> active_state \<Rightarrow> active_state" where
  "change_object r f s = s\<lparr>as_objects := (as_objects s)[r := f (as_objects s ! r)]\<rparr>"

definition settle :: "deferred \<Rightarrow> active_execution \<Rightarrow> active_execution" where
  \<comment> \<open>a promise settles once\<close>
  "settle d x = (if ae_postExecutePromise x = Unsettled then x\<lparr>ae_postExecutePromise := d\<rparr> else x)"

definition forget :: "string \<Rightarrow> active_state \<Rightarrow> active_state" where
  "forget executionId s =
     s\<lparr>as_active := map_delete executionId (as_active s), as_responseModes := map_delete executionId (as_responseModes s)\<rparr>"

definition finalizeExecution :: "string \<Rightarrow> active_state \<Rightarrow> active_state" where
  "finalizeExecution executionId s =
     (case map_get (as_active s) executionId of None \<Rightarrow> s | Some r \<Rightarrow> change_object r (settle Resolved) s)"

definition stopExecution :: "string \<Rightarrow> active_state \<Rightarrow> active_state" where
  "stopExecution executionId s =
     (case map_get (as_active s) executionId of
        None \<Rightarrow> s
      | Some r \<Rightarrow>
          if ae_status (as_objects s ! r) = Waiting then forget executionId s
          else change_object r (settle Rejected) s)"

text \<open>What is attached to the promise of an execution, run once after it has settled.\<close>

definition promise_settled :: "control_config \<Rightarrow> nat \<Rightarrow> active_state \<Rightarrow> active_state result" where
  "promise_settled cfg r s =
     (let x = as_objects s ! r in
      bind_result (release_capacity cfg (ae_reservation x) (change_object r (\<lambda>x. x\<lparr>ae_reservation := None, ae_handled := True\<rparr>) s))
        (\<lambda>s. Inr (if ae_status x = Waiting
                  then change_object r (\<lambda>x. x\<lparr>ae_hasWorkflowExecution := False\<rparr>) s
                  else forget (ae_id x) s)))"

definition getExecutionOrFail :: "string \<Rightarrow> active_state \<Rightarrow> nat result" where
  "getExecutionOrFail executionId s =
     (case map_get (as_active s) executionId of
        None \<Rightarrow> Inl (UnexpectedError ''No active execution found'') | Some r \<Rightarrow> Inr r)"

definition setStatus :: "string \<Rightarrow> ExecutionStatus \<Rightarrow> active_state \<Rightarrow> active_state result" where
  "setStatus executionId status s =
     bind_result (getExecutionOrFail executionId s) (\<lambda>r. Inr (change_object r (\<lambda>x. x\<lparr>ae_status := status\<rparr>) s))"

definition getStatus :: "string \<Rightarrow> active_state \<Rightarrow> ExecutionStatus result" where
  "getStatus executionId s =
     bind_result (getExecutionOrFail executionId s) (\<lambda>r. Inr (ae_status (as_objects s ! r)))"

definition attachWorkflowExecution :: "string \<Rightarrow> active_state \<Rightarrow> active_state result" where
  "attachWorkflowExecution executionId s =
     bind_result (getExecutionOrFail executionId s) (\<lambda>r. Inr (change_object r (\<lambda>x. x\<lparr>ae_hasWorkflowExecution := True\<rparr>) s))"

definition setResponseMode :: "string \<Rightarrow> string \<Rightarrow> active_state \<Rightarrow> active_state" where
  "setResponseMode executionId m s = s\<lparr>as_responseModes := map_set executionId m (as_responseModes s)\<rparr>"

text \<open>
  An execution that waits is taken out of its queue when it is stopped or deleted (\<^verbatim>\<open>stopInRegularMode\<close> and \<^verbatim>\<open>deleteOne\<close>
  of \<^verbatim>\<open>packages/cli/src/executions/execution.service.ts\<close>); the promise of its \<^verbatim>\<open>add\<close> never settles.
\<close>

definition take_out :: "control_config \<Rightarrow> WorkflowExecuteMode \<Rightarrow> string \<Rightarrow> active_state \<Rightarrow> active_state result" where
  "take_out cfg mode executionId s =
     bind_result (remove_execution cfg mode executionId (as_control s)) (\<lambda>(c, es).
       Inr (s\<lparr>as_control := c,
         as_pending := (if production_mode mode
                        then grant_all es (change_queued abandon executionId (as_pending s)) else as_pending s)\<rparr>))"

definition stopInRegularMode :: "control_config \<Rightarrow> WorkflowExecuteMode \<Rightarrow> string \<Rightarrow> active_state \<Rightarrow> active_state result" where
  \<comment> \<open>without the executions that wait for a time and the database\<close>
  "stopInRegularMode cfg mode executionId s =
     (if control_has executionId (as_control s) then take_out cfg mode executionId s
      else Inr (if has_execution executionId s then stopExecution executionId s else s))"

subsection \<open>Shutting down\<close>

fun shutdown_loop :: "bool \<Rightarrow> string list \<Rightarrow> active_state \<Rightarrow> string list \<Rightarrow> active_state \<times> string list" where
  "shutdown_loop cancel [] s toCancel = (s, toCancel)"
| "shutdown_loop cancel (i # is) s toCancel =
     (case map_get (as_active s) i of
        None \<Rightarrow> shutdown_loop cancel is s toCancel
      | Some r \<Rightarrow>
          if cancel then shutdown_loop cancel is (stopExecution i s) (toCancel @ [i])
          else if ae_status (as_objects s ! r) = Waiting \<or> ae_status (as_objects s ! r) = New
          then shutdown_loop cancel is (s\<lparr>as_active := map_delete i (as_active s)\<rparr>) toCancel
          else shutdown_loop cancel is s toCancel)"

text \<open>Up to the loop that waits; also the executions that are cancelled in the database.\<close>

definition shutdown :: "control_config \<Rightarrow> bool \<Rightarrow> active_state \<Rightarrow> active_state \<times> string list" where
  "shutdown cfg cancelAll s =
     (let regular = \<not> cfg_queueMode cfg;
          s1 = (if regular then s\<lparr>as_control := disable (as_control s)\<rparr> else s) in
      case shutdown_loop (regular \<and> cancelAll) (map_keys (as_active s1)) s1 [] of
        (s2, toCancel) \<Rightarrow>
          (case removeAll toCancel (as_control s2) of (c, es, cancelled) \<Rightarrow> (s2\<lparr>as_control := c\<rparr>, cancelled)))"

subsection \<open>No slot is lost\<close>

definition slot_of :: "reservation \<Rightarrow> nat" where
  "slot_of r = (case r of Some (mode, _) \<Rightarrow> if production_mode mode then 1 else 0 | None \<Rightarrow> 0)"

definition held_by :: "pending_add list \<Rightarrow> nat" where
  "held_by ps = sum_list (map (slot_of \<circ> pa_reservation) ps)"

definition slots_held :: "active_state \<Rightarrow> nat" where
  "slots_held s = held_by (as_pending s) + sum_list (map (slot_of \<circ> ae_reservation) (as_objects s))"

definition queued_ids :: "pending_add list \<Rightarrow> string list" where
  "queued_ids ps = map pa_id (filter (\<lambda>p. pa_phase p = Queued) ps)"

definition reservation_ok :: "reservation \<Rightarrow> bool" where
  "reservation_ok r \<longleftrightarrow> (case r of Some (mode, _) \<Rightarrow> mode \<noteq> ModeEvaluation | None \<Rightarrow> True)"

definition pending_ok :: "pending_add \<Rightarrow> bool" where
  "pending_ok p \<longleftrightarrow> (pa_phase p = Queued \<longrightarrow> production_mode (pa_mode p) \<and> pa_reservation p = None) \<and> reservation_ok (pa_reservation p)"

text \<open>
  The queue of production holds the executions that are queued, in order, and its slots are those that are held.
\<close>

definition active_inv :: "int \<Rightarrow> nat \<Rightarrow> active_state \<Rightarrow> bool" where
  "active_inv limit w s \<longleftrightarrow>
     (\<exists>q. production_queue (as_control s) = Some q \<and> slot_inv limit w q (slots_held s) \<and>
       cq_queue q = queued_ids (as_pending s)) \<and>
     list_all pending_ok (as_pending s) \<and> list_all (reservation_ok \<circ> ae_reservation) (as_objects s)"

lemma queued_ids_simps [simp]:
  "queued_ids [] = []"
  "queued_ids (p # ps) = (if pa_phase p = Queued then pa_id p # queued_ids ps else queued_ids ps)"
  "queued_ids (ps @ qs) = queued_ids ps @ queued_ids qs"
  by (simp_all add: queued_ids_def)

lemma held_by_simps [simp]:
  "held_by [] = 0" "held_by (p # ps) = slot_of (pa_reservation p) + held_by ps" "held_by (ps @ qs) = held_by ps + held_by qs"
  by (simp_all add: held_by_def)

lemma held_simps [simp]: "slot_of None = 0" "production_mode m \<Longrightarrow> slot_of (reserve_end m i) = 1" "\<not> production_mode m \<Longrightarrow> slot_of (reserve_end m i) = 0"
  by (simp_all add: slot_of_def reserve_end_def)

lemma production_not_evaluation: "production_mode m \<Longrightarrow> m \<noteq> ModeEvaluation"
  by (auto simp: production_mode_def)

lemma grant_queued:
  "queued_ids ps = i # is \<Longrightarrow> list_all pending_ok ps \<Longrightarrow>
    queued_ids (change_queued grant i ps) = is \<and> held_by (change_queued grant i ps) = Suc (held_by ps) \<and>
    list_all pending_ok (change_queued grant i ps)"
  by (induction ps)
    (auto simp: grant_def pending_ok_def reservation_ok_def reserve_end_def slot_of_def dest: production_not_evaluation split: if_splits)

lemma abandon_queued:
  "list_all pending_ok ps \<Longrightarrow>
    queued_ids (change_queued abandon i ps) = remove1 i (queued_ids ps) \<and> held_by (change_queued abandon i ps) = held_by ps \<and>
    list_all pending_ok (change_queued abandon i ps)"
  by (induction ps) (auto simp: abandon_def pending_ok_def)

lemma grant_next:
  assumes "resolveNext q = (q', es)" and "cq_queue q = queued_ids ps" and "list_all pending_ok ps"
  shows "cq_queue q' = queued_ids (grant_all es ps) \<and> held_by (grant_all es ps) = held_by ps + length (released_ids es) \<and>
    list_all pending_ok (grant_all es ps)"
proof (cases "cq_queue q")
  case Nil
  then show ?thesis using assms by (auto simp: resolveNext_def grant_all_def)
next
  case (Cons i "is")
  then show ?thesis using assms grant_queued [of ps i "is"] by (auto simp: resolveNext_def grant_all_def)
qed

text \<open>Giving a reservation back, for a state whose slots are those held without it.\<close>

lemma release_capacity_inv:
  assumes r: "release_capacity cfg r s = Inr t" and ok: "reservation_ok r"
    and q: "production_queue (as_control s) = Some q" "slot_inv limit w q (slots_held s + slot_of r)"
    and p: "cq_queue q = queued_ids (as_pending s)" "list_all pending_ok (as_pending s)"
      "list_all (reservation_ok \<circ> ae_reservation) (as_objects s)"
  shows "active_inv limit w t \<and> as_objects t = as_objects s"
proof (cases "slot_of r")
  case 0
  have "reservation_release cfg r (as_control s) = Inr (as_control s, [], None)"
    if "reservation_release cfg r (as_control s) = Inr (c, es, x)" for c es x
    using that 0 ok with_queue_unlimited [of _ cfg dequeue "[]" "as_control s"]
    by (fastforce simp: reservation_release_def reservation_ok_def slot_of_def release_def bind_result_eq_Inr
        split: option.splits prod.splits if_splits)
  then have "t = s" using r by (auto simp: release_capacity_def bind_result_eq_Inr grant_all_def)
  then show ?thesis using 0 q p by (auto simp: active_inv_def)
next
  case (Suc n)
  then obtain m i where m: "r = Some (m, i)" "production_mode m" and n: "slot_of r = 1"
    by (auto simp: slot_of_def split: option.splits if_splits)
  obtain q' es where d: "dequeue q = (q', es)" by (cases "dequeue q")
  obtain c where c: "with_queue cfg m dequeue [] (as_control s) = Inr (c, es)" "production_queue c = Some q'"
    using with_queue_production [where operation = dequeue, OF m(2) q(1) d] by blast
  have t: "t = s\<lparr>as_control := c, as_pending := grant_all es (as_pending s)\<rparr>"
    using r c(1) m(1) by (simp add: release_capacity_def reservation_release_def release_def)
  have g: "cq_queue q' = queued_ids (grant_all es (as_pending s))"
    "held_by (grant_all es (as_pending s)) = held_by (as_pending s) + length (released_ids es)"
    "list_all pending_ok (grant_all es (as_pending s))"
    using grant_next [of "q\<lparr>cq_capacity := cq_capacity q + 1\<rparr>" q' es "as_pending s"] d p by (simp_all add: dequeue_def)
  have "slot_inv limit w q' (slots_held s + length (released_ids es))"
    using slot_inv_dequeue [OF d, of limit w "slots_held s"] q(2) n by simp
  then show ?thesis using t c(2) g p(3) by (auto simp: active_inv_def slots_held_def ac_simps)
qed

lemma active_invI:
  "production_queue (as_control t) = Some q \<Longrightarrow> slot_inv limit w q (slots_held t) \<Longrightarrow>
    cq_queue q = queued_ids (as_pending t) \<Longrightarrow> list_all pending_ok (as_pending t) \<Longrightarrow>
    list_all (reservation_ok \<circ> ae_reservation) (as_objects t) \<Longrightarrow> active_inv limit w t"
  by (auto simp: active_inv_def)

lemma add_begin_inv:
  assumes b: "add_begin cfg i m s = Inr t" and inv: "active_inv limit w s"
  shows "active_inv limit w t"
proof -
  obtain q where q: "production_queue (as_control s) = Some q" "slot_inv limit w q (slots_held s)"
    "cq_queue q = queued_ids (as_pending s)" and o: "list_all pending_ok (as_pending s)"
    "list_all (reservation_ok \<circ> ae_reservation) (as_objects s)"
    using inv by (auto simp: active_inv_def)
  consider "m = ModeEvaluation" | "production_mode m" | "m \<noteq> ModeEvaluation" "\<not> production_mode m" by blast
  then show ?thesis
  proof cases
    case 1
    then show ?thesis using b q o
      by (auto simp: add_begin_def slots_held_def pending_ok_def reservation_ok_def intro!: active_invI [of _ q])
  next
    case 2
    obtain q' es ok where e: "enqueue_execution i q = (q', es, ok)" by (cases "enqueue_execution i q")
    obtain c where c: "throttle cfg m i (as_control s) = Inr (c, es, ok)" "production_queue c = Some q'"
      using with_queue_production [where operation = "enqueue_execution i", OF 2 q(1) e, of cfg "([], True)"]
      unfolding throttle_def by blast
    have k: "cq_queue q' = (if ok then cq_queue q else cq_queue q @ [i])"
      using e by (auto simp: enqueue_execution_def Let_def split: if_splits)
    show ?thesis
      using b c 2 q o k slot_inv_enqueue [OF e q(2)] production_not_evaluation [OF 2]
      by (cases ok)
        (auto simp: add_begin_def reserve_begin_def slots_held_def pending_ok_def reservation_ok_def reserve_end_def slot_of_def
          intro!: active_invI [of _ q'])
  next
    case 3
    then obtain c es ok where c: "throttle cfg m i (as_control s) = Inr (c, es, ok)"
      "t = s\<lparr>as_control := c, as_pending := as_pending s @
        [\<lparr>pa_id = i, pa_mode = m, pa_phase = (if ok then Granted else Queued),
          pa_reservation = (if ok then reserve_end m i else None)\<rparr>]\<rparr>"
      using b by (auto simp: add_begin_def reserve_begin_def bind_result_eq_Inr)
    then have "c = as_control s" "ok"
      using with_queue_unlimited [OF 3(2,1) c(1) [unfolded throttle_def]] by simp_all
    then show ?thesis using 3 c(2) q o
      by (auto simp: slots_held_def pending_ok_def reservation_ok_def reserve_end_def slot_of_def intro!: active_invI [of _ q])
  qed
qed

lemma remove_nth_split:
  assumes "k < length xs"
  shows "\<exists>ys zs. xs = ys @ xs ! k # zs \<and> remove_nth k xs = ys @ zs"
  using id_take_nth_drop [OF assms] by (auto simp: remove_nth_def)

lemma add_end_inv:
  assumes e: "add_end cfg k ok s = Inr t" and inv: "active_inv limit w s"
    and k: "k < length (as_pending s)" "pa_phase (as_pending s ! k) = Granted"
  shows "active_inv limit w t"
proof -
  let ?p = "as_pending s ! k"
  define s1 where "s1 = s\<lparr>as_pending := remove_nth k (as_pending s)\<rparr>"
  obtain ys zs where p: "as_pending s = ys @ ?p # zs" "remove_nth k (as_pending s) = ys @ zs"
    using remove_nth_split [OF k(1)] by blast
  obtain q where q: "production_queue (as_control s) = Some q" "slot_inv limit w q (slots_held s)"
    "cq_queue q = queued_ids (as_pending s)" and o: "list_all pending_ok (as_pending s)"
    "list_all (reservation_ok \<circ> ae_reservation) (as_objects s)"
    using inv by (auto simp: active_inv_def)
  have h: "slots_held s = slots_held s1 + slot_of (pa_reservation ?p)" and u: "queued_ids (as_pending s1) = queued_ids (as_pending s)"
    using arg_cong [OF p(1), of held_by] arg_cong [OF p(1), of queued_ids] p(2) k(2) by (simp_all add: s1_def slots_held_def)
  have o1: "list_all pending_ok (as_pending s1)" "pending_ok ?p"
    using o(1) k(1) p by (auto simp: s1_def list_all_iff) (metis Un_iff in_set_conv_decomp list.set_intros(2) set_append)+
  show ?thesis
  proof (cases ok)
    case True
    then have t: "t = register ?p s1" using e by (simp add: add_end_def s1_def)
    have "slots_held t = slots_held s" unfolding h t by (simp add: register_def slots_held_def)
    then show ?thesis using t q o u o1
      by (intro active_invI [of _ q]) (auto simp: register_def s1_def pending_ok_def)
  next
    case False
    then have "release_capacity cfg (pa_reservation ?p) s1 = Inr t" using e by (simp add: add_end_def s1_def Let_def)
    from release_capacity_inv [OF this _ _ _ _ o1(1)] show ?thesis
      using q o h u o1(2) by (auto simp: s1_def pending_ok_def)
  qed
qed

lemma sum_list_update: "r < length xs \<Longrightarrow> sum_list (map f (xs[r := x])) + f (xs ! r) = sum_list (map f xs) + f x" for f :: "_ \<Rightarrow> nat"
  by (induction xs arbitrary: r) (auto split: nat.splits simp: nth_Cons')

text \<open>What changes neither reservations nor the queue.\<close>

lemma active_inv_keeps:
  assumes "active_inv limit w s" and "as_control t = as_control s" and "as_pending t = as_pending s"
    and "map ae_reservation (as_objects t) = map ae_reservation (as_objects s)"
  shows "active_inv limit w t"
proof -
  have "map (slot_of \<circ> ae_reservation) (as_objects t) = map (slot_of \<circ> ae_reservation) (as_objects s)"
    using arg_cong [OF assms(4), of "map slot_of"] by simp
  moreover have "list_all reservation_ok (map ae_reservation (as_objects t)) = list_all reservation_ok (map ae_reservation (as_objects s))"
    using assms(4) by simp
  ultimately show ?thesis using assms(1-3) by (simp add: active_inv_def slots_held_def list.pred_map)
qed

lemma change_object_keeps:
  assumes "\<And>x. ae_reservation (f x) = ae_reservation x"
  shows "as_control (change_object r f s) = as_control s" "as_pending (change_object r f s) = as_pending s"
    "map ae_reservation (as_objects (change_object r f s)) = map ae_reservation (as_objects s)"
proof -
  show "map ae_reservation (as_objects (change_object r f s)) = map ae_reservation (as_objects s)"
    using assms by (cases "r < length (as_objects s)") (simp_all add: change_object_def map_update list_update_same_conv list_update_beyond)
qed (simp_all add: change_object_def)

lemma settle_keeps: "ae_reservation (settle d x) = ae_reservation x"
  by (simp add: settle_def)

lemma forget_keeps:
  "as_control (forget i s) = as_control s" "as_pending (forget i s) = as_pending s" "as_objects (forget i s) = as_objects s"
  by (simp_all add: forget_def)

lemma finalize_inv: "active_inv limit w s \<Longrightarrow> active_inv limit w (finalizeExecution i s)"
  by (erule active_inv_keeps) (auto simp: finalizeExecution_def change_object_keeps settle_keeps split: option.splits)

lemma stop_inv: "active_inv limit w s \<Longrightarrow> active_inv limit w (stopExecution i s)"
  by (erule active_inv_keeps)
    (auto simp: stopExecution_def change_object_keeps settle_keeps forget_keeps split: option.splits)

lemma setStatus_inv: "setStatus i st s = Inr t \<Longrightarrow> active_inv limit w s \<Longrightarrow> active_inv limit w t"
  by (erule active_inv_keeps) (auto simp: setStatus_def bind_result_eq_Inr change_object_keeps)

lemma attach_inv: "attachWorkflowExecution i s = Inr t \<Longrightarrow> active_inv limit w s \<Longrightarrow> active_inv limit w t"
  by (erule active_inv_keeps) (auto simp: attachWorkflowExecution_def bind_result_eq_Inr change_object_keeps)

lemma responseMode_inv: "active_inv limit w s \<Longrightarrow> active_inv limit w (setResponseMode i m s)"
  by (erule active_inv_keeps) (simp_all add: setResponseMode_def)

lemma promise_settled_inv:
  assumes e: "promise_settled cfg r s = Inr t" and inv: "active_inv limit w s" and r: "r < length (as_objects s)"
  shows "active_inv limit w t"
proof -
  let ?x = "as_objects s ! r"
  define s1 where "s1 = change_object r (\<lambda>x. x\<lparr>ae_reservation := None, ae_handled := True\<rparr>) s"
  obtain q where q: "production_queue (as_control s) = Some q" "slot_inv limit w q (slots_held s)"
    "cq_queue q = queued_ids (as_pending s)" and o: "list_all pending_ok (as_pending s)"
    "list_all (reservation_ok \<circ> ae_reservation) (as_objects s)"
    using inv by (auto simp: active_inv_def)
  have h: "slots_held s1 + slot_of (ae_reservation ?x) = slots_held s"
    using sum_list_update [OF r, of "slot_of \<circ> ae_reservation" "?x\<lparr>ae_reservation := None, ae_handled := True\<rparr>"]
    by (simp add: s1_def slots_held_def change_object_def)
  have x: "reservation_ok (ae_reservation ?x)" using o(2) r by (auto simp: list_all_length)
  have o1: "list_all (reservation_ok \<circ> ae_reservation) (as_objects s1)"
    using o(2) r by (auto simp: s1_def change_object_def list_all_length nth_list_update reservation_ok_def)
  obtain u where u: "release_capacity cfg (ae_reservation ?x) s1 = Inr u"
    and t: "t = (if ae_status ?x = Waiting then change_object r (\<lambda>x. x\<lparr>ae_hasWorkflowExecution := False\<rparr>) u
      else forget (ae_id ?x) u)"
    using e by (auto simp: promise_settled_def Let_def bind_result_eq_Inr s1_def)
  have "active_inv limit w u"
    using release_capacity_inv [OF u x, of q limit w] q o o1 h by (simp add: s1_def change_object_def)
  then show ?thesis unfolding t
    by (rule active_inv_keeps) (simp_all add: change_object_keeps forget_keeps)
qed

lemma slot_inv_mono: "slot_inv limit w q n \<Longrightarrow> slot_inv limit (Suc w) q n"
  by (auto simp: slot_inv_def)

lemma take_out_inv:
  assumes e: "take_out cfg m i s = Inr t" and inv: "active_inv limit w s"
  shows "active_inv limit (Suc w) t"
proof -
  obtain q where q: "production_queue (as_control s) = Some q" "slot_inv limit w q (slots_held s)"
    "cq_queue q = queued_ids (as_pending s)" and o: "list_all pending_ok (as_pending s)"
    "list_all (reservation_ok \<circ> ae_reservation) (as_objects s)"
    using inv by (auto simp: active_inv_def)
  obtain c es where c: "remove_execution cfg m i (as_control s) = Inr (c, es)"
    and t: "t = s\<lparr>as_control := c, as_pending :=
      (if production_mode m then grant_all es (change_queued abandon i (as_pending s)) else as_pending s)\<rparr>"
    using e by (auto simp: take_out_def bind_result_eq_Inr)
  show ?thesis
  proof (cases "production_mode m")
    case False
    then have "production_queue c = Some q"
      using with_queue_other [OF c [unfolded remove_execution_def] _ q(1)] by blast
    then show ?thesis using t False q o
      by (intro active_invI [of _ q]) (auto simp: slots_held_def intro: slot_inv_mono)
  next
    case True
    let ?ps = "change_queued abandon i (as_pending s)"
    obtain q' es' where d: "remove_queued i q = (q', es')" by (cases "remove_queued i q")
    then have c': "production_queue c = Some q'" "es' = es"
      using with_queue_production [where operation = "remove_queued i", OF True q(1) d, of cfg "[]"] c
      by (auto simp: remove_execution_def)
    have a: "queued_ids ?ps = remove1 i (cq_queue q)" "held_by ?ps = held_by (as_pending s)" "list_all pending_ok ?ps"
      using abandon_queued [OF o(1), of i] q(3) by simp_all
    have g: "cq_queue q' = queued_ids (grant_all es ?ps) \<and> held_by (grant_all es ?ps) = held_by ?ps + length (released_ids es) \<and>
      list_all pending_ok (grant_all es ?ps)"
    proof (cases "i \<in> set (cq_queue q)")
      case True
      then have "resolveNext (q\<lparr>cq_queue := remove1 i (cq_queue q), cq_capacity := cq_capacity q + 1\<rparr>) = (q', es)"
        using d c' by (simp add: remove_queued_def)
      from grant_next [OF this _ a(3)] show ?thesis using a(1) by simp
    next
      case False
      then show ?thesis using d c' a by (auto simp: remove_queued_def grant_all_def remove1_idem)
    qed
    have "slot_inv limit (Suc w) q' (slots_held t)"
      using slot_inv_remove [OF d q(2)] g a(2) True c'(2) unfolding t by (simp add: slots_held_def ac_simps)
    then show ?thesis using c'(1) g o(2) True unfolding t by (intro active_invI [of _ q']) auto
  qed
qed

subsection \<open>Any sequence of operations\<close>

inductive active_step :: "control_config \<Rightarrow> active_state \<Rightarrow> active_state \<Rightarrow> bool" for cfg where
  begin_add: "add_begin cfg i m s = Inr t \<Longrightarrow> active_step cfg s t"
| end_add: "k < length (as_pending s) \<Longrightarrow> pa_phase (as_pending s ! k) = Granted \<Longrightarrow> add_end cfg k ok s = Inr t \<Longrightarrow>
    active_step cfg s t"
| finalised: "active_step cfg s (finalizeExecution i s)"
| stopped: "active_step cfg s (stopExecution i s)"
| handled: "r < length (as_objects s) \<Longrightarrow> ae_postExecutePromise (as_objects s ! r) \<noteq> Unsettled \<Longrightarrow>
    \<not> ae_handled (as_objects s ! r) \<Longrightarrow> promise_settled cfg r s = Inr t \<Longrightarrow> active_step cfg s t"
| status_set: "setStatus i st s = Inr t \<Longrightarrow> active_step cfg s t"
| attached: "attachWorkflowExecution i s = Inr t \<Longrightarrow> active_step cfg s t"
| mode_set: "active_step cfg s (setResponseMode i rm s)"

inductive active_run :: "control_config \<Rightarrow> nat \<Rightarrow> active_state \<Rightarrow> bool" for cfg where
  started: "new_control cfg = Inr c \<Longrightarrow> active_run cfg 0 (initial_state c)"
| stepped: "active_run cfg w s \<Longrightarrow> active_step cfg s t \<Longrightarrow> active_run cfg w t"
| taken_out: "active_run cfg w s \<Longrightarrow> take_out cfg m i s = Inr t \<Longrightarrow> active_run cfg (Suc w) t"

lemma active_step_inv: "active_step cfg s t \<Longrightarrow> active_inv limit w s \<Longrightarrow> active_inv limit w t"
  by (induction rule: active_step.induct)
    (blast intro: add_begin_inv add_end_inv finalize_inv stop_inv promise_settled_inv setStatus_inv attach_inv responseMode_inv)+

lemma active_run_inv:
  assumes "active_run cfg w s" and "\<not> cfg_queueMode cfg" and "0 < cfg_productionLimit cfg"
  shows "active_inv (cfg_productionLimit cfg) w s"
  using assms(1)
proof (induction rule: active_run.induct)
  case (started c)
  have "production_queue c = Some (new_queue (cfg_productionLimit cfg))"
    by (rule new_control_production [OF started assms(2,3)])
  then show ?case
    using slot_inv_new [of "cfg_productionLimit cfg"] assms(3)
    by (intro active_invI [of _ "new_queue (cfg_productionLimit cfg)"])
      (simp_all add: initial_state_def slots_held_def new_queue_def)
qed (blast intro: active_step_inv take_out_inv)+

text \<open>
  C14. Whatever is added, finished, stopped and resumed in whatever order, the queue of production has as many free
  slots as its limit less the reservations held and the executions that wait, so that none is lost or given back
  twice; it holds the waiting executions in order, one that waits means no free slot, and no more reservations than
  the limit are held, but one for every execution taken out of the queue.
\<close>

theorem reservations_balanced:
  assumes "active_run cfg w s" and "\<not> cfg_queueMode cfg" and "0 < cfg_productionLimit cfg"
  shows "\<exists>q. production_queue (as_control s) = Some q \<and>
    cq_capacity q = cfg_productionLimit cfg - int (slots_held s) - int (length (cq_queue q)) \<and>
    cq_queue q = queued_ids (as_pending s) \<and>
    (cq_queue q = [] \<or> cfg_productionLimit cfg \<le> int (slots_held s)) \<and>
    int (slots_held s) \<le> cfg_productionLimit cfg + int w"
  using active_run_inv [OF assms] by (auto simp: active_inv_def slot_inv_def)

text \<open>With a limit of one and the second of three executions taken out of the queue, two reservations are held.\<close>

definition example_config :: control_config where
  "example_config =
     \<lparr>cfg_queueMode = False, cfg_productionLimit = 1, cfg_evaluationLimit = -1,
      cfg_license = \<lparr>el_env_set = False, el_quota = None, el_planName = ''Community''\<rparr>\<rparr>"

definition example_state :: "active_state result" where
  "example_state =
     bind_result (new_control example_config) (\<lambda>c.
     bind_result (add_begin example_config ''A'' ModeWebhook (initial_state c)) (\<lambda>s.
     bind_result (add_begin example_config ''B'' ModeTrigger s) (\<lambda>s.
     bind_result (add_begin example_config ''C'' ModeChat s) (\<lambda>s.
     bind_result (add_end example_config 0 True s) (\<lambda>s.
       take_out example_config ModeTrigger ''B'' s)))))"

lemma example_granted:
  "case example_state of Inl e \<Rightarrow> False
   | Inr s \<Rightarrow> slots_held s = 2 \<and> map pa_phase (as_pending s) = [Abandoned, Granted] \<and> map fst (as_active s) = [''A'']"
  by code_simp

lemma example_first_granted:
  "add_begin example_config ''A'' ModeWebhook (initial_state c) = Inr s1 \<Longrightarrow> new_control example_config = Inr c \<Longrightarrow>
    pa_phase (hd (as_pending s1)) = Granted \<and> length (as_pending s1) = 1"
  by (auto simp: new_control_def example_config_def normaliseLimit_def add_begin_def reserve_begin_def throttle_def
      with_queue_def queue_of_def getQueue_def enqueue_execution_def new_queue_def initial_state_def Let_def)

lemma add_begin_pending: "add_begin cfg i m s = Inr t \<Longrightarrow> \<exists>p. as_pending t = as_pending s @ [p]"
  by (auto simp: add_begin_def bind_result_eq_Inr split: if_splits)

lemma example_run: "example_state = Inr s \<Longrightarrow> active_run example_config 1 s"
proof -
  assume "example_state = Inr s"
  then obtain c s1 s2 s3 s4 where n: "new_control example_config = Inr c"
    and a: "add_begin example_config ''A'' ModeWebhook (initial_state c) = Inr s1"
      "add_begin example_config ''B'' ModeTrigger s1 = Inr s2" "add_begin example_config ''C'' ModeChat s2 = Inr s3"
    and e: "add_end example_config 0 True s3 = Inr s4" and t: "take_out example_config ModeTrigger ''B'' s4 = Inr s"
    by (auto simp: example_state_def bind_result_eq_Inr)
  have "active_run example_config 0 s3"
    using n a by (blast intro: active_run.started active_run.stepped active_step.begin_add)
  moreover have "0 < length (as_pending s3)" "pa_phase (as_pending s3 ! 0) = Granted"
    using example_first_granted [OF a(1) n] add_begin_pending [OF a(2)] add_begin_pending [OF a(3)]
    by (cases "as_pending s1"; auto)+
  ultimately have "active_run example_config 0 s4" using e by (blast intro: active_run.stepped active_step.end_add)
  then show ?thesis using active_run.taken_out [OF _ t] by simp
qed

theorem reservations_balanced_witness:
  "\<exists>s q. example_state = Inr s \<and> production_queue (as_control s) = Some q \<and>
    cq_capacity q = cfg_productionLimit example_config - int (slots_held s) - int (length (cq_queue q))"
proof -
  obtain s where s: "example_state = Inr s" using example_granted by (auto split: sum.splits)
  have "\<not> cfg_queueMode example_config" "0 < cfg_productionLimit example_config" by (simp_all add: example_config_def)
  from reservations_balanced [OF example_run [OF s] this] s show ?thesis by blast
qed

subsection \<open>Shutting down\<close>

lemma shutdown_loop_control: "as_control (fst (shutdown_loop cancel is s toCancel)) = as_control s"
  by (induction cancel "is" s toCancel rule: shutdown_loop.induct)
    (auto simp: stopExecution_def change_object_keeps settle_keeps forget_keeps split: option.splits)

lemma shutdown_loop_cancels: "\<not> cancel \<Longrightarrow> snd (shutdown_loop cancel is s toCancel) = toCancel"
  by (induction cancel "is" s toCancel rule: shutdown_loop.induct) (auto split: option.splits)

text \<open>
  Shutting down cancels no execution in the database and empties no queue: with a queue the service has been
  disabled before it is asked to, and without one nothing is collected.
\<close>

theorem shutdown_cancels_nothing:
  "snd (shutdown cfg cancelAll s) = [] \<and>
   (cfg_queueMode cfg \<or> cc_queues (as_control (fst (shutdown cfg cancelAll s))) = cc_queues (as_control s))"
proof (cases "cfg_queueMode cfg")
  case True
  then show ?thesis
    using shutdown_loop_cancels [of False "map_keys (as_active s)" s "[]"]
    by (cases "shutdown_loop False (map_keys (as_active s)) s []") (auto simp: shutdown_def removeAll_def Let_def split: prod.splits)
next
  case False
  let ?s = "s\<lparr>as_control := disable (as_control s)\<rparr>"
  obtain s2 ids where l: "shutdown_loop cancelAll (map_keys (as_active s)) ?s [] = (s2, ids)" by fastforce
  then have "as_control s2 = disable (as_control s)"
    using shutdown_loop_control [of cancelAll "map_keys (as_active s)" ?s "[]"] by simp
  then show ?thesis using False l by (simp add: shutdown_def disabled_removes_nothing) (simp add: disable_def)
qed

end
