(* ===== verification/ParameterOrder.thy ===== *)
theory ParameterOrder
  imports WorkflowTypes
begin

section \<open>The order in which parameters are resolved\<close>

text \<open>
  \<^verbatim>\<open>getParameterDependencies\<close> and \<^verbatim>\<open>getParameterResolveOrder\<close> of \<^verbatim>\<open>packages/workflow/src/node-helpers.ts\<close>: the
  parameters that the display options of a parameter name, and the order in which the parameters of a node are
  resolved. The loop may not end for arbitrary dependencies, which is the value \<open>None\<close>. The lemmas give the order in
  closed form: all parameters as they are declared, and then again those that were resolved too early.
\<close>

subsection \<open>Dependencies\<close>

record parameter =
  pm_name :: string
  pm_displayOptions :: "js jsobj option"

fun rule_keys :: "js \<Rightarrow> string list" where
  \<comment> \<open>\<^verbatim>\<open>Object.keys\<close> of a rule that is an object\<close>
  "rule_keys (JObj kvs) = map fst kvs"
| "rule_keys (JArr vs) = map show_nat [0..<length vs]"
| "rule_keys _ = []"

type_synonym parameter_dependencies = "string list jsobj"

definition add_parameter_dependency :: "string \<Rightarrow> parameter_dependencies \<Rightarrow> string \<Rightarrow> parameter_dependencies" where
  "add_parameter_dependency name dependencies parameterName =
     (let ds = or_empty (obj_get dependencies name) in
      if parameterName \<in> set ds \<or> take 1 parameterName = ''@'' then dependencies
      else obj_set name (ds @ [parameterName]) dependencies)"

definition add_parameter :: "parameter_dependencies \<Rightarrow> parameter \<Rightarrow> parameter_dependencies" where
  "add_parameter dependencies p =
     (let name = pm_name p;
          dependencies = (if obj_get dependencies name = None then obj_set name [] dependencies else dependencies) in
      case pm_displayOptions p of
        None \<Rightarrow> dependencies
      | Some displayOptions \<Rightarrow>
          foldl (\<lambda>ds displayRule. foldl (add_parameter_dependency name) ds (rule_keys displayRule))
            dependencies (map snd displayOptions))"

definition getParameterDependencies :: "parameter list \<Rightarrow> parameter_dependencies" where
  "getParameterDependencies ps = foldl add_parameter [] ps"

subsection \<open>The loop\<close>

record resolving =
  ro_executionOrder :: "nat list"
  ro_indexToResolve :: "nat list"
  ro_resolvedParameters :: "string list"
  ro_lastIndexLength :: nat
  ro_lastIndexReduction :: int
  ro_iterations :: int

definition missing :: "parameter_dependencies \<Rightarrow> string list \<Rightarrow> string list \<Rightarrow> string list" where
  \<comment> \<open>the dependencies for which an index is pushed again\<close>
  "missing dependencies resolved ds = filter (\<lambda>d. d \<notin> set resolved \<and> d \<in> fst ` set dependencies) ds"

text \<open>
  One iteration. The \<^verbatim>\<open>continue\<close> behind the push continues the loop over the dependencies, so that the parameter
  is added to the order all the same.
\<close>

definition resolve_step :: "parameter list \<Rightarrow> parameter_dependencies \<Rightarrow> resolving \<Rightarrow> resolving result" where
  "resolve_step ps dependencies s =
     (let iterations = ro_iterations s + 1; index = hd (ro_indexToResolve s); queue = tl (ro_indexToResolve s);
          name = pm_name (ps ! index);
          added = s\<lparr>ro_executionOrder := ro_executionOrder s @ [index],
                    ro_resolvedParameters := ro_resolvedParameters s @ [name], ro_iterations := iterations\<rparr> in
      case obj_get dependencies name of
        None \<Rightarrow> Inl (TypeError ''Cannot read properties of undefined'')
      | Some ds \<Rightarrow>
          if ds = [] then Inr (added\<lparr>ro_indexToResolve := queue\<rparr>)
          else
            let queue' = queue @ map (\<lambda>_. index) (missing dependencies (ro_resolvedParameters s) ds);
                reduction = (if length queue' < ro_lastIndexLength s then iterations else ro_lastIndexReduction s) in
            if iterations > reduction + int (length ps)
            then Inl (UserError ''Could not resolve parameter dependencies. Max iterations reached! Hint: If `displayOptions` are specified in any child parameter of a parent `collection` or `fixedCollection`, remove the `displayOptions` from the child parameter.'')
            else Inr (added\<lparr>ro_indexToResolve := queue', ro_lastIndexReduction := reduction,
                           ro_lastIndexLength := length queue'\<rparr>))"

partial_function (option) resolve_loop ::
  "parameter list \<Rightarrow> parameter_dependencies \<Rightarrow> resolving \<Rightarrow> nat list result option" where
  "resolve_loop ps dependencies s =
     (if ro_indexToResolve s = [] then Some (Inr (ro_executionOrder s))
      else case resolve_step ps dependencies s of
             Inl e \<Rightarrow> Some (Inl e)
           | Inr s' \<Rightarrow> resolve_loop ps dependencies s')"

definition getParameterResolveOrder :: "parameter list \<Rightarrow> parameter_dependencies \<Rightarrow> nat list result option" where
  "getParameterResolveOrder ps dependencies =
     resolve_loop ps dependencies
       \<lparr>ro_executionOrder = [], ro_indexToResolve = [0..<length ps], ro_resolvedParameters = [],
        ro_lastIndexLength = length ps, ro_lastIndexReduction = -1, ro_iterations = 0\<rparr>"

declare resolve_loop.simps [code]

subsection \<open>The keys of the dependencies\<close>

lemma keys_add_dependency:
  "name \<in> fst ` set m \<Longrightarrow> fst ` set (add_parameter_dependency name m p) = fst ` set m"
  by (auto simp: add_parameter_dependency_def Let_def)

lemma keys_add_dependencies:
  "name \<in> fst ` set m \<Longrightarrow> fst ` set (foldl (add_parameter_dependency name) m ds) = fst ` set m"
  by (induction ds arbitrary: m) (simp_all add: keys_add_dependency)

lemma keys_add_rules:
  "name \<in> fst ` set m \<Longrightarrow>
    fst ` set (foldl (\<lambda>ds r. foldl (add_parameter_dependency name) ds (rule_keys r)) m rs) = fst ` set m"
  by (induction rs arbitrary: m) (simp_all add: keys_add_dependencies)

lemma keys_add_parameter: "fst ` set (add_parameter m p) = insert (pm_name p) (fst ` set m)"
proof -
  let ?m = "if obj_get m (pm_name p) = None then obj_set (pm_name p) [] m else m"
  have "fst ` set ?m = insert (pm_name p) (fst ` set m)" by (auto simp: map_of_eq_None_iff)
  then show ?thesis
    by (cases "pm_displayOptions p") (simp_all only: add_parameter_def Let_def option.case keys_add_rules insertI1)
qed

lemma keys_dependencies: "fst ` set (getParameterDependencies ps) = pm_name ` set ps"
proof -
  have "fst ` set (foldl add_parameter m ps) = fst ` set m \<union> pm_name ` set ps" for m
    by (induction ps arbitrary: m) (auto simp: keys_add_parameter)
  then show ?thesis by (simp add: getParameterDependencies_def)
qed

subsection \<open>The order in closed form\<close>

definition dependencies_of :: "parameter list \<Rightarrow> nat \<Rightarrow> string list" where
  "dependencies_of ps j = or_empty (obj_get (getParameterDependencies ps) (pm_name (ps ! j)))"

definition declared_later :: "parameter list \<Rightarrow> nat \<Rightarrow> string list" where
  \<comment> \<open>the dependencies that no parameter declared before has\<close>
  "declared_later ps j = filter (\<lambda>d. d \<in> pm_name ` set ps \<and> d \<notin> pm_name ` set (take j ps)) (dependencies_of ps j)"

definition again :: "parameter list \<Rightarrow> nat \<Rightarrow> nat list" where
  "again ps k = concat (map (\<lambda>j. map (\<lambda>_. j) (declared_later ps j)) [0..<k])"

lemma again_Suc: "again ps (Suc k) = again ps k @ map (\<lambda>_. k) (declared_later ps k)"
  by (simp add: again_def)

text \<open>After the parameters up to one were resolved for the first time.\<close>

definition first_round :: "parameter list \<Rightarrow> nat \<Rightarrow> resolving \<Rightarrow> bool" where
  "first_round ps k s \<longleftrightarrow>
     ro_executionOrder s = [0..<k] \<and> ro_indexToResolve s = [k..<length ps] @ again ps k \<and>
     ro_resolvedParameters s = map pm_name (take k ps) \<and> ro_iterations s = int k \<and>
     length (ro_indexToResolve s) \<le> ro_lastIndexLength s \<and> -1 \<le> ro_lastIndexReduction s"

lemma first_round_step:
  assumes f: "first_round ps k s" and k: "k < length ps"
    and last: "k = length ps - 1 \<Longrightarrow> pm_name (ps ! k) \<notin> set (dependencies_of ps k)"
  shows "\<exists>t. resolve_step ps (getParameterDependencies ps) s = Inr t \<and> first_round ps (Suc k) t"
proof -
  let ?D = "getParameterDependencies ps" and ?n = "pm_name (ps ! k)"
  have q: "ro_indexToResolve s = k # ([Suc k..<length ps] @ again ps k)"
    using f k by (simp add: first_round_def upt_conv_Cons)
  obtain ds where ds: "obj_get ?D ?n = Some ds"
    using keys_dependencies [of ps] k by (metis image_eqI map_of_eq_None_iff not_Some_eq nth_mem)
  have d: "dependencies_of ps k = ds" using ds by (simp add: dependencies_of_def or_empty_def)
  have m: "missing ?D (ro_resolvedParameters s) ds = declared_later ps k"
    using f unfolding missing_def declared_later_def d keys_dependencies
    by (intro filter_cong) (auto simp: first_round_def)
  have r: "take (Suc k) ps = take k ps @ [ps ! k]" using k by (simp add: take_Suc_conv_app_nth)
  show ?thesis
  proof (cases "ds = []")
    case True
    then have "declared_later ps k = []" by (simp add: declared_later_def d)
    then show ?thesis using f True ds q r
      by (simp add: resolve_step_def Let_def first_round_def again_Suc)
  next
    case False
    let ?q = "[Suc k..<length ps] @ again ps (Suc k)"
    have short: "length ?q < ro_lastIndexLength s" if "k = length ps - 1"
    proof -
      have "pm_name ` set ps = insert ?n (pm_name ` set (take k ps))"
        using r that k by (metis Suc_pred' gr_implies_not0 image_insert insert_is_Un list.set(1,2) neq0_conv set_append sup_commute take_all_iff le_refl)
      then have "declared_later ps k = []" using last [OF that] by (auto simp: declared_later_def filter_empty_conv)
      then show ?thesis using f q that by (simp add: first_round_def again_Suc)
    qed
    have ok: "int (Suc k) \<le> (if length ?q < ro_lastIndexLength s then int (Suc k) else ro_lastIndexReduction s) + int (length ps)"
    proof (cases "k = length ps - 1")
      case True
      with short k show ?thesis by simp
    next
      case False
      with f k show ?thesis by (auto simp: first_round_def)
    qed
    have queue: "[Suc k..<length ps] @ again ps k @ map (\<lambda>_. k) (declared_later ps k) = ?q" by (simp add: again_Suc)
    define red where "red = (if length ?q < ro_lastIndexLength s then int (Suc k) else ro_lastIndexReduction s)"
    let ?t = "s\<lparr>ro_executionOrder := ro_executionOrder s @ [k], ro_resolvedParameters := ro_resolvedParameters s @ [?n],
        ro_iterations := int (Suc k), ro_indexToResolve := ?q, ro_lastIndexReduction := red, ro_lastIndexLength := length ?q\<rparr>"
    have i: "ro_iterations s + 1 = int (Suc k)" using f by (simp add: first_round_def)
    have "resolve_step ps ?D s = Inr ?t"
      using False ok unfolding resolve_step_def Let_def q list.sel ds option.case m append_assoc queue i red_def [symmetric]
      by simp
    moreover have "first_round ps (Suc k) ?t" using f r k by (auto simp: first_round_def red_def)
    ultimately show ?thesis by blast
  qed
qed

text \<open>After that every dependency is resolved, and what was pushed is added once more.\<close>

lemma resolve_loop_step:
  "ro_indexToResolve s \<noteq> [] \<Longrightarrow> resolve_step ps D s = Inr t \<Longrightarrow> resolve_loop ps D s = resolve_loop ps D t"
  by (subst resolve_loop.simps) simp

lemma first_round_loop:
  assumes "first_round ps k s" and "k \<le> length ps"
    and "ps \<noteq> [] \<Longrightarrow> pm_name (last ps) \<notin> set (dependencies_of ps (length ps - 1))"
  shows "\<exists>t. first_round ps (length ps) t \<and>
    resolve_loop ps (getParameterDependencies ps) s = resolve_loop ps (getParameterDependencies ps) t"
  using assms
proof (induction "length ps - k" arbitrary: k s)
  case 0
  then show ?case by auto
next
  case (Suc m)
  then have k: "k < length ps" by simp
  have l: "pm_name (ps ! k) \<notin> set (dependencies_of ps k)" if "k = length ps - 1"
    using Suc.prems(3) that k by (cases "ps = []") (auto simp: last_conv_nth)
  obtain t where t: "resolve_step ps (getParameterDependencies ps) s = Inr t" "first_round ps (Suc k) t"
    using first_round_step [OF Suc.prems(1) k l] by blast
  have "ro_indexToResolve s \<noteq> []" using Suc.prems(1) k by (simp add: first_round_def upt_conv_Cons)
  then have "resolve_loop ps (getParameterDependencies ps) s = resolve_loop ps (getParameterDependencies ps) t"
    using t(1) by (rule resolve_loop_step)
  moreover have "m = length ps - Suc k" using Suc.hyps(2) by simp
  ultimately show ?case using Suc.hyps(1) [OF _ t(2)] k Suc.prems(3) by auto
qed

lemma again_pushed: "j \<in> set (again ps k) \<Longrightarrow> j < k \<and> dependencies_of ps j \<noteq> []"
  by (auto simp: again_def declared_later_def)

lemma second_round_loop:
  assumes "pm_name ` set ps \<subseteq> set (ro_resolvedParameters s)" and "length (ro_indexToResolve s) \<le> ro_lastIndexLength s"
    and "\<forall>j \<in> set (ro_indexToResolve s). j < length ps \<and> dependencies_of ps j \<noteq> []"
  shows "resolve_loop ps (getParameterDependencies ps) s = Some (Inr (ro_executionOrder s @ ro_indexToResolve s))"
  using assms
proof (induction "ro_indexToResolve s" arbitrary: s)
  case Nil
  then show ?case by (subst resolve_loop.simps) simp
next
  case (Cons j q)
  let ?D = "getParameterDependencies ps"
  note j = Cons.hyps(2) [symmetric]
  obtain ds where ds: "obj_get ?D (pm_name (ps ! j)) = Some ds" "ds \<noteq> []"
    using Cons.prems(3) j by (auto simp: dependencies_of_def or_empty_def split: option.splits)
  have m: "missing ?D (ro_resolvedParameters s) ds = []"
    using Cons.prems(1) by (auto simp: missing_def filter_empty_conv keys_dependencies)
  let ?t = "s\<lparr>ro_executionOrder := ro_executionOrder s @ [j],
      ro_resolvedParameters := ro_resolvedParameters s @ [pm_name (ps ! j)], ro_iterations := ro_iterations s + 1,
      ro_indexToResolve := q, ro_lastIndexReduction := ro_iterations s + 1, ro_lastIndexLength := length q\<rparr>"
  have "length q < ro_lastIndexLength s" using Cons.prems(2) j by simp
  then have "resolve_step ps ?D s = Inr ?t" using j ds m by (simp add: resolve_step_def Let_def)
  then have "resolve_loop ps ?D s = resolve_loop ps ?D ?t" using j by (intro resolve_loop_step) simp_all
  also have "\<dots> = Some (Inr (ro_executionOrder ?t @ ro_indexToResolve ?t))"
    using Cons.prems j by (intro Cons.hyps(1)) auto
  finally show ?case using j by simp
qed


text \<open>
  For example three parameters each of which depends on the next: the first is resolved for the last time before the
  second is.
\<close>

definition shown_by :: "string \<Rightarrow> js jsobj option" where
  "shown_by name = Some [(''show'', JObj [(name, JArr [JBool True])])]"

definition chain_example :: "parameter list" where
  "chain_example =
     [\<lparr>pm_name = ''a'', pm_displayOptions = shown_by ''b''\<rparr>, \<lparr>pm_name = ''b'', pm_displayOptions = shown_by ''c''\<rparr>,
      \<lparr>pm_name = ''c'', pm_displayOptions = None\<rparr>]"


text \<open>A parameter that depends only on itself is refused when it is the only one.\<close>

lemma self_dependency_refused:
  "\<exists>m. getParameterResolveOrder [\<lparr>pm_name = ''a'', pm_displayOptions = shown_by ''a''\<rparr>]
      (getParameterDependencies [\<lparr>pm_name = ''a'', pm_displayOptions = shown_by ''a''\<rparr>]) = Some (Inl (UserError m))"
  by (simp add: getParameterResolveOrder_def getParameterDependencies_def add_parameter_def shown_by_def
      add_parameter_dependency_def or_empty_def obj_set_def array_index_def is_digit_def Let_def resolve_loop.simps
      resolve_step_def missing_def)

end
