(* ===== verification/FromAI.thy ===== *)
theory FromAI
  imports WorkflowTypes JsStrings
begin

section \<open>Calls of fromAI in parameters\<close>

text \<open>
  \<^verbatim>\<open>packages/workflow/src/from-ai-parse-utils.ts\<close>, the first half: the calls of \<^verbatim>\<open>$fromAI\<close> in a text are found
  with a regular expression, their arguments cut out with the quotes and parentheses in mind, and split at the
  commas. The regular expressions are written out as functions. What \<^verbatim>\<open>Number\<close> and
  \<^verbatim>\<open>JSON.parse\<close> make of a default value are the parameters \<open>js_Number\<close> and \<open>json_parse\<close>. The lemmas show that a call
  written with quoted and escaped arguments is read back.
\<close>

definition is_quote :: "char \<Rightarrow> bool" where
  "is_quote c \<longleftrightarrow> c \<in> {CHR 0x22, CHR 0x27, CHR 0x60}"

definition slice_inner :: "string \<Rightarrow> string" where
  \<comment> \<open>\<^verbatim>\<open>s.slice(1, -1)\<close>\<close>
  "slice_inner s = butlast (tl s)"

subsection \<open>The arguments of a call\<close>

datatype FromAIArgumentType = AIString | AINumber | AIBoolean | AIJson

record FromAIArgument =
  fa_key :: string
  fa_description :: "string option"
  fa_type :: FromAIArgumentType
  fa_defaultValue :: js

datatype parse_error = ParseError string

definition argument_type :: "string \<Rightarrow> FromAIArgumentType option" where
  \<comment> \<open>\<^verbatim>\<open>isFromAIArgumentType\<close> and the narrowing it allows\<close>
  "argument_type value =
     (let v = map js_lower value in
      if v = ''string'' then Some AIString else if v = ''number'' then Some AINumber
      else if v = ''boolean'' then Some AIBoolean else if v = ''json'' then Some AIJson else None)"

definition parseDefaultValue ::
  "(string \<Rightarrow> js_number) \<Rightarrow> (string \<Rightarrow> js option) \<Rightarrow> string option \<Rightarrow> FromAIArgumentType \<Rightarrow> js" where
  "parseDefaultValue js_Number json_parse value type =
     (case value of
        None \<Rightarrow> JUndefined
      | Some v \<Rightarrow>
          let lowerValue = map js_lower v in
          if type = AIString then JStr v
          else if type = AIBoolean \<and> (lowerValue = ''true'' \<or> lowerValue = ''false'') then JBool (lowerValue = ''true'')
          else if type = AINumber \<and> js_Number v \<noteq> NaN then JNum (js_Number v)
          else (case json_parse v of Some j \<Rightarrow> j | None \<Rightarrow> JStr v))"

text \<open>
  The loop over the characters; \<open>None\<close> for the quote is \<^verbatim>\<open>inQuotes = false\<close>. The last argument is pushed after it.
\<close>

fun split_args :: "string list \<Rightarrow> string \<Rightarrow> char option \<Rightarrow> bool \<Rightarrow> string \<Rightarrow> string list" where
  "split_args args currentArg quoteChar escapeNext [] =
     (if currentArg \<noteq> [] then args @ [trim currentArg] else args)"
| "split_args args currentArg quoteChar escapeNext (c # cs) =
     (if escapeNext then split_args args (currentArg @ [c]) quoteChar False cs
      else if c = backslash then split_args args currentArg quoteChar True cs
      else if is_quote c
      then (case quoteChar of
              None \<Rightarrow> split_args args (currentArg @ [c]) (Some c) False cs
            | Some q \<Rightarrow> split_args args (currentArg @ [c]) (if c = q then None else Some q) False cs)
      else if c = CHR '','' \<and> quoteChar = None then split_args (args @ [trim currentArg]) [] quoteChar False cs
      else split_args args (currentArg @ [c]) quoteChar False cs)"

fun replace_escaped :: "char \<Rightarrow> string \<Rightarrow> string" where
  \<comment> \<open>\<^verbatim>\<open>s.replace(/\\q/g, q)\<close>\<close>
  "replace_escaped q (a # b # s) =
     (if a = backslash \<and> b = q then q # replace_escaped q s else a # replace_escaped q (b # s))"
| "replace_escaped q s = s"

definition enclosed :: "char \<Rightarrow> string \<Rightarrow> bool" where
  \<comment> \<open>\<^verbatim>\<open>s.startsWith(q) && s.endsWith(q)\<close>\<close>
  "enclosed q s \<longleftrightarrow> s \<noteq> [] \<and> hd s = q \<and> last s = q"

definition clean_arg :: "string \<Rightarrow> string" where
  "clean_arg arg =
     (let trimmed = trim arg in
      if enclosed (CHR 0x27) trimmed \<or> enclosed (CHR 0x60) trimmed \<or> enclosed (CHR 0x22) trimmed
      then replace_escaped backslash (replace_escaped (CHR 0x22) (replace_escaped (CHR 0x60)
             (replace_escaped (CHR 0x27) (slice_inner trimmed))))
      else trimmed)"

definition arg_at :: "string list \<Rightarrow> nat \<Rightarrow> string option" where
  "arg_at args i = (if i < length args then Some (args ! i) else None)"

definition build_argument ::
  "(string \<Rightarrow> js_number) \<Rightarrow> (string \<Rightarrow> js option) \<Rightarrow> string list \<Rightarrow> parse_error + FromAIArgument" where
  "build_argument js_Number json_parse cleanArgs =
     (let rawType = (case arg_at cleanArgs 2 of None \<Rightarrow> ''string'' | Some t \<Rightarrow> t) in
      case argument_type rawType of
        None \<Rightarrow> Inl (ParseError (''Invalid type: '' @ rawType))
      | Some type \<Rightarrow>
          Inr \<lparr>fa_key = (case arg_at cleanArgs 0 of None \<Rightarrow> [] | Some k \<Rightarrow> k),
               fa_description = arg_at cleanArgs 1, fa_type = type,
               fa_defaultValue = parseDefaultValue js_Number json_parse (arg_at cleanArgs 3) type\<rparr>)"

definition parseArguments ::
  "(string \<Rightarrow> js_number) \<Rightarrow> (string \<Rightarrow> js option) \<Rightarrow> string \<Rightarrow> parse_error + FromAIArgument" where
  "parseArguments js_Number json_parse argsString =
     build_argument js_Number json_parse (map clean_arg (split_args [] [] None False argsString))"

subsection \<open>The calls in a text\<close>

definition match_call :: "string \<Rightarrow> string option" where
  \<comment> \<open>\<^verbatim>\<open>/\$fromAI\s*\(\s*/i\<close> at the beginning of the text; what follows the match\<close>
  "match_call s =
     (if map js_lower (take 7 s) = ''$fromai''
      then (case dropWhile is_space (drop 7 s) of
              [] \<Rightarrow> None
            | c # r \<Rightarrow> if c = CHR ''('' then Some (dropWhile is_space r) else None)
      else None)"

fun find_call :: "string \<Rightarrow> string option" where
  \<comment> \<open>\<^verbatim>\<open>pattern.exec\<close>: what follows the first match\<close>
  "find_call [] = None"
| "find_call (c # s) = (case match_call (c # s) of Some r \<Rightarrow> Some r | None \<Rightarrow> find_call s)"

fun call_args :: "char option \<Rightarrow> nat \<Rightarrow> string \<Rightarrow> string \<Rightarrow> string option" where
  \<comment> \<open>the loop that cuts out the arguments; \<open>None\<close> if the parentheses are not balanced\<close>
  "call_args quoteChar parenthesesCount argsString [] = (if parenthesesCount = 0 then Some argsString else None)"
| "call_args quoteChar parenthesesCount argsString (c # cs) =
     (if parenthesesCount = 0 then Some argsString
      else case quoteChar of
        Some q \<Rightarrow>
          if c = backslash \<and> cs \<noteq> [] then call_args quoteChar parenthesesCount (argsString @ [c, hd cs]) (tl cs)
          else call_args (if c = q then None else quoteChar) parenthesesCount (argsString @ [c]) cs
      | None \<Rightarrow>
          if is_quote c then call_args (Some c) parenthesesCount (argsString @ [c]) cs
          else if c = CHR ''('' then call_args None (parenthesesCount + 1) (argsString @ [c]) cs
          else if c = CHR '')''
          then call_args None (parenthesesCount - 1) (if parenthesesCount - 1 > 0 then argsString @ [c] else argsString) cs
          else call_args None parenthesesCount (argsString @ [c]) cs)"

lemma match_call_shorter: "match_call s = Some r \<Longrightarrow> length r < length s"
proof -
  assume m: "match_call s = Some r"
  then obtain c t where t: "dropWhile is_space (drop 7 s) = c # t" "r = dropWhile is_space t"
    by (auto simp: match_call_def split: if_splits list.splits)
  have "length r \<le> length t" "length (c # t) \<le> length s"
    unfolding t(2) t(1) [symmetric] by (rule length_dropWhile_le, rule order.trans [OF length_dropWhile_le]) simp
  then show ?thesis by simp
qed

lemma find_call_shorter: "find_call s = Some r \<Longrightarrow> length r < length s"
  by (induction s) (auto dest: match_call_shorter split: option.splits)

function extract_calls ::
  "(string \<Rightarrow> js_number) \<Rightarrow> (string \<Rightarrow> js option) \<Rightarrow> FromAIArgument list \<Rightarrow> string \<Rightarrow> parse_error + FromAIArgument list" where
  "extract_calls js_Number json_parse args str =
     (case find_call str of
        None \<Rightarrow> Inr args
      | Some rest \<Rightarrow>
          (case call_args None 1 [] rest of
             None \<Rightarrow> Inl (ParseError (''Unbalanced parentheses while parsing $fromAI call: '' @ rest))
           | Some argsString \<Rightarrow>
               (case parseArguments js_Number json_parse argsString of
                  Inl (ParseError m) \<Rightarrow>
                    Inl (ParseError (''Failed to parse $fromAI arguments: '' @ argsString @ '': Error: '' @ m))
                | Inr parsedArgs \<Rightarrow> extract_calls js_Number json_parse (args @ [parsedArgs]) rest)))"
  by pat_completeness auto
termination by (relation "measure (\<lambda>(n, j, args, str). length str)") (auto simp: find_call_shorter)

declare extract_calls.simps [simp del]

definition extractFromAICalls ::
  "(string \<Rightarrow> js_number) \<Rightarrow> (string \<Rightarrow> js option) \<Rightarrow> string \<Rightarrow> parse_error + FromAIArgument list" where
  "extractFromAICalls js_Number json_parse str = extract_calls js_Number json_parse [] str"

subsection \<open>Parameters of nodes\<close>

text \<open>
  The traversals push into an array and a map of the caller; when a call cannot be parsed they throw, here without
  the calls collected up to then. A name that is \<^verbatim>\<open>undefined\<close> is \<open>None\<close>, also as a key of the map.
\<close>

fun traverseNodeParameters ::
  "(string \<Rightarrow> js_number) \<Rightarrow> (string \<Rightarrow> js option) \<Rightarrow> js \<Rightarrow> FromAIArgument list \<Rightarrow> parse_error + FromAIArgument list"
  and traverse_items ::
  "(string \<Rightarrow> js_number) \<Rightarrow> (string \<Rightarrow> js option) \<Rightarrow> js list \<Rightarrow> FromAIArgument list \<Rightarrow> parse_error + FromAIArgument list"
  and traverse_members ::
  "(string \<Rightarrow> js_number) \<Rightarrow> (string \<Rightarrow> js option) \<Rightarrow> (string \<times> js) list \<Rightarrow> FromAIArgument list \<Rightarrow>
    parse_error + FromAIArgument list" where
  "traverseNodeParameters n j (JStr s) collected =
     (case extractFromAICalls n j s of Inl e \<Rightarrow> Inl e | Inr calls \<Rightarrow> Inr (collected @ calls))"
| "traverseNodeParameters n j (JArr vs) collected = traverse_items n j vs collected"
| "traverseNodeParameters n j (JObj kvs) collected = traverse_members n j kvs collected"
| "traverseNodeParameters n j v collected = Inr collected"
| "traverse_items n j [] collected = Inr collected"
| "traverse_items n j (v # vs) collected =
     (case traverseNodeParameters n j v collected of Inl e \<Rightarrow> Inl e | Inr c \<Rightarrow> traverse_items n j vs c)"
| "traverse_members n j [] collected = Inr collected"
| "traverse_members n j ((k, v) # kvs) collected =
     (case traverseNodeParameters n j v collected of Inl e \<Rightarrow> Inl e | Inr c \<Rightarrow> traverse_members n j kvs c)"

definition item_name :: "string option \<Rightarrow> nat \<Rightarrow> string" where
  \<comment> \<open>\<^verbatim>\<open>name + `[${index}]`\<close>\<close>
  "item_name name i = (case name of None \<Rightarrow> ''undefined'' | Some s \<Rightarrow> s) @ ''['' @ show_nat i @ '']''"

definition member_name :: "string option \<Rightarrow> string \<Rightarrow> string" where
  \<comment> \<open>\<^verbatim>\<open>name ? name + '.' + key : key\<close>\<close>
  "member_name name key = (case name of None \<Rightarrow> key | Some s \<Rightarrow> if s = [] then key else s @ ''.'' @ key)"

type_synonym named_calls = "(string option, FromAIArgument) jsmap"

fun traverseNodeParametersWithParamNames ::
  "(string \<Rightarrow> js_number) \<Rightarrow> (string \<Rightarrow> js option) \<Rightarrow> string option \<Rightarrow> js \<Rightarrow> named_calls \<Rightarrow> parse_error + named_calls"
  and named_items ::
  "(string \<Rightarrow> js_number) \<Rightarrow> (string \<Rightarrow> js option) \<Rightarrow> string option \<Rightarrow> nat \<Rightarrow> js list \<Rightarrow> named_calls \<Rightarrow> parse_error + named_calls"
  and named_members ::
  "(string \<Rightarrow> js_number) \<Rightarrow> (string \<Rightarrow> js option) \<Rightarrow> string option \<Rightarrow> (string \<times> js) list \<Rightarrow> named_calls \<Rightarrow>
    parse_error + named_calls" where
  "traverseNodeParametersWithParamNames n j name (JStr s) collected =
     (case extractFromAICalls n j s of
        Inl e \<Rightarrow> Inl e | Inr calls \<Rightarrow> Inr (foldl (\<lambda>m call. map_set name call m) collected calls))"
| "traverseNodeParametersWithParamNames n j name (JArr vs) collected = named_items n j name 0 vs collected"
| "traverseNodeParametersWithParamNames n j name (JObj kvs) collected = named_members n j name kvs collected"
| "traverseNodeParametersWithParamNames n j name v collected = Inr collected"
| "named_items n j name i [] collected = Inr collected"
| "named_items n j name i (v # vs) collected =
     (case traverseNodeParametersWithParamNames n j (Some (item_name name i)) v collected of
        Inl e \<Rightarrow> Inl e | Inr c \<Rightarrow> named_items n j name (Suc i) vs c)"
| "named_members n j name [] collected = Inr collected"
| "named_members n j name ((k, v) # kvs) collected =
     (case traverseNodeParametersWithParamNames n j (Some (member_name name k)) v collected of
        Inl e \<Rightarrow> Inl e | Inr c \<Rightarrow> named_members n j name kvs c)"

subsection \<open>Written arguments are read back\<close>

text \<open>Arguments in quotes, with backslashes and quotes escaped, separated by a comma and a space.\<close>

definition escape_arg :: "string \<Rightarrow> string" where
  "escape_arg s = concat (map (\<lambda>c. if c = backslash \<or> is_quote c then [backslash, c] else [c]) s)"

definition quoted_arg :: "char \<Rightarrow> string \<Rightarrow> string" where
  "quoted_arg q s = q # escape_arg s @ [q]"

fun args_text :: "(char \<times> string) list \<Rightarrow> string" where
  "args_text [] = []"
| "args_text [(q, s)] = quoted_arg q s"
| "args_text ((q, s) # a # as) = quoted_arg q s @ '', '' @ args_text (a # as)"

text \<open>The contents that are not unescaped a second time.\<close>

definition plain_content :: "string \<Rightarrow> bool" where
  "plain_content s \<longleftrightarrow>
     \<not> sublist [backslash, CHR 0x27] s \<and> \<not> sublist [backslash, CHR 0x60] s \<and>
     \<not> sublist [backslash, CHR 0x22] s \<and> \<not> sublist [backslash, backslash] s"

definition writable :: "(char \<times> string) list \<Rightarrow> bool" where
  "writable qs \<longleftrightarrow> qs \<noteq> [] \<and> list_all (\<lambda>(q, s). is_quote q \<and> plain_content s) qs"

lemma is_quote_facts:
  "is_quote q \<Longrightarrow> q \<noteq> backslash" "is_quote q \<Longrightarrow> \<not> is_space q" "is_quote q \<Longrightarrow> q \<noteq> CHR '',''"
  "is_quote q \<Longrightarrow> q \<noteq> CHR ''(''" "is_quote q \<Longrightarrow> q \<noteq> CHR '')''"
  by (auto simp: is_quote_def is_space_def)

lemma escape_arg_simps [simp]:
  "escape_arg [] = []"
  "escape_arg (c # s) = (if c = backslash \<or> is_quote c then [backslash, c] else [c]) @ escape_arg s"
  by (simp_all add: escape_arg_def)

lemma split_body:
  "is_quote q \<Longrightarrow>
    split_args args cur (Some q) False (escape_arg s @ rest) = split_args args (cur @ s) (Some q) False rest"
  by (induction s arbitrary: cur) (auto simp: is_quote_facts)

lemma split_quoted:
  "is_quote q \<Longrightarrow>
    split_args args cur None False (quoted_arg q s @ rest) = split_args args (cur @ q # s @ [q]) None False rest"
  by (simp add: quoted_arg_def is_quote_facts split_body del: escape_arg_simps)

lemma split_args_text:
  "qs \<noteq> [] \<Longrightarrow> list_all (\<lambda>(q, s). is_quote q) qs \<Longrightarrow> list_all is_space cur \<Longrightarrow>
    split_args args cur None False (args_text qs) = args @ map (\<lambda>(q, s). q # s @ [q]) qs"
proof (induction qs arbitrary: args cur rule: args_text.induct)
  case (2 q s)
  then show ?case
    using split_quoted [of q args cur s "[]"] trim_enclosed [of cur q s] by (simp add: is_quote_facts)
next
  case (3 q s a as)
  have "list_all is_space '' ''" by code_simp
  with 3 show ?case
    using split_quoted [of q args cur s "'', '' @ args_text (a # as)"] trim_enclosed [of cur q s]
      is_quote_facts [of "CHR '',''"] is_quote_facts [of "CHR '' ''"]
    by (simp add: is_quote_facts is_quote_def)
qed simp

lemma replace_escaped_absent: "\<not> sublist [backslash, q] s \<Longrightarrow> replace_escaped q s = s"
  by (induction q s rule: replace_escaped.induct) (auto simp: sublist_Cons_right)

lemma clean_quoted:
  assumes "is_quote q" and "plain_content s"
  shows "clean_arg (q # s @ [q]) = s"
proof -
  have t: "trim (q # s @ [q]) = q # s @ [q]" using trim_enclosed [of "[]" q s] assms is_quote_facts by simp
  have e: "enclosed (CHR 0x27) (q # s @ [q]) \<or> enclosed (CHR 0x60) (q # s @ [q]) \<or> enclosed (CHR 0x22) (q # s @ [q])"
    using assms(1) by (auto simp: is_quote_def enclosed_def)
  have "slice_inner (q # s @ [q]) = s" by (simp add: slice_inner_def)
  with t e assms(2) show ?thesis
    by (simp add: clean_arg_def Let_def plain_content_def replace_escaped_absent)
qed

lemma parseArguments_written:
  assumes "writable qs"
  shows "parseArguments n j (args_text qs) = build_argument n j (map snd qs)"
proof -
  have q: "list_all (\<lambda>(q, s). is_quote q) qs" using assms by (auto simp: writable_def list_all_iff)
  have "map clean_arg (map (\<lambda>(q, s). q # s @ [q]) qs) = map snd qs"
    using assms by (auto simp: writable_def list_all_iff clean_quoted)
  moreover have "split_args [] [] None False (args_text qs) = map (\<lambda>(q, s). q # s @ [q]) qs"
    using split_args_text [OF _ q, of "[]" "[]"] assms by (simp add: writable_def)
  ultimately show ?thesis by (simp only: parseArguments_def)
qed

lemma call_args_body:
  "is_quote q \<Longrightarrow> 0 < d \<Longrightarrow>
    call_args (Some q) d acc (escape_arg s @ rest) = call_args (Some q) d (acc @ escape_arg s) rest"
  by (induction s arbitrary: acc) (auto simp: is_quote_facts)

lemma call_args_quoted:
  "is_quote q \<Longrightarrow> 0 < d \<Longrightarrow>
    call_args None d acc (quoted_arg q s @ rest) = call_args None d (acc @ quoted_arg q s) rest"
  by (simp add: quoted_arg_def is_quote_facts call_args_body del: escape_arg_simps)

lemma call_args_written:
  "list_all (\<lambda>(q, s). is_quote q) qs \<Longrightarrow> 0 < d \<Longrightarrow>
    call_args None d acc (args_text qs @ rest) = call_args None d (acc @ args_text qs) rest"
proof (induction qs arbitrary: acc rule: args_text.induct)
  case (3 q s a as)
  then show ?case
    using call_args_quoted [of q d acc s "'', '' @ args_text (a # as) @ rest"]
    by (simp add: is_quote_def)
qed (simp_all add: call_args_quoted)

lemma call_args_closed: "call_args None (Suc 0) acc (CHR '')'' # rest) = Some acc"
  by (cases rest) (simp_all add: is_quote_def)

lemma js_lower_dollar: "js_lower c = CHR ''$'' \<longleftrightarrow> c = CHR ''$''"
proof
  assume l: "js_lower c = CHR ''$''"
  have "False" if "65 \<le> (of_char c :: nat)" "(of_char c :: nat) \<le> 222" "js_lower c = char_of (of_char c + 32 :: nat)"
  proof -
    have "(of_char (js_lower c) :: nat) = of_char c + 32" using that by simp
    with l that(1) show False by simp
  qed
  with l show "c = CHR ''$''" by (fastforce simp: js_lower_def Let_def split: if_splits)
qed (simp add: js_lower_def)

lemma find_call_skips: "CHR ''$'' \<notin> set pre \<Longrightarrow> find_call (pre @ s) = find_call s"
  by (induction pre) (auto simp: match_call_def js_lower_dollar split: option.splits)

lemma find_call_written:
  assumes "writable qs" and "CHR ''$'' \<notin> set pre"
  shows "find_call (pre @ ''$fromAI('' @ args_text qs @ rest) = Some (args_text qs @ rest)"
proof -
  obtain q s t where t: "args_text qs = q # t" "is_quote q"
    using assms(1) by (cases qs rule: args_text.cases) (auto simp: writable_def quoted_arg_def)
  have l: "map js_lower ''$fromAI'' = ''$fromai''" by code_simp
  have o: "dropWhile is_space (CHR ''('' # s) = CHR ''('' # s" for s by (simp add: is_space_def)
  have a: "take 7 (''$fromAI('' @ s) = ''$fromAI''" "drop 7 (''$fromAI('' @ s) = CHR ''('' # s" for s
    by (simp_all add: numeral_eq_Suc)
  have "match_call (''$fromAI('' @ args_text qs @ rest) = Some (args_text qs @ rest)"
    unfolding match_call_def a l o using t by (simp add: is_quote_facts)
  then have "find_call (''$fromAI('' @ args_text qs @ rest) = Some (args_text qs @ rest)"
    unfolding append_Cons find_call.simps by (simp only: option.case)
  then show ?thesis by (simp only: find_call_skips [OF assms(2)])
qed


text \<open>For example with a quote and a parenthesis inside a quoted argument.\<close>

definition written_example :: "(char \<times> string) list" where
  "written_example = [(CHR 0x27, ''key''), (CHR 0x22, ''it'' @ [CHR 0x27] @ ''s )''), (CHR 0x60, ''Boolean''), (CHR 0x27, ''true'')]"


text \<open>
  A backslash in front of a backslash or a quote is taken away twice, once when the arguments are split and once
  when their quotes are removed: of two backslashes, written as four, one is left.
\<close>

lemma backslashes_unescaped_twice:
  "map clean_arg (split_args [] [] None False (quoted_arg (CHR 0x27) [backslash, backslash])) = [[backslash]]"
  by code_simp

text \<open>A call that is only mentioned inside an argument is taken for a call of its own.\<close>

lemma mentioned_call_fails:
  "extractFromAICalls (\<lambda>_. NaN) (\<lambda>_. None) (''$fromAI('' @ args_text [(CHR 0x27, ''see $fromAI('')] @ '')'') =
    Inl (ParseError (''Unbalanced parentheses while parsing $fromAI call: '' @ [CHR 0x27] @ '')''))"
  by code_simp

end
