(* ===== verification/ExpressionParser.thy ===== *)
theory ExpressionParser
  imports JsStrings
begin

section \<open>Splitting expressions into text and code\<close>

text \<open>
  \<^verbatim>\<open>packages/workflow/src/extensions/expression-parser.ts\<close>: an expression is cut at the brackets \<^verbatim>\<open>{{\<close> and
  \<^verbatim>\<open>}}\<close> that are not escaped by a backslash into pieces of text and of code, and the pieces are joined
  again after the code has been rewritten. The loop works on the rest of the expression instead of on an index.
  The lemmas show that joining the pieces gives the expression back, unless it ends in a bracket that is dropped
  or escapes a bracket right behind a brace, and that text and code alternate, beginning with text.
\<close>

datatype ExpressionChunk =
    ExpressionText (chunk_text: string)
  | ExpressionCode (chunk_text: string) (hasClosingBrackets: bool)

datatype searching = SearchingOpen | SearchingClose

text \<open>\<^verbatim>\<open>s.replace(p, r)\<close> for strings: the first occurrence only.\<close>

fun replace_first :: "string \<Rightarrow> string \<Rightarrow> string \<Rightarrow> string" where
  "replace_first p r [] = (if p = [] then r else [])"
| "replace_first p r (c # s) =
     (if prefix p (c # s) then r @ drop (length p) (c # s) else c # replace_first p r s)"

definition escapeCode :: "string \<Rightarrow> string" where
  "escapeCode text = replace_first [backslash, CHR ''}'', CHR ''}''] ''}}'' text"

definition escapeTmplExpression :: "string \<Rightarrow> string" where
  "escapeTmplExpression part = replace_first ''}}'' [backslash, CHR ''}'', CHR ''}''] part"

text \<open>
  \<^verbatim>\<open>OPEN_BRACKET.exec\<close> and \<^verbatim>\<open>CLOSE_BRACKET.exec\<close>: where the first match starts and whether it is escaped.
\<close>

fun bracket_match :: "char \<Rightarrow> string \<Rightarrow> (nat \<times> bool) option" where
  "bracket_match b [] = None"
| "bracket_match b (c # s) =
     (if c = backslash \<and> take 2 s = [b, b] then Some (0, True)
      else if c = b \<and> take 1 s = [b] then Some (0, False)
      else map_option (\<lambda>(i, e). (Suc i, e)) (bracket_match b s))"

fun bracket :: "searching \<Rightarrow> char" where
  "bracket SearchingOpen = CHR ''{''"
| "bracket SearchingClose = CHR ''}''"

fun other_search :: "searching \<Rightarrow> searching" where
  "other_search SearchingOpen = SearchingClose"
| "other_search SearchingClose = SearchingOpen"

fun chunk_of :: "searching \<Rightarrow> string \<Rightarrow> bool \<Rightarrow> ExpressionChunk" where
  "chunk_of SearchingOpen buffer closing = ExpressionText buffer"
| "chunk_of SearchingClose buffer closing = ExpressionCode (escapeCode buffer) closing"

function split_loop :: "searching \<Rightarrow> string \<Rightarrow> string \<Rightarrow> ExpressionChunk list" where
  "split_loop sf buffer expr =
     (if expr = [] then []
      else case bracket_match (bracket sf) expr of
             None \<Rightarrow> [chunk_of sf (buffer @ expr) False]
           | Some (i, True) \<Rightarrow> split_loop sf (buffer @ take (i + 3) expr) (drop (i + 3) expr)
           | Some (i, False) \<Rightarrow> chunk_of sf (buffer @ take i expr) True # split_loop (other_search sf) [] (drop (i + 2) expr))"
  by pat_completeness auto
termination by (relation "measure (\<lambda>(sf, buffer, expr). length expr)") auto

declare split_loop.simps [simp del]

definition splitExpression :: "string \<Rightarrow> ExpressionChunk list" where
  "splitExpression expression =
     (if expression = [] then [ExpressionText []] else split_loop SearchingOpen [] expression)"

fun join_chunk :: "ExpressionChunk \<Rightarrow> string" where
  "join_chunk (ExpressionCode text closing) = ''{{'' @ escapeTmplExpression text @ (if closing then ''}}'' else [])"
| "join_chunk (ExpressionText text) = text"

definition joinExpression :: "ExpressionChunk list \<Rightarrow> string" where
  "joinExpression parts = concat (map join_chunk parts)"

subsection \<open>Matches of brackets\<close>

text \<open>A text without a pair of the bracket.\<close>

definition no_pair :: "char \<Rightarrow> string \<Rightarrow> bool" where
  "no_pair b s \<longleftrightarrow> \<not> sublist [b, b] s"

lemma no_pair_Nil [simp]: "no_pair b []"
  by (simp add: no_pair_def)

lemma no_pair_Cons: "no_pair b (c # s) \<longleftrightarrow> \<not> (c = b \<and> take 1 s = [b]) \<and> no_pair b s"
  by (cases s) (auto simp: no_pair_def sublist_Cons_right)

lemma bracket_match_None: "bracket_match b s = None \<Longrightarrow> no_pair b s"
  by (induction s) (auto simp: no_pair_Cons split: if_splits)

lemma bracket_match_Some:
  "bracket_match b s = Some (i, e) \<Longrightarrow>
    (\<exists>x y. s = x @ (if e then [backslash, b, b] else [b, b]) @ y \<and> length x = i \<and>
      no_pair b (x @ (if e then [] else [b])))"
proof (induction s arbitrary: i)
  case (Cons c s)
  consider "c = backslash" "take 2 s = [b, b]" | "c = b" "take 1 s = [b]" "\<not> (c = backslash \<and> take 2 s = [b, b])"
    | j where "bracket_match b s = Some (j, e)" "i = Suc j" "\<not> (c = b \<and> take 1 s = [b])"
    using Cons.prems by (auto split: if_splits)
  then show ?case
  proof cases
    case 1
    then have "s = [b, b] @ drop 2 s" by (metis append_take_drop_id)
    with 1 Cons.prems show ?thesis by (intro exI [of _ "[]"] exI [of _ "drop 2 s"]) auto
  next
    case 2
    then have "s = [b] @ drop 1 s" by (metis append_take_drop_id)
    with 2 Cons.prems show ?thesis
      by (intro exI [of _ "[]"] exI [of _ "drop 1 s"]) (auto simp: no_pair_Cons split: if_splits)
  next
    case 3
    then obtain x y where "s = x @ (if e then [backslash, b, b] else [b, b]) @ y" "length x = j"
      "no_pair b (x @ (if e then [] else [b]))"
      using Cons.IH by blast
    with 3 show ?thesis
      by (intro exI [of _ "c # x"] exI [of _ y]) (cases x; auto simp: no_pair_Cons split: if_splits)
  qed
qed simp

subsection \<open>Escaping is undone\<close>

lemma replace_first_absent: "p \<noteq> [] \<Longrightarrow> \<not> sublist p s \<Longrightarrow> replace_first p r s = s"
  by (induction s) (auto simp: sublist_Cons_right)

lemma escapeTmpl_absent: "no_pair (CHR ''}'') s \<Longrightarrow> escapeTmplExpression s = s"
  by (simp add: escapeTmplExpression_def no_pair_def replace_first_absent)

lemma escapeCode_absent: "no_pair (CHR ''}'') s \<Longrightarrow> escapeCode s = s"
  unfolding escapeCode_def no_pair_def
  by (rule replace_first_absent) (auto simp: sublist_def, metis append.assoc append_Cons append_Nil)

lemma escapeCode_first:
  "no_pair (CHR ''}'') x \<Longrightarrow> escapeCode (x @ [backslash, CHR ''}'', CHR ''}''] @ y) = x @ ''}}'' @ y"
  unfolding escapeCode_def
proof (induction x)
  case (Cons c x)
  then have n: "no_pair (CHR ''}'') x" by (simp add: no_pair_Cons)
  have "\<not> prefix [backslash, CHR ''}'', CHR ''}''] (c # x @ [backslash, CHR ''}'', CHR ''}''] @ y)"
    using n by (cases x rule: remdups_adj.cases) (auto simp: no_pair_Cons)
  then show ?case using Cons.IH [OF n] by (simp only: append_Cons replace_first.simps if_False)
qed simp

lemma escapeTmpl_first:
  "no_pair (CHR ''}'') x \<Longrightarrow> \<not> suffix ''}'' x \<Longrightarrow>
    escapeTmplExpression (x @ ''}}'' @ y) = x @ [backslash, CHR ''}'', CHR ''}''] @ y"
  unfolding escapeTmplExpression_def
proof (induction x)
  case (Cons c x)
  then have n: "no_pair (CHR ''}'') x" "\<not> suffix ''}'' x" by (auto simp: no_pair_Cons suffix_Cons)
  have "\<not> prefix ''}}'' (c # x @ ''}}'' @ y)"
    using Cons.prems by (cases x) (auto simp: no_pair_Cons suffix_def)
  then show ?case using Cons.IH [OF n] by (simp only: append_Cons replace_first.simps if_False)
qed simp

text \<open>The code gathered so far: nothing, or up to its first escaped bracket without a pair of braces.\<close>

definition code_buffer :: "string \<Rightarrow> bool" where
  "code_buffer s \<longleftrightarrow> no_pair (CHR ''}'') s \<or>
     (\<exists>x y. s = x @ [backslash, CHR ''}'', CHR ''}''] @ y \<and> no_pair (CHR ''}'') x \<and> \<not> suffix ''}'' x)"

lemma code_buffer_restored: "code_buffer s \<Longrightarrow> escapeTmplExpression (escapeCode s) = s"
  unfolding code_buffer_def
proof (elim disjE exE conjE)
  fix x y
  assume s: "s = x @ [backslash, CHR ''}'', CHR ''}''] @ y" and x: "no_pair (CHR ''}'') x" "\<not> suffix ''}'' x"
  show ?thesis unfolding s escapeCode_first [OF x(1)] by (rule escapeTmpl_first [OF x])
qed (simp add: escapeCode_absent escapeTmpl_absent)

subsection \<open>Joining the pieces\<close>

text \<open>The expressions whose end is kept and whose escapes can be restored.\<close>

definition restorable :: "string \<Rightarrow> bool" where
  "restorable e \<longleftrightarrow> \<not> suffix ''{{'' e \<and> \<not> suffix [backslash, CHR ''}'', CHR ''}''] e \<and>
     \<not> sublist [CHR ''}'', backslash, CHR ''}'', CHR ''}''] e"

lemma restorable_appendD: "restorable (x @ y) \<Longrightarrow> restorable y"
  by (auto simp: restorable_def sublist_append suffix_append)

lemma restorable_escape:
  assumes "restorable (x @ [backslash, CHR ''}'', CHR ''}''] @ y)"
  shows "\<not> suffix ''}'' x" and "y \<noteq> []"
proof -
  show "\<not> suffix ''}'' x"
  proof
    assume "suffix ''}'' x"
    then obtain z where "x = z @ ''}''" by (auto simp: suffix_def)
    then have "x @ [backslash, CHR ''}'', CHR ''}''] @ y = z @ [CHR ''}'', backslash, CHR ''}'', CHR ''}''] @ y" by simp
    with assms show False by (metis restorable_def sublist_def)
  qed
qed (use assms in \<open>auto simp: restorable_def suffix_def\<close>)

lemma restorable_open: "restorable (x @ ''{{'' @ y) \<Longrightarrow> y \<noteq> []"
  by (auto simp: restorable_def suffix_def)

definition gathered :: "searching \<Rightarrow> string \<Rightarrow> string \<Rightarrow> bool" where
  \<comment> \<open>what holds of the buffer and the rest of the expression\<close>
  "gathered sf buffer e \<longleftrightarrow>
     (case sf of SearchingOpen \<Rightarrow> e = [] \<longrightarrow> buffer = []
      | SearchingClose \<Rightarrow> e \<noteq> [] \<and> (buffer = [] \<or>
          (\<exists>x y. buffer = x @ [backslash, CHR ''}'', CHR ''}''] @ y \<and> no_pair (CHR ''}'') x \<and> \<not> suffix ''}'' x)))"

definition opened :: "searching \<Rightarrow> string" where
  "opened sf = (case sf of SearchingOpen \<Rightarrow> [] | SearchingClose \<Rightarrow> ''{{'')"

lemma gathered_code: "gathered SearchingClose buffer e \<Longrightarrow> no_pair (CHR ''}'') x \<Longrightarrow> code_buffer (buffer @ x)"
  unfolding gathered_def code_buffer_def by (simp, metis append.assoc append_Cons append_Nil)

lemma gathered_escape:
  assumes "gathered sf buffer (x @ [backslash, bracket sf, bracket sf] @ y)"
    and "restorable (x @ [backslash, bracket sf, bracket sf] @ y)" and "no_pair (bracket sf) x"
  shows "gathered sf (buffer @ x @ [backslash, bracket sf, bracket sf]) y"
proof (cases sf)
  case SearchingOpen
  then show ?thesis using assms(2) restorable_open [of "x @ [backslash]" y] by (simp add: gathered_def)
next
  case SearchingClose
  with assms restorable_escape [of x y] show ?thesis by (fastforce simp: gathered_def)
qed

lemma no_pair_appendD: "no_pair b (x @ y) \<Longrightarrow> no_pair b x"
  by (auto simp: no_pair_def sublist_append)

lemma join_chunk_of:
  "gathered sf buffer e \<Longrightarrow> no_pair (bracket sf) x \<Longrightarrow>
    join_chunk (chunk_of sf (buffer @ x) closing) = opened sf @ buffer @ x @ (if closing \<and> sf = SearchingClose then ''}}'' else [])"
  by (cases sf) (auto simp: opened_def code_buffer_restored [OF gathered_code])

lemma join_split_loop:
  "restorable expr \<Longrightarrow> gathered sf buffer expr \<Longrightarrow>
    joinExpression (split_loop sf buffer expr) = opened sf @ buffer @ expr"
proof (induction sf buffer expr rule: split_loop.induct)
  case (1 sf buffer expr)
  note g = "1.prems"
  show ?case
  proof (cases "expr = []")
    case True
    with g show ?thesis by (cases sf) (auto simp: split_loop.simps gathered_def opened_def joinExpression_def)
  next
    case ne: False
    show ?thesis
    proof (cases "bracket_match (bracket sf) expr")
      case None
      then show ?thesis using ne join_chunk_of [OF g(2) bracket_match_None [OF None], of False]
        by (simp add: split_loop.simps [of sf] joinExpression_def)
    next
      case (Some m)
      obtain i e where m: "m = (i, e)" by (cases m)
      from bracket_match_Some [OF Some [unfolded m]] obtain x y where
        expr: "expr = x @ (if e then [backslash, bracket sf, bracket sf] else [bracket sf, bracket sf]) @ y"
        and i: "length x = i" and x: "no_pair (bracket sf) (x @ (if e then [] else [bracket sf]))"
        by blast
      have y: "restorable y" using g(1) restorable_appendD unfolding expr append_assoc [symmetric] by blast
      show ?thesis
      proof (cases e)
        case True
        have "gathered sf (buffer @ x @ [backslash, bracket sf, bracket sf]) y"
          using g x True unfolding expr by (intro gathered_escape) simp_all
        then show ?thesis
          using "1.IH"(1) [OF ne Some m [symmetric]] True ne Some m y i
          by (simp add: split_loop.simps [of sf buffer] expr)
      next
        case False
        have "gathered (other_search sf) [] y"
          using g(1) restorable_open [of x y] False unfolding expr by (cases sf) (auto simp: gathered_def)
        then have "joinExpression (split_loop (other_search sf) [] y) = opened (other_search sf) @ y"
          using "1.IH"(2) [OF ne Some m [symmetric]] False y i by (simp add: expr)
        then show ?thesis
          using False ne Some m i join_chunk_of [OF g(2) no_pair_appendD [OF x], of True]
          by (cases sf) (auto simp: split_loop.simps [of _ buffer] expr joinExpression_def opened_def)
      qed
    qed
  qed
qed

lemma join_split: "restorable e \<Longrightarrow> joinExpression (splitExpression e) = e"
  using join_split_loop [of e SearchingOpen "[]"]
  by (auto simp: splitExpression_def gathered_def opened_def joinExpression_def)

text \<open>
  C17. An expression cut into pieces and joined again is the same expression, if it does not end in an open bracket
  or in an escaped closing bracket and no escaped closing bracket stands right behind a closing brace.
\<close>

theorem join_splitExpression: "restorable e \<Longrightarrow> joinExpression (splitExpression e) = e"
  by (rule join_split)

text \<open>For example with an escaped bracket inside the code.\<close>

definition escaped_example :: string where
  "escaped_example = ''a{{ b'' @ [backslash] @ ''}} }} c {{ d''"

theorem join_splitExpression_witness: "joinExpression (splitExpression escaped_example) = escaped_example"
  by (rule join_splitExpression) (code_simp)

subsection \<open>Text and code alternate\<close>

fun alternates :: "searching \<Rightarrow> ExpressionChunk list \<Rightarrow> bool" where
  \<comment> \<open>only the last piece of code may be without its closing bracket\<close>
  "alternates sf [] = True"
| "alternates SearchingOpen (ExpressionText t # cs) = alternates SearchingClose cs"
| "alternates SearchingClose (ExpressionCode t closing # cs) = (if closing then alternates SearchingOpen cs else cs = [])"
| "alternates sf (c # cs) = False"

lemma alternates_chunk_of:
  "alternates sf (chunk_of sf buffer True # cs) = alternates (other_search sf) cs"
  "alternates sf [chunk_of sf buffer False]"
  by (cases sf; simp)+

lemma split_loop_alternates: "alternates sf (split_loop sf buffer expr)"
proof (induction sf buffer expr rule: split_loop.induct)
  case (1 sf buffer expr)
  then show ?case
    by (subst split_loop.simps) (auto simp: alternates_chunk_of split: option.splits prod.splits bool.splits)
qed

lemma splitExpression_alternates: "alternates SearchingOpen (splitExpression e)"
  by (simp add: splitExpression_def split_loop_alternates)

text \<open>What the comment of the function promises: there is a first piece, and it is text.\<close>

lemma splitExpression_first:
  assumes "restorable e"
  shows "\<exists>t cs. splitExpression e = ExpressionText t # cs"
proof -
  have "joinExpression (splitExpression e) = e" by (rule join_split [OF assms])
  then have "splitExpression e \<noteq> []" by (auto simp: joinExpression_def splitExpression_def)
  with splitExpression_alternates [of e] show ?thesis
    by (cases "splitExpression e" rule: list.exhaust) (auto elim: alternates.elims)
qed

subsection \<open>What is dropped\<close>

text \<open>
  The end that is dropped: an escaped bracket at the end of the expression takes all that was gathered with it, so
  that there may be no piece at all, and an open bracket at the end leaves no piece of code.
\<close>

lemma splitExpression_drops:
  "splitExpression (''a'' @ [backslash] @ ''{{'') = []"
  "splitExpression (''{{ a '' @ [backslash] @ ''}}'') = [ExpressionText []]"
  "splitExpression ''a{{'' = [ExpressionText ''a'']"
  by (code_simp, code_simp, code_simp)

text \<open>Only the first escaped bracket of the code loses its backslash.\<close>

lemma escapeCode_once:
  "splitExpression (''{{a'' @ [backslash] @ ''}}b'' @ [backslash] @ ''}}c}}'') =
    [ExpressionText [], ExpressionCode (''a}}b'' @ [backslash] @ ''}}c'') True]"
  by code_simp

end
