(* ===== verification/FromAIOnly.thy ===== *)
theory FromAIOnly
  imports FromAI ExpressionParser
begin

section \<open>Expressions that are only a call of fromAI\<close>

text \<open>
  \<^verbatim>\<open>packages/workflow/src/from-ai-parse-utils.ts\<close>, the second half: the parameters of the tools of the chat may
  hold no expression but a single call of \<^verbatim>\<open>$fromAI\<close> with literal arguments, or the default of a parameter. The
  lemmas give the grammar the scanner accepts, show that the call accepted is the one whose arguments are read, and
  what is checked when parameters are found without violations.
\<close>

subsection \<open>The check\<close>

definition FROM_AI_AUTO_GENERATED_MARKER :: string where
  "FROM_AI_AUTO_GENERATED_MARKER = ''/*n8n-auto-generated-fromAI-override*/''"

definition isExpression :: "string \<Rightarrow> bool" where
  "isExpression s \<longleftrightarrow> take 1 s = ''=''"

definition char_between :: "char \<Rightarrow> char \<Rightarrow> char \<Rightarrow> bool" where
  "char_between a b c \<longleftrightarrow> (of_char a :: nat) \<le> of_char c \<and> (of_char c :: nat) \<le> of_char b"

definition alphanumeric :: "char \<Rightarrow> bool" where
  "alphanumeric c \<longleftrightarrow> char_between (CHR ''a'') (CHR ''z'') c \<or> char_between (CHR ''A'') (CHR ''Z'') c \<or> is_digit c"

definition word_char :: "char \<Rightarrow> bool" where
  \<comment> \<open>\<^verbatim>\<open>/[a-zA-Z0-9_]/\<close>\<close>
  "word_char c \<longleftrightarrow> alphanumeric c \<or> c = CHR ''_''"

definition literal_char :: "char \<Rightarrow> bool" where
  \<comment> \<open>\<^verbatim>\<open>/[a-zA-Z0-9.,\s-]/\<close>\<close>
  "literal_char c \<longleftrightarrow> alphanumeric c \<or> c = CHR ''.'' \<or> c = CHR '','' \<or> c = CHR ''-'' \<or> is_space c"

definition strip_expression :: "string \<Rightarrow> string" where
  \<comment> \<open>the prefix, the brackets and the comment that marks a generated call are taken off\<close>
  "strip_expression expr =
     (let s1 = trim (if isExpression expr then tl expr else expr);
          s2 = (if prefix ''{{'' s1 \<and> suffix ''}}'' s1 then trim (butlast (butlast (drop 2 s1))) else s1) in
      if prefix FROM_AI_AUTO_GENERATED_MARKER s2 then trim (drop (length FROM_AI_AUTO_GENERATED_MARKER) s2) else s2)"

definition match_open :: "string \<Rightarrow> string option" where
  \<comment> \<open>\<^verbatim>\<open>/^\$fromAI\s*\(/i\<close>; what follows the match\<close>
  "match_open s =
     (if map js_lower (take 7 s) = ''$fromai''
      then (case dropWhile is_space (drop 7 s) of [] \<Rightarrow> None | c # r \<Rightarrow> if c = CHR ''('' then Some r else None)
      else None)"

text \<open>
  The loop over the characters: what follows the parenthesis that closes the call (the depth is one until then),
  or \<open>None\<close> if a character is rejected or no parenthesis closes it. \<open>None\<close> for the quote is
  \<^verbatim>\<open>inQuotes = false\<close>, and for the last character outside of quotes the empty string.
\<close>

fun only_scan :: "char option \<Rightarrow> char option \<Rightarrow> string \<Rightarrow> string option" where
  "only_scan quoteChar lastOutsideChar [] = None"
| "only_scan quoteChar lastOutsideChar (c # cs) =
     (case quoteChar of
        Some q \<Rightarrow>
          if c = backslash \<and> cs \<noteq> [] then only_scan quoteChar lastOutsideChar (tl cs)
          else if q = CHR 0x60 \<and> c = CHR ''$'' \<and> take 1 cs = ''{'' then None
          else only_scan (if c = q then None else quoteChar) lastOutsideChar cs
      | None \<Rightarrow>
          if is_quote c
          then if c = CHR 0x60 \<and> (case lastOutsideChar of None \<Rightarrow> False | Some l \<Rightarrow> word_char l) then None
               else only_scan (Some c) (Some c) cs
          else if c = CHR '')'' then Some cs
          else if \<not> literal_char c then None
          else only_scan None (if is_space c then lastOutsideChar else Some c) cs)"

definition isFromAIOnlyExpression :: "string \<Rightarrow> bool" where
  "isFromAIOnlyExpression expr =
     (case match_open (strip_expression expr) of
        None \<Rightarrow> False
      | Some args \<Rightarrow> (case only_scan None None args of None \<Rightarrow> False | Some remainder \<Rightarrow> trim remainder = []))"

subsection \<open>Defaults of parameters and violations\<close>

text \<open>
  A property of a node type, an option with a value and a collection of properties have these fields; an absent
  field is \<open>None\<close>.
\<close>

datatype node_property =
  NodeProperty (np_type: "string option") (np_default: "js option")
    (np_options: "node_property list option") (np_values: "node_property list option")

fun add_default :: "js option \<Rightarrow> string list \<Rightarrow> string list" where
  "add_default (Some (JStr s)) defaults = (if isExpression s then set_add s defaults else defaults)"
| "add_default _ defaults = defaults"

text \<open>An option with a type and a default is visited as the only property of a list of its own.\<close>

function (sequential) collectDefaults :: "node_property list \<Rightarrow> string list \<Rightarrow> string list"
  and collect_options :: "node_property list \<Rightarrow> string list \<Rightarrow> string list" where
  "collectDefaults [] defaults = defaults"
| "collectDefaults (NodeProperty t d os vs # props) defaults =
     collectDefaults props
       (case os of None \<Rightarrow> add_default d defaults | Some ops \<Rightarrow> collect_options ops (add_default d defaults))"
| "collect_options [] defaults = defaults"
| "collect_options (NodeProperty t d os vs # ops) defaults =
     collect_options ops
       (let ds = (case vs of None \<Rightarrow> defaults | Some values \<Rightarrow> collectDefaults values defaults) in
        if t \<noteq> None \<and> d \<noteq> None
        then (case os of
                None \<Rightarrow> add_default d ds
              | Some _ \<Rightarrow> collectDefaults [NodeProperty t d os vs] (add_default d ds))
        else ds)"
  by pat_completeness auto
termination
  by (relation "measure (\<lambda>x. case x of Inl (ps, d) \<Rightarrow> 2 * size_list size ps | Inr (os, d) \<Rightarrow> Suc (2 * size_list size os))")
    auto

definition collectExpressionDefaults :: "node_property list \<Rightarrow> string list" where
  "collectExpressionDefaults properties = collectDefaults properties []"

type_synonym ExpressionViolation = "string \<times> string"

definition item_path :: "string \<Rightarrow> nat \<Rightarrow> string" where
  "item_path path i = path @ ''['' @ show_nat i @ '']''"

definition member_path :: "string \<Rightarrow> string \<Rightarrow> string" where
  "member_path path key = (if path = [] then key else path @ ''.'' @ key)"

definition disallowed :: "string list option \<Rightarrow> string \<Rightarrow> bool" where
  "disallowed allowedExpressions s \<longleftrightarrow>
     isExpression s \<and> \<not> isFromAIOnlyExpression s \<and>
     \<not> (case allowedExpressions of None \<Rightarrow> False | Some allowed \<Rightarrow> s \<in> set allowed)"

fun findDisallowedChatToolExpressions :: "js \<Rightarrow> string \<Rightarrow> string list option \<Rightarrow> ExpressionViolation list"
  and item_violations :: "js list \<Rightarrow> nat \<Rightarrow> string \<Rightarrow> string list option \<Rightarrow> ExpressionViolation list"
  and member_violations :: "(string \<times> js) list \<Rightarrow> string \<Rightarrow> string list option \<Rightarrow> ExpressionViolation list" where
  "findDisallowedChatToolExpressions (JStr s) path allowed = (if disallowed allowed s then [(path, s)] else [])"
| "findDisallowedChatToolExpressions (JArr vs) path allowed = item_violations vs 0 path allowed"
| "findDisallowedChatToolExpressions (JObj kvs) path allowed = member_violations kvs path allowed"
| "findDisallowedChatToolExpressions v path allowed = []"
| "item_violations [] i path allowed = []"
| "item_violations (v # vs) i path allowed =
     findDisallowedChatToolExpressions v (item_path path i) allowed @ item_violations vs (Suc i) path allowed"
| "member_violations [] path allowed = []"
| "member_violations ((k, v) # kvs) path allowed =
     findDisallowedChatToolExpressions v (member_path path k) allowed @ member_violations kvs path allowed"

subsection \<open>The grammar of literal arguments\<close>

datatype quoted_piece = Raw char | Escaped char

datatype arg_token = Literal char | Quoted char "quoted_piece list"

fun piece_text :: "quoted_piece \<Rightarrow> string" where
  "piece_text (Raw c) = [c]"
| "piece_text (Escaped c) = [backslash, c]"

definition pieces_text :: "quoted_piece list \<Rightarrow> string" where
  "pieces_text ps = concat (map piece_text ps)"

fun token_text :: "arg_token \<Rightarrow> string" where
  "token_text (Literal c) = [c]"
| "token_text (Quoted q ps) = q # pieces_text ps @ [q]"

definition tokens_text :: "arg_token list \<Rightarrow> string" where
  "tokens_text ts = concat (map token_text ts)"

text \<open>Between quotes: no bare quote or backslash, and no value is inserted into a template.\<close>

fun valid_pieces :: "char \<Rightarrow> quoted_piece list \<Rightarrow> bool" where
  "valid_pieces q [] = True"
| "valid_pieces q (Escaped c # ps) = valid_pieces q ps"
| "valid_pieces q (Raw c # ps) =
     (c \<noteq> q \<and> c \<noteq> backslash \<and> \<not> (q = CHR 0x60 \<and> c = CHR ''$'' \<and> take 1 ps = [Raw (CHR ''{'')]) \<and> valid_pieces q ps)"

text \<open>Outside of quotes: letters, digits, blanks, points, commas and minus signs; a template has no tag.\<close>

fun valid_tokens :: "char option \<Rightarrow> arg_token list \<Rightarrow> bool" where
  "valid_tokens lastChar [] = True"
| "valid_tokens lastChar (Literal c # ts) =
     (literal_char c \<and> valid_tokens (if is_space c then lastChar else Some c) ts)"
| "valid_tokens lastChar (Quoted q ps # ts) =
     (is_quote q \<and> valid_pieces q ps \<and>
      \<not> (q = CHR 0x60 \<and> (case lastChar of None \<Rightarrow> False | Some l \<Rightarrow> word_char l)) \<and> valid_tokens (Some q) ts)"

lemma literal_char_facts:
  "literal_char c \<Longrightarrow> \<not> is_quote c" "literal_char c \<Longrightarrow> c \<noteq> CHR '')''" "literal_char c \<Longrightarrow> c \<noteq> CHR ''(''"
  by (auto simp: literal_char_def alphanumeric_def char_between_def is_digit_def is_space_def is_quote_def)

lemma not_quote: "\<not> is_quote (CHR '')'')" "\<not> is_quote (CHR ''('')" "\<not> is_quote backslash"
  by (simp_all add: is_quote_def)

lemma tokens_text_simps [simp]:
  "tokens_text [] = []" "tokens_text (t # ts) = token_text t @ tokens_text ts"
  by (simp_all add: tokens_text_def)

lemma pieces_text_simps [simp]:
  "pieces_text [] = []" "pieces_text (p # ps) = piece_text p @ pieces_text ps"
  by (simp_all add: pieces_text_def)

lemma scan_pieces:
  "is_quote q \<Longrightarrow> valid_pieces q ps \<Longrightarrow> only_scan (Some q) l (pieces_text ps @ q # s) = only_scan None l s"
proof (induction q ps rule: valid_pieces.induct)
  case (3 q c ps)
  have "\<not> (q = CHR 0x60 \<and> c = CHR ''$'' \<and> take 1 (pieces_text ps @ q # s) = ''{'')"
    using 3 by (cases ps; cases "hd ps") auto
  with 3 show ?case by (auto simp: is_quote_facts)
qed (auto simp: is_quote_facts not_quote)

lemma scan_tokens:
  "valid_tokens l ts \<Longrightarrow> only_scan None l (tokens_text ts @ CHR '')'' # r) = Some r"
  by (induction l ts rule: valid_tokens.induct) (auto simp: literal_char_facts is_quote_facts scan_pieces not_quote)

text \<open>Conversely, what is scanned has these pieces.\<close>

definition scanned :: "char option \<Rightarrow> char option \<Rightarrow> string \<Rightarrow> string \<Rightarrow> bool" where
  "scanned quoteChar l s r \<longleftrightarrow>
     (\<exists>ps ts. valid_tokens l ts \<and>
       (case quoteChar of
          None \<Rightarrow> s = tokens_text ts @ CHR '')'' # r
        | Some q \<Rightarrow> valid_pieces q ps \<and> s = pieces_text ps @ q # tokens_text ts @ CHR '')'' # r))"

lemma scanned_raw:
  assumes "scanned (Some q) l cs r" and "c \<noteq> q" "c \<noteq> backslash" "\<not> (q = CHR 0x60 \<and> c = CHR ''$'' \<and> take 1 cs = ''{'')"
  shows "scanned (Some q) l (c # cs) r"
proof -
  obtain ps ts where p: "valid_tokens l ts" "valid_pieces q ps" "cs = pieces_text ps @ q # tokens_text ts @ CHR '')'' # r"
    using assms(1) by (auto simp: scanned_def)
  have "valid_pieces q (Raw c # ps)" using p assms by (cases ps; cases "hd ps") auto
  with p show ?thesis unfolding scanned_def by (intro exI [of _ "Raw c # ps"] exI [of _ ts]) simp
qed

lemma scanned_escaped: "scanned (Some q) l cs r \<Longrightarrow> scanned (Some q) l (backslash # c # cs) r"
  unfolding scanned_def by (clarsimp, rule_tac x = "Escaped c # ps" in exI) auto

lemma scanned_close: "scanned None l cs r \<Longrightarrow> scanned (Some q) l (q # cs) r"
  unfolding scanned_def by (clarsimp, rule_tac x = "[]" in exI) auto

lemma scanned_open:
  assumes "scanned (Some q) (Some q) cs r" and "is_quote q"
    and "\<not> (q = CHR 0x60 \<and> (case l of None \<Rightarrow> False | Some l \<Rightarrow> word_char l))"
  shows "scanned None l (q # cs) r"
proof -
  obtain ps ts where "valid_tokens (Some q) ts" "valid_pieces q ps" "cs = pieces_text ps @ q # tokens_text ts @ CHR '')'' # r"
    using assms(1) by (auto simp: scanned_def)
  with assms(2,3) show ?thesis unfolding scanned_def by (intro exI [of _ "[]"] exI [of _ "Quoted q ps # ts"]) simp
qed

lemma scanned_literal:
  assumes "scanned None (if is_space c then l else Some c) cs r" and "literal_char c"
  shows "scanned None l (c # cs) r"
proof -
  obtain ts where "valid_tokens (if is_space c then l else Some c) ts" "cs = tokens_text ts @ CHR '')'' # r"
    using assms(1) by (auto simp: scanned_def)
  with assms(2) show ?thesis unfolding scanned_def by (intro exI [of _ "[]"] exI [of _ "Literal c # ts"]) simp
qed

lemma scan_scanned: "only_scan quoteChar l s = Some r \<Longrightarrow> scanned quoteChar l s r"
proof (induction quoteChar l s rule: only_scan.induct)
  case (2 quoteChar l c cs)
  show ?case
  proof (cases quoteChar)
    case None
    consider "is_quote c" | "c = CHR '')''" | "\<not> is_quote c" "c \<noteq> CHR '')''" by blast
    then show ?thesis
    proof cases
      case 1
      with 2 None show ?thesis unfolding None by (intro scanned_open) (auto split: if_splits)
    next
      case 2
      with "2.prems" None show ?thesis
        by (auto simp: not_quote scanned_def intro!: exI [of _ "[]"])
    next
      case 3
      with 2 None show ?thesis unfolding None by (intro scanned_literal) (auto split: if_splits)
    qed
  next
    case (Some q)
    show ?thesis
    proof (cases "c = backslash \<and> cs \<noteq> []")
      case True
      then obtain d ds where "cs = d # ds" by (cases cs) auto
      with 2 Some True show ?thesis by (auto intro!: scanned_escaped)
    next
      case False
      have "c \<noteq> backslash" if "c \<noteq> q" using 2 Some False that by auto
      with 2 Some False show ?thesis
        by (cases "c = q") (auto intro!: scanned_raw scanned_close split: if_splits)
    qed
  qed
qed simp

lemma only_scan_iff: "only_scan None l s = Some r \<longleftrightarrow> (\<exists>ts. valid_tokens l ts \<and> s = tokens_text ts @ CHR '')'' # r)"
  using scan_scanned [of None l s r] scan_tokens by (auto simp: scanned_def)

definition call_name :: "string \<Rightarrow> bool" where
  "call_name name \<longleftrightarrow> map js_lower name = ''$fromai''"

lemma open_not_space: "\<not> is_space (CHR ''('')" "\<not> is_space (CHR '')'')"
  by (simp_all add: is_space_def)

lemma match_open_iff:
  "match_open s = Some r \<longleftrightarrow>
    (\<exists>name blanks. s = name @ blanks @ CHR ''('' # r \<and> call_name name \<and> list_all is_space blanks)" (is "_ = ?R")
proof
  assume m: "match_open s = Some r"
  then have "map js_lower (take 7 s) = ''$fromai''" "dropWhile is_space (drop 7 s) = CHR ''('' # r"
    by (auto simp: match_open_def split: if_splits list.splits)
  then show ?R unfolding dropWhile_Cons_iff call_name_def by (metis append_take_drop_id)
next
  assume ?R
  then obtain name blanks where r: "s = name @ blanks @ CHR ''('' # r" "call_name name" "list_all is_space blanks"
    by blast
  have l: "length name = 7" using r(2) by (auto simp: call_name_def dest: arg_cong [where f = length])
  have "dropWhile is_space (blanks @ CHR ''('' # r) = CHR ''('' # r"
    using r(3) open_not_space by (auto simp: dropWhile_Cons_iff)
  with r l show "match_open s = Some r" by (simp add: match_open_def call_name_def)
qed


subsection \<open>The accepted call is the one that is read\<close>

definition plain_around :: "string \<Rightarrow> string \<Rightarrow> bool" where
  \<comment> \<open>what stands before a part of a text has no dollar sign\<close>
  "plain_around s t \<longleftrightarrow> (\<exists>a b. s = a @ t @ b \<and> CHR ''$'' \<notin> set a)"

lemma plain_around_refl: "plain_around s s"
  unfolding plain_around_def by (rule exI [of _ "[]"]) simp

lemma plain_around_trans: "plain_around s t \<Longrightarrow> plain_around t u \<Longrightarrow> plain_around s u"
proof -
  assume "plain_around s t" "plain_around t u"
  then obtain a b c d where "s = a @ t @ b" "t = c @ u @ d" "CHR ''$'' \<notin> set a" "CHR ''$'' \<notin> set c"
    unfolding plain_around_def by blast
  then show ?thesis unfolding plain_around_def by (intro exI [of _ "a @ c"] exI [of _ "d @ b"]) simp
qed

lemma plain_around_trim: "plain_around s (trim s)"
proof -
  have "\<not> is_space (CHR ''$'')" by (simp add: is_space_def)
  then show ?thesis using trim_split [of s] unfolding plain_around_def list_all_iff by metis
qed

lemma plain_around_drop: "CHR ''$'' \<notin> set (take n s) \<Longrightarrow> plain_around s (drop n s)"
  unfolding plain_around_def by (intro exI [of _ "take n s"] exI [of _ "[]"]) simp

lemma plain_around_butlast: "plain_around s (butlast s)"
  unfolding plain_around_def
  by (rule exI [of _ "[]"]) (metis append_Nil append_butlast_last_id butlast.simps(1) empty_iff list.set(1))

lemma strip_expression_around: "plain_around e (strip_expression e)"
proof -
  define s1 where "s1 = trim (if isExpression e then tl e else e)"
  define s2 where "s2 = (if prefix ''{{'' s1 \<and> suffix ''}}'' s1 then trim (butlast (butlast (drop 2 s1))) else s1)"
  have "plain_around e (if isExpression e then tl e else e)"
    using plain_around_drop [of 1 e] by (cases e) (auto simp: isExpression_def plain_around_refl)
  then have 1: "plain_around e s1" unfolding s1_def by (rule plain_around_trans) (rule plain_around_trim)
  have "plain_around s1 (drop 2 s1)" if "prefix ''{{'' s1"
    using that by (intro plain_around_drop) (auto simp: prefix_def numeral_2_eq_2)
  moreover have "plain_around t (trim (butlast (butlast t)))" for t
    by (blast intro: plain_around_trans plain_around_butlast plain_around_trim)
  ultimately have 2: "plain_around s1 s2"
    unfolding s2_def by (auto intro: plain_around_refl plain_around_trans)
  have m: "CHR ''$'' \<notin> set FROM_AI_AUTO_GENERATED_MARKER" by (simp add: FROM_AI_AUTO_GENERATED_MARKER_def)
  have "plain_around s2 (drop (length FROM_AI_AUTO_GENERATED_MARKER) s2)" if "prefix FROM_AI_AUTO_GENERATED_MARKER s2"
    using that m by (intro plain_around_drop) (auto simp: prefix_def)
  then have 3: "plain_around s2 (strip_expression e)"
    unfolding strip_expression_def s1_def [symmetric] s2_def [symmetric] Let_def
    by (auto intro: plain_around_refl plain_around_trans plain_around_trim)
  from 1 2 3 show ?thesis by (blast intro: plain_around_trans)
qed

lemma call_args_pieces:
  "is_quote q \<Longrightarrow> valid_pieces q ps \<Longrightarrow> 0 < d \<Longrightarrow>
    call_args (Some q) d acc (pieces_text ps @ q # s) = call_args None d (acc @ pieces_text ps @ [q]) s"
  by (induction q ps arbitrary: acc rule: valid_pieces.induct) (auto simp: is_quote_facts not_quote)

lemma call_args_tokens:
  "valid_tokens l ts \<Longrightarrow> call_args None (Suc 0) acc (tokens_text ts @ CHR '')'' # s) = Some (acc @ tokens_text ts)"
  by (induction l ts arbitrary: acc rule: valid_tokens.induct)
    (auto simp: call_args_closed literal_char_facts is_quote_facts call_args_pieces simp del: call_args.simps(2), auto simp: literal_char_facts is_quote_facts call_args_pieces)

lemma drop_blank_tokens:
  "valid_tokens l ts \<Longrightarrow>
    \<exists>us. valid_tokens l us \<and> dropWhile is_space (tokens_text ts @ CHR '')'' # s) = tokens_text us @ CHR '')'' # s"
proof (induction l ts rule: valid_tokens.induct)
  case (1 l)
  then show ?case by (intro exI [of _ "[]"]) (simp add: open_not_space)
next
  case (2 l c ts)
  then show ?case by (cases "is_space c") (auto intro!: exI [of _ "Literal c # ts"])
next
  case (3 l q ps ts)
  then show ?case by (intro exI [of _ "Quoted q ps # ts"]) (simp add: is_quote_facts)
qed

lemma match_call_open: "match_call s = map_option (dropWhile is_space) (match_open s)"
  by (cases "dropWhile is_space (drop 7 s)")
    (simp_all add: match_call_def match_open_def del: dropWhile_eq_Nil_conv)



subsection \<open>Parameters without violations\<close>

fun strings_of :: "js \<Rightarrow> string list" where
  \<comment> \<open>the texts anywhere in a value\<close>
  "strings_of (JStr s) = [s]"
| "strings_of (JArr vs) = concat (map strings_of vs)"
| "strings_of (JObj kvs) = concat (map (\<lambda>(k, v). strings_of v) kvs)"
| "strings_of v = []"

lemma violations_values:
  "map snd (findDisallowedChatToolExpressions v path allowed) = filter (disallowed allowed) (strings_of v)"
  "map snd (item_violations vs i path allowed) = filter (disallowed allowed) (concat (map strings_of vs))"
  "map snd (member_violations kvs path allowed) = filter (disallowed allowed) (concat (map (\<lambda>(k, v). strings_of v) kvs))"
  by (induction v path allowed and vs i path allowed and kvs path allowed
      rule: findDisallowedChatToolExpressions_item_violations_member_violations.induct) auto

text \<open>
  The check of the parameters of a tool reports, in order and with multiplicity, the texts anywhere in them that
  are expressions and neither a single call nor allowed; without a report every text is plain, a single call, or
  one of the allowed defaults.
\<close>

theorem findDisallowedChatToolExpressions_spec:
  "map snd (findDisallowedChatToolExpressions v path allowed) = filter (disallowed allowed) (strings_of v) \<and>
   (findDisallowedChatToolExpressions v path allowed = [] \<longleftrightarrow>
     {s \<in> set (strings_of v). isExpression s} \<subseteq> {s. isFromAIOnlyExpression s} \<union> set (or_empty allowed))"
proof -
  have d: "disallowed allowed s \<longleftrightarrow> isExpression s \<and> s \<notin> {s. isFromAIOnlyExpression s} \<union> set (or_empty allowed)" for s
    by (auto simp: disallowed_def or_empty_def split: option.splits)
  have "findDisallowedChatToolExpressions v path allowed = [] \<longleftrightarrow> filter (disallowed allowed) (strings_of v) = []"
    using violations_values(1) [of v path allowed] by (metis map_is_Nil_conv)
  also have "\<dots> \<longleftrightarrow> {s \<in> set (strings_of v). isExpression s} \<subseteq> {s. isFromAIOnlyExpression s} \<union> set (or_empty allowed)"
    unfolding filter_empty_conv d by blast
  finally show ?thesis using violations_values(1) by blast
qed

text \<open>
  A call without brackets passes, although its text is cut at the brackets inside the quotes, and what stands between
  them is code.
\<close>

definition code_in_quotes :: string where
  "code_in_quotes = ''=$fromAI('' @ [CHR 0x27] @ ''{{ $env.KEY }}'' @ [CHR 0x27] @ '')''"

lemma code_in_quotes_accepted:
  "isFromAIOnlyExpression code_in_quotes"
  "splitExpression (tl code_in_quotes) =
    [ExpressionText (''$fromAI('' @ [CHR 0x27]), ExpressionCode '' $env.KEY '' True, ExpressionText ([CHR 0x27] @ '')'')]"
  by (code_simp, code_simp)

subsection \<open>The defaults that are allowed\<close>

text \<open>
  The properties reached from a list: through the options of a property, through the values of an option, and an
  option with a type and a default is a property itself.
\<close>

inductive default_in :: "string \<Rightarrow> node_property list \<Rightarrow> bool" and option_default_in :: "string \<Rightarrow> node_property list \<Rightarrow> bool" where
  own: "NodeProperty t (Some (JStr s)) os vs \<in> set ps \<Longrightarrow> isExpression s \<Longrightarrow> default_in s ps"
| options: "NodeProperty t d (Some os) vs \<in> set ps \<Longrightarrow> option_default_in s os \<Longrightarrow> default_in s ps"
| "values": "NodeProperty t d os (Some vs) \<in> set ps \<Longrightarrow> default_in s vs \<Longrightarrow> option_default_in s ps"
| property: "NodeProperty (Some t) (Some d) os vs \<in> set ps \<Longrightarrow> default_in s [NodeProperty (Some t) (Some d) os vs] \<Longrightarrow>
    option_default_in s ps"

lemma default_in_simps:
  "\<not> default_in s []" "\<not> option_default_in s []"
  by (auto elim: default_in.cases option_default_in.cases)

lemma default_in_Cons:
  "default_in s (NodeProperty t d os vs # ps) \<longleftrightarrow>
    (d = Some (JStr s) \<and> isExpression s) \<or> (\<exists>ops. os = Some ops \<and> option_default_in s ops) \<or> default_in s ps"
  by (auto elim!: default_in.cases intro: own options)

lemma option_default_in_Cons:
  "option_default_in s (NodeProperty t d os vs # ps) \<longleftrightarrow>
    (\<exists>vals. vs = Some vals \<and> default_in s vals) \<or>
    (t \<noteq> None \<and> d \<noteq> None \<and> default_in s [NodeProperty t d os vs]) \<or> option_default_in s ps"
  by (auto elim!: option_default_in.cases intro: "values" property)

lemma set_add_default: "set (add_default d defaults) = set defaults \<union> {s. d = Some (JStr s) \<and> isExpression s}"
  by (cases "(d, defaults)" rule: add_default.cases) auto

lemma collectDefaults_set:
  "set (collectDefaults ps defaults) = set defaults \<union> {s. default_in s ps}"
  "set (collect_options os defaults) = set defaults \<union> {s. option_default_in s os}"
proof (induction ps defaults and os defaults rule: collectDefaults_collect_options.induct)
  case (2 t d os vs props defaults)
  then show ?case by (cases os) (auto simp: default_in_Cons set_add_default)
next
  case (4 t d os vs ops defaults)
  then show ?case
    by (cases os; cases vs) (auto simp: option_default_in_Cons default_in_Cons default_in_simps set_add_default Let_def)
qed (auto simp: default_in_simps)

lemma collectExpressionDefaults_spec: "s \<in> set (collectExpressionDefaults ps) \<longleftrightarrow> default_in s ps"
  by (simp add: collectExpressionDefaults_def collectDefaults_set)

end
