(* ===== verification/DisplayParameter.thy ===== *)
theory DisplayParameter
  imports WorkflowTypes Sorting FromAIOnly
begin

section \<open>Which parameters are displayed\<close>

text \<open>
  \<^verbatim>\<open>checkConditions\<close>, \<^verbatim>\<open>getPropertyValues\<close>, \<^verbatim>\<open>displayParameter\<close>, \<^verbatim>\<open>displayParameterPath\<close>, \<^verbatim>\<open>getNodeFeatures\<close> and
  \<^verbatim>\<open>getActiveCredentialTypes\<close> of \<^verbatim>\<open>packages/workflow/src/node-helpers.ts\<close>. Parameters of the model are \<^verbatim>\<open>get\<close> and
  \<^verbatim>\<open>isEqual\<close> of \<^verbatim>\<open>lodash\<close>, the test of a regular expression, and the conversions of the language to primitive
  values, numbers and strings where they are not written out. The lemmas show what the rules mean, and that they are
  read in order: the first value that is an expression ends the check.
\<close>

record display_env =
  de_get :: "js \<Rightarrow> string \<Rightarrow> js"
  de_isEqual :: "js \<Rightarrow> js \<Rightarrow> bool"
  de_regex :: "string \<Rightarrow> string \<Rightarrow> bool"
  de_primitive :: "js \<Rightarrow> js"
  de_number :: "string \<Rightarrow> js_number"
  de_string :: "js \<Rightarrow> string"

subsection \<open>Comparisons of the language\<close>

fun to_primitive :: "display_env \<Rightarrow> js \<Rightarrow> js" where
  "to_primitive env (JArr vs) = de_primitive env (JArr vs)"
| "to_primitive env (JObj kvs) = de_primitive env (JObj kvs)"
| "to_primitive env v = v"

fun to_number :: "display_env \<Rightarrow> js \<Rightarrow> js_number" where
  "to_number env JNull = Finite 0"
| "to_number env (JBool b) = Finite (if b then 1 else 0)"
| "to_number env (JNum n) = n"
| "to_number env (JStr s) = de_number env s"
| "to_number env v = NaN"

fun number_less :: "js_number \<Rightarrow> js_number \<Rightarrow> bool" where
  "number_less (Finite a) (Finite b) = (a < b)"
| "number_less NegInfinity (Finite b) = True"
| "number_less NegInfinity PosInfinity = True"
| "number_less (Finite a) PosInfinity = True"
| "number_less _ _ = False"

definition js_less :: "display_env \<Rightarrow> js \<Rightarrow> js \<Rightarrow> bool" where
  "js_less env a b =
     (case (to_primitive env a, to_primitive env b) of
        (JStr s, JStr t) \<Rightarrow> s \<noteq> t \<and> string_le s t
      | (p, q) \<Rightarrow> number_less (to_number env p) (to_number env q))"

definition js_less_eq :: "display_env \<Rightarrow> js \<Rightarrow> js \<Rightarrow> bool" where
  \<comment> \<open>false if one of the numbers is \<^verbatim>\<open>NaN\<close>\<close>
  "js_less_eq env a b =
     (case (to_primitive env a, to_primitive env b) of
        (JStr s, JStr t) \<Rightarrow> string_le s t
      | (p, q) \<Rightarrow> let m = to_number env p; n = to_number env q in m \<noteq> NaN \<and> n \<noteq> NaN \<and> \<not> number_less n m)"

fun to_str :: "display_env \<Rightarrow> js \<Rightarrow> string" where
  "to_str env (JStr s) = s"
| "to_str env v = de_string env v"

fun is_object_value :: "js \<Rightarrow> bool" where
  "is_object_value (JArr vs) = True"
| "is_object_value (JObj kvs) = True"
| "is_object_value v = False"

text \<open>\<^verbatim>\<open>includes\<close>: arrays and objects are compared by identity, and no value is the object of a condition.\<close>

definition includes_value :: "js \<Rightarrow> js list \<Rightarrow> bool" where
  "includes_value v vs \<longleftrightarrow> \<not> is_object_value v \<and> v \<in> set vs"

fun get_property :: "js \<Rightarrow> string \<Rightarrow> js" where
  "get_property (JObj kvs) k = (case obj_get kvs k of None \<Rightarrow> JUndefined | Some v \<Rightarrow> v)"
| "get_property v k = JUndefined"

fun value_entries :: "js \<Rightarrow> (string \<times> js) list" where
  \<comment> \<open>\<^verbatim>\<open>Object.entries\<close> of a value that is neither \<^verbatim>\<open>undefined\<close> nor \<^verbatim>\<open>null\<close>\<close>
  "value_entries (JObj kvs) = kvs"
| "value_entries (JArr vs) = map (\<lambda>(i, v). (show_nat i, v)) (enumerate 0 vs)"
| "value_entries (JStr s) = map (\<lambda>(i, c). (show_nat i, JStr [c])) (enumerate 0 s)"
| "value_entries _ = []"

subsection \<open>Conditions\<close>

definition check_value :: "display_env \<Rightarrow> string \<Rightarrow> js \<Rightarrow> js \<Rightarrow> bool result" where
  "check_value env key targetValue propertyValue =
     (if key = ''eq'' then Inr (de_isEqual env propertyValue targetValue)
      else if key = ''not'' then Inr (\<not> de_isEqual env propertyValue targetValue)
      else if key = ''gte'' then Inr (js_less_eq env targetValue propertyValue)
      else if key = ''lte'' then Inr (js_less_eq env propertyValue targetValue)
      else if key = ''gt'' then Inr (js_less env targetValue propertyValue)
      else if key = ''lt'' then Inr (js_less env propertyValue targetValue)
      else if key = ''between''
      then if targetValue = JUndefined \<or> targetValue = JNull then Inl (TypeError ''Cannot destructure'')
           else Inr (js_less_eq env (get_property targetValue ''from'') propertyValue \<and>
                     js_less_eq env propertyValue (get_property targetValue ''to''))
      else if key = ''exists''
      then Inr (propertyValue \<noteq> JNull \<and> propertyValue \<noteq> JUndefined \<and> propertyValue \<noteq> JStr [])
      else Inr (case propertyValue of
             JStr s \<Rightarrow>
               if key = ''includes'' then sublist (to_str env targetValue) s
               else if key = ''startsWith'' then prefix (to_str env targetValue) s
               else if key = ''endsWith'' then suffix (to_str env targetValue) s
               else key = ''regex'' \<and> de_regex env (to_str env targetValue) s
           | _ \<Rightarrow> False))"

fun every_result :: "('a \<Rightarrow> bool result) \<Rightarrow> 'a list \<Rightarrow> bool result" where
  "every_result f [] = Inr True"
| "every_result f (x # xs) = bind_result (f x) (\<lambda>b. if b then every_result f xs else Inr False)"

fun some_result :: "('a \<Rightarrow> bool result) \<Rightarrow> 'a list \<Rightarrow> bool result" where
  "some_result f [] = Inr False"
| "some_result f (x # xs) = bind_result (f x) (\<lambda>b. if b then Inr True else some_result f xs)"

text \<open>An object with \<^verbatim>\<open>_cnd\<close> as its only key; otherwise the condition is a value.\<close>

fun condition_entries :: "js \<Rightarrow> (string \<times> js) list option" where
  "condition_entries (JObj [(k, cnd)]) = (if k = ''_cnd'' \<and> js_truthy cnd then Some (value_entries cnd) else None)"
| "condition_entries _ = None"

definition check_condition :: "display_env \<Rightarrow> js list \<Rightarrow> js \<Rightarrow> bool result" where
  "check_condition env actualValues condition =
     (case condition_entries condition of
        None \<Rightarrow> Inr (includes_value condition actualValues)
      | Some [] \<Rightarrow> Inl (TypeError ''undefined is not iterable'')
      | Some ((key, targetValue) # _) \<Rightarrow>
          if actualValues = [] then Inr (key = ''not'')
          else every_result (check_value env key targetValue) actualValues)"

definition checkConditions :: "display_env \<Rightarrow> js list \<Rightarrow> js list \<Rightarrow> bool result" where
  "checkConditions env conditions actualValues = some_result (check_condition env actualValues) conditions"

subsection \<open>Features of a node type\<close>

type_synonym features_definition = "js list jsobj"

definition evaluateFeature :: "display_env \<Rightarrow> js list \<Rightarrow> rat \<Rightarrow> bool result" where
  "evaluateFeature env conditions nodeVersion = checkConditions env conditions [JNum (Finite nodeVersion)]"

definition getNodeFeatures :: "display_env \<Rightarrow> features_definition option \<Rightarrow> rat \<Rightarrow> bool jsobj result" where
  "getNodeFeatures env featuresDef nodeVersion =
     (case featuresDef of
        None \<Rightarrow> Inr []
      | Some fs \<Rightarrow>
          fold_result (\<lambda>(featureName, condition) features.
            bind_result (evaluateFeature env condition nodeVersion) (\<lambda>b. Inr (obj_set featureName b features))) fs [])"

subsection \<open>The values of a property\<close>

text \<open>Rules in the order of their keys; \<open>None\<close> for parameters without display options.\<close>

type_synonym display_rules = "(string \<times> js list) list"
type_synonym display_options = "(display_rules option \<times> display_rules option) option"

record node_description =
  nd_name :: string
  nd_features :: "features_definition option"
  nd_credentials :: "(string \<times> display_options) list"
  nd_properties :: "(string \<times> display_options) list"

definition ends_with_tool :: "string \<Rightarrow> bool" where
  "ends_with_tool s \<longleftrightarrow> suffix ''Tool'' s"

definition unwrap_locator :: "js \<Rightarrow> js" where
  \<comment> \<open>the value of a resource locator\<close>
  "unwrap_locator value =
     (case value of JObj kvs \<Rightarrow> if js_truthy (get_property value ''__rl'') then get_property value ''value'' else value
      | _ \<Rightarrow> value)"

definition as_values :: "js \<Rightarrow> js list" where
  "as_values value = (case unwrap_locator value of JArr vs \<Rightarrow> vs | v \<Rightarrow> [v])"

text \<open>The version of the node is \<open>None\<close> for credentials, which have no node.\<close>

definition getPropertyValues ::
  "display_env \<Rightarrow> js \<Rightarrow> string \<Rightarrow> rat option \<Rightarrow> node_description option \<Rightarrow> js \<Rightarrow> js list result" where
  "getPropertyValues env nodeValues propertyName version description nodeValuesRoot =
     (if take 1 propertyName = ''/'' then Inr (as_values (de_get env nodeValuesRoot (tl propertyName)))
      else if propertyName = ''@version''
      then Inr [JNum (Finite (case version of None \<Rightarrow> 0 | Some v \<Rightarrow> v))]
      else if propertyName = ''@tool''
      then Inr [JBool (case description of None \<Rightarrow> False | Some d \<Rightarrow> ends_with_tool (nd_name d))]
      else if propertyName = ''@feature''
      then (case (description, version) of
              (Some d, Some v) \<Rightarrow>
                if nd_features d = None \<or> v = 0 then Inr []
                else bind_result (getNodeFeatures env (nd_features d) v) (\<lambda>features.
                       Inr (map (\<lambda>(n, b). JStr n) (filter snd features)))
            | _ \<Rightarrow> Inr [])
      else Inr (as_values (de_get env nodeValues propertyName)))"

subsection \<open>Display options\<close>

definition is_expression_value :: "js \<Rightarrow> bool" where
  "is_expression_value v = (case v of JStr s \<Rightarrow> isExpression s | _ \<Rightarrow> False)"

text \<open>\<^verbatim>\<open>Some True\<close> if an expression ends the check, \<^verbatim>\<open>Some False\<close> if a rule does not match.\<close>

fun show_loop ::
  "(string \<Rightarrow> js list result) \<Rightarrow> (js list \<Rightarrow> js list \<Rightarrow> bool result) \<Rightarrow> display_rules \<Rightarrow> bool option result" where
  "show_loop valuesOf check [] = Inr None"
| "show_loop valuesOf check ((propertyName, conditions) # rules) =
     bind_result (valuesOf propertyName) (\<lambda>values.
       if list_ex is_expression_value values then Inr (Some True)
       else bind_result (check conditions values) (\<lambda>b.
         if \<not> b then Inr (Some False) else show_loop valuesOf check rules))"

fun hide_loop ::
  "(string \<Rightarrow> js list result) \<Rightarrow> (js list \<Rightarrow> js list \<Rightarrow> bool result) \<Rightarrow> display_rules \<Rightarrow> bool result" where
  "hide_loop valuesOf check [] = Inr True"
| "hide_loop valuesOf check ((propertyName, conditions) # rules) =
     bind_result (valuesOf propertyName) (\<lambda>values.
       if values = [] then hide_loop valuesOf check rules
       else bind_result (check conditions values) (\<lambda>b. if b then Inr False else hide_loop valuesOf check rules))"

text \<open>The options are those of the key asked for, \<^verbatim>\<open>displayOptions\<close> or \<^verbatim>\<open>disabledOptions\<close>.\<close>

definition displayParameter ::
  "display_env \<Rightarrow> js \<Rightarrow> display_options \<Rightarrow> rat option \<Rightarrow> node_description option \<Rightarrow>
    js option \<Rightarrow> bool result" where
  "displayParameter env nodeValues options version description nodeValuesRoot =
     (case options of
        None \<Rightarrow> Inr True
      | Some (shown, hidden) \<Rightarrow>
          let root = (case nodeValuesRoot of None \<Rightarrow> nodeValues | Some r \<Rightarrow> if js_truthy r then r else nodeValues);
              valuesOf = (\<lambda>propertyName. getPropertyValues env nodeValues propertyName version description root) in
          bind_result (show_loop valuesOf (checkConditions env) (or_empty shown)) (\<lambda>r.
            case r of
              Some b \<Rightarrow> Inr b
            | None \<Rightarrow> hide_loop valuesOf (checkConditions env) (or_empty hidden)))"

definition displayParameterPath ::
  "display_env \<Rightarrow> js \<Rightarrow> display_options \<Rightarrow> string \<Rightarrow> rat option \<Rightarrow>
    node_description option \<Rightarrow> bool result" where
  "displayParameterPath env nodeValues options path version description =
     displayParameter env (if path \<noteq> [] then de_get env nodeValues path else nodeValues) options version description
       (Some (if path \<noteq> [] \<and> takeWhile (\<lambda>c. c \<noteq> CHR ''.'') path = ''parameters''
              then de_get env nodeValues ''parameters'' else nodeValues))"

subsection \<open>Credentials in use\<close>

fun dynamic_types ::
  "display_env \<Rightarrow> js \<Rightarrow> rat \<Rightarrow> node_description \<Rightarrow> string list \<Rightarrow> string list \<Rightarrow> string list option result" where
  "dynamic_types env parameters version d activeTypes [] = Inr (Some activeTypes)"
| "dynamic_types env parameters version d activeTypes (paramName # names) =
     (case get_property parameters paramName of
        JStr s \<Rightarrow>
          if s = [] then dynamic_types env parameters version d activeTypes names
          else bind_result
            (case List.find (\<lambda>p. fst p = paramName) (nd_properties d) of
               None \<Rightarrow> Inr True
             | Some (_, opts) \<Rightarrow> displayParameter env parameters opts (Some version) (Some d) None)
            (\<lambda>displayed.
               if \<not> displayed then dynamic_types env parameters version d activeTypes names
               else if isExpression s then Inr None
               else dynamic_types env parameters version d (set_add s activeTypes) names)
      | _ \<Rightarrow> dynamic_types env parameters version d activeTypes names)"

definition getActiveCredentialTypes ::
  "display_env \<Rightarrow> js \<Rightarrow> rat \<Rightarrow> node_description option \<Rightarrow> string list option" where
  "getActiveCredentialTypes env parameters version description =
     (case description of
        None \<Rightarrow> None
      | Some d \<Rightarrow>
          (case bind_result
             (fold_result (\<lambda>(name, opts) activeTypes.
                bind_result (displayParameter env parameters opts (Some version) (Some d) None) (\<lambda>b.
                  Inr (if b then set_add name activeTypes else activeTypes))) (nd_credentials d) [])
             (\<lambda>activeTypes. dynamic_types env parameters version d activeTypes [''nodeCredentialType'', ''genericAuthType'']) of
             Inl _ \<Rightarrow> None
           | Inr r \<Rightarrow> r))"

subsection \<open>What the rules mean\<close>

text \<open>A rule is settled when its values can be read and its conditions checked without an error.\<close>

definition settled_rules ::
  "(string \<Rightarrow> js list result) \<Rightarrow> (js list \<Rightarrow> js list \<Rightarrow> bool result) \<Rightarrow> display_rules \<Rightarrow> bool" where
  "settled_rules valuesOf check rules \<longleftrightarrow>
     list_all (\<lambda>(p, cs). case valuesOf p of Inl e \<Rightarrow> False | Inr vs \<Rightarrow> (case check cs vs of Inl e \<Rightarrow> False | Inr b \<Rightarrow> True)) rules"

definition rule_values :: "(string \<Rightarrow> js list result) \<Rightarrow> string \<times> js list \<Rightarrow> js list" where
  "rule_values valuesOf rule = (case valuesOf (fst rule) of Inl e \<Rightarrow> [] | Inr vs \<Rightarrow> vs)"

definition rule_matches ::
  "(string \<Rightarrow> js list result) \<Rightarrow> (js list \<Rightarrow> js list \<Rightarrow> bool result) \<Rightarrow> string \<times> js list \<Rightarrow> bool" where
  "rule_matches valuesOf check rule = (check (snd rule) (rule_values valuesOf rule) = Inr True)"

definition rule_unknown :: "(string \<Rightarrow> js list result) \<Rightarrow> string \<times> js list \<Rightarrow> bool" where
  \<comment> \<open>one of the values is an expression\<close>
  "rule_unknown valuesOf rule = list_ex is_expression_value (rule_values valuesOf rule)"

lemma settled_rules_Cons:
  "settled_rules vf check ((p, cs) # rules) \<longleftrightarrow>
    (\<exists>vs b. vf p = Inr vs \<and> check cs vs = Inr b) \<and> settled_rules vf check rules"
  by (auto simp: settled_rules_def split: sum.splits)

lemma rule_Inr:
  "vf p = Inr vs \<Longrightarrow> rule_values vf (p, cs) = vs"
  "vf p = Inr vs \<Longrightarrow> check cs vs = Inr b \<Longrightarrow> rule_matches vf check (p, cs) = b"
  by (simp_all add: rule_values_def rule_matches_def)

lemma show_loop_settled:
  "settled_rules vf check rules \<Longrightarrow>
    show_loop vf check rules =
      Inr (case List.find (\<lambda>r. rule_unknown vf r \<or> \<not> rule_matches vf check r) rules of
             None \<Rightarrow> None | Some r \<Rightarrow> Some (rule_unknown vf r))"
proof (induction rules)
  case (Cons r rules)
  obtain p cs where r: "r = (p, cs)" by (cases r)
  then obtain vs b where "vf p = Inr vs" "check cs vs = Inr b" "settled_rules vf check rules"
    using Cons.prems by (auto simp: settled_rules_Cons)
  with Cons.IH show ?case unfolding r by (simp add: rule_Inr rule_unknown_def)
qed simp

lemma hide_loop_settled:
  "settled_rules vf check rules \<Longrightarrow>
    hide_loop vf check rules = Inr (\<not> list_ex (\<lambda>r. rule_values vf r \<noteq> [] \<and> rule_matches vf check r) rules)"
proof (induction rules)
  case (Cons r rules)
  obtain p cs where r: "r = (p, cs)" by (cases r)
  then obtain vs b where "vf p = Inr vs" "check cs vs = Inr b" "settled_rules vf check rules"
    using Cons.prems by (auto simp: settled_rules_Cons)
  with Cons.IH show ?case unfolding r by (simp add: rule_Inr)
qed simp

definition values_of :: "display_env \<Rightarrow> js \<Rightarrow> rat option \<Rightarrow> node_description option \<Rightarrow> js option \<Rightarrow> string \<Rightarrow> js list result" where
  "values_of env nodeValues version d base propertyName =
     getPropertyValues env nodeValues propertyName version d
       (case base of None \<Rightarrow> nodeValues | Some r \<Rightarrow> if js_truthy r then r else nodeValues)"


text \<open>An example: the rule that is read first decides whether the expression or the rule that fails is seen.\<close>

definition plain_env :: display_env where
  "plain_env =
     \<lparr>de_get = (\<lambda>v p. get_property v p), de_isEqual = (=), de_regex = (\<lambda>_ _. False), de_primitive = (\<lambda>v. v),
      de_number = (\<lambda>_. NaN), de_string = (\<lambda>_. [])\<rparr>"

definition example_values :: js where
  "example_values = JObj [(''mode'', JStr ''=x''), (''kind'', JStr ''b'')]"


lemma displayParameter_order_matters:
  "displayParameter plain_env example_values
     (Some (Some [(''kind'', [JStr ''a'']), (''mode'', [JStr ''m''])], None)) None None None = Inr False"
  by code_simp

text \<open>Without an expression the order of the rules does not matter.\<close>

lemma displayParameter_plain:
  assumes "settled_rules (values_of env nodeValues version d base) (checkConditions env) (or_empty shown @ or_empty hidden)"
    and "list_all (\<lambda>r. \<not> rule_unknown (values_of env nodeValues version d base) r) (or_empty shown)"
  shows "displayParameter env nodeValues (Some (shown, hidden)) version d base =
    Inr (list_all (rule_matches (values_of env nodeValues version d base) (checkConditions env)) (or_empty shown) \<and>
         \<not> list_ex (\<lambda>r. rule_values (values_of env nodeValues version d base) r \<noteq> [] \<and>
             rule_matches (values_of env nodeValues version d base) (checkConditions env) r) (or_empty hidden))"
proof -
  let ?vf = "values_of env nodeValues version d base"
  have s: "settled_rules ?vf (checkConditions env) (or_empty shown)" "settled_rules ?vf (checkConditions env) (or_empty hidden)"
    using assms(1) by (simp_all add: settled_rules_def)
  have v: "(\<lambda>p. getPropertyValues env nodeValues p version d
      (case base of None \<Rightarrow> nodeValues | Some r \<Rightarrow> if js_truthy r then r else nodeValues)) = ?vf"
    by (simp add: values_of_def fun_eq_iff)
  have f: "List.find (\<lambda>r. rule_unknown ?vf r \<or> \<not> rule_matches ?vf (checkConditions env) r) (or_empty shown) =
      List.find (\<lambda>r. \<not> rule_matches ?vf (checkConditions env) r) (or_empty shown)"
    using assms(2) by (induction "or_empty shown") (auto simp: list_all_iff intro: find_cong)
  show ?thesis
    unfolding displayParameter_def option.case prod.case Let_def v show_loop_settled [OF s(1)] hide_loop_settled [OF s(2)]
      bind_result_Inr f
    using assms(2) by (auto simp: list_all_iff find_None_iff dest: find_SomeD split: option.splits)
qed

end
