(* ===== verification/WorkflowStructure.thy ===== *)
theory WorkflowStructure
  imports WorkflowTypes
begin

section \<open>The structure of a workflow\<close>

text \<open>
  \<^verbatim>\<open>packages/workflow/src/workflow-structure-validation.ts\<close>: what is checked of a workflow before it is opened or
  stored. The schema of \<^verbatim>\<open>zod\<close>, which checks the shape, is a parameter that gives issues or the parsed workflow;
  the checks across nodes and connections are those of the source. The result says when a workflow passes.
\<close>

subsection \<open>Issues\<close>

datatype path_segment = Key string | Index nat

record structure_issue =
  si_code :: string
  si_path :: "path_segment list"
  si_message :: string

record structure_node =
  sn_name :: string
  sn_id :: "string option"

record workflow_structure =
  st_nodes :: "structure_node list"
  st_connections :: connections

definition path_step :: "string \<Rightarrow> path_segment \<Rightarrow> string" where
  "path_step acc segment =
     (case segment of
        Index i \<Rightarrow> acc @ ''['' @ show_nat i @ '']''
      | Key k \<Rightarrow> if acc \<noteq> [] then acc @ ''.'' @ k else k)"

definition formatWorkflowStructureIssuePath :: "path_segment list \<Rightarrow> string" where
  "formatWorkflowStructureIssuePath path = (if path = [] then ''workflow'' else foldl path_step [] path)"

fun join_lines :: "string list \<Rightarrow> string" where
  "join_lines [] = []"
| "join_lines [s] = s"
| "join_lines (s # t # ss) = s @ [CHR 0x0A] @ join_lines (t # ss)"

definition formatIssuesDescription :: "structure_issue list \<Rightarrow> string" where
  "formatIssuesDescription issues =
     join_lines (map (\<lambda>i. formatWorkflowStructureIssuePath (si_path i) @ '': '' @ si_message i) issues)"

subsection \<open>Nodes\<close>

definition quoted :: "string \<Rightarrow> string" where
  "quoted s = [CHR 0x22] @ s @ [CHR 0x22]"

text \<open>The issues, the names seen, and the name of the first node with an id.\<close>

type_synonym node_checks = "structure_issue list \<times> string list \<times> (string, string) jsmap"

definition check_node_id :: "nat \<Rightarrow> structure_node \<Rightarrow> node_checks \<Rightarrow> node_checks" where
  "check_node_id index n = (\<lambda>(issues, nodeNames, nodeNameById).
     case sn_id n of
       None \<Rightarrow> (issues, nodeNames, nodeNameById)
     | Some i \<Rightarrow>
         if i = [] then (issues, nodeNames, nodeNameById)
         else case map_get nodeNameById i of
                None \<Rightarrow> (issues, nodeNames, map_set i (sn_name n) nodeNameById)
              | Some firstNodeName \<Rightarrow>
                  (issues @ [\<lparr>si_code = ''duplicate_node_id'', si_path = [Key ''nodes'', Index index, Key ''id''],
                     si_message = ''Nodes '' @ quoted firstNodeName @ '' and '' @ quoted (sn_name n) @
                       '' share the node ID '' @ quoted i\<rparr>], nodeNames, nodeNameById))"

definition check_node_name :: "nat \<Rightarrow> structure_node \<Rightarrow> node_checks \<Rightarrow> node_checks" where
  "check_node_name index n = (\<lambda>(issues, nodeNames, nodeNameById).
     if sn_name n \<in> set nodeNames
     then (issues @ [\<lparr>si_code = ''duplicate_node_name'', si_path = [Key ''nodes'', Index index, Key ''name''],
             si_message = ''Duplicate node name '' @ quoted (sn_name n)\<rparr>], nodeNames, nodeNameById)
     else (issues, set_add (sn_name n) nodeNames, nodeNameById))"

fun check_nodes :: "nat \<Rightarrow> structure_node list \<Rightarrow> node_checks \<Rightarrow> node_checks" where
  "check_nodes index [] s = s"
| "check_nodes index (n # ns) s = check_nodes (Suc index) ns (check_node_name index n (check_node_id index n s))"

subsection \<open>Connections\<close>

definition check_target ::
  "string list \<Rightarrow> string \<Rightarrow> string \<Rightarrow> nat \<Rightarrow> nat \<Rightarrow> connection \<Rightarrow> structure_issue list" where
  "check_target nodeNames sourceNodeName connectionType sourceIndex targetIndex c =
     (if c_node c \<in> set nodeNames then []
      else [\<lparr>si_code = ''unknown_connection_target'',
              si_path = [Key ''connections'', Key sourceNodeName, Key connectionType, Index sourceIndex,
                Index targetIndex, Key ''node''],
              si_message = ''Connection target '' @ quoted (c_node c) @ '' does not reference an existing node''\<rparr>])"

definition check_buckets :: "string list \<Rightarrow> string \<Rightarrow> string \<Rightarrow> node_inputs \<Rightarrow> structure_issue list" where
  "check_buckets nodeNames sourceNodeName connectionType buckets =
     concat (map (\<lambda>(sourceIndex, bucket).
       concat (map (\<lambda>(targetIndex, c). check_target nodeNames sourceNodeName connectionType sourceIndex targetIndex c)
         (enumerate 0 (slot_list bucket)))) (enumerate 0 buckets))"

definition check_source :: "string list \<Rightarrow> string \<times> node_connections \<Rightarrow> structure_issue list" where
  "check_source nodeNames = (\<lambda>(sourceNodeName, connectionTypes).
     (if sourceNodeName \<in> set nodeNames then []
      else [\<lparr>si_code = ''unknown_connection_source'', si_path = [Key ''connections'', Key sourceNodeName],
              si_message = ''Connection source '' @ quoted sourceNodeName @ '' does not reference an existing node''\<rparr>]) @
     concat (map (\<lambda>(connectionType, buckets). check_buckets nodeNames sourceNodeName connectionType buckets) connectionTypes))"

definition safeParseWorkflowStructure ::
  "('i \<Rightarrow> structure_issue list + workflow_structure) \<Rightarrow> 'i \<Rightarrow> structure_issue list + workflow_structure" where
  "safeParseWorkflowStructure schema input =
     (case schema input of
        Inl zodIssues \<Rightarrow> Inl zodIssues
      | Inr parsed \<Rightarrow>
          (case check_nodes 0 (st_nodes parsed) ([], [], []) of
             (issues, nodeNames, _) \<Rightarrow>
               let issues = issues @ concat (map (check_source nodeNames) (st_connections parsed)) in
               if issues \<noteq> [] then Inl issues else Inr parsed))"

text \<open>The error carries the issues and their description.\<close>

definition parseWorkflowStructure ::
  "('i \<Rightarrow> structure_issue list + workflow_structure) \<Rightarrow> 'i \<Rightarrow> (structure_issue list \<times> string) + workflow_structure" where
  "parseWorkflowStructure schema input =
     (case safeParseWorkflowStructure schema input of
        Inl issues \<Rightarrow> Inl (issues, formatIssuesDescription issues)
      | Inr parsed \<Rightarrow> Inr parsed)"

subsection \<open>When a workflow passes\<close>

definition node_ids :: "structure_node list \<Rightarrow> string list" where
  \<comment> \<open>the ids that are given\<close>
  "node_ids ns = filter (\<lambda>i. i \<noteq> []) (concat (map (\<lambda>n. case sn_id n of None \<Rightarrow> [] | Some i \<Rightarrow> [i]) ns))"

lemma given_id:
  "node_ids [n] = (case sn_id n of None \<Rightarrow> [] | Some i \<Rightarrow> if i = [] then [] else [i])"
  by (simp add: node_ids_def split: option.splits)

lemma check_node_id_spec:
  assumes "check_node_id k n (issues, names, ids) = (is1, names1, ids1)"
  shows "names1 = names" (is ?A)
    and "\<exists>x. is1 = issues @ x \<and> (x = [] \<longleftrightarrow> set (node_ids [n]) \<inter> fst ` set ids = {})" (is ?B)
    and "fst ` set ids1 = fst ` set ids \<union> set (node_ids [n])" (is ?C)
proof -
  have *: "?A \<and> ?B \<and> ?C"
  proof (cases "sn_id n")
    case None
    with assms show ?thesis by (simp add: check_node_id_def given_id)
  next
    case (Some i)
    show ?thesis
    proof (cases "i = []")
      case True
      with assms Some show ?thesis by (simp add: check_node_id_def given_id)
    next
      case False
      show ?thesis
      proof (cases "map_get ids i")
        case None
        with assms Some False have "is1 = issues" "names1 = names" "ids1 = map_set i (sn_name n) ids"
          by (simp_all add: check_node_id_def)
        moreover have "i \<notin> fst ` set ids" using None by (simp add: map_of_eq_None_iff)
        ultimately show ?thesis
          using Some False set_keys_set [of i "sn_name n" ids] by (simp add: given_id)
      next
        case (Some f)
        then have "i \<in> fst ` set ids" by (metis image_eqI map_of_SomeD fst_conv)
        with assms Some False \<open>sn_id n = Some i\<close> show ?thesis
          by (auto simp add: check_node_id_def given_id)
      qed
    qed
  qed
  show ?A ?B ?C using * by simp_all
qed

lemma check_nodes_spec:
  "check_nodes k ns (issues, names, ids) = (issues', names', ids') \<Longrightarrow>
    (\<exists>more. issues' = issues @ more \<and>
      (more = [] \<longleftrightarrow> distinct (map sn_name ns) \<and> set (map sn_name ns) \<inter> set names = {} \<and>
        distinct (node_ids ns) \<and> set (node_ids ns) \<inter> fst ` set ids = {})) \<and>
    set names' = set names \<union> sn_name ` set ns"
proof (induction ns arbitrary: k issues names ids)
  case Nil
  then show ?case by (auto simp: node_ids_def)
next
  case (Cons n ns)
  obtain is1 x ids1 where 0: "check_node_id k n (issues, names, ids) = (is1, x, ids1)"
    by (cases "check_node_id k n (issues, names, ids)")
  note step = check_node_id_spec [OF 0]
  from 0 step(1) have 1: "check_node_id k n (issues, names, ids) = (is1, names, ids1)" by simp
  obtain is2 names2 y where "check_node_name k n (is1, names, ids1) = (is2, names2, y)"
    by (cases "check_node_name k n (is1, names, ids1)")
  then have 2: "check_node_name k n (is1, names, ids1) = (is2, names2, ids1)"
    and n2: "set names2 = insert (sn_name n) (set names)"
    by (auto simp: check_node_name_def split: if_splits)
  have rest: "check_nodes (Suc k) ns (is2, names2, ids1) = (issues', names', ids')"
    using Cons.prems 1 2 by simp
  obtain more where
    more: "issues' = is2 @ more" "set names' = set names2 \<union> sn_name ` set ns"
      "more = [] \<longleftrightarrow> distinct (map sn_name ns) \<and> set (map sn_name ns) \<inter> set names2 = {} \<and>
        distinct (node_ids ns) \<and> set (node_ids ns) \<inter> fst ` set ids1 = {}"
    using Cons.IH [OF rest] by blast
  have i2: "\<exists>x. is2 = is1 @ x \<and> (x = [] \<longleftrightarrow> sn_name n \<notin> set names)"
    using 2 by (auto simp: check_node_name_def split: if_splits)
  have split: "node_ids (n # ns) = node_ids [n] @ node_ids ns" and one: "distinct (node_ids [n])"
    by (auto simp: node_ids_def split: option.splits)
  from step(2) obtain x where x: "is1 = issues @ x" "x = [] \<longleftrightarrow> set (node_ids [n]) \<inter> fst ` set ids = {}" by blast
  from i2 obtain y where y: "is2 = is1 @ y" "y = [] \<longleftrightarrow> sn_name n \<notin> set names" by blast
  have "issues' = issues @ x @ y @ more" using x y more by simp
  moreover have "x @ y @ more = [] \<longleftrightarrow> distinct (map sn_name (n # ns)) \<and> set (map sn_name (n # ns)) \<inter> set names = {} \<and>
      distinct (node_ids (n # ns)) \<and> set (node_ids (n # ns)) \<inter> fst ` set ids = {}"
    using one unfolding append_is_Nil_conv x(2) y(2) more(3) n2 step(3) split by auto
  moreover have "set names' = set names \<union> sn_name ` set (n # ns)" using more(2) n2 by auto
  ultimately show ?case by blast
qed

text \<open>Each check of a connection gives no issue exactly when its node exists.\<close>

lemma check_target_none [simp]: "check_target names s t i j c = [] \<longleftrightarrow> c_node c \<in> set names"
  by (simp add: check_target_def)

lemma check_buckets_none:
  "check_buckets names s t buckets = [] \<longleftrightarrow> (\<forall>bucket \<in> set buckets. \<forall>c \<in> set (slot_list bucket). c_node c \<in> set names)"
  by (auto simp: check_buckets_def concat_eq_Nil_conv enumerate_eq_zip set_zip in_set_conv_nth) (force simp: in_set_conv_nth)+

lemma check_source_none:
  "check_source names (s, types) = [] \<longleftrightarrow> s \<in> set names \<and>
    (\<forall>(t, buckets) \<in> set types. \<forall>bucket \<in> set buckets. \<forall>c \<in> set (slot_list bucket). c_node c \<in> set names)"
  by (auto simp: check_source_def check_buckets_none split: prod.splits)

text \<open>
  C34. A workflow is accepted exactly when the schema accepts it, its nodes have different names, the ids that are given
  differ, and every source and every target of a connection is the name of one of its nodes. What is returned is what
  the schema parsed.
\<close>

theorem safeParseWorkflowStructure_spec:
  "safeParseWorkflowStructure schema input = Inr w \<longleftrightarrow>
    schema input = Inr w \<and> distinct (map sn_name (st_nodes w)) \<and> distinct (node_ids (st_nodes w)) \<and>
    (\<forall>(s, types) \<in> set (st_connections w). s \<in> sn_name ` set (st_nodes w) \<and>
      (\<forall>(t, buckets) \<in> set types. \<forall>bucket \<in> set buckets. \<forall>c \<in> set (slot_list bucket).
        c_node c \<in> sn_name ` set (st_nodes w)))"
proof (cases "schema input")
  case (Inl issues)
  then show ?thesis by (simp add: safeParseWorkflowStructure_def)
next
  case (Inr v)
  obtain issues names ids where 1: "check_nodes 0 (st_nodes v) ([], [], []) = (issues, names, ids)"
    by (cases "check_nodes 0 (st_nodes v) ([], [], [])")
  have nodes: "issues = [] \<longleftrightarrow> distinct (map sn_name (st_nodes v)) \<and> distinct (node_ids (st_nodes v))"
    and names: "set names = sn_name ` set (st_nodes v)"
    using check_nodes_spec [OF 1] by auto
  have sources: "concat (map (check_source names) (st_connections v)) = [] \<longleftrightarrow>
      (\<forall>(s, types) \<in> set (st_connections v). s \<in> sn_name ` set (st_nodes v) \<and>
        (\<forall>(t, buckets) \<in> set types. \<forall>bucket \<in> set buckets. \<forall>c \<in> set (slot_list bucket).
          c_node c \<in> sn_name ` set (st_nodes v)))"
    using check_source_none [of names] unfolding concat_eq_Nil_conv names by fastforce
  have "safeParseWorkflowStructure schema input = Inr w \<longleftrightarrow>
      v = w \<and> issues = [] \<and> concat (map (check_source names) (st_connections v)) = []"
    using Inr 1 by (auto simp: safeParseWorkflowStructure_def Let_def)
  then show ?thesis using Inr nodes sources by auto
qed

definition demo_structure :: workflow_structure where
  "demo_structure = \<lparr>st_nodes = [\<lparr>sn_name = ''a'', sn_id = Some ''1''\<rparr>, \<lparr>sn_name = ''b'', sn_id = None\<rparr>],
     st_connections = [(''a'', [(''main'', [Null, Val [\<lparr>c_node = ''b'', c_type = ''main'', c_index = 0\<rparr>]])])]\<rparr>"

theorem safeParseWorkflowStructure_spec_witness:
  "safeParseWorkflowStructure (\<lambda>_. Inr demo_structure) () = Inr demo_structure"
  by (subst safeParseWorkflowStructure_spec) (simp add: demo_structure_def node_ids_def)

end
