(* ===== verification/Spec2Isabelle.thy ===== *)
theory Spec2Isabelle
  imports CycleFacts EngineOutcomes PartialRuns WorkflowGroups WorkflowHistory WorkflowChecksum ActiveExecutions
    ParameterOrder DisplayParameter WorkflowStructure
begin

section \<open>A workflow engine: from the graph to the finished execution\<close>

text \<open>
  \<^bold>\<open>The program.\<close> The repository is n8n, a workflow automation server. Its own core logic lies in two packages. \<^verbatim>\<open>packages/workflow/src\<close> holds the workflow: nodes, the connections between their inputs and outputs,
  and the queries and edits on them. \<^verbatim>\<open>packages/core/src/execution-engine\<close> holds the engine: the loop that
  takes a node with its input from a stack, runs it, records the outcome and puts the nodes behind it on the
  stack or among the waiting nodes; and the preparation of partial executions, which rerun only what changed.
  Around them stand
  \<^verbatim>\<open>packages/cli/src\<close>, which decides when an execution may run, and the tools on workflows, expressions and parameters.
  This development models them function by function and in the names of the source, and proves what they promise.

  \<^bold>\<open>The theories, in the order the code builds on itself.\<close>
  \<^item> \<open>Prelude\<close>: exceptions as the left side of a sum, slots (undefined, null, a value), arrays that grow, and
    the insertion-ordered \<^verbatim>\<open>Map\<close>, \<^verbatim>\<open>Set\<close> and plain object, with the interface \<open>keyed_store\<close> that both kinds of
    dictionary are interpreted against. \<open>Sorting\<close>: \<^verbatim>\<open>Array.prototype.sort\<close> as a stable insertion sort.
    \<open>Traversal\<close>: the interface \<open>dfs_visit\<close> of the recursive searches with one growing set of visited
    objects; its results (exactly the reachable objects, each once, no error of its own) carry the two
    traversals of \<open>GraphTraversal\<close>.
  \<^item> \<open>WorkflowTypes\<close>: the data of \<^verbatim>\<open>interfaces.ts\<close> as records and datatypes.
  \<^item> \<open>ConnectionGraph\<close>, \<open>ConnectionMaps\<close>: the helpers of \<^verbatim>\<open>packages/workflow/src/common\<close>. The memoised traversal
    returns exactly the reachable names; the map by destination is the transpose of the map by source.
  \<^item> \<open>WorkflowModel\<close>, \<open>WorkflowSearch\<close>, \<open>WorkflowEdits\<close>: the class \<^verbatim>\<open>Workflow\<close> of \<^verbatim>\<open>workflow.ts\<close>: its queries, the
    start node, the breadth-first searches with their distances, renaming with the rewriting of parameters,
    and static data with \<^verbatim>\<open>observable-object.ts\<close>.
  \<^item> \<open>DirectedGraph\<close>, \<open>GraphTraversal\<close>, \<open>GraphSearch\<close>, \<open>GraphSCC\<close>: the class \<^verbatim>\<open>DirectedGraph\<close> of
    \<^verbatim>\<open>directed-graph.ts\<close>: nodes in a map by name, connections in a map by a key made of their ends; the graph
    invariant of everything built with its operations; the traversals; the search for strongly connected
    components as it is written, with what it reports and what it misses.
  \<^item> \<open>PartialGraph\<close>, \<open>SubgraphFacts\<close>, \<open>CycleFacts\<close>, \<open>StartNodes\<close>, \<open>SourceGroups\<close>, \<open>ExecutionStack\<close>: the steps of
    \<^verbatim>\<open>partial-execution-utils\<close>, each with the specification of its result: disabled nodes are taken out and
    their neighbours joined, the part of the graph that leads from the trigger to the destination is cut out,
    run data is cleaned, the start nodes are the first stale nodes, cycles restart at their entry, and the
    stack and the waiting nodes are recreated from the data that is there.
  \<^item> \<open>EngineState\<close>, \<open>WaitingNodes\<close>, \<open>NodeOutput\<close>: what \<^verbatim>\<open>workflow-execute.ts\<close> keeps (stack, run data, waiting
    dictionaries, metadata, status) and its functions on it: scheduling a node with one or many inputs, the
    input a node takes, the outputs it gives, paired items and error outputs.
  \<^item> \<open>EngineRequests\<close>: \<^verbatim>\<open>requests-response.ts\<close>: an agent asks the engine to run its tools and is then run again
    with their answers. \<open>NodeRun\<close>: \<^verbatim>\<open>runNode\<close>, the tries and their errors. \<open>EngineLoop\<close>: one round of the loop of
    \<^verbatim>\<open>processRunExecutionData\<close>. \<open>Execution\<close>: starting, resuming, cancelling and ending an execution.
  \<^item> \<open>EngineFacts\<close>, \<open>EngineRuns\<close>, \<open>EngineTries\<close>, \<open>EngineTokens\<close>, \<open>EngineOutcomes\<close>: the invariant of all reachable
    states (rounds and cancellations in any order), concrete runs, the end of the tries, the refinement of the
    loop to a token game whose termination makes executions of acyclic workflows end, and the outcomes: cancelled,
    failed, waiting and resumed.
  \<^item> \<open>PartialExecution\<close>, \<open>PartialFacts\<close>, \<open>PartialRuns\<close>: \<^verbatim>\<open>runPartialWorkflow2\<close>, which puts the graph functions and
    the engine together: what it prepares satisfies the engine invariant, and the partial execution ends.
  \<^item> \<open>GraphExtraction\<close>, \<open>NodeGrouping\<close>, \<open>WorkflowGroups\<close>: \<^verbatim>\<open>graph/graph-utils.ts\<close> and \<^verbatim>\<open>node-grouping-validation.ts\<close>: when a
    selection of nodes can be cut out of the graph or become a group, the validation of all groups of a workflow
    (equivalent to a declarative reading of its rules), and the removal of groups, which leaves a valid workflow.
  \<^item> \<open>JsonText\<close>, \<open>ConnectionDiff\<close>, \<open>WorkflowDiff\<close>, \<open>WorkflowHistory\<close>: \<^verbatim>\<open>JSON.stringify\<close>, \<^verbatim>\<open>connections-diff.ts\<close> and
    \<^verbatim>\<open>workflow-diff.ts\<close>: the connections that were added and removed as differences of multisets, the test whether
    parameters only grow (reflexive, transitive, never shrinking in size), and the grouping of a history,
    which loses nothing when the rule of additive changes merges a version.

  \<^item> \<open>ConcurrencyQueue\<close>, \<open>ConcurrencyControl\<close>, \<open>ActiveExecutions\<close>: the part of the server that decides when an
    execution may run, \<^verbatim>\<open>packages/cli/src/concurrency\<close> and \<^verbatim>\<open>active-executions.ts\<close>: the queue of throttled executions
    as a state machine (first come first served, its limit, and what taking an execution out of it does), the service
    with its two queues, and the executions with their reservations, for which no slot is lost or given back
    twice in any sequence of operations.
  \<^item> \<open>JsStrings\<close>, \<open>ExpressionParser\<close>, \<open>FromAI\<close>, \<open>FromAIOnly\<close>: texts. \<^verbatim>\<open>expression-parser.ts\<close> splits an expression
    into text and code, and the pieces join to the same expression; \<^verbatim>\<open>from-ai-parse-utils.ts\<close> finds and parses calls of
    \<^verbatim>\<open>$fromAI\<close> (what is written is read back) and checks that an expression is nothing else (a grammar of what is
    accepted, and the call accepted is the one that is read).
  \<^item> \<open>ParameterOrder\<close>, \<open>DisplayParameter\<close>: from \<^verbatim>\<open>node-helpers.ts\<close>, the order in which parameters are resolved, in closed
    form, and the conditions under which a parameter is displayed. \<open>WorkflowChecksum\<close>: \<^verbatim>\<open>workflow-checksum.ts\<close>, whose
    normal form identifies exactly the values that differ in the order of their keys. \<open>WorkflowStructure\<close>:
    \<^verbatim>\<open>workflow-structure-validation.ts\<close>, with the condition under which a workflow passes.

  \<^bold>\<open>How the parts interact.\<close> \<^verbatim>\<open>run\<close> picks the start node (\<open>WorkflowSearch\<close>) and makes the first stack entry;
  \<^verbatim>\<open>runPartialWorkflow2\<close> makes the stack, the waiting dictionaries and the run data from an earlier execution
  instead (\<open>PartialExecution\<close>). Either way \<open>run_rounds\<close> repeats \<open>loop_round\<close>. A round takes the top of the stack
  (\<open>popExecutionStack\<close>), decides from the waiting inputs and the parameter issues whether it runs (\<open>NodeOutput\<close>), runs it
  (\<open>NodeRun\<close>), records the task, handles a request (\<open>EngineRequests\<close>), an error or a wait, and schedules the nodes
  behind it (\<open>WaitingNodes\<close>). When the stack is empty a waiting node is released. The round keeps the state it had
  made when an operation throws, as the code does, which mutates \<^verbatim>\<open>runExecutionData\<close> in place. Before any of this
  \<^verbatim>\<open>ActiveExecutions.add\<close> reserves capacity (\<open>add_begin\<close>, \<open>add_end\<close>), which waits in the queue of its mode; when the
  promise of the execution settles (\<open>promise_settled\<close>) the reservation is released and the next one goes on.

  \<^bold>\<open>State and effects.\<close> The mutable fields of a class are a record that each method takes and returns. Exceptions
  are \<open>Inl\<close>. A loop over a list is a fold or a structural recursion; the recursive searches of the graph are
  total functions with the part of the graph not yet visited as their measure; the retries are partial
  functions whose end is proved in \<open>EngineTries\<close>. Only the loop of the engine has fuel: \<open>run_rounds\<close> takes a number of rounds, and
  \<open>EngineTokens\<close> and \<open>PartialRuns\<close> show that on a workflow without cycles of main connections some
  number is enough for every environment without requests. A workflow with a cycle need not end, nor does
  one whose number of tries is not whole (\<open>fractional_tries_diverge\<close>);
  one search without a record of visited nodes, \<open>getParentMainInputNode\<close>, need not end either
  (\<open>getParentMainInputNode_diverges\<close>).

  \<^bold>\<open>Parameters.\<close> What the code calls and the repository does not decide is an argument: the code of the
  nodes (\<open>environment\<close>, which answers a node run with items, an error, a request or a wait), the collation
  of \<^verbatim>\<open>localeCompare\<close>, the evaluation of the number of ports and of parameter issues, \<^verbatim>\<open>getPairedItem\<close> and the
  rewriting of expressions (\<^verbatim>\<open>applyAccessPatterns\<close>), the clock, the number format of \<^verbatim>\<open>JSON.stringify\<close>,
  \<^verbatim>\<open>Number\<close> and \<^verbatim>\<open>JSON.parse\<close> of a text, the conversion of objects to primitive values, regular expressions of
  display options, \<^verbatim>\<open>get\<close>, \<^verbatim>\<open>isEqual\<close> and \<^verbatim>\<open>pick\<close> of lodash (\<open>lodash\<close>, \<open>display_env\<close>), digests, and the configuration,
  environment and license of the server.

  \<^bold>\<open>Simplifications.\<close> Objects are values, so aliasing is not modelled: items shared between two outputs or with
  the pinned data are copied (the nodes of a graph, which the code compares by identity, carry a
  reference). A key that is absent and a key that is \<^verbatim>\<open>undefined\<close> are not told apart, and an \<^verbatim>\<open>undefined\<close> waiting
  entry is a hole. Errors keep their class and message. Cancellation arrives between two rounds. The entries of
  \<^verbatim>\<open>parent_run_index\<close> are not empty and an execution has its run data object. Names of \<^verbatim>\<open>Object.prototype\<close> are
  not special keys. Only the fields of an interface that modelled code reads are fields of its record. A
  group of nodes is identified by its position, a connection object lists its fields in one order, and a \<^verbatim>\<open>Set\<close> of
  connection objects lists each object once.

  \<^bold>\<open>What the code turned out to do.\<close> Some results state behaviour one would not expect from the comments: a
  waiting index can collide with one in use (\<open>WaitingNodes\<close>), the components of a three-node cycle
  can be missed (\<open>getStronglyConnectedComponents_misses\<close>), the node that \<^verbatim>\<open>rewireGraph\<close> removes is the last one
  below the tool (\<open>rewireGraph_replaces_last\<close>), and a node that may continue on errors still fails the execution
  when it throws last (\<open>EngineRuns\<close>). A group without a name hides that it shares a node
  (\<open>unnamed_group_shares\<close>). An execution taken out of the queue lets another run beyond the limit
  (\<open>withdrawn_over_limit\<close>), a shutdown cancels nothing in the database (\<open>shutdown_cancels_nothing\<close>), the order of
  resolution puts a parameter before its dependencies and once more after them (\<open>ParameterOrder\<close>), and the check for a
  single call of \<^verbatim>\<open>$fromAI\<close> accepts code between braces inside the quotes (\<open>code_in_quotes_accepted\<close>).

  \<^bold>\<open>Not modelled.\<close> The expression engine (it evaluates JavaScript in a third-party sandbox), the nodes of
  \<^verbatim>\<open>nodes-base\<close> (calls to external services), the editor and design system, the rest of the server with its
  database, job queues and modules, lifecycle hooks, credentials, telemetry, binary data, execution tokens and redaction, the
  default values of node parameters, and polling and webhook activation: they are input and output, generated
  description, or glue around the logic above.
\<close>

end
